(* ===== verification/Prelude.thy ===== *)
theory Prelude
  imports Main "HOL-Library.Word"
begin

text \<open>
  Shared vocabulary of the development.

  \<^item> \<open>size_t\<close> is the 64-bit unsigned integer of the x86-64 target, with its wrap-around; a
    pointer is an optional address, with \<open>None\<close> for \<open>nullptr\<close>.
  \<^item> \<open>fault\<close> lists the ways an operation of the library can leave the defined behaviour
    (a failed \<open>assert\<close>, a null or dangling dereference, an exception); a fallible
    operation returns \<open>fault + 'a\<close>.
  \<^item> A concurrent component is an executable step function \<open>choice \<Rightarrow> state \<Rightarrow> (state \<times> events)
    option\<close>: the choice names the thread that moves (and resolves what the code leaves open, such
    as a spurious failure of a weak compare-exchange), \<open>None\<close> means that the choice is not
    enabled, and the events are the externally visible actions of the step. \<open>reach\<close> is the
    set of states (with the events emitted on the way) that interleavings produce, \<open>sched\<close>
    runs one given interleaving. Memory is sequentially consistent.
  \<^item> The locales \<open>step_invariant\<close>, \<open>lock_protocol\<close> and \<open>event_simulation\<close> are the
    contracts the components discharge: an inductive invariant, mutual exclusion, and a forward
    simulation into an abstract machine with the same events. \<open>fifo_queue\<close> is the contract
    of the queues.
\<close>

type_synonym size_t = "64 word"
type_synonym addr = nat
type_synonym ptr = "addr option"
type_synonym tid = nat

datatype fault =
    AssertFailed
  | NullDeref
  | UseAfterFree
  | RuntimeError
  | Abort
  | DoubleRelease

named_theorems step_defs "unfolding equations of the step functions"
named_theorems inv_defs "definitions of the components' invariants"

subsection \<open>Fallible computations\<close>

fun bind_res :: "fault + 'a \<Rightarrow> ('a \<Rightarrow> fault + 'b) \<Rightarrow> fault + 'b" where
  "bind_res (Inl e) f = Inl e"
| "bind_res (Inr x) f = f x"

lemma bind_res_Inr_iff:
  "bind_res m f = Inr y \<longleftrightarrow> (\<exists>x. m = Inr x \<and> f x = Inr y)"
  by (cases m) auto

subsection \<open>Machine integers\<close>

lemma unat_size_t_inc:
  "unat (n :: size_t) + 1 < 2 ^ 64 \<Longrightarrow> unat (n + 1) = unat n + 1"
  by (simp add: unat_word_ariths)

lemma unat_size_t_dec: "(n :: size_t) \<noteq> 0 \<Longrightarrow> unat (n - 1) = unat n - 1"
  by (simp add: unat_minus_one)

lemma unat_size_t_dec_Suc: "unat (n :: size_t) = Suc k \<Longrightarrow> unat (n - 1) = k"
  by (metis diff_Suc_1 nat.distinct(1) unat_0 unat_size_t_dec)

lemma unat_plus_no_wrap:
  assumes "uint (a :: size_t) + uint b < 2 ^ 64"
  shows "unat (a + b) = unat a + unat b"
proof -
  have "uint a + uint b < 2 ^ LENGTH(64)" using assms by simp
  then have "uint (a + b) = uint a + uint b" by (simp only: uint_add_lem)
  then show ?thesis by (simp only: unat_eq_nat_uint nat_add_distrib uint_ge_0)
qed

lemma size_t_dec_inc: "(n :: size_t) + 1 - 1 = n"
  by simp

subsection \<open>Lists\<close>

lemma tl_memD: "x \<in> set (tl xs) \<Longrightarrow> x \<in> set xs"
  by (cases xs) auto

subsection \<open>Interleavings of atomic steps\<close>

type_synonym ('c, 's, 'e) stepper = "'c \<Rightarrow> 's \<Rightarrow> ('s \<times> 'e list) option"

inductive reach :: "('c, 's, 'e) stepper \<Rightarrow> 's \<Rightarrow> 'e list \<Rightarrow> 's \<Rightarrow> bool"
  for step :: "('c, 's, 'e) stepper" and s0 :: 's where
  reach_init: "reach step s0 [] s0"
| reach_step: "reach step s0 es s \<Longrightarrow> step c s = Some (s', e) \<Longrightarrow> reach step s0 (es @ e) s'"

fun sched :: "('c, 's, 'e) stepper \<Rightarrow> 'c list \<Rightarrow> 's \<Rightarrow> ('s \<times> 'e list) option" where
  "sched step [] s = Some (s, [])"
| "sched step (c # cs) s =
     (case step c s of
        None \<Rightarrow> None
      | Some (s', e) \<Rightarrow>
          (case sched step cs s' of None \<Rightarrow> None | Some (s'', es) \<Rightarrow> Some (s'', e @ es)))"

lemma reach_trans:
  "reach step s1 es2 s2 \<Longrightarrow> reach step s0 es1 s1 \<Longrightarrow> reach step s0 (es1 @ es2) s2"
proof (induction rule: reach.induct)
  case reach_init
  then show ?case by simp
next
  case (reach_step es s c s' e)
  then have "reach step s0 (es1 @ es) s" by blast
  from reach.reach_step [OF this reach_step.hyps(2)] show ?case by simp
qed

lemma reach_single: "step c s = Some (s', e) \<Longrightarrow> reach step s e s'"
  using reach.reach_step [OF reach.reach_init] by fastforce

lemma sched_reach: "sched step cs s = Some (s', es) \<Longrightarrow> reach step s es s'"
proof (induction cs arbitrary: s es)
  case Nil
  then show ?case by (auto intro: reach.reach_init)
next
  case (Cons c cs)
  then obtain t e es' where st: "step c s = Some (t, e)"
    and rest: "sched step cs t = Some (s', es')" and es: "es = e @ es'"
    by (auto split: option.splits prod.splits)
  from rest have "reach step t es' s'" by (rule Cons.IH)
  from reach_trans [OF this reach_single [of step, OF st]] es show ?case by simp
qed

lemma sched_append:
  "sched step (cs @ ds) s =
     (case sched step cs s of
        None \<Rightarrow> None
      | Some (t, es) \<Rightarrow>
          (case sched step ds t of None \<Rightarrow> None | Some (u, fs) \<Rightarrow> Some (u, es @ fs)))"
  by (induction cs arbitrary: s) (auto split: option.splits)

lemma reach_sched: "reach step s es s' \<Longrightarrow> \<exists>cs. sched step cs s = Some (s', es)"
proof (induction rule: reach.induct)
  case reach_init
  show ?case by (rule exI [where x = "[]"]) simp
next
  case (reach_step es t c t' e)
  then obtain cs where "sched step cs s = Some (t, es)" by blast
  with reach_step.hyps(2) have "sched step (cs @ [c]) s = Some (t', es @ e)"
    by (simp add: sched_append)
  then show ?case by blast
qed

text \<open>A run that evaluates to a state with a property reaches such a state.\<close>

definition run_ok :: "('c, 's, 'e) stepper \<Rightarrow> 'c list \<Rightarrow> 's \<Rightarrow> ('e list \<Rightarrow> 's \<Rightarrow> bool) \<Rightarrow> bool" where
  "run_ok step cs s P = (case sched step cs s of None \<Rightarrow> False | Some (s', es) \<Rightarrow> P es s')"

lemma run_okE:
  assumes "run_ok step cs s P"
  obtains es s' where "reach step s es s'" "P es s'" "sched step cs s = Some (s', es)"
  using assms by (auto simp: run_ok_def split: option.splits intro: sched_reach)

subsection \<open>Contracts of concurrent components\<close>

text \<open>An inductive invariant over the states and the events emitted so far.\<close>

locale step_invariant =
  fixes step :: "('c, 's, 'e) stepper"
    and s0 :: 's
    and inv :: "'e list \<Rightarrow> 's \<Rightarrow> bool"
  assumes inv_init: "inv [] s0"
    and inv_step: "inv es s \<Longrightarrow> step c s = Some (s', e) \<Longrightarrow> inv (es @ e) s'"
begin

lemma reach_inv: "reach step s0 es s \<Longrightarrow> inv es s"
  by (induction rule: reach.induct) (auto intro: inv_init inv_step)

lemma sched_inv: "sched step cs s0 = Some (s, es) \<Longrightarrow> inv es s"
  by (blast intro: reach_inv sched_reach)

end

text \<open>A lock: an invariant under which at most one thread is inside.\<close>

locale lock_protocol = step_invariant +
  fixes holds :: "'b \<Rightarrow> 'd \<Rightarrow> bool"
  assumes inv_exclusive: "inv es s \<Longrightarrow> holds s i \<Longrightarrow> holds s j \<Longrightarrow> i = j"
begin

lemma mutual_exclusion: "reach step s0 es s \<Longrightarrow> holds s i \<Longrightarrow> holds s j \<Longrightarrow> i = j"
  by (blast dest: reach_inv intro: inv_exclusive)

end

text \<open>
  A forward simulation: every step of the concrete machine is a run of the abstract machine that
  emits the same events. Every event sequence of the concrete machine is then one of the abstract.
\<close>

locale event_simulation =
  fixes step :: "('c, 's, 'e) stepper"
    and s0 :: 's
    and astep :: "('d, 'a, 'e) stepper"
    and a0 :: 'a
    and sim :: "'a \<Rightarrow> 's \<Rightarrow> bool"
  assumes sim_init: "sim a0 s0"
    and sim_step: "sim a s \<Longrightarrow> step c s = Some (s', e) \<Longrightarrow> \<exists>a'. reach astep a e a' \<and> sim a' s'"
begin

lemma refines: "reach step s0 es s \<Longrightarrow> \<exists>a. reach astep a0 es a \<and> sim a s"
proof (induction rule: reach.induct)
  case reach_init
  show ?case by (blast intro: reach.reach_init sim_init)
next
  case (reach_step es s c s' e)
  then obtain a where a: "reach astep a0 es a" "sim a s" by blast
  obtain a' where "reach astep a e a'" "sim a' s'"
    using sim_step [OF a(2) reach_step.hyps(2)] by blast
  with a(1) show ?case by (blast intro: reach_trans)
qed

end

subsection \<open>The contract of a first-in first-out queue\<close>

text \<open>
  A client's sequence of calls, run on an implementation and on the list of the queued elements.
  \<open>room\<close> is the precondition of an insertion, stated on the list.
\<close>

datatype 'a queue_call = Enq 'a | Deq

fun run_calls ::
  "('a \<Rightarrow> 'q \<Rightarrow> fault + 'q) \<Rightarrow> ('q \<Rightarrow> fault + ('q \<times> 'a option)) \<Rightarrow> 'a queue_call list \<Rightarrow> 'q
     \<Rightarrow> fault + ('q \<times> 'a option list)" where
  "run_calls push pop [] q = Inr (q, [])"
| "run_calls push pop (Enq x # cs) q = bind_res (push x q) (run_calls push pop cs)"
| "run_calls push pop (Deq # cs) q =
     bind_res (pop q) (\<lambda>(q', r).
       bind_res (run_calls push pop cs q') (\<lambda>(q'', rs). Inr (q'', r # rs)))"

fun spec_calls ::
  "('a \<Rightarrow> 'a list \<Rightarrow> bool) \<Rightarrow> 'a queue_call list \<Rightarrow> 'a list \<Rightarrow> ('a list \<times> 'a option list) option" where
  "spec_calls room [] xs = Some (xs, [])"
| "spec_calls room (Enq x # cs) xs = (if room x xs then spec_calls room cs (xs @ [x]) else None)"
| "spec_calls room (Deq # cs) xs =
     (case spec_calls room cs (tl xs) of
        None \<Rightarrow> None
      | Some (ys, rs) \<Rightarrow> Some (ys, (if xs = [] then None else Some (hd xs)) # rs))"

locale fifo_queue =
  fixes push :: "'a \<Rightarrow> 'q \<Rightarrow> fault + 'q"
    and pop :: "'q \<Rightarrow> fault + ('q \<times> 'a option)"
    and abs :: "'q \<Rightarrow> 'a list"
    and invar :: "'q \<Rightarrow> bool"
    and room :: "'a \<Rightarrow> 'a list \<Rightarrow> bool"
  assumes push_ok:
      "invar q \<Longrightarrow> room x (abs q) \<Longrightarrow> \<exists>q'. push x q = Inr q' \<and> invar q' \<and> abs q' = abs q @ [x]"
    and pop_empty: "invar q \<Longrightarrow> abs q = [] \<Longrightarrow> pop q = Inr (q, None)"
    and pop_cons:
      "invar q \<Longrightarrow> abs q = x # xs \<Longrightarrow> \<exists>q'. pop q = Inr (q', Some x) \<and> invar q' \<and> abs q' = xs"
begin

lemma pop_step:
  assumes "invar q"
  obtains q' where "pop q = Inr (q', if abs q = [] then None else Some (hd (abs q)))"
    "invar q'" "abs q' = tl (abs q)"
  using assms pop_empty [of q] pop_cons [of q] by (cases "abs q") auto

lemma implements_spec:
  "invar q \<Longrightarrow> spec_calls room cs (abs q) = Some (ys, rs) \<Longrightarrow>
     \<exists>q'. run_calls push pop cs q = Inr (q', rs) \<and> invar q' \<and> abs q' = ys"
proof (induction cs arbitrary: q rs)
  case Nil
  then show ?case by simp
next
  case (Cons c cs)
  show ?case
  proof (cases c)
    case (Enq x)
    with Cons.prems have room: "room x (abs q)"
      and rest: "spec_calls room cs (abs q @ [x]) = Some (ys, rs)"
      by (auto split: if_splits)
    obtain q1 where "push x q = Inr q1" "invar q1" "abs q1 = abs q @ [x]"
      using push_ok [OF Cons.prems(1) room] by blast
    with Cons.IH [of q1 rs] rest Enq show ?thesis by auto
  next
    case Deq
    obtain q1 where q1: "pop q = Inr (q1, if abs q = [] then None else Some (hd (abs q)))"
      "invar q1" "abs q1 = tl (abs q)"
      using pop_step [OF Cons.prems(1)] by blast
    from Cons.prems Deq obtain rs' where "spec_calls room cs (tl (abs q)) = Some (ys, rs')"
      and "rs = (if abs q = [] then None else Some (hd (abs q))) # rs'"
      by (auto split: option.splits)
    with Cons.IH [of q1 rs'] q1 Deq show ?thesis by auto
  qed
qed

end

end
