(* ===== verification/Intrusive_List.thy ===== *)
theory Intrusive_List
  imports Prelude
begin

text \<open>
  The intrusive singly linked list of \<^verbatim>\<open>src/components/intrusive/list.h\<close>.

  The nodes are embedded in the listed objects, so all lists share one store of \<^verbatim>\<open>next_\<close>
  fields (\<open>links\<close>); a list is the triple \<^verbatim>\<open>size_\<close>, \<^verbatim>\<open>head_\<close>, \<^verbatim>\<open>tail_\<close>. Neither
  \<open>Push\<close> nor \<open>Pop\<close> resets the \<^verbatim>\<open>next_\<close> field of the node they move, so the last node of a
  list may carry a stale link: the length of the list is \<^verbatim>\<open>size_\<close>, never a walk to
  \<open>nullptr\<close>. The abstraction \<open>items\<close> reads exactly \<^verbatim>\<open>size_\<close> nodes, and the invariant
  \<open>il_inv\<close> ties the three fields together. The lemmas give each operation's effect on
  \<open>items\<close> on every branch, the frame conditions for lists that share the store, and the
  \<open>fifo_queue\<close> contract.
\<close>

type_synonym links = "addr \<Rightarrow> ptr"

record intrusive_list =
  il_size :: size_t
  il_head :: ptr
  il_tail :: ptr

definition empty_list :: intrusive_list where
  "empty_list = \<lparr>il_size = 0, il_head = None, il_tail = None\<rparr>"

definition Next :: "links \<Rightarrow> addr \<Rightarrow> ptr" where
  "Next h this = h this"

definition LinkAfter :: "addr \<Rightarrow> ptr \<Rightarrow> links \<Rightarrow> fault + links" where
  "LinkAfter this prev h =
     (case prev of None \<Rightarrow> Inl NullDeref | Some p \<Rightarrow> Inr (h(p := Some this)))"

definition IsEmpty :: "intrusive_list \<Rightarrow> bool" where
  "IsEmpty l \<longleftrightarrow> 0 = il_size l"

definition Clear :: "intrusive_list \<Rightarrow> intrusive_list" where
  "Clear l = l\<lparr>il_head := None, il_tail := None, il_size := 0\<rparr>"

definition Push :: "ptr \<Rightarrow> links \<times> intrusive_list \<Rightarrow> fault + (links \<times> intrusive_list)" where
  "Push node = (\<lambda>(h, l).
     case node of
       None \<Rightarrow> Inl AssertFailed
     | Some n \<Rightarrow>
         bind_res
           (case il_head l of
              Some _ \<Rightarrow> bind_res (LinkAfter n (il_tail l) h) (\<lambda>h'. Inr (h', l))
            | None \<Rightarrow> Inr (h, l\<lparr>il_head := Some n\<rparr>))
           (\<lambda>(h', l'). Inr (h', l'\<lparr>il_tail := Some n, il_size := il_size l' + 1\<rparr>)))"

definition Pop :: "links \<Rightarrow> intrusive_list \<Rightarrow> fault + (intrusive_list \<times> ptr)" where
  "Pop h l =
     (if IsEmpty l then Inr (l, None)
      else
        let p = il_head l in
        bind_res
          (if 1 = il_size l then Inr (l\<lparr>il_head := None, il_tail := None\<rparr>)
           else (case p of
                   None \<Rightarrow> Inl NullDeref
                 | Some a \<Rightarrow> Inr (l\<lparr>il_head := Next h a\<rparr>)))
          (\<lambda>l'. Inr (l'\<lparr>il_size := il_size l' - 1\<rparr>, p)))"

definition Size :: "intrusive_list \<Rightarrow> size_t" where
  "Size l = il_size l"

definition copy_list :: "intrusive_list \<Rightarrow> intrusive_list" where
  "copy_list l = \<lparr>il_size = il_size l, il_head = il_head l, il_tail = il_tail l\<rparr>"

definition destroy_list :: "intrusive_list \<Rightarrow> fault + unit" where
  "destroy_list l = (if IsEmpty l then Inr () else Inl AssertFailed)"

subsection \<open>Abstraction and invariant\<close>

fun chain :: "links \<Rightarrow> ptr \<Rightarrow> nat \<Rightarrow> addr list" where
  "chain h p 0 = []"
| "chain h None (Suc n) = []"
| "chain h (Some a) (Suc n) = a # chain h (h a) n"

definition items :: "links \<Rightarrow> intrusive_list \<Rightarrow> addr list" where
  "items h l = chain h (il_head l) (unat (il_size l))"

definition il_inv :: "links \<Rightarrow> intrusive_list \<Rightarrow> bool" where
  "il_inv h l \<longleftrightarrow>
     length (items h l) = unat (il_size l) \<and> distinct (items h l) \<and>
     (if items h l = [] then il_head l = None \<and> il_tail l = None
      else il_tail l = Some (last (items h l)))"

lemma chain_Nil_iff: "chain h p n = [] \<longleftrightarrow> n = 0 \<or> p = None"
  by (cases n; cases p) auto

lemma length_chain_le: "length (chain h p n) \<le> n"
  by (induction h p n rule: chain.induct) auto

lemma chain_ConsD: "chain h p n = a # xs \<Longrightarrow> p = Some a \<and> xs = chain h (h a) (n - 1) \<and> n \<noteq> 0"
  by (cases n; cases p) auto

lemma hd_chain: "chain h (Some a) (Suc n) = a # chain h (h a) n"
  by simp

text \<open>A write to the last node of a chain, or outside it, leaves the chain alone.\<close>

lemma chain_upd_frame:
  "a \<notin> set (butlast (chain h p n)) \<Longrightarrow> length (chain h p n) = n \<Longrightarrow> chain (h(a := q)) p n = chain h p n"
proof (induction h p n rule: chain.induct)
  case (3 h b n)
  show ?case
  proof (cases "n = 0")
    case True
    then show ?thesis by simp
  next
    case False
    with 3 have "chain h (h b) n \<noteq> []" by auto
    with 3 show ?thesis by (auto split: if_splits)
  qed
qed auto

lemma chain_upd_notin: "a \<notin> set (chain h p n) \<Longrightarrow> chain (h(a := q)) p n = chain h p n"
  by (induction h p n rule: chain.induct) auto

text \<open>Linking a node after the last one extends a full chain.\<close>

lemma chain_snoc:
  "length (chain h p n) = n \<Longrightarrow> n \<noteq> 0 \<Longrightarrow> distinct (chain h p n) \<Longrightarrow>
     chain (h(last (chain h p n) := Some b)) p (Suc n) = chain h p n @ [b]"
proof (induction h p n rule: chain.induct)
  case (3 h a n)
  show ?case
  proof (cases "n = 0")
    case True
    then show ?thesis by simp
  next
    case False
    with "3.prems" have ne: "chain h (h a) n \<noteq> []" by auto
    then have last_in: "last (chain h (h a) n) \<in> set (chain h (h a) n)" by simp
    with "3.prems" have "last (chain h (h a) n) \<noteq> a" by auto
    with 3 False ne show ?thesis by simp
  qed
qed auto

lemma il_inv_head: "il_inv h l \<Longrightarrow> il_head l = (case items h l of [] \<Rightarrow> None | a # _ \<Rightarrow> Some a)"
  by (auto simp: il_inv_def items_def split: list.splits if_splits dest: chain_ConsD)

lemma il_inv_empty_list: "il_inv h empty_list" and items_empty_list: "items h empty_list = []"
  by (simp_all add: il_inv_def items_def empty_list_def)

lemma IsEmpty_iff: "il_inv h l \<Longrightarrow> IsEmpty l \<longleftrightarrow> items h l = []"
proof -
  assume "il_inv h l"
  then have "length (items h l) = unat (il_size l)" by (simp add: il_inv_def)
  then show ?thesis unfolding IsEmpty_def by (metis length_0_conv unat_0 unat_eq_zero)
qed

lemma items_Nil_size: "il_inv h l \<Longrightarrow> items h l = [] \<Longrightarrow> il_size l = 0"
  by (metis IsEmpty_def IsEmpty_iff)

lemma il_inv_size: "il_inv h l \<Longrightarrow> unat (Size l) = length (items h l)"
  by (simp add: il_inv_def Size_def)

lemma Clear_ok: "il_inv h (Clear l) \<and> items h (Clear l) = []"
  by (simp add: il_inv_def items_def Clear_def)

lemma items_upd_notin: "a \<notin> set (items h l) \<Longrightarrow> items (h(a := q)) l = items h l"
  by (simp add: items_def chain_upd_notin)

lemma il_inv_upd_notin: "a \<notin> set (items h l) \<Longrightarrow> il_inv (h(a := q)) l = il_inv h l"
  by (simp add: il_inv_def items_upd_notin)

subsection \<open>The operations on the abstraction\<close>

lemma Push_empty:
  assumes "il_inv h l" and "items h l = []"
  shows "\<exists>l'. Push (Some n) (h, l) = Inr (h, l') \<and> il_inv h l' \<and> items h l' = [n]"
proof -
  from assms have sz: "il_size l = 0" by (rule items_Nil_size)
  from assms have hd: "il_head l = None" by (simp add: il_inv_head)
  let ?l = "l\<lparr>il_head := Some n, il_tail := Some n, il_size := 1\<rparr>"
  have it: "items h ?l = [n]" by (simp add: items_def)
  then have "il_inv h ?l" by (simp add: il_inv_def)
  with it show ?thesis using sz hd by (simp add: Push_def)
qed

lemma Push_nonempty:
  assumes inv: "il_inv h l" and ne: "items h l \<noteq> []"
    and new: "n \<notin> set (items h l)" and fits: "length (items h l) + 1 < 2 ^ 64"
  shows "\<exists>l'. Push (Some n) (h, l) = Inr (h(last (items h l) := Some n), l') \<and>
     il_inv (h(last (items h l) := Some n)) l' \<and>
     items (h(last (items h l) := Some n)) l' = items h l @ [n]"
proof -
  let ?h = "h(last (items h l) := Some n)"
  let ?l = "l\<lparr>il_tail := Some n, il_size := il_size l + 1\<rparr>"
  from inv ne have tl: "il_tail l = Some (last (items h l))"
    and len: "length (items h l) = unat (il_size l)" and dis: "distinct (items h l)"
    by (simp_all add: il_inv_def)
  from ne have "il_head l \<noteq> None" and sz: "unat (il_size l) \<noteq> 0"
    by (auto simp: items_def chain_Nil_iff)
  then have push: "Push (Some n) (h, l) = Inr (?h, ?l)"
    using tl by (auto simp: Push_def LinkAfter_def)
  have "items ?h ?l = items h l @ [n]"
    using chain_snoc [of h "il_head l" "unat (il_size l)" n] len dis sz fits
    by (simp add: items_def unat_size_t_inc del: chain.simps)
  moreover from this dis new len fits have "il_inv ?h ?l"
    by (simp add: il_inv_def unat_size_t_inc)
  ultimately show ?thesis using push by blast
qed

lemma Push_ok:
  assumes "il_inv h l" and "n \<notin> set (items h l)" and "length (items h l) + 1 < 2 ^ 64"
  obtains h' l' where "Push (Some n) (h, l) = Inr (h', l')" "il_inv h' l'"
    "items h' l' = items h l @ [n]" "h' = h \<or> (\<exists>a \<in> set (items h l). h' = h(a := Some n))"
proof (cases "items h l = []")
  case True
  with Push_empty [OF assms(1)] that show ?thesis by fastforce
next
  case False
  then have "last (items h l) \<in> set (items h l)" by simp
  with Push_nonempty [OF assms(1) False assms(2,3)] that show ?thesis by blast
qed

lemma Pop_empty: "il_inv h l \<Longrightarrow> items h l = [] \<Longrightarrow> Pop h l = Inr (l, None)"
  by (simp add: Pop_def IsEmpty_iff)

lemma Pop_cons:
  assumes inv: "il_inv h l" and it: "items h l = a # xs"
  obtains l' where "Pop h l = Inr (l', Some a)" "il_inv h l'" "items h l' = xs"
proof -
  from it have hd: "il_head l = Some a" and xs: "xs = chain h (h a) (unat (il_size l) - 1)"
    by (auto simp: items_def dest: chain_ConsD)
  from inv it have len: "Suc (length xs) = unat (il_size l)" and dis: "distinct (a # xs)"
    and tl: "il_tail l = Some (last (a # xs))"
    by (simp_all add: il_inv_def)
  from len have ne: "il_size l \<noteq> 0" and dec: "unat (il_size l - 1) = length xs"
    by (auto simp: unat_size_t_dec_Suc [OF sym])
  show thesis
  proof (cases "xs = []")
    case True
    with len have "il_size l = 1" by (simp add: word_unat_eq_iff)
    then have "Pop h l = Inr (l\<lparr>il_head := None, il_tail := None, il_size := 0\<rparr>, Some a)"
      using hd by (simp add: Pop_def IsEmpty_def)
    with True that show ?thesis by (simp add: il_inv_def items_def)
  next
    case False
    with len have "il_size l \<noteq> 1" by auto
    then have pop: "Pop h l = Inr (l\<lparr>il_head := h a, il_size := il_size l - 1\<rparr>, Some a)"
      using hd ne by (simp add: Pop_def IsEmpty_def Next_def)
    have "items h (l\<lparr>il_head := h a, il_size := il_size l - 1\<rparr>) = xs"
      using xs by (simp add: items_def dec flip: len)
    with pop that dis dec tl False show ?thesis by (simp add: il_inv_def)
  qed
qed

subsection \<open>Swapping two lists\<close>

text \<open>
  The class declares a copy constructor, so it has no move operations: \<open>std::swap (a, b)\<close> copies
  \<open>a\<close> into a temporary, assigns \<open>b\<close> to \<open>a\<close> and the temporary to \<open>b\<close>, and then destroys the
  temporary, whose destructor asserts that the copied list is empty.
\<close>

definition swap_lists :: "intrusive_list \<Rightarrow> intrusive_list \<Rightarrow> fault + (intrusive_list \<times> intrusive_list)" where
  "swap_lists a b =
     (let tmp = copy_list a; a' = copy_list b; b' = copy_list tmp
      in bind_res (destroy_list tmp) (\<lambda>_. Inr (a', b')))"

lemma copy_list_id: "copy_list l = l"
  by (simp add: copy_list_def)

lemma swap_lists_ok: "swap_lists a b = (if IsEmpty a then Inr (b, a) else Inl AssertFailed)"
  by (simp add: swap_lists_def copy_list_id destroy_list_def)

subsection \<open>The list as a queue\<close>

definition list_push :: "addr \<Rightarrow> links \<times> intrusive_list \<Rightarrow> fault + (links \<times> intrusive_list)" where
  "list_push n = Push (Some n)"

definition list_pop :: "links \<times> intrusive_list \<Rightarrow> fault + ((links \<times> intrusive_list) \<times> ptr)" where
  "list_pop = (\<lambda>(h, l). bind_res (Pop h l) (\<lambda>(l', r). Inr ((h, l'), r)))"

definition list_room :: "addr \<Rightarrow> addr list \<Rightarrow> bool" where
  "list_room n xs \<longleftrightarrow> n \<notin> set xs \<and> length xs + 1 < 2 ^ 64"

interpretation ilq: fifo_queue list_push list_pop "\<lambda>(h, l). items h l" "\<lambda>(h, l). il_inv h l" list_room
proof
  fix q :: "links \<times> intrusive_list" and x
  assume "case q of (h, l) \<Rightarrow> il_inv h l" and "list_room x (case q of (h, l) \<Rightarrow> items h l)"
  then show "\<exists>q'. list_push x q = Inr q' \<and> (case q' of (h, l) \<Rightarrow> il_inv h l) \<and>
      (case q' of (h, l) \<Rightarrow> items h l) = (case q of (h, l) \<Rightarrow> items h l) @ [x]"
    by (cases q) (auto simp: list_push_def list_room_def elim: Push_ok)
next
  fix q :: "links \<times> intrusive_list"
  assume "case q of (h, l) \<Rightarrow> il_inv h l" and "(case q of (h, l) \<Rightarrow> items h l) = []"
  then show "list_pop q = Inr (q, None)"
    by (cases q) (auto simp: list_pop_def Pop_empty)
next
  fix q :: "links \<times> intrusive_list" and x xs
  assume "case q of (h, l) \<Rightarrow> il_inv h l" and "(case q of (h, l) \<Rightarrow> items h l) = x # xs"
  then show "\<exists>q'. list_pop q = Inr (q', Some x) \<and> (case q' of (h, l) \<Rightarrow> il_inv h l) \<and>
      (case q' of (h, l) \<Rightarrow> items h l) = xs"
    by (cases q) (auto simp: list_pop_def elim: Pop_cons)
qed

subsection \<open>Properties\<close>

text \<open>
  C21: \<open>IntrusiveList\<close> is a first-in first-out queue. From any well-formed list, whatever links the
  nodes outside it carry, every sequence of \<open>Push\<close> and \<open>Pop\<close> calls that only pushes nodes not
  in the list (and fewer than \<open>2^64\<close> of them) runs without a fault, returns what the queue of the
  listed nodes returns, and leaves a well-formed list of the nodes that queue holds.
\<close>

theorem intrusive_list_fifo:
  assumes "il_inv h l" and "spec_calls list_room calls (items h l) = Some (ys, results)"
  shows "\<exists>h' l'. run_calls list_push list_pop calls (h, l) = Inr ((h', l'), results) \<and>
    il_inv h' l' \<and> items h' l' = ys"
  using ilq.implements_spec [of "(h, l)"] assms by force

theorem intrusive_list_fifo_witness:
  "\<exists>h' l'. run_calls list_push list_pop [Enq 4, Enq 5, Deq, Enq 4, Deq, Deq, Deq] (\<lambda>_. Some 9, empty_list) =
     Inr ((h', l'), [Some 4, Some 5, Some 4, None]) \<and> il_inv h' l' \<and> items h' l' = []"
proof -
  have "spec_calls list_room [Enq 4, Enq 5, Deq, Enq 4, Deq, Deq, Deq] (items (\<lambda>_. Some 9) empty_list) =
      Some ([], [Some 4, Some 5, Some 4, None])"
    by (simp add: items_empty_list list_room_def)
  from intrusive_list_fifo [OF il_inv_empty_list this] show ?thesis .
qed

text \<open>
  Two intrusive lists that share the store of links do not disturb each other. Pushing a node
  onto one list changes neither the contents nor the well-formedness of a list that has no node in
  common with it, even when the pushed node carries a stale link into that list.
\<close>

lemma intrusive_list_push_frame:
  assumes "il_inv h l" and "il_inv h k" and "set (items h l) \<inter> set (items h k) = {}"
    and "n \<notin> set (items h l)" and "length (items h l) + 1 < 2 ^ 64"
  shows "\<exists>h' l'. Push (Some n) (h, l) = Inr (h', l') \<and> items h' l' = items h l @ [n] \<and>
    il_inv h' l' \<and> il_inv h' k \<and> items h' k = items h k"
proof -
  obtain h' l' where push: "Push (Some n) (h, l) = Inr (h', l')" "il_inv h' l'" "items h' l' = items h l @ [n]"
    and upd: "h' = h \<or> (\<exists>a \<in> set (items h l). h' = h(a := Some n))"
    using assms(1,4,5) by (rule Push_ok)
  from upd assms(2,3) have "il_inv h' k \<and> items h' k = items h k"
    by (auto simp: il_inv_upd_notin items_upd_notin disjoint_iff)
  with push show ?thesis by blast
qed

end
