(* ===== verification/Lock_Spec.thy ===== *)
theory Lock_Spec
  imports Prelude
begin

text \<open>
  The abstract locks the spin locks of \<^verbatim>\<open>src/components/sync\<close> implement.

  \<^item> The plain lock remembers its owner: it is acquired only when free and released only by its
    owner.
  \<^item> The queue lock remembers the threads that have announced themselves, in order: only the first
    can enter, so entry is first-come first-served.
  Both are machines over the same events, so that an implementation is a machine with the same
  event sequences (\<open>event_simulation\<close>). The lemmas say what such a history looks like: the
  acquisitions of a plain-lock history alternate with the releases of the same thread, and the
  entries of a queue-lock history are a prefix of its announcements.
\<close>

datatype lock_event =
    Announced tid
  | Acquired tid
  | Released tid
  | TryFailed tid

subsection \<open>The plain lock\<close>

fun lock_spec :: "(lock_event, tid option, lock_event) stepper" where
  "lock_spec (Announced t) owner = None"
| "lock_spec (Acquired t) owner = (if owner = None then Some (Some t, [Acquired t]) else None)"
| "lock_spec (Released t) owner = (if owner = Some t then Some (None, [Released t]) else None)"
| "lock_spec (TryFailed t) owner = (if owner \<noteq> None then Some (owner, [TryFailed t]) else None)"

text \<open>The owner after a history, and the check that the history is one of a lock.\<close>

fun owner_after :: "tid option \<Rightarrow> lock_event list \<Rightarrow> tid option" where
  "owner_after o' [] = o'"
| "owner_after o' (Acquired t # es) = owner_after (Some t) es"
| "owner_after o' (Released t # es) = owner_after None es"
| "owner_after o' (_ # es) = owner_after o' es"

fun alternates :: "tid option \<Rightarrow> lock_event list \<Rightarrow> bool" where
  "alternates o' [] \<longleftrightarrow> True"
| "alternates o' (Acquired t # es) \<longleftrightarrow> o' = None \<and> alternates (Some t) es"
| "alternates o' (Released t # es) \<longleftrightarrow> o' = Some t \<and> alternates None es"
| "alternates o' (_ # es) \<longleftrightarrow> alternates o' es"

lemma owner_after_append: "owner_after o' (es @ fs) = owner_after (owner_after o' es) fs"
  by (induction o' es rule: owner_after.induct) auto

lemma alternates_append:
  "alternates o' (es @ fs) \<longleftrightarrow> alternates o' es \<and> alternates (owner_after o' es) fs"
  by (induction o' es rule: alternates.induct) auto

lemma lock_spec_alternates:
  "reach lock_spec o0 es o' \<Longrightarrow> alternates o0 es \<and> owner_after o0 es = o'"
proof (induction rule: reach.induct)
  case reach_init
  show ?case by simp
next
  case (reach_step es o1 c o2 e)
  then show ?case
    by (cases c) (auto simp: alternates_append owner_after_append split: if_splits)
qed

subsection \<open>The queue lock\<close>

text \<open>
  The state is the queue of the announced threads that have not released yet, and whether the
  first of them has entered.
\<close>

fun queue_lock_spec :: "(lock_event, tid list \<times> bool, lock_event) stepper" where
  "queue_lock_spec (Announced t) (q, inside) =
     (if t \<notin> set q then Some ((q @ [t], inside), [Announced t]) else None)"
| "queue_lock_spec (Acquired t) (q, inside) =
     (if q \<noteq> [] \<and> hd q = t \<and> \<not> inside then Some ((q, True), [Acquired t]) else None)"
| "queue_lock_spec (Released t) (q, inside) =
     (if q \<noteq> [] \<and> hd q = t \<and> inside then Some ((tl q, False), [Released t]) else None)"
| "queue_lock_spec (TryFailed t) (q, inside) = None"

definition announced :: "lock_event list \<Rightarrow> tid list" where
  "announced es = List.map_filter (\<lambda>e. case e of Announced t \<Rightarrow> Some t | _ \<Rightarrow> None) es"

definition acquired :: "lock_event list \<Rightarrow> tid list" where
  "acquired es = List.map_filter (\<lambda>e. case e of Acquired t \<Rightarrow> Some t | _ \<Rightarrow> None) es"

lemma announced_simps [simp]:
  "announced [] = []"
  "announced (es @ fs) = announced es @ announced fs"
  "announced (Announced t # es) = t # announced es"
  "announced (Acquired t # es) = announced es"
  "announced (Released t # es) = announced es"
  "announced (TryFailed t # es) = announced es"
  by (simp_all add: announced_def List.map_filter_def)

lemma acquired_simps [simp]:
  "acquired [] = []"
  "acquired (es @ fs) = acquired es @ acquired fs"
  "acquired (Announced t # es) = acquired es"
  "acquired (Acquired t # es) = t # acquired es"
  "acquired (Released t # es) = acquired es"
  "acquired (TryFailed t # es) = acquired es"
  by (simp_all add: acquired_def List.map_filter_def)

text \<open>First come, first served: the entries so far, then the waiting threads, are the announcements.\<close>

lemma queue_lock_fifo:
  "reach queue_lock_spec ([], False) es s \<Longrightarrow>
     (case s of (q, inside) \<Rightarrow>
        announced es = acquired es @ (if inside then tl q else q) \<and> (inside \<longrightarrow> q \<noteq> [])) \<and>
     alternates None es \<and>
     owner_after None es = (case s of (q, inside) \<Rightarrow> if inside then Some (hd q) else None)"
proof (induction rule: reach.induct)
  case reach_init
  show ?case by simp
next
  case (reach_step es s c s' e)
  obtain q inside where s: "s = (q, inside)" by (cases s)
  with reach_step show ?case
    by (cases c; cases q)
      (auto simp: alternates_append owner_after_append split: if_splits)
qed

end
