(* ===== verification/Spin_Lock.thy ===== *)
theory Spin_Lock
  imports Lock_Spec
begin

text \<open>
  The test-and-set spin lock of \<^verbatim>\<open>src/components/sync/spinlock.cpp\<close>.

  The lock is one atomic flag. A thread that calls \<open>Lock\<close> exchanges the flag with \<open>true\<close>; on
  failure it reads the flag until it is clear and exchanges again. Each atomic access of the code
  is one step; the program counter of a thread says which access is next. The lemmas show that the
  lock is a lock (\<open>spin\<close>, a \<open>lock_protocol\<close>, and \<open>spin_refines\<close>, an
  \<open>event_simulation\<close> into the plain lock) and that a waiting thread is never stuck when the lock
  is free.
\<close>

datatype spin_pc =
    Outside
  | Exchanging   \<comment> \<open>\<open>Lock\<close>: next is the exchange of the outer loop\<close>
  | Spinning     \<comment> \<open>\<open>Lock\<close>: next is the relaxed load of the inner loop\<close>
  | Trying       \<comment> \<open>\<open>TryLock\<close>: next is the compare-exchange\<close>
  | Inside

record spin_lock =
  lock_flag :: bool
  spin_pc :: "tid \<Rightarrow> spin_pc"

datatype spin_call = CallLock | CallTryLock | CallUnlock | Advance

definition init_spin :: spin_lock where
  "init_spin = \<lparr>lock_flag = False, spin_pc = (\<lambda>_. Outside)\<rparr>"

definition set_spin_pc :: "tid \<Rightarrow> spin_pc \<Rightarrow> spin_lock \<Rightarrow> spin_lock" where
  "set_spin_pc t p s = s\<lparr>spin_pc := (spin_pc s)(t := p)\<rparr>"

definition Lock_exchange :: "tid \<Rightarrow> spin_lock \<Rightarrow> spin_lock \<times> lock_event list" where
  "Lock_exchange t s =
     (let old = lock_flag s; s' = s\<lparr>lock_flag := True\<rparr>
      in if old then (set_spin_pc t Spinning s', [])
         else (set_spin_pc t Inside s', [Acquired t]))"

definition Lock_load :: "tid \<Rightarrow> spin_lock \<Rightarrow> spin_lock \<times> lock_event list" where
  "Lock_load t s = (if lock_flag s then (s, []) else (set_spin_pc t Exchanging s, []))"

definition TryLock :: "tid \<Rightarrow> spin_lock \<Rightarrow> spin_lock \<times> lock_event list" where
  "TryLock t s =
     (if lock_flag s = False then (set_spin_pc t Inside (s\<lparr>lock_flag := True\<rparr>), [Acquired t])
      else (set_spin_pc t Outside s, [TryFailed t]))"

definition Unlock :: "tid \<Rightarrow> spin_lock \<Rightarrow> spin_lock \<times> lock_event list" where
  "Unlock t s = (set_spin_pc t Outside (s\<lparr>lock_flag := False\<rparr>), [Released t])"

fun spin_step :: "(tid \<times> spin_call, spin_lock, lock_event) stepper" where
  "spin_step (t, c) s =
     (case (spin_pc s t, c) of
        (Outside, CallLock) \<Rightarrow> Some (set_spin_pc t Exchanging s, [])
      | (Outside, CallTryLock) \<Rightarrow> Some (set_spin_pc t Trying s, [])
      | (Exchanging, Advance) \<Rightarrow> Some (Lock_exchange t s)
      | (Spinning, Advance) \<Rightarrow> Some (Lock_load t s)
      | (Trying, Advance) \<Rightarrow> Some (TryLock t s)
      | (Inside, CallUnlock) \<Rightarrow> Some (Unlock t s)
      | _ \<Rightarrow> None)"

definition spin_holds :: "spin_lock \<Rightarrow> tid \<Rightarrow> bool" where
  "spin_holds s t \<longleftrightarrow> spin_pc s t = Inside"

text \<open>The owner of the flag is the thread inside.\<close>

definition spin_sim :: "tid option \<Rightarrow> spin_lock \<Rightarrow> bool" where
  "spin_sim own s \<longleftrightarrow> (lock_flag s \<longleftrightarrow> own \<noteq> None) \<and> (\<forall>t. spin_holds s t \<longleftrightarrow> own = Some t)"

lemmas spin_ops = Lock_exchange_def Lock_load_def TryLock_def Unlock_def set_spin_pc_def Let_def

lemma spin_step_cases:
  assumes "spin_step (t, k) s = Some (s', e)"
  obtains (call) p where "spin_pc s t = Outside" "p \<in> {Exchanging, Trying}"
      "s' = set_spin_pc t p s" "e = []"
    | (exchange) "spin_pc s t = Exchanging" "(s', e) = Lock_exchange t s"
    | (load) "spin_pc s t = Spinning" "(s', e) = Lock_load t s"
    | (trylock) "spin_pc s t = Trying" "(s', e) = TryLock t s"
    | (unlock) "spin_pc s t = Inside" "(s', e) = Unlock t s"
  using assms by (cases k; cases "spin_pc s t") auto

lemma spin_sim_not_inside: "spin_sim own s \<Longrightarrow> spin_pc s t \<noteq> Inside \<Longrightarrow> own \<noteq> Some t"
  by (metis spin_sim_def spin_holds_def)

lemma spin_sim_keeps:
  assumes sim: "spin_sim own s" and st: "spin_step (t, k) s = Some (s', e)"
  shows "spin_sim (owner_after own e) s'"
  using st
proof (cases rule: spin_step_cases)
  case unlock
  with sim show ?thesis by (auto simp: spin_ops spin_sim_def spin_holds_def)
qed (use sim spin_sim_not_inside [OF sim, of t] in
     \<open>auto simp: spin_ops spin_sim_def spin_holds_def split: if_splits\<close>)

lemma spin_step_allowed:
  assumes sim: "spin_sim own s" and st: "spin_step (t, k) s = Some (s', e)"
  shows "reach lock_spec own e (owner_after own e)"
proof -
  have "e = [] \<or> (\<exists>x. e = [x] \<and> lock_spec x own = Some (owner_after own e, e))"
    using st
  proof (cases rule: spin_step_cases)
    case unlock
    with sim have "own = Some t" by (simp add: spin_sim_def spin_holds_def)
    with unlock show ?thesis by (simp add: spin_ops)
  qed (use sim in \<open>auto simp: spin_ops spin_sim_def split: if_splits\<close>)
  then show ?thesis by (auto intro: reach.reach_init reach_single)
qed

lemma spin_sim_step:
  "spin_sim own s \<Longrightarrow> spin_step c s = Some (s', e) \<Longrightarrow>
     \<exists>own'. reach lock_spec own e own' \<and> spin_sim own' s'"
  by (cases c) (blast intro: spin_sim_keeps spin_step_allowed)

lemma spin_sim_init: "spin_sim None init_spin"
  by (simp add: spin_sim_def spin_holds_def init_spin_def)

interpretation spin_refines: event_simulation spin_step init_spin lock_spec None spin_sim
  by unfold_locales (auto intro: spin_sim_init spin_sim_step)

lemma spin_sim_unique: "spin_sim own s \<Longrightarrow> spin_holds s i \<Longrightarrow> spin_holds s j \<Longrightarrow> i = j"
  by (simp add: spin_sim_def)

interpretation spin: lock_protocol spin_step init_spin "\<lambda>_ s. \<exists>own. spin_sim own s" spin_holds
proof
  show "\<exists>own. spin_sim own init_spin" using spin_sim_init by blast
next
  fix s c s' e
  assume "\<exists>own. spin_sim own s" and "spin_step c s = Some (s', e)"
  then show "\<exists>own. spin_sim own s'" using spin_sim_step by meson
next
  fix s i j
  assume "\<exists>own. spin_sim own s" "spin_holds s i" "spin_holds s j"
  then show "i = j" using spin_sim_unique by blast
qed

lemma spin_history:
  assumes "reach spin_step init_spin es s"
  shows "alternates None es" and spin_holds_owner: "spin_holds s t \<longleftrightarrow> owner_after None es = Some t"
proof -
  obtain own where "reach lock_spec None es own" "spin_sim own s"
    using spin_refines.refines [OF assms] by blast
  then show "alternates None es" and "spin_holds s t \<longleftrightarrow> owner_after None es = Some t"
    using lock_spec_alternates by (auto simp: spin_sim_def)
qed

subsection \<open>Properties\<close>

text \<open>
  C19: \<open>SpinLock\<close> is a mutual-exclusion lock. In every state that interleavings of \<open>Lock\<close>,
  \<open>TryLock\<close> and \<open>Unlock\<close> calls of any number of threads reach, at most one thread is
  inside; and the history is that of a lock: each acquisition finds the lock free and each release
  is by the thread that acquired it.
\<close>

theorem spin_lock_correct:
  assumes "reach spin_step init_spin es s"
  shows "(\<forall>i j. spin_holds s i \<longrightarrow> spin_holds s j \<longrightarrow> i = j) \<and> alternates None es \<and>
    (\<forall>t. spin_holds s t \<longleftrightarrow> owner_after None es = Some t)"
  using spin.mutual_exclusion [OF assms] spin_history [OF assms] by blast

theorem spin_lock_correct_witness:
  "\<exists>es s. reach spin_step init_spin es s \<and> spin_holds s 1 \<and> \<not> spin_holds s 2 \<and>
     es = [Acquired 2, TryFailed 3, Released 2, Acquired 1] \<and> alternates None es"
proof -
  have "run_ok spin_step
     [(1, CallLock), (2, CallLock), (2, Advance), (1, Advance), (3, CallTryLock), (3, Advance),
      (1, Advance), (2, CallUnlock), (1, Advance), (1, Advance)] init_spin
     (\<lambda>es s. es = [Acquired 2, TryFailed 3, Released 2, Acquired 1] \<and> spin_holds s 1)"
    by code_simp
  then obtain es s where r: "reach spin_step init_spin es s"
    and es: "es = [Acquired 2, TryFailed 3, Released 2, Acquired 1]" and h: "spin_holds s 1"
    by (rule run_okE) blast
  from spin_lock_correct [OF r] h have "\<not> spin_holds s 2" "alternates None es" by auto
  with r es h show ?thesis by blast
qed

text \<open>
  A free \<open>SpinLock\<close> is available. From every reachable state in which no thread is inside, a
  thread that waits in \<open>Lock\<close> enters by at most two steps of its own.
\<close>

lemma spin_lock_available:
  assumes "reach spin_step init_spin es s" and "\<forall>j. \<not> spin_holds s j"
    and "spin_pc s t = Exchanging \<or> spin_pc s t = Spinning"
  shows "\<exists>cs s' es'. set cs \<subseteq> {(t, Advance)} \<and> length cs \<le> 2 \<and>
    sched spin_step cs s = Some (s', es') \<and> spin_holds s' t"
proof -
  from spin.reach_inv [OF assms(1)] assms(2) have free: "\<not> lock_flag s"
    by (auto simp: spin_sim_def)
  from assms(3) show ?thesis
  proof
    assume "spin_pc s t = Exchanging"
    with free have "sched spin_step [(t, Advance)] s =
        Some (set_spin_pc t Inside (s\<lparr>lock_flag := True\<rparr>), [Acquired t])"
      by (simp add: spin_ops)
    then show ?thesis
      by (intro exI [of _ "[(t, Advance)]"]) (auto simp: spin_holds_def set_spin_pc_def)
  next
    assume "spin_pc s t = Spinning"
    with free have "sched spin_step [(t, Advance), (t, Advance)] s =
        Some (set_spin_pc t Inside (s\<lparr>lock_flag := True\<rparr>), [Acquired t])"
      by (simp add: spin_ops)
    then show ?thesis
      by (intro exI [of _ "[(t, Advance), (t, Advance)]"]) (auto simp: spin_holds_def set_spin_pc_def)
  qed
qed

end
