(* ===== verification/Queue_Spin_Lock.thy ===== *)
theory Queue_Spin_Lock
  imports Lock_Spec
begin

text \<open>
  The queue spin lock of \<^verbatim>\<open>src/components/sync/queue_spinlock.h\<close>.

  Each thread that wants the lock has a guard object: its constructor runs \<open>Acquire\<close>, its
  destructor runs \<open>Release\<close> unless \<open>Release\<close> has been called before. The guards of the waiting
  threads form a linked queue from the owner to \<open>tail_\<close>; a thread spins on its own guard until its
  predecessor hands the lock over. A guard is identified by its address, and the state of a guard
  that is not alive is \<open>Dead\<close>: an address can be used for a new guard after the old one is
  destroyed. Every access to an atomic is one step, and the program counter of a guard names the
  next access. A weak compare-exchange may fail spuriously (choice \<open>Spurious\<close>).

  The lemmas show that the lock refines the abstract queue lock: mutual exclusion, entry in the order
  of the exchange on \<open>tail_\<close>, no null dereference in the hand-over, and a hand-over that is never
  stuck.
\<close>

datatype ctx = Explicit | Destructor

datatype guard_pc =
    Dead
  | Swap               \<comment> \<open>\<open>Acquire\<close>: next is \<open>tail_.exchange(guard)\<close>\<close>
  | SetOwn             \<comment> \<open>no ancestor: next is \<open>guard->SetOwner()\<close>\<close>
  | Link addr          \<comment> \<open>next is \<open>ancestor->SetNext(guard)\<close>\<close>
  | Wait               \<comment> \<open>next is the test \<open>!guard->IsOwner()\<close>\<close>
  | Held               \<comment> \<open>the constructor has returned\<close>
  | Dtor               \<comment> \<open>\<open>~Guard\<close>: next is the load of \<open>is_owner\<close>\<close>
  | RelCheck ctx       \<comment> \<open>\<open>Release\<close>: next is the first \<open>guard->HasNext()\<close>\<close>
  | RelNext ctx        \<comment> \<open>\<open>SetNextOwner\<close>: next is \<open>next.load()\<close>\<close>
  | RelHand addr ctx   \<comment> \<open>\<open>SetNextOwner\<close>: next is \<open>SetOwner()\<close> of the successor\<close>
  | RelCas ctx         \<comment> \<open>next is the weak compare-exchange of \<open>tail_\<close>\<close>
  | RelRecheck ctx     \<comment> \<open>next is \<open>guard->HasNext()\<close> in the loop\<close>
  | ClearOwn ctx       \<comment> \<open>\<open>Guard::Release\<close>: next is \<open>is_owner.store(false)\<close>\<close>
  | Freed              \<comment> \<open>released, not yet destroyed\<close>
  | Broken             \<comment> \<open>a null pointer was dereferenced\<close>

record queue_spin_lock =
  lock_tail :: ptr
  guard_next :: "addr \<Rightarrow> ptr"
  is_owner :: "addr \<Rightarrow> bool"
  guard_pc :: "addr \<Rightarrow> guard_pc"

datatype guard_call = Construct | CallRelease | Destroy | Go | Spurious

definition init_queue_spin_lock :: queue_spin_lock where
  "init_queue_spin_lock =
     \<lparr>lock_tail = None, guard_next = (\<lambda>_. None), is_owner = (\<lambda>_. False), guard_pc = (\<lambda>_. Dead)\<rparr>"

definition at_pc :: "addr \<Rightarrow> guard_pc \<Rightarrow> queue_spin_lock \<Rightarrow> queue_spin_lock" where
  "at_pc g p s = s\<lparr>guard_pc := (guard_pc s)(g := p)\<rparr>"

definition SetOwner :: "addr \<Rightarrow> queue_spin_lock \<Rightarrow> queue_spin_lock" where
  "SetOwner g s = s\<lparr>is_owner := (is_owner s)(g := True)\<rparr>"

definition SetNext :: "addr \<Rightarrow> addr \<Rightarrow> queue_spin_lock \<Rightarrow> queue_spin_lock" where
  "SetNext g n s = s\<lparr>guard_next := (guard_next s)(g := Some n)\<rparr>"

definition HasNext :: "addr \<Rightarrow> queue_spin_lock \<Rightarrow> bool" where
  "HasNext g s \<longleftrightarrow> guard_next s g \<noteq> None"

text \<open>The constructor's member initialisers.\<close>

definition new_guard :: "addr \<Rightarrow> queue_spin_lock \<Rightarrow> queue_spin_lock" where
  "new_guard g s =
     at_pc g Swap (s\<lparr>guard_next := (guard_next s)(g := None), is_owner := (is_owner s)(g := False)\<rparr>)"

text \<open>\<open>Acquire\<close>, access by access.\<close>

definition Acquire_exchange :: "addr \<Rightarrow> queue_spin_lock \<Rightarrow> queue_spin_lock \<times> lock_event list" where
  "Acquire_exchange g s =
     (let ancestor = lock_tail s; s' = s\<lparr>lock_tail := Some g\<rparr>
      in case ancestor of
           None \<Rightarrow> (at_pc g SetOwn s', [Announced g])
         | Some a \<Rightarrow> (at_pc g (Link a) s', [Announced g]))"

definition Acquire_own :: "addr \<Rightarrow> queue_spin_lock \<Rightarrow> queue_spin_lock \<times> lock_event list" where
  "Acquire_own g s = (at_pc g Held (SetOwner g s), [Acquired g])"

definition Acquire_link :: "addr \<Rightarrow> addr \<Rightarrow> queue_spin_lock \<Rightarrow> queue_spin_lock \<times> lock_event list" where
  "Acquire_link g ancestor s = (at_pc g Wait (SetNext ancestor g s), [])"

definition Acquire_spin :: "addr \<Rightarrow> queue_spin_lock \<Rightarrow> queue_spin_lock \<times> lock_event list" where
  "Acquire_spin g s = (if is_owner s g then (at_pc g Held s, [Acquired g]) else (s, []))"

text \<open>\<open>Release\<close>, access by access, and the destructor's test.\<close>

definition Release_check :: "addr \<Rightarrow> ctx \<Rightarrow> queue_spin_lock \<Rightarrow> queue_spin_lock \<times> lock_event list" where
  "Release_check g d s = (at_pc g (if HasNext g s then RelNext d else RelCas d) s, [])"

definition Release_next :: "addr \<Rightarrow> ctx \<Rightarrow> queue_spin_lock \<Rightarrow> queue_spin_lock \<times> lock_event list" where
  "Release_next g d s =
     (case guard_next s g of
        None \<Rightarrow> (at_pc g Broken s, [])
      | Some n \<Rightarrow> (at_pc g (RelHand n d) s, []))"

definition Release_hand ::
  "addr \<Rightarrow> addr \<Rightarrow> ctx \<Rightarrow> queue_spin_lock \<Rightarrow> queue_spin_lock \<times> lock_event list" where
  "Release_hand g n d s = (at_pc g (ClearOwn d) (SetOwner n s), [Released g])"

definition Release_cas ::
  "bool \<Rightarrow> addr \<Rightarrow> ctx \<Rightarrow> queue_spin_lock \<Rightarrow> queue_spin_lock \<times> lock_event list" where
  "Release_cas spurious g d s =
     (if lock_tail s = Some g \<and> \<not> spurious
      then (at_pc g (ClearOwn d) (s\<lparr>lock_tail := None\<rparr>), [Released g])
      else (at_pc g (RelRecheck d) s, []))"

definition Release_recheck :: "addr \<Rightarrow> ctx \<Rightarrow> queue_spin_lock \<Rightarrow> queue_spin_lock \<times> lock_event list" where
  "Release_recheck g d s = (at_pc g (if HasNext g s then RelNext d else RelCas d) s, [])"

definition Release_clear :: "addr \<Rightarrow> ctx \<Rightarrow> queue_spin_lock \<Rightarrow> queue_spin_lock \<times> lock_event list" where
  "Release_clear g d s =
     (at_pc g (if d = Destructor then Dead else Freed) (s\<lparr>is_owner := (is_owner s)(g := False)\<rparr>), [])"

definition Guard_dtor :: "addr \<Rightarrow> queue_spin_lock \<Rightarrow> queue_spin_lock \<times> lock_event list" where
  "Guard_dtor g s = (at_pc g (if is_owner s g then RelCheck Destructor else Dead) s, [])"

fun guard_step :: "(addr \<times> guard_call, queue_spin_lock, lock_event) stepper" where
  "guard_step (g, c) s =
     (case (guard_pc s g, c) of
        (Dead, Construct) \<Rightarrow> Some (new_guard g s, [])
      | (Swap, Go) \<Rightarrow> Some (Acquire_exchange g s)
      | (SetOwn, Go) \<Rightarrow> Some (Acquire_own g s)
      | (Link a, Go) \<Rightarrow> Some (Acquire_link g a s)
      | (Wait, Go) \<Rightarrow> Some (Acquire_spin g s)
      | (Held, CallRelease) \<Rightarrow> Some (at_pc g (RelCheck Explicit) s, [])
      | (Held, Destroy) \<Rightarrow> Some (at_pc g Dtor s, [])
      | (Freed, Destroy) \<Rightarrow> Some (at_pc g Dtor s, [])
      | (Dtor, Go) \<Rightarrow> Some (Guard_dtor g s)
      | (RelCheck d, Go) \<Rightarrow> Some (Release_check g d s)
      | (RelNext d, Go) \<Rightarrow> Some (Release_next g d s)
      | (RelHand n d, Go) \<Rightarrow> Some (Release_hand g n d s)
      | (RelCas d, Go) \<Rightarrow> Some (Release_cas False g d s)
      | (RelCas d, Spurious) \<Rightarrow> Some (Release_cas True g d s)
      | (RelRecheck d, Go) \<Rightarrow> Some (Release_recheck g d s)
      | (ClearOwn d, Go) \<Rightarrow> Some (Release_clear g d s)
      | _ \<Rightarrow> None)"

text \<open>A guard holds the lock from the end of its constructor until the hand-over.\<close>

definition guard_holds :: "queue_spin_lock \<Rightarrow> addr \<Rightarrow> bool" where
  "guard_holds s g \<longleftrightarrow>
     (case guard_pc s g of
        Held \<Rightarrow> True | RelCheck _ \<Rightarrow> True | RelNext _ \<Rightarrow> True | RelHand _ _ \<Rightarrow> True
      | RelCas _ \<Rightarrow> True | RelRecheck _ \<Rightarrow> True | Dtor \<Rightarrow> is_owner s g | _ \<Rightarrow> False)"

subsection \<open>The queue behind the pointers\<close>

definition queued :: "queue_spin_lock \<Rightarrow> addr \<Rightarrow> bool" where
  "queued s g \<longleftrightarrow>
     (case guard_pc s g of
        Dead \<Rightarrow> False | Swap \<Rightarrow> False | ClearOwn _ \<Rightarrow> False | Freed \<Rightarrow> False | Broken \<Rightarrow> False
      | Dtor \<Rightarrow> is_owner s g | _ \<Rightarrow> True)"

fun qlinks :: "queue_spin_lock \<Rightarrow> addr list \<Rightarrow> bool" where
  "qlinks s [] \<longleftrightarrow> True"
| "qlinks s [a] \<longleftrightarrow> guard_next s a = None"
| "qlinks s (a # b # q) \<longleftrightarrow>
     (guard_pc s b = Link a \<and> guard_next s a = None \<or> guard_pc s b = Wait \<and> guard_next s a = Some b) \<and>
     \<not> is_owner s b \<and> qlinks s (b # q)"

definition head_ok :: "queue_spin_lock \<Rightarrow> addr \<Rightarrow> bool \<Rightarrow> bool" where
  "head_ok s g inside \<longleftrightarrow>
     (case guard_pc s g of
        SetOwn \<Rightarrow> \<not> inside
      | Wait \<Rightarrow> \<not> inside \<and> is_owner s g
      | RelNext _ \<Rightarrow> inside \<and> is_owner s g \<and> guard_next s g \<noteq> None
      | RelHand n _ \<Rightarrow> inside \<and> is_owner s g \<and> guard_next s g = Some n
      | Link _ \<Rightarrow> False
      | _ \<Rightarrow> inside \<and> is_owner s g)"

definition qs_sim :: "addr list \<times> bool \<Rightarrow> queue_spin_lock \<Rightarrow> bool" where
  "qs_sim a s \<longleftrightarrow>
     (case a of (q, inside) \<Rightarrow>
        distinct q \<and> lock_tail s = (if q = [] then None else Some (last q)) \<and> qlinks s q \<and>
        (\<forall>g. queued s g \<longleftrightarrow> g \<in> set q) \<and>
        (if q = [] then \<not> inside else head_ok s (hd q) inside) \<and>
        (\<forall>g. guard_pc s g = Swap \<longrightarrow> guard_next s g = None \<and> \<not> is_owner s g) \<and>
        (\<forall>g. guard_pc s g = Freed \<longrightarrow> \<not> is_owner s g) \<and> (\<forall>g. guard_pc s g \<noteq> Broken))"

lemmas guard_ops = Acquire_exchange_def Acquire_own_def Acquire_link_def Acquire_spin_def
  Release_check_def Release_next_def Release_hand_def Release_cas_def Release_recheck_def
  Release_clear_def Guard_dtor_def new_guard_def
lemmas guard_updates = at_pc_def SetOwner_def SetNext_def HasNext_def

text \<open>Let the simplifier work inside the branches of a case on the program counter.\<close>

declare guard_pc.case_cong [cong]

lemma queued_cong:
  "guard_pc s' g = guard_pc s g \<Longrightarrow> is_owner s' g = is_owner s g \<Longrightarrow> queued s' g = queued s g"
  by (simp add: queued_def)

lemma head_ok_cong:
  "guard_pc s' g = guard_pc s g \<Longrightarrow> is_owner s' g = is_owner s g \<Longrightarrow>
     guard_next s' g = guard_next s g \<Longrightarrow> head_ok s' g i = head_ok s g i"
  by (simp add: head_ok_def)

lemma qlinks_frame:
  "(\<And>g. g \<in> set q \<Longrightarrow> guard_next s' g = guard_next s g) \<Longrightarrow>
   (\<And>g. g \<in> set (tl q) \<Longrightarrow> guard_pc s' g = guard_pc s g \<and> is_owner s' g = is_owner s g) \<Longrightarrow>
     qlinks s' q = qlinks s q"
  by (induction s q rule: qlinks.induct) auto

lemma qlinks_last: "qlinks s q \<Longrightarrow> q \<noteq> [] \<Longrightarrow> guard_next s (last q) = None"
  by (induction s q rule: qlinks.induct) auto

lemma qlinks_snoc:
  "qlinks s q \<Longrightarrow> q \<noteq> [] \<Longrightarrow> guard_pc s g = Link (last q) \<Longrightarrow> guard_next s g = None \<Longrightarrow>
     \<not> is_owner s g \<Longrightarrow> qlinks s (q @ [g])"
  by (induction s q rule: qlinks.induct) auto

lemma qlinks_pred_in:
  "qlinks s q \<Longrightarrow> b \<in> set (tl q) \<Longrightarrow> guard_pc s b = Link a \<Longrightarrow> a \<in> set q"
  by (induction s q rule: qlinks.induct) auto

lemma qlinks_free_next:
  "qlinks s q \<Longrightarrow> b \<in> set (tl q) \<Longrightarrow> guard_pc s b = Link a \<Longrightarrow> guard_next s a = None"
  by (induction s q rule: qlinks.induct) auto

text \<open>A waiting guard that links itself is linked to its predecessor in the queue.\<close>

lemma qlinks_link:
  "qlinks s q \<Longrightarrow> distinct q \<Longrightarrow> b \<in> set (tl q) \<Longrightarrow> guard_pc s b = Link a \<Longrightarrow>
     qlinks (at_pc b Wait (SetNext a b s)) q"
proof (induction s q rule: qlinks.induct)
  case (3 s x y q)
  show ?case
  proof (cases "b = y")
    case True
    with 3 have "a = x" by auto
    have "qlinks (at_pc b Wait (SetNext a b s)) (y # q) = qlinks s (y # q)"
      using "3.prems" True \<open>a = x\<close> by (intro qlinks_frame) (auto simp: guard_updates)
    with 3 True \<open>a = x\<close> show ?thesis by (auto simp: guard_updates)
  next
    case False
    with 3 have IH: "qlinks (at_pc b Wait (SetNext a b s)) (y # q)" by auto
    have "a \<noteq> x"
    proof
      assume "a = x"
      then have "x \<in> set (y # q)"
        using qlinks_pred_in [of s "y # q" b a] 3 False by auto
      with "3.prems" show False by auto
    qed
    with IH 3 False show ?thesis by (auto simp: guard_updates)
  qed
qed auto

lemma qlinks_waiting:
  "qlinks s q \<Longrightarrow> b \<in> set (tl q) \<Longrightarrow> ((\<exists>a. guard_pc s b = Link a) \<or> guard_pc s b = Wait) \<and> \<not> is_owner s b"
  by (induction s q rule: qlinks.induct) auto

lemma holds_queued: "guard_holds s g \<Longrightarrow> queued s g"
  by (auto simp: guard_holds_def queued_def split: guard_pc.splits)

lemma qs_simD:
  assumes "qs_sim (q, inside) s"
  shows qs_sim_distinct: "distinct q" and qs_sim_links: "qlinks s q"
    and qs_sim_tail: "lock_tail s = (if q = [] then None else Some (last q))"
    and qs_sim_queued: "queued s g \<longleftrightarrow> g \<in> set q"
    and qs_sim_head: "q \<noteq> [] \<Longrightarrow> head_ok s (hd q) inside"
    and qs_sim_empty: "q = [] \<Longrightarrow> \<not> inside"
    and qs_sim_swap: "guard_pc s g = Swap \<Longrightarrow> guard_next s g = None \<and> \<not> is_owner s g"
    and qs_sim_freed: "guard_pc s g = Freed \<Longrightarrow> \<not> is_owner s g"
    and qs_sim_broken: "guard_pc s g \<noteq> Broken"
  using assms by (auto simp: qs_sim_def)

text \<open>Where a guard of the queue can be: first, or waiting behind another.\<close>

lemma qs_sim_holder:
  assumes "qs_sim (q, inside) s" and "guard_holds s g"
  shows "q \<noteq> [] \<and> g = hd q \<and> inside \<and> is_owner s g \<and> g \<notin> set (tl q)"
proof -
  have "g \<in> set q" using qs_sim_queued [OF assms(1)] holds_queued [OF assms(2)] by blast
  moreover have nt: "g \<notin> set (tl q)"
    using qlinks_waiting [OF qs_sim_links [OF assms(1)], of g] assms(2) by (auto simp: guard_holds_def)
  ultimately have "q \<noteq> []" "g = hd q" by (cases q; auto)+
  with qs_sim_head [OF assms(1)] nt assms(2) show ?thesis
    by (auto simp: head_ok_def guard_holds_def split: guard_pc.splits)
qed

lemma qs_sim_first:
  assumes "qs_sim (q, inside) s" and "queued s g" and "is_owner s g \<or> guard_pc s g = SetOwn"
  shows "q \<noteq> [] \<and> g = hd q \<and> head_ok s g inside \<and> g \<notin> set (tl q)"
proof -
  have "g \<in> set q" using qs_sim_queued [OF assms(1)] assms(2) by blast
  moreover have "g \<notin> set (tl q)"
    using qlinks_waiting [OF qs_sim_links [OF assms(1)], of g] assms(3) by auto
  ultimately show ?thesis using qs_sim_head [OF assms(1)] by (cases q) auto
qed

text \<open>A step in which a guard changes only itself.\<close>

lemma qs_sim_local:
  assumes sim: "qs_sim (q, inside) s"
    and tail: "lock_tail s' = lock_tail s"
    and others: "\<And>x. x \<noteq> g \<Longrightarrow> guard_pc s' x = guard_pc s x \<and> is_owner s' x = is_owner s x \<and>
      guard_next s' x = guard_next s x"
    and nxt: "g \<in> set q \<Longrightarrow> guard_next s' g = guard_next s g"
    and notl: "g \<notin> set (tl q)"
    and qd: "queued s' g \<longleftrightarrow> g \<in> set q"
    and hd: "if q \<noteq> [] \<and> g = hd q then head_ok s' g inside' else inside' = inside"
    and ok: "guard_pc s' g = Swap \<Longrightarrow> guard_next s' g = None \<and> \<not> is_owner s' g"
      "guard_pc s' g = Freed \<Longrightarrow> \<not> is_owner s' g" "guard_pc s' g \<noteq> Broken"
  shows "qs_sim (q, inside') s'"
proof -
  have "qlinks s' q = qlinks s q"
  proof (rule qlinks_frame)
    show "guard_next s' x = guard_next s x" if "x \<in> set q" for x
      using that others nxt by (cases "x = g") auto
    show "guard_pc s' x = guard_pc s x \<and> is_owner s' x = is_owner s x" if "x \<in> set (tl q)" for x
      using that others notl by (cases "x = g") auto
  qed
  moreover have "queued s' x = queued s x" if "x \<noteq> g" for x
    using others [OF that] by (intro queued_cong) auto
  then have "queued s' x \<longleftrightarrow> x \<in> set q" for x
    using qd sim by (cases "x = g") (auto simp: qs_sim_def)
  moreover have "if q = [] then \<not> inside' else head_ok s' (hd q) inside'"
    using hd sim others [of "hd q"] head_ok_cong [of s' "hd q" s]
    by (cases "g = hd q") (auto simp: qs_sim_def split: if_splits)
  moreover have "(guard_pc s' x = Swap \<longrightarrow> guard_next s' x = None \<and> \<not> is_owner s' x) \<and>
      (guard_pc s' x = Freed \<longrightarrow> \<not> is_owner s' x) \<and> guard_pc s' x \<noteq> Broken" for x
    using ok others [of x] qs_simD [OF sim] by (cases "x = g") auto
  ultimately show ?thesis using sim tail by (simp add: qs_sim_def)
qed

subsection \<open>The steps on the queue\<close>

lemma sim_construct:
  assumes sim: "qs_sim (q, inside) s" and pc: "guard_pc s g = Dead"
  shows "qs_sim (q, inside) (new_guard g s)"
proof -
  have new: "g \<notin> set q" using qs_sim_queued [OF sim, of g] pc by (simp add: queued_def)
  then have "g \<notin> set (tl q)" "q \<noteq> [] \<Longrightarrow> g \<noteq> hd q" by (cases q; auto)+
  with new show ?thesis
    by (intro qs_sim_local [OF sim, of _ g]) (auto simp: guard_ops guard_updates queued_def)
qed

lemma sim_exchange:
  assumes sim: "qs_sim (q, inside) s" and pc: "guard_pc s g = Swap"
    and st: "(s', e) = Acquire_exchange g s"
  shows "g \<notin> set q" and "e = [Announced g]" and "qs_sim (q @ [g], inside) s'"
proof -
  show new: "g \<notin> set q" using qs_sim_queued [OF sim, of g] pc by (simp add: queued_def)
  show "e = [Announced g]" using st by (auto simp: guard_ops Let_def split: option.splits)
  have g: "guard_next s g = None" "\<not> is_owner s g" using qs_sim_swap [OF sim pc] by auto
  show "qs_sim (q @ [g], inside) s'"
  proof (cases "q = []")
    case True
    with sim st have "s' = at_pc g SetOwn (s\<lparr>lock_tail := Some g\<rparr>)"
      by (simp add: qs_sim_def guard_ops)
    with True sim g show ?thesis
      by (auto simp: qs_sim_def guard_updates queued_def head_ok_def)
  next
    case False
    with sim st have s': "s' = at_pc g (Link (last q)) (s\<lparr>lock_tail := Some g\<rparr>)"
      by (simp add: qs_sim_def guard_ops)
    have "qlinks s' q = qlinks s q"
      using new by (intro qlinks_frame) (auto simp: s' guard_updates dest: tl_memD)
    with sim False have "qlinks s' (q @ [g])"
      by (intro qlinks_snoc) (auto simp: qs_sim_def s' guard_updates g)
    moreover have "head_ok s' (hd q) inside = head_ok s (hd q) inside"
      using new False by (auto simp: s' guard_updates head_ok_def)
    ultimately show ?thesis
      using sim False new
      by (auto simp: qs_sim_def s' guard_updates queued_def)
  qed
qed

lemma sim_link:
  assumes sim: "qs_sim (q, inside) s" and pc: "guard_pc s g = Link a"
  shows "qs_sim (q, inside) (at_pc g Wait (SetNext a g s))"
proof -
  let ?s = "at_pc g Wait (SetNext a g s)"
  have gq: "g \<in> set q" using qs_sim_queued [OF sim, of g] pc by (simp add: queued_def)
  have ql: "qlinks s q" "distinct q" using sim by (simp_all add: qs_simD)
  have hd: "head_ok s (hd q) inside" using qs_sim_head [OF sim] gq by (cases q) auto
  with pc have ne: "g \<noteq> hd q" by (auto simp: head_ok_def)
  with gq have tl: "g \<in> set (tl q)" by (cases q) auto
  have aq: "a \<in> set q" using qlinks_pred_in [OF ql(1) tl pc] .
  have "qlinks ?s q" using ql tl pc by (rule qlinks_link)
  moreover have "head_ok ?s (hd q) inside"
    using hd ne qlinks_free_next [OF ql(1) tl pc] by (auto simp: head_ok_def guard_updates split: guard_pc.splits)
  moreover have "queued ?s x = queued s x" for x
    using pc by (auto simp: queued_def guard_updates)
  moreover have "guard_pc s a \<noteq> Swap"
    using qs_sim_queued [OF sim, of a] aq by (auto simp: queued_def)
  ultimately show ?thesis
    using sim gq by (auto simp: qs_sim_def guard_updates split: if_splits)
qed

text \<open>A hand-over or a successful compare-exchange removes the first guard of the queue.\<close>

lemma sim_hand:
  assumes sim: "qs_sim (q, inside) s" and pc: "guard_pc s g = RelHand n d"
  shows "q \<noteq> []" "hd q = g" "inside"
    and "qs_sim (tl q, False) (at_pc g (ClearOwn d) (SetOwner n s))"
proof -
  let ?s = "at_pc g (ClearOwn d) (SetOwner n s)"
  have "guard_holds s g" using pc by (simp add: guard_holds_def)
  from qs_sim_holder [OF sim this] show q: "q \<noteq> []" "hd q = g" and inside by auto
  from qs_sim_head [OF sim q(1)] q pc have nx: "guard_next s g = Some n"
    by (simp add: head_ok_def)
  obtain b r where qbr: "q = g # b # r"
    using q nx qs_sim_links [OF sim] by (cases "(s, q)" rule: qlinks.cases) auto
  with nx qs_sim_links [OF sim] have b: "b = n" "guard_pc s n = Wait" "qlinks s (n # r)" by auto
  have dis: "distinct (g # n # r)" using qs_sim_distinct [OF sim] qbr b by simp
  have "qlinks ?s (n # r) = qlinks s (n # r)"
    using dis by (intro qlinks_frame) (auto simp: guard_updates)
  moreover have "queued ?s x \<longleftrightarrow> x \<in> set (n # r)" for x
    using qs_sim_queued [OF sim, of x] dis b(2) qbr b(1)
    by (auto simp: queued_def guard_updates split: guard_pc.splits if_splits)
  moreover have "head_ok ?s n False" using dis b(2) by (simp add: head_ok_def guard_updates)
  ultimately show "qs_sim (tl q, False) ?s"
    using sim b dis qbr by (auto simp: qs_sim_def guard_updates)
qed

lemma sim_cas:
  assumes sim: "qs_sim (q, inside) s" and pc: "guard_pc s g = RelCas d"
    and last: "lock_tail s = Some g"
  shows "q = [g]" "inside"
    and "qs_sim ([], False) (at_pc g (ClearOwn d) (s\<lparr>lock_tail := None\<rparr>))"
proof -
  have "guard_holds s g" using pc by (simp add: guard_holds_def)
  from qs_sim_holder [OF sim this] have q: "q \<noteq> []" "hd q = g" and inside by auto
  then show inside by simp
  from q last qs_sim_tail [OF sim] have "last q = g" by simp
  then show qg: "q = [g]"
    using q qs_sim_distinct [OF sim] by (cases q) (auto split: if_splits dest: last_in_set)
  have "\<not> queued (at_pc g (ClearOwn d) (s\<lparr>lock_tail := None\<rparr>)) x" for x
    using qs_sim_queued [OF sim, of x] qg by (auto simp: queued_def guard_updates split: guard_pc.splits)
  then show "qs_sim ([], False) (at_pc g (ClearOwn d) (s\<lparr>lock_tail := None\<rparr>))"
    using sim by (auto simp: qs_sim_def guard_updates)
qed

text \<open>The steps of the guard at the head that keep the queue.\<close>

lemma sim_inside:
  assumes sim: "qs_sim (q, inside) s" and h: "guard_holds s g" and h': "guard_holds (at_pc g p s) g"
    and next_ok: "\<And>d. p = RelNext d \<Longrightarrow> guard_next s g \<noteq> None"
      "\<And>n d. p = RelHand n d \<Longrightarrow> guard_next s g = Some n"
  shows "qs_sim (q, inside) (at_pc g p s)"
proof -
  from qs_sim_holder [OF sim h] have hd: "q \<noteq> []" "g = hd q" "inside" "is_owner s g" "g \<notin> set (tl q)"
    by auto
  have "queued (at_pc g p s) g" using h' by (rule holds_queued)
  then show ?thesis
    using hd h' next_ok
    by (intro qs_sim_local [OF sim, of _ g])
      (auto simp: guard_updates guard_holds_def head_ok_def split: guard_pc.splits)
qed

lemma sim_outside:
  assumes sim: "qs_sim (q, inside) s" and "\<not> queued s g" and "\<not> queued s' g"
    and "s' = at_pc g p s \<or> s' = at_pc g p (s\<lparr>is_owner := (is_owner s)(g := False)\<rparr>)"
    and "p \<noteq> Swap" "p \<noteq> Broken" "p = Freed \<Longrightarrow> \<not> is_owner s' g"
  shows "qs_sim (q, inside) s'"
proof -
  have new: "g \<notin> set q" using qs_sim_queued [OF sim] assms(2) by blast
  then have "g \<notin> set (tl q)" "q \<noteq> [] \<Longrightarrow> g \<noteq> hd q" by (cases q; auto)+
  with new assms show ?thesis
    by (intro qs_sim_local [OF sim, of _ g]) (auto simp: guard_updates)
qed

lemma sim_enter:
  assumes sim: "qs_sim (q, inside) s"
    and pc: "guard_pc s g = SetOwn \<or> guard_pc s g = Wait \<and> is_owner s g"
  shows "q \<noteq> []" "hd q = g" "\<not> inside" and "qs_sim (q, True) (at_pc g Held (SetOwner g s))"
proof -
  have "queued s g" using pc by (auto simp: queued_def)
  from qs_sim_first [OF sim this] pc
  have hd: "q \<noteq> []" "g = hd q" "head_ok s g inside" "g \<notin> set (tl q)" by auto
  then show "q \<noteq> []" "hd q = g" "\<not> inside" using pc by (auto simp: head_ok_def)
  from hd show "qs_sim (q, True) (at_pc g Held (SetOwner g s))"
    by (intro qs_sim_local [OF sim, of _ g]) (auto simp: guard_updates queued_def head_ok_def)
qed

subsection \<open>Refinement of the abstract queue lock\<close>

text \<open>The abstract lock can emit the events \<open>e\<close> and then matches the state \<open>s'\<close>.\<close>

definition follows :: "addr list \<times> bool \<Rightarrow> lock_event list \<Rightarrow> queue_spin_lock \<Rightarrow> bool" where
  "follows a e s' \<longleftrightarrow> (\<exists>a'. reach queue_lock_spec a e a' \<and> qs_sim a' s')"

lemma quiet_step: "qs_sim a s' \<Longrightarrow> follows a [] s'"
  unfolding follows_def by (blast intro: reach.reach_init)

lemma visible_step:
  "queue_lock_spec x a = Some (a', e) \<Longrightarrow> qs_sim a' s' \<Longrightarrow> follows a e s'"
  unfolding follows_def by (blast intro: reach_single)

lemma inside_step:
  assumes sim: "qs_sim (q, inside) s" and "guard_holds s g" and "guard_holds (at_pc g p s) g"
    and "\<And>d. p = RelNext d \<Longrightarrow> guard_next s g \<noteq> None" "\<And>n d. p = RelHand n d \<Longrightarrow> guard_next s g = Some n"
  shows "follows (q, inside) [] (at_pc g p s)"
  using assms by (intro quiet_step sim_inside)

lemma enter_step:
  assumes sim: "qs_sim (q, inside) s"
    and pc: "guard_pc s g = SetOwn \<or> guard_pc s g = Wait \<and> is_owner s g"
  shows "follows (q, inside) [Acquired g] (at_pc g Held (SetOwner g s))"
  using sim_enter [OF sim pc] by (intro visible_step [of "Acquired g" _ "(q, True)"]) auto

lemma exchange_step:
  assumes sim: "qs_sim (q, inside) s" and pc: "guard_pc s g = Swap" and "(s', e) = Acquire_exchange g s"
  shows "follows (q, inside) e s'"
  using sim_exchange [OF assms] by (intro visible_step [of "Announced g" _ "(q @ [g], inside)"]) auto

lemma hand_step:
  assumes sim: "qs_sim (q, inside) s" and pc: "guard_pc s g = RelHand n d"
  shows "follows (q, inside) [Released g] (at_pc g (ClearOwn d) (SetOwner n s))"
  using sim_hand [OF assms] by (intro visible_step [of "Released g" _ "(tl q, False)"]) auto

lemma cas_step:
  assumes sim: "qs_sim (q, inside) s" and pc: "guard_pc s g = RelCas d"
  shows "follows (q, inside) (snd (Release_cas b g d s)) (fst (Release_cas b g d s))"
proof (cases "lock_tail s = Some g \<and> \<not> b")
  case True
  then show ?thesis
    using sim_cas [OF assms] by (intro visible_step [of "Released g" _ "([], False)"]) (auto simp: Release_cas_def)
next
  case False
  then have "Release_cas b g d s = (at_pc g (RelRecheck d) s, [])" by (simp add: Release_cas_def)
  moreover have "follows (q, inside) [] (at_pc g (RelRecheck d) s)"
    using pc by (intro inside_step [OF sim]) (auto simp: guard_holds_def guard_updates)
  ultimately show ?thesis by simp
qed

lemma dtor_step:
  assumes sim: "qs_sim (q, inside) s" and pc: "guard_pc s g = Dtor"
  shows "follows (q, inside) [] (fst (Guard_dtor g s))"
proof (cases "is_owner s g")
  case True
  with pc inside_step [OF sim, of g "RelCheck Destructor"] show ?thesis
    by (simp add: Guard_dtor_def guard_holds_def at_pc_def)
next
  case False
  with pc show ?thesis
    by (intro quiet_step sim_outside [OF sim, of g _ Dead]) (auto simp: Guard_dtor_def queued_def guard_updates)
qed

lemma follows_step:
  assumes sim: "qs_sim a s" and st: "guard_step c s = Some (s', e)"
  shows "follows a e s'"
proof -
  obtain q inside where a: "a = (q, inside)" by (cases a)
  obtain g k where c: "c = (g, k)" by (cases c)
  have sim: "qs_sim (q, inside) s" using sim a by simp
  have st: "guard_step (g, k) s = Some (s', e)" using st c by simp
  note inside = inside_step [OF sim, of g]
  have "follows (q, inside) e s'"
  proof (cases "guard_pc s g")
    case Dead
    then show ?thesis using st sim by (cases k) (auto intro: quiet_step sim_construct)
  next
    case Swap
    then show ?thesis using st exchange_step [OF sim Swap] by (cases k) auto
  next
    case SetOwn
    then show ?thesis using st enter_step [OF sim, of g] by (cases k) (auto simp: Acquire_own_def)
  next
    case (Link a)
    then show ?thesis using st sim_link [OF sim Link] by (cases k) (auto simp: Acquire_link_def intro: quiet_step)
  next
    case Wait
    have "SetOwner g s = s" if "is_owner s g" using that by (simp add: SetOwner_def fun_upd_idem)
    then show ?thesis
      using st Wait enter_step [OF sim, of g] quiet_step [OF sim]
      by (cases k) (auto simp: Acquire_spin_def split: if_splits)
  next
    case Held
    then have h: "guard_holds s g" by (simp add: guard_holds_def)
    with qs_sim_holder [OF sim] have "is_owner s g" by blast
    with h have "follows (q, inside) [] (at_pc g p s)" if "p = RelCheck Explicit \<or> p = Dtor" for p
      using that by (intro inside) (auto simp: guard_holds_def at_pc_def)
    then show ?thesis using st Held by (cases k) auto
  next
    case Freed
    moreover have "\<not> is_owner s g" using qs_sim_freed [OF sim Freed] .
    ultimately show ?thesis
      using st sim_outside [OF sim, of g "at_pc g Dtor s" Dtor]
      by (cases k) (auto simp: queued_def at_pc_def intro: quiet_step)
  next
    case Dtor
    then show ?thesis using st dtor_step [OF sim Dtor] by (cases k) (auto simp: Guard_dtor_def)
  next
    case (RelCheck d)
    then have "follows (q, inside) [] (at_pc g (if HasNext g s then RelNext d else RelCas d) s)"
      by (intro inside) (auto simp: guard_holds_def at_pc_def HasNext_def split: if_splits)
    then show ?thesis using st RelCheck by (cases k) (auto simp: Release_check_def)
  next
    case (RelRecheck d)
    then have "follows (q, inside) [] (at_pc g (if HasNext g s then RelNext d else RelCas d) s)"
      by (intro inside) (auto simp: guard_holds_def at_pc_def HasNext_def split: if_splits)
    then show ?thesis using st RelRecheck by (cases k) (auto simp: Release_recheck_def)
  next
    case (RelNext d)
    then have "guard_holds s g" by (simp add: guard_holds_def)
    from qs_sim_holder [OF sim this] qs_sim_head [OF sim] RelNext
    obtain n where "guard_next s g = Some n" by (auto simp: head_ok_def)
    with RelNext have "follows (q, inside) [] (at_pc g (RelHand n d) s)"
      by (intro inside) (auto simp: guard_holds_def at_pc_def)
    then show ?thesis
      using RelNext st \<open>guard_next s g = Some n\<close> by (cases k) (auto simp: Release_next_def)
  next
    case (RelHand n d)
    then show ?thesis using st hand_step [OF sim RelHand] by (cases k) (auto simp: Release_hand_def)
  next
    case (RelCas d)
    then show ?thesis
      using st cas_step [OF sim RelCas, of False] cas_step [OF sim RelCas, of True] by (cases k) auto
  next
    case (ClearOwn d)
    then show ?thesis
      using st sim_outside [OF sim, of g s' "if d = Destructor then Dead else Freed"]
      by (cases k) (auto simp: queued_def Release_clear_def at_pc_def intro: quiet_step)
  next
    case Broken
    then show ?thesis using st by simp
  qed
  then show ?thesis by (simp add: a)
qed

lemma qs_sim_step:
  "qs_sim a s \<Longrightarrow> guard_step c s = Some (s', e) \<Longrightarrow> \<exists>a'. reach queue_lock_spec a e a' \<and> qs_sim a' s'"
  using follows_step unfolding follows_def by blast

lemma qs_sim_init: "qs_sim ([], False) init_queue_spin_lock"
  by (simp add: qs_sim_def init_queue_spin_lock_def queued_def)

interpretation qspin_refines:
  event_simulation guard_step init_queue_spin_lock queue_lock_spec "([], False)" qs_sim
  by unfold_locales (fact qs_sim_init, fact qs_sim_step)

interpretation qspin:
  lock_protocol guard_step init_queue_spin_lock "\<lambda>_ s. \<exists>a. qs_sim a s" guard_holds
proof
  show "\<exists>a. qs_sim a init_queue_spin_lock" using qs_sim_init by blast
next
  fix s c s' e
  assume "\<exists>a. qs_sim a s" and "guard_step c s = Some (s', e)"
  then show "\<exists>a. qs_sim a s'" using qs_sim_step by meson
next
  fix s i j
  assume "\<exists>a. qs_sim a s" "guard_holds s i" "guard_holds s j"
  then show "i = j" using qs_sim_holder by (metis surj_pair)
qed

subsection \<open>Progress\<close>

text \<open>The guard \<open>g\<close> enters or leaves within \<open>n\<close> steps of some schedule.\<close>

definition moves_on :: "nat \<Rightarrow> addr \<Rightarrow> queue_spin_lock \<Rightarrow> bool" where
  "moves_on n g s \<longleftrightarrow>
     (\<exists>cs s' es. length cs \<le> n \<and> sched guard_step cs s = Some (s', es) \<and>
        (Acquired g \<in> set es \<or> Released g \<in> set es))"

lemma moves_onI:
  "length cs \<le> n \<Longrightarrow> sched guard_step cs s = Some (s', es) \<Longrightarrow> Acquired g \<in> set es \<or> Released g \<in> set es \<Longrightarrow>
     moves_on n g s"
  unfolding moves_on_def by blast

lemma moves_on_step:
  assumes "guard_step c s = Some (s1, e)" and "moves_on n g s1"
  shows "moves_on (Suc n) g s"
proof -
  from assms(2) obtain cs s' es where "length cs \<le> n" "sched guard_step cs s1 = Some (s', es)"
    "Acquired g \<in> set es \<or> Released g \<in> set es"
    unfolding moves_on_def by blast
  with assms(1) show ?thesis by (intro moves_onI [of "c # cs" _ _ s' "e @ es"]) auto
qed

lemma moves_on_mono: "moves_on m g s \<Longrightarrow> m \<le> n \<Longrightarrow> moves_on n g s"
  unfolding moves_on_def using le_trans by blast

lemma moves_on_next: "guard_pc s g = RelNext d \<Longrightarrow> guard_next s g = Some n \<Longrightarrow> moves_on 2 g s"
  by (rule moves_onI [of "[(g, Go), (g, Go)]"]) (auto simp: guard_ops guard_updates)

lemma moves_on_cas:
  assumes sim: "qs_sim (q, inside) s" and pc: "guard_pc s g = RelCas d"
  shows "moves_on 5 g s"
proof -
  have "guard_holds s g" using pc by (simp add: guard_holds_def)
  from qs_sim_holder [OF sim this] have q: "q \<noteq> []" "g = hd q" by auto
  show ?thesis
  proof (cases "guard_next s g")
    case (Some n)
    with pc show ?thesis
      by (intro moves_onI [of "[(g, Spurious), (g, Go), (g, Go), (g, Go)]"]) (auto simp: guard_ops guard_updates)
  next
    case None
    show ?thesis
    proof (cases "tl q")
      case Nil
      with q have "last q = g" by (cases q) auto
      with q qs_sim_tail [OF sim] have "lock_tail s = Some g" by simp
      with pc show ?thesis
        by (intro moves_onI [of "[(g, Go)]"]) (auto simp: guard_ops guard_updates)
    next
      case (Cons b r)
      with q have "q = g # b # r" by (cases q) auto
      with qs_sim_links [OF sim] None have b: "guard_pc s b = Link g" by auto
      with pc have "b \<noteq> g" by auto
      with pc b show ?thesis
        by (intro moves_onI [of "[(b, Go), (g, Spurious), (g, Go), (g, Go), (g, Go)]"])
          (auto simp: guard_ops guard_updates)
    qed
  qed
qed

lemma moves_on_check:
  assumes sim: "qs_sim (q, inside) s" and pc: "guard_pc s g = RelCheck d \<or> guard_pc s g = RelRecheck d"
  shows "moves_on 6 g s"
proof (cases "guard_next s g")
  case (Some n)
  let ?s = "at_pc g (RelNext d) s"
  have "guard_step (g, Go) s = Some (?s, [])"
    using pc Some by (auto simp: Release_check_def Release_recheck_def HasNext_def)
  moreover have "moves_on 2 g ?s" using Some by (intro moves_on_next [of _ _ d n]) (auto simp: at_pc_def)
  ultimately have "moves_on (Suc 2) g s" by (rule moves_on_step)
  then show ?thesis by (rule moves_on_mono) simp
next
  case None
  let ?s = "at_pc g (RelCas d) s"
  have "guard_step (g, Go) s = Some (?s, [])"
    using pc None by (auto simp: Release_check_def Release_recheck_def HasNext_def)
  moreover have "qs_sim (q, inside) ?s"
    using pc by (intro sim_inside [OF sim]) (auto simp: guard_holds_def at_pc_def)
  then have "moves_on 5 g ?s" by (rule moves_on_cas [of _ _ _ _ d]) (simp add: at_pc_def)
  ultimately have "moves_on (Suc 5) g s" by (rule moves_on_step)
  then show ?thesis by simp
qed

lemma moves_on_held:
  assumes sim: "qs_sim (q, inside) s" and pc: "guard_pc s g = Held"
  shows "moves_on 7 g s"
proof -
  let ?s = "at_pc g (RelCheck Explicit) s"
  have "qs_sim (q, inside) ?s"
    using pc by (intro sim_inside [OF sim]) (auto simp: guard_holds_def at_pc_def)
  then have "moves_on 6 g ?s" by (rule moves_on_check [of _ _ _ _ Explicit]) (simp add: at_pc_def)
  moreover have "guard_step (g, CallRelease) s = Some (?s, [])" using pc by simp
  ultimately have "moves_on (Suc 6) g s" using moves_on_step by blast
  then show ?thesis by simp
qed

lemma moves_on_dtor:
  assumes sim: "qs_sim (q, inside) s" and pc: "guard_pc s g = Dtor" and own: "is_owner s g"
  shows "moves_on 7 g s"
proof -
  let ?s = "at_pc g (RelCheck Destructor) s"
  have "qs_sim (q, inside) ?s"
    using pc own by (intro sim_inside [OF sim]) (auto simp: guard_holds_def at_pc_def)
  then have "moves_on 6 g ?s" by (rule moves_on_check [of _ _ _ _ Destructor]) (simp add: at_pc_def)
  moreover have "guard_step (g, Go) s = Some (?s, [])" using pc own by (simp add: Guard_dtor_def)
  ultimately have "moves_on (Suc 6) g s" using moves_on_step by blast
  then show ?thesis by simp
qed

lemma head_moves_on:
  assumes sim: "qs_sim (q, inside) s" and ne: "q \<noteq> []"
  shows "moves_on 7 (hd q) s"
proof -
  let ?g = "hd q"
  note hd = qs_sim_head [OF sim ne]
  have "queued s ?g" using qs_sim_queued [OF sim] ne by simp
  then show ?thesis
  proof (cases "guard_pc s ?g")
    case SetOwn
    then show ?thesis by (intro moves_onI [of "[(?g, Go)]"]) (auto simp: guard_ops guard_updates)
  next
    case Wait
    with hd show ?thesis
      by (intro moves_onI [of "[(?g, Go)]"]) (auto simp: guard_ops guard_updates head_ok_def)
  next
    case (RelNext d)
    with hd obtain n where "guard_next s ?g = Some n" by (auto simp: head_ok_def)
    from moves_on_next [OF RelNext this] show ?thesis by (rule moves_on_mono) simp
  next
    case (RelHand n d)
    then show ?thesis by (intro moves_onI [of "[(?g, Go)]"]) (auto simp: guard_ops guard_updates)
  next
    case (RelCas d)
    from moves_on_cas [OF sim RelCas] show ?thesis by (rule moves_on_mono) simp
  next
    case (RelCheck d)
    with moves_on_check [OF sim, of ?g d] have "moves_on 6 ?g s" by simp
    then show ?thesis by (rule moves_on_mono) simp
  next
    case (RelRecheck d)
    with moves_on_check [OF sim, of ?g d] have "moves_on 6 ?g s" by simp
    then show ?thesis by (rule moves_on_mono) simp
  next
    case Held
    then show ?thesis by (rule moves_on_held [OF sim])
  next
    case Dtor
    with hd have "is_owner s ?g" by (simp add: head_ok_def)
    with Dtor show ?thesis by (rule moves_on_dtor [OF sim])
  qed (use hd in \<open>auto simp: head_ok_def queued_def\<close>)
qed

subsection \<open>Properties\<close>

text \<open>
  C1: \<open>QueueSpinLock\<close> is a fair mutual-exclusion lock. In every reachable state at most one guard
  holds the lock; the history alternates acquisitions and releases of the same guard; and the guards
  enter in the order in which they exchanged themselves into \<open>tail_\<close>: the announcements are the
  acquisitions so far followed by guards that still wait.
\<close>

theorem queue_spin_lock_correct:
  assumes "reach guard_step init_queue_spin_lock es s"
  shows "(\<forall>i j. guard_holds s i \<longrightarrow> guard_holds s j \<longrightarrow> i = j) \<and> alternates None es \<and>
    (\<exists>waiting. announced es = acquired es @ waiting \<and> (\<forall>g \<in> set waiting. \<not> guard_holds s g))"
proof -
  obtain a where spec: "reach queue_lock_spec ([], False) es a" and sim: "qs_sim a s"
    using qspin_refines.refines [OF assms] by blast
  obtain q inside where a: "a = (q, inside)" by (cases a)
  have "\<forall>g \<in> set (if inside then tl q else q). \<not> guard_holds s g"
    using qs_sim_holder [of q inside s] sim a by (auto split: if_splits)
  with queue_lock_fifo [OF spec] a qspin.mutual_exclusion [OF assms] show ?thesis by auto
qed

theorem queue_spin_lock_correct_witness:
  "\<exists>es s. reach guard_step init_queue_spin_lock es s \<and> guard_holds s 2 \<and> \<not> guard_holds s 3 \<and>
     announced es = [1, 2, 3] \<and> acquired es = [1, 2] \<and> alternates None es"
proof -
  have "run_ok guard_step
     [(1, Construct), (1, Go), (2, Construct), (2, Go), (1, Go), (3, Construct), (3, Go), (3, Go),
      (1, Destroy), (1, Go), (1, Go), (1, Spurious), (2, Go), (1, Go), (1, Go), (1, Go), (1, Go),
      (2, Go), (3, Go)] init_queue_spin_lock
     (\<lambda>es s. announced es = [1, 2, 3] \<and> acquired es = [1, 2] \<and> guard_holds s 2)"
    by code_simp
  then obtain es s where r: "reach guard_step init_queue_spin_lock es s"
    and es: "announced es = [1, 2, 3]" "acquired es = [1, 2]" and h: "guard_holds s 2"
    by (rule run_okE) blast
  have "guard_holds s 3 \<Longrightarrow> (2 :: nat) = 3" using queue_spin_lock_correct [OF r] h by blast
  moreover have "alternates None es" using queue_spin_lock_correct [OF r] by blast
  ultimately show ?thesis using r es h by auto
qed

text \<open>
  C18: the pointers of \<open>QueueSpinLock\<close> are safe. In every reachable state the tail of the queue,
  the ancestor a guard is about to link itself to and the successor a guard is about to promote are
  guards that are alive, and no step dereferences a null successor.
\<close>

theorem queue_spin_lock_memory_safe:
  assumes "reach guard_step init_queue_spin_lock es s"
  shows "guard_pc s g \<noteq> Broken \<and> (lock_tail s = Some g \<longrightarrow> guard_pc s g \<noteq> Dead) \<and>
    (\<forall>b. guard_pc s b = Link g \<longrightarrow> guard_pc s g \<noteq> Dead) \<and>
    (\<forall>b d. guard_pc s b = RelHand g d \<longrightarrow> guard_pc s g = Wait)"
proof -
  obtain q inside where sim: "qs_sim (q, inside) s"
    using qspin.reach_inv [OF assms] by auto
  have alive: "guard_pc s x \<noteq> Dead" if "x \<in> set q" for x
    using qs_sim_queued [OF sim, of x] that by (auto simp: queued_def)
  have "guard_pc s g \<noteq> Dead" if "guard_pc s b = Link g" for b
  proof -
    have bq: "b \<in> set q" using qs_sim_queued [OF sim, of b] that by (simp add: queued_def)
    then have "b \<noteq> hd q" using qs_sim_head [OF sim] that by (cases q) (auto simp: head_ok_def)
    with bq have "b \<in> set (tl q)" by (cases q) auto
    from qlinks_pred_in [OF qs_sim_links [OF sim] this that] show ?thesis by (rule alive)
  qed
  moreover have "guard_pc s g = Wait" if "guard_pc s b = RelHand g d" for b d
  proof -
    from sim_hand [OF sim that] have q: "q \<noteq> []" "hd q = b" by auto
    with qs_sim_head [OF sim q(1)] that have "guard_next s b = Some g" by (simp add: head_ok_def)
    with q qs_sim_links [OF sim] show ?thesis by (cases "(s, q)" rule: qlinks.cases) auto
  qed
  moreover have "lock_tail s = Some g \<longrightarrow> guard_pc s g \<noteq> Dead"
    using qs_sim_tail [OF sim] alive by (auto split: if_splits)
  ultimately show ?thesis using qs_sim_broken [OF sim] by blast
qed

theorem queue_spin_lock_memory_safe_witness:
  "\<exists>es s. reach guard_step init_queue_spin_lock es s \<and> guard_pc s 2 = Link 1 \<and>
     lock_tail s = Some 2 \<and> guard_pc s 1 \<noteq> Dead \<and> guard_pc s 1 \<noteq> Broken"
proof -
  have "run_ok guard_step [(1, Construct), (1, Go), (2, Construct), (2, Go)] init_queue_spin_lock
     (\<lambda>es s. guard_pc s 2 = Link 1 \<and> lock_tail s = Some 2)"
    by code_simp
  then obtain es s where r: "reach guard_step init_queue_spin_lock es s"
    and pc: "guard_pc s 2 = Link 1" "lock_tail s = Some 2"
    by (rule run_okE) blast
  from queue_spin_lock_memory_safe [OF r, of 1] pc r show ?thesis by blast
qed

text \<open>
  \<open>QueueSpinLock\<close> is free of deadlock. In every reachable state in which some guard is between
  its exchange on \<open>tail_\<close> and its hand-over, at most seven steps of some schedule let a guard enter
  or leave.
\<close>

lemma queue_spin_lock_progress:
  assumes "reach guard_step init_queue_spin_lock es s" and "queued s g"
  shows "\<exists>g' cs s' es'. length cs \<le> 7 \<and> sched guard_step cs s = Some (s', es') \<and>
    (Acquired g' \<in> set es' \<or> Released g' \<in> set es')"
proof -
  obtain q inside where sim: "qs_sim (q, inside) s"
    using qspin.reach_inv [OF assms(1)] by auto
  with assms(2) have "q \<noteq> []" using qs_sim_queued by fastforce
  from head_moves_on [OF sim this] show ?thesis unfolding moves_on_def by blast
qed

end
