(* ===== verification/Blocking_Queue.thy ===== *)
theory Blocking_Queue
  imports Prelude
begin

text \<open>
  The unbounded blocking queue of \<^verbatim>\<open>src/components/queue/blocking_queue.h\<close>.

  The state is the \<open>std::queue\<close>, the owner of the mutex, the atomic close flag and the threads
  asleep on the condition variable. The steps are the accesses of \<open>Put\<close>, \<open>Take\<close> and
  \<open>Close\<close>: the flag is read by \<open>Put\<close> before the mutex is taken, everything else happens
  under the mutex except the last notification of \<open>Take\<close>. \<open>wait\<close> releases the mutex and
  sleeps in one step; a sleeper is woken by a notification (the choice \<open>Pick\<close> says which one) or
  spuriously, and then takes the mutex again. The lemmas show the refinement of a FIFO queue with a
  close flag and that no wake-up is lost.
\<close>

datatype 'a bq_event =
    PutDone tid 'a
  | PutRejected tid 'a
  | Took tid "'a option"
  | Closed tid

datatype 'a bq_pc =
    BIdle
  | PutLoad 'a | PutLock 'a | PutPush 'a | PutNotify | PutUnlock
  | TakeLock | TakeCheck | TakeSleep | TakeWoken | TakeUnlock | TakeNotify
  | CloseLock | CloseStore | CloseNotify | CloseUnlock

record 'a blocking_queue =
  bq_data :: "'a list"
  bq_mutex :: "tid option"
  bq_close :: bool
  bq_sleepers :: "tid list"
  bq_pc :: "tid \<Rightarrow> 'a bq_pc"

datatype 'a bq_choice = CallPut 'a | CallTake | CallClose | Run | Pick nat | Spurious

definition init_bq :: "'a blocking_queue" where
  "init_bq = \<lparr>bq_data = [], bq_mutex = None, bq_close = False, bq_sleepers = [], bq_pc = (\<lambda>_. BIdle)\<rparr>"

definition goto :: "tid \<Rightarrow> 'a bq_pc \<Rightarrow> 'a blocking_queue \<Rightarrow> 'a blocking_queue" where
  "goto t p s = s\<lparr>bq_pc := (bq_pc s)(t := p)\<rparr>"

definition lock_m :: "tid \<Rightarrow> 'a bq_pc \<Rightarrow> 'a blocking_queue \<Rightarrow> ('a blocking_queue \<times> 'a bq_event list) option" where
  "lock_m t p s = (if bq_mutex s = None then Some (goto t p (s\<lparr>bq_mutex := Some t\<rparr>), []) else None)"

definition unlock_m :: "tid \<Rightarrow> 'a bq_pc \<Rightarrow> 'a blocking_queue \<Rightarrow> ('a blocking_queue \<times> 'a bq_event list) option" where
  "unlock_m t p s = Some (goto t p (s\<lparr>bq_mutex := None\<rparr>), [])"

definition wake :: "tid \<Rightarrow> 'a blocking_queue \<Rightarrow> 'a blocking_queue" where
  "wake w s = goto w TakeWoken (s\<lparr>bq_sleepers := removeAll w (bq_sleepers s)\<rparr>)"

definition notify_one ::
  "nat \<Rightarrow> tid \<Rightarrow> 'a bq_pc \<Rightarrow> 'a blocking_queue \<Rightarrow> ('a blocking_queue \<times> 'a bq_event list) option" where
  "notify_one i t p s =
     (if bq_sleepers s = [] then Some (goto t p s, [])
      else if i < length (bq_sleepers s) then Some (wake (bq_sleepers s ! i) (goto t p s), [])
      else None)"

definition notify_all :: "tid \<Rightarrow> 'a bq_pc \<Rightarrow> 'a blocking_queue \<Rightarrow> ('a blocking_queue \<times> 'a bq_event list) option" where
  "notify_all t p s = Some (goto t p (foldr wake (bq_sleepers s) s), [])"

definition Put_load :: "tid \<Rightarrow> 'a \<Rightarrow> 'a blocking_queue \<Rightarrow> ('a blocking_queue \<times> 'a bq_event list) option" where
  "Put_load t v s =
     (if bq_close s then Some (goto t BIdle s, [PutRejected t v]) else Some (goto t (PutLock v) s, []))"

definition Put_push :: "tid \<Rightarrow> 'a \<Rightarrow> 'a blocking_queue \<Rightarrow> ('a blocking_queue \<times> 'a bq_event list) option" where
  "Put_push t v s = Some (goto t PutNotify (s\<lparr>bq_data := bq_data s @ [v]\<rparr>), [PutDone t v])"

definition Take_check :: "tid \<Rightarrow> 'a blocking_queue \<Rightarrow> ('a blocking_queue \<times> 'a bq_event list) option" where
  "Take_check t s =
     (if bq_data s = [] \<and> \<not> bq_close s
      then Some (goto t TakeSleep (s\<lparr>bq_mutex := None, bq_sleepers := bq_sleepers s @ [t]\<rparr>), [])
      else if bq_data s \<noteq> []
      then Some (goto t TakeUnlock (s\<lparr>bq_data := tl (bq_data s)\<rparr>), [Took t (Some (hd (bq_data s)))])
      else Some (goto t TakeUnlock s, [Took t None]))"

definition Close_store :: "tid \<Rightarrow> 'a blocking_queue \<Rightarrow> ('a blocking_queue \<times> 'a bq_event list) option" where
  "Close_store t s = Some (goto t CloseNotify (s\<lparr>bq_close := True\<rparr>), [Closed t])"

fun bq_step :: "(tid \<times> 'a bq_choice, 'a blocking_queue, 'a bq_event) stepper" where
  "bq_step (t, c) s =
     (case (bq_pc s t, c) of
        (BIdle, CallPut v) \<Rightarrow> Some (goto t (PutLoad v) s, [])
      | (PutLoad v, Run) \<Rightarrow> Put_load t v s
      | (PutLock v, Run) \<Rightarrow> lock_m t (PutPush v) s
      | (PutPush v, Run) \<Rightarrow> Put_push t v s
      | (PutNotify, Pick i) \<Rightarrow> notify_one i t PutUnlock s
      | (PutUnlock, Run) \<Rightarrow> unlock_m t BIdle s
      | (BIdle, CallTake) \<Rightarrow> Some (goto t TakeLock s, [])
      | (TakeLock, Run) \<Rightarrow> lock_m t TakeCheck s
      | (TakeCheck, Run) \<Rightarrow> Take_check t s
      | (TakeSleep, Spurious) \<Rightarrow> Some (wake t s, [])
      | (TakeWoken, Run) \<Rightarrow> lock_m t TakeCheck s
      | (TakeUnlock, Run) \<Rightarrow> unlock_m t TakeNotify s
      | (TakeNotify, Pick i) \<Rightarrow> notify_one i t BIdle s
      | (BIdle, CallClose) \<Rightarrow> Some (goto t CloseLock s, [])
      | (CloseLock, Run) \<Rightarrow> lock_m t CloseStore s
      | (CloseStore, Run) \<Rightarrow> Close_store t s
      | (CloseNotify, Run) \<Rightarrow> notify_all t CloseUnlock s
      | (CloseUnlock, Run) \<Rightarrow> unlock_m t BIdle s
      | _ \<Rightarrow> None)"

subsection \<open>The abstract queue\<close>

fun bq_spec :: "('a bq_event, 'a list \<times> bool, 'a bq_event) stepper" where
  "bq_spec (PutDone t v) (xs, cl) = Some ((xs @ [v], cl), [PutDone t v])"
| "bq_spec (PutRejected t v) (xs, cl) = (if cl then Some ((xs, cl), [PutRejected t v]) else None)"
| "bq_spec (Took t (Some v)) (xs, cl) =
     (if xs \<noteq> [] \<and> hd xs = v then Some ((tl xs, cl), [Took t (Some v)]) else None)"
| "bq_spec (Took t None) (xs, cl) = (if xs = [] \<and> cl then Some ((xs, cl), [Took t None]) else None)"
| "bq_spec (Closed t) (xs, cl) = Some ((xs, True), [Closed t])"

definition puts :: "'a bq_event list \<Rightarrow> 'a list" where
  "puts es = List.map_filter (\<lambda>e. case e of PutDone t v \<Rightarrow> Some v | _ \<Rightarrow> None) es"

definition takes :: "'a bq_event list \<Rightarrow> 'a list" where
  "takes es = List.map_filter (\<lambda>e. case e of Took t (Some v) \<Rightarrow> Some v | _ \<Rightarrow> None) es"

lemma puts_simps [simp]:
  "puts [] = []" "puts (es @ fs) = puts es @ puts fs" "puts (PutDone t v # es) = v # puts es"
  "puts (PutRejected t v # es) = puts es" "puts (Took t r # es) = puts es" "puts (Closed t # es) = puts es"
  by (simp_all add: puts_def List.map_filter_def)

lemma takes_simps [simp]:
  "takes [] = []" "takes (es @ fs) = takes es @ takes fs" "takes (PutDone t v # es) = takes es"
  "takes (PutRejected t v # es) = takes es" "takes (Took t (Some v) # es) = v # takes es"
  "takes (Took t None # es) = takes es" "takes (Closed t # es) = takes es"
  by (simp_all add: takes_def List.map_filter_def)

lemma bq_spec_fifo:
  "reach bq_spec ([], False) es a \<Longrightarrow>
     puts es = takes es @ fst a \<and> (snd a \<longleftrightarrow> (\<exists>u. Closed u \<in> set es)) \<and>
     (\<forall>t v. PutRejected t v \<in> set es \<longrightarrow> (\<exists>u. Closed u \<in> set es)) \<and>
     (\<forall>t. Took t None \<in> set es \<longrightarrow> (\<exists>u. Closed u \<in> set es))"
proof (induction rule: reach.induct)
  case reach_init
  show ?case by simp
next
  case (reach_step es a c a' e)
  obtain xs cl where a: "a = (xs, cl)" by (cases a)
  with reach_step show ?case
    by (cases "(c, a)" rule: bq_spec.cases; cases xs) (auto split: if_splits)
qed

subsection \<open>The invariant\<close>

definition locked_pc :: "'a bq_pc \<Rightarrow> bool" where
  "locked_pc p \<longleftrightarrow>
     (case p of PutPush _ \<Rightarrow> True | PutNotify \<Rightarrow> True | PutUnlock \<Rightarrow> True | TakeCheck \<Rightarrow> True
      | TakeUnlock \<Rightarrow> True | CloseStore \<Rightarrow> True | CloseNotify \<Rightarrow> True | CloseUnlock \<Rightarrow> True | _ \<Rightarrow> False)"

text \<open>A thread that will look at the queue or wake another thread without being woken first.\<close>

definition active_pc :: "'a bq_pc \<Rightarrow> bool" where
  "active_pc p \<longleftrightarrow> p = PutNotify \<or> p = TakeWoken \<or> p = TakeCheck \<or> p = TakeUnlock \<or> p = TakeNotify"

definition bq_inv :: "'a blocking_queue \<Rightarrow> bool" where
  "bq_inv s \<longleftrightarrow>
     (\<forall>t. locked_pc (bq_pc s t) \<longleftrightarrow> bq_mutex s = Some t) \<and>
     distinct (bq_sleepers s) \<and> (\<forall>t. t \<in> set (bq_sleepers s) \<longleftrightarrow> bq_pc s t = TakeSleep) \<and>
     (bq_close s \<longrightarrow> bq_sleepers s = [] \<or> (\<exists>t. bq_pc s t = CloseNotify)) \<and>
     (bq_data s \<noteq> [] \<longrightarrow> bq_sleepers s \<noteq> [] \<longrightarrow> (\<exists>t. active_pc (bq_pc s t)))"

lemma bq_inv_init: "bq_inv init_bq"
  by (simp add: bq_inv_def init_bq_def locked_pc_def)

lemma wake_all:
  "foldr wake ws s = s\<lparr>bq_sleepers := filter (\<lambda>t. t \<notin> set ws) (bq_sleepers s),
     bq_pc := (\<lambda>t. if t \<in> set ws then TakeWoken else bq_pc s t)\<rparr>"
proof (induction ws)
  case (Cons w ws)
  then show ?case
    by (auto simp: wake_def goto_def removeAll_filter_not_eq fun_eq_iff
        intro!: blocking_queue.equality filter_cong)
qed simp

lemmas bq_ops = lock_m_def unlock_m_def notify_one_def notify_all_def Put_load_def Put_push_def
  Take_check_def Close_store_def

lemma bq_invD:
  assumes "bq_inv s"
  shows bq_locked: "locked_pc (bq_pc s t) \<longleftrightarrow> bq_mutex s = Some t"
    and bq_distinct: "distinct (bq_sleepers s)"
    and bq_asleep: "t \<in> set (bq_sleepers s) \<longleftrightarrow> bq_pc s t = TakeSleep"
    and bq_closed: "bq_close s \<Longrightarrow> bq_sleepers s = [] \<or> (\<exists>t. bq_pc s t = CloseNotify)"
    and bq_awake: "bq_data s \<noteq> [] \<Longrightarrow> bq_sleepers s \<noteq> [] \<Longrightarrow> \<exists>t. active_pc (bq_pc s t)"
  using assms by (auto simp: bq_inv_def)

text \<open>
  The steps by their effect: a thread changes its program counter (and takes or leaves the mutex,
  or appends to the queue), goes to sleep, takes an element, or wakes sleepers.
\<close>

lemma inv_goto:
  assumes inv: "bq_inv s" and asleep: "bq_pc s t \<noteq> TakeSleep" "p \<noteq> TakeSleep"
    and m: "m = (if locked_pc p then Some t else if locked_pc (bq_pc s t) then None else bq_mutex s)"
    and free: "locked_pc p \<Longrightarrow> bq_mutex s = None \<or> bq_mutex s = Some t"
    and cl: "cl = bq_close s \<or> p = CloseNotify" and cn: "bq_pc s t \<noteq> CloseNotify"
    and dt: "d = [] \<or> bq_sleepers s = [] \<or> active_pc p \<or> (\<exists>w. w \<noteq> t \<and> active_pc (bq_pc s w)) \<or>
      bq_data s \<noteq> [] \<and> \<not> active_pc (bq_pc s t)"
  shows "bq_inv (goto t p (s\<lparr>bq_mutex := m, bq_close := cl, bq_data := d\<rparr>))"
proof -
  let ?s = "goto t p (s\<lparr>bq_mutex := m, bq_close := cl, bq_data := d\<rparr>)"
  have "locked_pc (bq_pc ?s u) \<longleftrightarrow> bq_mutex ?s = Some u" for u
    using bq_locked [OF inv, of u] bq_locked [OF inv, of t] m free by (auto simp: goto_def)
  moreover have "u \<in> set (bq_sleepers ?s) \<longleftrightarrow> bq_pc ?s u = TakeSleep" for u
    using bq_asleep [OF inv, of u] asleep by (auto simp: goto_def)
  moreover have "bq_close ?s \<Longrightarrow> bq_sleepers ?s = [] \<or> (\<exists>u. bq_pc ?s u = CloseNotify)"
    using bq_closed [OF inv] cl cn by (auto simp: goto_def)
  moreover have "bq_data ?s \<noteq> [] \<Longrightarrow> bq_sleepers ?s \<noteq> [] \<Longrightarrow> \<exists>u. active_pc (bq_pc ?s u)"
    using bq_awake [OF inv] dt by (auto simp: goto_def)
  ultimately show ?thesis
    using bq_distinct [OF inv] unfolding bq_inv_def by (simp add: goto_def)
qed

lemma inv_sleep:
  assumes inv: "bq_inv s" and pc: "bq_pc s t = TakeCheck" and empty: "bq_data s = []" and op: "\<not> bq_close s"
  shows "bq_inv (goto t TakeSleep (s\<lparr>bq_mutex := None, bq_sleepers := bq_sleepers s @ [t]\<rparr>))"
proof -
  have mut: "bq_mutex s = Some t" using bq_locked [OF inv, of t] pc by (simp add: locked_pc_def)
  have new: "t \<notin> set (bq_sleepers s)" using bq_asleep [OF inv, of t] pc by simp
  have "locked_pc (bq_pc s u) \<longleftrightarrow> u = t" for u using bq_locked [OF inv, of u] mut by auto
  with new empty op bq_asleep [OF inv] bq_distinct [OF inv] show ?thesis
    by (auto simp: bq_inv_def goto_def locked_pc_def)
qed

lemma inv_wake:
  assumes inv: "bq_inv s" and pc: "bq_pc s w = TakeSleep"
  shows "bq_inv (wake w s)"
proof -
  have "bq_close s \<Longrightarrow> bq_sleepers (wake w s) = [] \<or> (\<exists>u. bq_pc (wake w s) u = CloseNotify)"
    using bq_closed [OF inv] pc by (auto simp: wake_def goto_def) (metis bq_pc.distinct)
  moreover have "active_pc (bq_pc (wake w s) w)" by (simp add: wake_def goto_def active_pc_def)
  moreover have "\<not> locked_pc TakeSleep" "\<not> locked_pc TakeWoken" by (simp_all add: locked_pc_def)
  ultimately show ?thesis
    using bq_locked [OF inv] bq_locked [OF inv, of w] bq_asleep [OF inv] bq_distinct [OF inv] pc
    unfolding bq_inv_def by (auto simp: wake_def goto_def distinct_removeAll)
qed

lemma inv_wake_all:
  assumes inv: "bq_inv s" and pc: "bq_pc s t = CloseNotify"
  shows "bq_inv (goto t CloseUnlock (foldr wake (bq_sleepers s) s))"
proof -
  have "t \<notin> set (bq_sleepers s)" using bq_asleep [OF inv, of t] pc by simp
  moreover have "locked_pc CloseNotify" "locked_pc CloseUnlock" "\<not> locked_pc TakeSleep" "\<not> locked_pc TakeWoken"
    by (simp_all add: locked_pc_def)
  ultimately show ?thesis
    using bq_locked [OF inv] bq_locked [OF inv, of t] bq_asleep [OF inv] pc
    unfolding bq_inv_def by (auto simp: wake_all goto_def)
qed

lemma inv_notify:
  assumes inv: "bq_inv s" and pc: "bq_pc s t = PutNotify \<and> p = PutUnlock \<or> bq_pc s t = TakeNotify \<and> p = BIdle"
    and st: "notify_one i t p s = Some (s', e)"
  shows "bq_inv s' \<and> e = [] \<and> bq_data s' = bq_data s \<and> bq_close s' = bq_close s"
proof -
  have m: "bq_mutex s = (if locked_pc p then Some t else if locked_pc (bq_pc s t) then None else bq_mutex s)"
    using bq_locked [OF inv, of t] pc by (auto simp: locked_pc_def)
  show ?thesis
  proof (cases "bq_sleepers s = []")
    case True
    with st have s': "s' = goto t p (s\<lparr>bq_mutex := bq_mutex s, bq_close := bq_close s, bq_data := bq_data s\<rparr>)" "e = []"
      by (auto simp: notify_one_def)
    have "bq_inv s'" unfolding s' using True pc m by (intro inv_goto [OF inv]) auto
    with s' show ?thesis by (simp add: goto_def)
  next
    case False
    with st obtain w where w: "w \<in> set (bq_sleepers s)" and s': "s' = wake w (goto t p s)" "e = []"
      by (auto simp: notify_one_def split: if_splits intro: that [OF nth_mem])
    then have wpc: "bq_pc s w = TakeSleep" using bq_asleep [OF inv] by blast
    with pc have wt: "w \<noteq> t" by auto
    let ?s = "wake w s"
    have inv': "bq_inv ?s" using inv wpc by (rule inv_wake)
    have "s' = goto t p (?s\<lparr>bq_mutex := bq_mutex s, bq_close := bq_close s, bq_data := bq_data s\<rparr>)"
      using s' wt fun_upd_twist [of t w "bq_pc s" p TakeWoken] by (simp add: wake_def goto_def)
    moreover have "bq_inv (goto t p (?s\<lparr>bq_mutex := bq_mutex s, bq_close := bq_close s, bq_data := bq_data s\<rparr>))"
      using wt pc m
      by (intro inv_goto [OF inv']) (auto simp: wake_def goto_def active_pc_def)
    ultimately show ?thesis using s' by (simp add: wake_def goto_def)
  qed
qed

text \<open>
  Every step keeps the invariant, and its events are those by which the abstract queue moves from
  the contents and the flag before the step to those after it.
\<close>

definition bq_abs :: "'a blocking_queue \<Rightarrow> 'a list \<times> bool" where
  "bq_abs s = (bq_data s, bq_close s)"

definition bq_follows :: "'a blocking_queue \<Rightarrow> 'a bq_event list \<Rightarrow> 'a blocking_queue \<Rightarrow> bool" where
  "bq_follows s e s' \<longleftrightarrow>
     bq_inv s' \<and> (e = [] \<and> bq_abs s' = bq_abs s \<or> (\<exists>x. e = [x] \<and> bq_spec x (bq_abs s) = Some (bq_abs s', e)))"

lemma follows_goto:
  assumes inv: "bq_inv s" and asleep: "bq_pc s t \<noteq> TakeSleep" "p \<noteq> TakeSleep"
    and m: "m = (if locked_pc p then Some t else if locked_pc (bq_pc s t) then None else bq_mutex s)"
    and free: "locked_pc p \<Longrightarrow> bq_mutex s = None \<or> bq_mutex s = Some t"
    and cl: "cl = bq_close s \<or> p = CloseNotify" and cn: "bq_pc s t \<noteq> CloseNotify"
    and dt: "d = [] \<or> bq_sleepers s = [] \<or> active_pc p \<or> (\<exists>w. w \<noteq> t \<and> active_pc (bq_pc s w)) \<or>
      bq_data s \<noteq> [] \<and> \<not> active_pc (bq_pc s t)"
    and s': "s' = goto t p (s\<lparr>bq_mutex := m, bq_close := cl, bq_data := d\<rparr>)"
    and e: "e = [] \<and> d = bq_data s \<and> cl = bq_close s \<or>
      (\<exists>x. e = [x] \<and> bq_spec x (bq_data s, bq_close s) = Some ((d, cl), e))"
  shows "bq_follows s e s'"
  using inv_goto [OF inv asleep m free cl cn dt] e
  unfolding bq_follows_def s' by (simp add: bq_abs_def goto_def)

lemma bq_follows_step:
  assumes inv: "bq_inv s" and st: "bq_step (t, c) s = Some (s', e)"
  shows "bq_follows s e s'"
proof (cases "bq_pc s t")
  case BIdle
  then obtain p where "s' = goto t p s" "e = []" "p \<in> {TakeLock, CloseLock} \<union> range PutLoad"
    using st by (cases c) auto
  with BIdle bq_locked [OF inv, of t] show ?thesis
    by (intro follows_goto [OF inv, of t p "bq_mutex s" "bq_close s" "bq_data s"])
      (auto simp: locked_pc_def active_pc_def)
next
  case (PutLoad v)
  then show ?thesis
    using st bq_locked [OF inv, of t]
    by (cases c; intro follows_goto [OF inv, of t "if bq_close s then BIdle else PutLock v" "bq_mutex s" "bq_close s" "bq_data s"])
      (auto simp: locked_pc_def active_pc_def Put_load_def goto_def split: if_splits intro!: blocking_queue.equality)
next
  case (PutLock v)
  then show ?thesis
    using st bq_locked [OF inv, of t]
    by (cases c; intro follows_goto [OF inv, of t "PutPush v" "Some t" "bq_close s" "bq_data s"])
      (auto simp: locked_pc_def active_pc_def lock_m_def goto_def split: if_splits intro!: blocking_queue.equality)
next
  case (PutPush v)
  then show ?thesis
    using st bq_locked [OF inv, of t]
    by (cases c; intro follows_goto [OF inv, of t "PutNotify" "bq_mutex s" "bq_close s" "bq_data s @ [v]"])
      (auto simp: locked_pc_def active_pc_def Put_push_def goto_def split: if_splits intro!: blocking_queue.equality)
next
  case PutNotify
  then show ?thesis
    using st inv_notify [OF inv, of t PutUnlock] by (cases c) (auto simp: bq_follows_def bq_abs_def)
next
  case PutUnlock
  then show ?thesis
    using st bq_locked [OF inv, of t]
    by (cases c; intro follows_goto [OF inv, of t "BIdle" "None" "bq_close s" "bq_data s"])
      (auto simp: locked_pc_def active_pc_def unlock_m_def goto_def split: if_splits intro!: blocking_queue.equality)
next
  case TakeLock
  then show ?thesis
    using st bq_locked [OF inv, of t]
    by (cases c; intro follows_goto [OF inv, of t "TakeCheck" "Some t" "bq_close s" "bq_data s"])
      (auto simp: locked_pc_def active_pc_def lock_m_def goto_def split: if_splits intro!: blocking_queue.equality)
next
  case TakeCheck
  show ?thesis
  proof (cases "bq_data s = [] \<and> \<not> bq_close s")
    case True
    with TakeCheck st show ?thesis
      using inv_sleep [OF inv TakeCheck]
      by (cases c) (auto simp: Take_check_def bq_follows_def bq_abs_def goto_def)
  next
    case False
    then show ?thesis
      using TakeCheck st bq_locked [OF inv, of t]
      by (cases c; cases "bq_data s"; intro follows_goto [OF inv, of t TakeUnlock "bq_mutex s" "bq_close s" "tl (bq_data s)"])
        (auto simp: locked_pc_def active_pc_def Take_check_def goto_def intro!: blocking_queue.equality)
  qed
next
  case TakeSleep
  then show ?thesis
    using st inv_wake [OF inv TakeSleep]
    by (cases c) (auto simp: bq_follows_def bq_abs_def wake_def goto_def)
next
  case TakeWoken
  then show ?thesis
    using st bq_locked [OF inv, of t]
    by (cases c; intro follows_goto [OF inv, of t "TakeCheck" "Some t" "bq_close s" "bq_data s"])
      (auto simp: locked_pc_def active_pc_def lock_m_def goto_def split: if_splits intro!: blocking_queue.equality)
next
  case TakeUnlock
  then show ?thesis
    using st bq_locked [OF inv, of t]
    by (cases c; intro follows_goto [OF inv, of t "TakeNotify" "None" "bq_close s" "bq_data s"])
      (auto simp: locked_pc_def active_pc_def unlock_m_def goto_def split: if_splits intro!: blocking_queue.equality)
next
  case TakeNotify
  then show ?thesis
    using st inv_notify [OF inv, of t BIdle] by (cases c) (auto simp: bq_follows_def bq_abs_def)
next
  case CloseLock
  then show ?thesis
    using st bq_locked [OF inv, of t]
    by (cases c; intro follows_goto [OF inv, of t "CloseStore" "Some t" "bq_close s" "bq_data s"])
      (auto simp: locked_pc_def active_pc_def lock_m_def goto_def split: if_splits intro!: blocking_queue.equality)
next
  case CloseStore
  then show ?thesis
    using st bq_locked [OF inv, of t]
    by (cases c; intro follows_goto [OF inv, of t "CloseNotify" "bq_mutex s" "True" "bq_data s"])
      (auto simp: locked_pc_def active_pc_def Close_store_def goto_def split: if_splits intro!: blocking_queue.equality)
next
  case CloseNotify
  then show ?thesis
    using st inv_wake_all [OF inv CloseNotify]
    by (cases c) (auto simp: bq_follows_def bq_abs_def notify_all_def goto_def wake_all)
next
  case CloseUnlock
  then show ?thesis
    using st bq_locked [OF inv, of t]
    by (cases c; intro follows_goto [OF inv, of t "BIdle" "None" "bq_close s" "bq_data s"])
      (auto simp: locked_pc_def active_pc_def unlock_m_def goto_def split: if_splits intro!: blocking_queue.equality)
qed

lemma bq_follows_any: "bq_inv s \<Longrightarrow> bq_step c s = Some (s', e) \<Longrightarrow> bq_follows s e s'"
  by (metis surj_pair bq_follows_step)

definition bq_sim :: "'a list \<times> bool \<Rightarrow> 'a blocking_queue \<Rightarrow> bool" where
  "bq_sim a s \<longleftrightarrow> bq_inv s \<and> a = bq_abs s"

lemma bq_sim_step:
  assumes "bq_sim a s" and "bq_step c s = Some (s', e)"
  shows "\<exists>a'. reach bq_spec a e a' \<and> bq_sim a' s'"
proof -
  have "bq_follows s e s'" using assms bq_follows_any unfolding bq_sim_def by blast
  then have "bq_inv s'" and "reach bq_spec (bq_abs s) e (bq_abs s')"
    by (auto simp: bq_follows_def intro: reach.reach_init reach_single)
  with assms(1) show ?thesis unfolding bq_sim_def by blast
qed

lemma bq_sim_init: "bq_sim ([], False) init_bq"
  using bq_inv_init by (simp add: bq_sim_def bq_abs_def init_bq_def)

interpretation bq_refines: event_simulation bq_step init_bq bq_spec "([], False)" bq_sim
  by unfold_locales (fact bq_sim_init, fact bq_sim_step)

interpretation bq_mutex_held:
  lock_protocol bq_step init_bq "\<lambda>_. bq_inv" "\<lambda>s t. locked_pc (bq_pc s t)"
proof
  show "bq_inv init_bq" by (rule bq_inv_init)
next
  fix s :: "'a blocking_queue" and c s' and e :: "'a bq_event list"
  assume "bq_inv s" and "bq_step c s = Some (s', e)"
  then show "bq_inv s'" using bq_follows_any unfolding bq_follows_def by blast
next
  fix s :: "'a blocking_queue" and i j
  assume "bq_inv s" "locked_pc (bq_pc s i)" "locked_pc (bq_pc s j)"
  then show "i = j" using bq_locked by fastforce
qed

subsection \<open>Properties\<close>

text \<open>
  C8: \<open>UnboundedBlockingQueue\<close> delivers every element exactly once and in order. For every
  interleaving of \<open>Put\<close>, \<open>Take\<close> and \<open>Close\<close> calls, the elements put are the elements
  taken followed by the elements still queued; \<open>Put\<close> is refused and \<open>Take\<close> returns no element
  only after a \<open>Close\<close>.
\<close>

theorem blocking_queue_fifo:
  assumes "reach bq_step init_bq es s"
  shows "puts es = takes es @ bq_data s \<and>
    (PutRejected t v \<in> set es \<longrightarrow> (\<exists>u. Closed u \<in> set es)) \<and>
    (Took t None \<in> set es \<longrightarrow> (\<exists>u. Closed u \<in> set es))"
proof -
  obtain a where "reach bq_spec ([], False) es a" "bq_sim a s"
    using bq_refines.refines [OF assms] by blast
  with bq_spec_fifo [of es a] show ?thesis by (auto simp: bq_sim_def bq_abs_def)
qed

theorem blocking_queue_fifo_witness:
  "\<exists>es s. reach bq_step init_bq es s \<and> puts es = [7, 8 :: nat] \<and> takes es = [7, 8] \<and> bq_data s = [] \<and>
     Took 3 None \<in> set es \<and> (\<exists>u. Closed u \<in> set es)"
proof -
  have "run_ok bq_step
     [(2, CallTake), (2, Run), (2, Run), (1, CallPut 7), (1, Run), (1, Run), (1, Run), (1, Pick 0),
      (1, Run), (1, CallPut 8), (1, Run), (2, Run), (2, Run), (2, Run), (1, Run), (1, Run), (1, Pick 0),
      (1, Run), (2, Pick 0), (2, CallTake), (2, Run), (2, Run), (2, Run), (4, CallClose), (4, Run), (4, Run),
      (4, Run), (4, Run), (3, CallTake), (3, Run), (3, Run)] init_bq
     (\<lambda>es s. puts es = [7, 8 :: nat] \<and> takes es = [7, 8] \<and> Took 3 None \<in> set es)"
    by code_simp
  then obtain es and s :: "nat blocking_queue" where r: "reach bq_step init_bq es s"
    and es: "puts es = [7, 8]" "takes es = [7, 8]" "Took 3 None \<in> set es"
    by (rule run_okE) blast
  from blocking_queue_fifo [OF r, of 3] es r show ?thesis by force
qed

text \<open>
  C20: no wake-up of \<open>UnboundedBlockingQueue\<close> is lost. Whenever an element is queued while a
  consumer sleeps in \<open>Take\<close>, another thread has been woken or is about to look at the queue or to
  notify; and once \<open>Close\<close> has returned nobody sleeps (a sleeper and a set flag mean that the
  closing thread is about to notify all).
\<close>

theorem blocking_queue_no_lost_wakeup:
  assumes "reach bq_step init_bq es s" and "bq_pc s t = TakeSleep"
  shows "(bq_data s \<noteq> [] \<longrightarrow> (\<exists>u. active_pc (bq_pc s u))) \<and> (bq_close s \<longrightarrow> (\<exists>u. bq_pc s u = CloseNotify))"
proof -
  have inv: "bq_inv s" using bq_mutex_held.reach_inv [OF assms(1)] .
  then have "bq_sleepers s \<noteq> []" using assms(2) bq_asleep [OF inv, of t] by auto
  with bq_awake [OF inv] bq_closed [OF inv] show ?thesis by blast
qed

theorem blocking_queue_no_lost_wakeup_witness:
  "\<exists>es s. reach bq_step init_bq es s \<and> bq_pc s 3 = TakeSleep \<and> bq_data s = [7 :: nat] \<and>
     (\<exists>u. active_pc (bq_pc s u))"
proof -
  have "run_ok bq_step
     [(2, CallTake), (2, Run), (2, Run), (3, CallTake), (3, Run), (3, Run), (1, CallPut 7), (1, Run),
      (1, Run), (1, Run), (1, Pick 0), (1, Run)] init_bq
     (\<lambda>es s. bq_pc s 3 = TakeSleep \<and> bq_data s = [7 :: nat])"
    by code_simp
  then obtain es and s :: "nat blocking_queue" where r: "reach bq_step init_bq es s"
    and s: "bq_pc s 3 = TakeSleep" "bq_data s = [7]"
    by (rule run_okE) blast
  from blocking_queue_no_lost_wakeup [OF r s(1)] s r show ?thesis by auto
qed

end
