(* ===== verification/Queue_Spec.thy ===== *)
theory Queue_Spec
  imports Prelude "HOL-Library.Multiset"
begin

text \<open>
  The abstract concurrent queue the lock-free queues of \<^verbatim>\<open>src/components/lock_free\<close> are
  measured against: an atomic queue whose clients call an operation (\<open>Invoke\<close>), have it take
  effect in one silent step (\<open>Effect\<close>) and see its result (\<open>Return\<close>). An implementation
  whose histories of calls and returns are histories of this machine is linearizable.

  The lemmas say what its histories guarantee: the values returned by pops were pushed, each at
  most once, and none is lost (\<open>spec_conserves\<close>); a pop that finds the queue empty had an instant,
  between its call and its return, at which it was (\<open>no_false_empty\<close>: not so while a completed push has its value in the queue).
\<close>

datatype 'v queue_op = OpPush 'v | OpPop

datatype 'v queue_result = Pushed | Popped "'v option"

datatype 'v queue_event =
    Invoke tid "'v queue_op"
  | Return tid "'v queue_result"

fun is_return :: "'v queue_event \<Rightarrow> bool" where
  "is_return (Return t r) = True"
| "is_return (Invoke t c) = False"

datatype 'v op_status =
    Idle
  | Pending "'v queue_op"
  | Finished "'v queue_result"

datatype 'v queue_action =
    Call tid "'v queue_op"
  | Effect tid
  | Reply tid

type_synonym 'v atomic_queue = "'v list \<times> (tid \<Rightarrow> 'v op_status)"

fun apply_op :: "'v queue_op \<Rightarrow> 'v list \<Rightarrow> 'v list \<times> 'v queue_result" where
  "apply_op (OpPush v) q = (q @ [v], Pushed)"
| "apply_op OpPop [] = ([], Popped None)"
| "apply_op OpPop (v # q) = (q, Popped (Some v))"

fun queue_spec :: "('v queue_action, 'v atomic_queue, 'v queue_event) stepper" where
  "queue_spec (Call t op) (q, st) =
     (case st t of Idle \<Rightarrow> Some ((q, st(t := Pending op)), [Invoke t op]) | _ \<Rightarrow> None)"
| "queue_spec (Effect t) (q, st) =
     (case st t of
        Pending op \<Rightarrow> (let (q', r) = apply_op op q in Some ((q', st(t := Finished r)), []))
      | _ \<Rightarrow> None)"
| "queue_spec (Reply t) (q, st) =
     (case st t of Finished r \<Rightarrow> Some ((q, st(t := Idle)), [Return t r]) | _ \<Rightarrow> None)"

definition init_spec :: "'v atomic_queue" where
  "init_spec = ([], \<lambda>_. Idle)"

lemma spec_call: "st t = Idle \<Longrightarrow> reach queue_spec (q, st) [Invoke t op] (q, st(t := Pending op))"
  by (rule reach_single [where c = "Call t op"]) simp

lemma spec_effect:
  "st t = Pending op \<Longrightarrow> reach queue_spec (q, st) [] (fst (apply_op op q), st(t := Finished (snd (apply_op op q))))"
  by (rule reach_single [where c = "Effect t"]) (simp add: case_prod_unfold Let_def)

lemma spec_reply: "st t = Finished r \<Longrightarrow> reach queue_spec (q, st) [Return t r] (q, st(t := Idle))"
  by (rule reach_single [where c = "Reply t"]) simp

subsection \<open>What a history guarantees\<close>

fun pushed_values :: "'v queue_event list \<Rightarrow> 'v list" where
  "pushed_values [] = []"
| "pushed_values (Invoke t (OpPush v) # es) = v # pushed_values es"
| "pushed_values (_ # es) = pushed_values es"

fun popped_values :: "'v queue_event list \<Rightarrow> 'v list" where
  "popped_values [] = []"
| "popped_values (Return t (Popped (Some v)) # es) = v # popped_values es"
| "popped_values (_ # es) = popped_values es"

lemma pushed_values_append [simp]: "pushed_values (es @ fs) = pushed_values es @ pushed_values fs"
  by (induction es rule: pushed_values.induct) auto

lemma popped_values_append [simp]: "popped_values (es @ fs) = popped_values es @ popped_values fs"
  by (induction es rule: popped_values.induct) auto

text \<open>The value that a thread's operation holds: one to be pushed, or one popped and not returned yet.\<close>

fun held :: "'v op_status \<Rightarrow> 'v multiset" where
  "held (Pending (OpPush v)) = {#v#}"
| "held (Finished (Popped (Some v))) = {#v#}"
| "held _ = {#}"

definition busy :: "(tid \<Rightarrow> 'v op_status) \<Rightarrow> tid set" where
  "busy st = {t. st t \<noteq> Idle}"

definition spec_conserves :: "'v queue_event list \<Rightarrow> 'v atomic_queue \<Rightarrow> bool" where
  "spec_conserves es a = (case a of (q, st) \<Rightarrow> finite (busy st) \<and>
     mset (pushed_values es) = mset (popped_values es) + mset q + (\<Sum>t\<in>busy st. held (st t)))"

lemma busy_upd: "busy (st(t := x)) = (if x = Idle then busy st - {t} else insert t (busy st))"
  by (auto simp: busy_def)

lemma held_upd:
  assumes "finite (busy st)"
  shows "(\<Sum>i\<in>busy (st(t := x)). held ((st(t := x)) i)) + held (st t) = (\<Sum>i\<in>busy st. held (st i)) + held x"
proof -
  have rest: "(\<Sum>i\<in>busy st - {t}. held ((st(t := x)) i)) = (\<Sum>i\<in>busy st - {t}. held (st i))"
    by (rule sum.cong) auto
  have old: "(\<Sum>i\<in>busy st. held (st i)) = (\<Sum>i\<in>busy st - {t}. held (st i)) + held (st t)"
    using assms by (cases "t \<in> busy st") (auto simp: sum.remove busy_def ac_simps)
  have new: "(\<Sum>i\<in>busy (st(t := x)). held ((st(t := x)) i)) = (\<Sum>i\<in>busy st - {t}. held ((st(t := x)) i)) + held x"
    using assms by (auto simp: busy_upd sum.insert_remove ac_simps)
  show ?thesis unfolding old new rest by (simp add: ac_simps)
qed

lemma held_exchange:
  assumes "finite (busy st)" and "held (st t) + A = held x + B"
  shows "(\<Sum>i\<in>busy (st(t := x)). held ((st(t := x)) i)) + B = (\<Sum>i\<in>busy st. held (st i)) + A"
proof -
  have "(\<Sum>i\<in>busy (st(t := x)). held ((st(t := x)) i)) + B + held (st t) =
      (\<Sum>i\<in>busy st. held (st i)) + held x + B"
    using held_upd [OF assms(1), of t x] by (simp add: ac_simps)
  also have "\<dots> = (\<Sum>i\<in>busy st. held (st i)) + A + held (st t)"
    using assms(2) by (simp add: ac_simps)
  finally show ?thesis by simp
qed

lemma apply_op_held:
  "apply_op op q = (q', r) \<Longrightarrow> held (Pending op) + mset q = held (Finished r) + mset q'"
  by (induction op q rule: apply_op.induct) auto

lemma spec_conserves_step:
  assumes "spec_conserves es a" and st: "queue_spec c a = Some (a', e)"
  shows "spec_conserves (es @ e) a'"
proof -
  obtain q st where a: "a = (q, st)" by (cases a)
  have fin: "finite (busy st)"
    and eq: "mset (pushed_values es) = mset (popped_values es) + mset q + (\<Sum>t\<in>busy st. held (st t))"
    using assms(1) by (auto simp: spec_conserves_def a)
  have fin': "finite (busy (st(t := x)))" for t x using fin by (simp add: busy_upd)
  show ?thesis
  proof (cases c)
    case (Call t op)
    with a st have t: "st t = Idle" "a' = (q, st(t := Pending op))" "e = [Invoke t op]"
      by (auto split: op_status.splits)
    have "held (st t) + mset (pushed_values e) = held (Pending op) + {#}"
      using t by (cases op) auto
    from held_exchange [OF fin this] have
      "(\<Sum>i\<in>busy (st(t := Pending op)). held ((st(t := Pending op)) i)) =
         (\<Sum>i\<in>busy st. held (st i)) + mset (pushed_values e)"
      by simp
    with eq fin' t show ?thesis by (simp add: spec_conserves_def ac_simps)
  next
    case (Effect t)
    with a st obtain op where op: "st t = Pending op" by (auto split: op_status.splits)
    obtain q' r where "apply_op op q = (q', r)" by fastforce
    with a st op Effect have t: "st t = Pending op" "apply_op op q = (q', r)"
      and a': "a' = (q', st(t := Finished r))" "e = []"
      by auto
    from held_exchange [OF fin, of t "mset q" "Finished r" "mset q'"] apply_op_held [OF t(2)] t(1)
    have "(\<Sum>i\<in>busy (st(t := Finished r)). held ((st(t := Finished r)) i)) + mset q' =
        (\<Sum>i\<in>busy st. held (st i)) + mset q"
      by simp
    with eq fin' a' show ?thesis by (simp add: spec_conserves_def ac_simps)
  next
    case (Reply t)
    with a st obtain r where t: "st t = Finished r" "a' = (q, st(t := Idle))" "e = [Return t r]"
      by (auto split: op_status.splits)
    have "held (st t) + {#} = held Idle + mset (popped_values e)"
      using t by (induction "[Return t r]" rule: popped_values.induct) auto
    from held_exchange [OF fin this] have
      "(\<Sum>i\<in>busy (st(t := Idle)). held ((st(t := Idle)) i)) + mset (popped_values e) =
         (\<Sum>i\<in>busy st. held (st i))"
      by simp
    with eq fin' t show ?thesis by (simp add: spec_conserves_def ac_simps)
  qed
qed

interpretation atomic_queue: step_invariant queue_spec init_spec spec_conserves
  by unfold_locales (simp add: spec_conserves_def init_spec_def busy_def, erule (1) spec_conserves_step)

lemma spec_pops_pushed:
  assumes "reach queue_spec init_spec es a"
  shows "mset (popped_values es) \<subseteq># mset (pushed_values es)"
  using atomic_queue.reach_inv [OF assms] by (auto simp: spec_conserves_def split: prod.splits)

subsection \<open>Histories that are not histories of the queue\<close>

text \<open>The operation a thread has called and that has not returned.\<close>

fun note_op :: "'v queue_event \<Rightarrow> (tid \<Rightarrow> 'v queue_op option) \<Rightarrow> tid \<Rightarrow> 'v queue_op option" where
  "note_op (Invoke t op) f = f(t := Some op)"
| "note_op (Return t r) f = f(t := None)"

definition open_op :: "'v queue_event list \<Rightarrow> tid \<Rightarrow> 'v queue_op option" where
  "open_op es = fold note_op es (\<lambda>_. None)"

lemma open_op_snoc [simp]: "open_op (es @ e) = fold note_op e (open_op es)"
  by (simp add: open_op_def)

fun fits :: "'v queue_op option \<Rightarrow> 'v op_status \<Rightarrow> bool" where
  "fits op Idle \<longleftrightarrow> op = None"
| "fits op (Pending op') \<longleftrightarrow> op = Some op'"
| "fits op (Finished Pushed) \<longleftrightarrow> (\<exists>v. op = Some (OpPush v))"
| "fits op (Finished (Popped x)) \<longleftrightarrow> op = Some OpPop"

definition all_fit :: "'v queue_event list \<Rightarrow> 'v atomic_queue \<Rightarrow> bool" where
  "all_fit es a \<longleftrightarrow> (\<forall>t. fits (open_op es t) (snd a t))"

lemma fits_apply: "apply_op op q = (q', r) \<Longrightarrow> fits (Some op) (Finished r)"
  by (induction op q rule: apply_op.induct) auto

lemma all_fit_step:
  assumes "all_fit es a" and "queue_spec c a = Some (a', e)"
  shows "all_fit (es @ e) a'"
proof -
  obtain q st where a: "a = (q, st)" by (cases a)
  note fit = assms(1) [unfolded all_fit_def a snd_conv, rule_format]
  show ?thesis
  proof (cases c)
    case (Call t op)
    with assms(2) a fit show ?thesis by (auto simp: all_fit_def split: op_status.splits)
  next
    case (Effect t)
    with assms(2) a obtain op where op: "st t = Pending op" by (auto split: op_status.splits)
    obtain q' r where r: "apply_op op q = (q', r)" by fastforce
    with op Effect a assms(2) have "a' = (q', st(t := Finished r))" "e = []" by auto
    moreover have "open_op es t = Some op" using fit [of t] op by simp
    ultimately show ?thesis using fit fits_apply [OF r] by (auto simp: all_fit_def)
  next
    case (Reply t)
    with assms(2) a fit show ?thesis by (auto simp: all_fit_def split: op_status.splits)
  qed
qed

interpretation statuses: step_invariant queue_spec init_spec all_fit
  by unfold_locales (simp add: all_fit_def open_op_def init_spec_def, erule (1) all_fit_step)

text \<open>
  A value that a completed push has left in the queue and nobody is popping: more often pushed than popped, and pushed by no operation
  under way. A pop called then cannot answer that the queue is empty.
\<close>

definition settled :: "'v queue_event list \<Rightarrow> 'v \<Rightarrow> bool" where
  "settled es v \<longleftrightarrow> v \<notin># mset (popped_values es) \<and> v \<in># mset (pushed_values es) \<and> (\<forall>t. open_op es t \<noteq> Some (OpPush v)) \<and>
     (\<forall>t. open_op es t \<noteq> Some OpPop)"

lemma settled_stays:
  assumes "spec_conserves (es @ [Invoke t OpPop]) (q, st)" and "all_fit (es @ [Invoke t OpPop]) (q, st)" and "settled es v" and "st t = Pending OpPop"
  shows "v \<in> set q"
proof -
  have "v \<notin># held (st u)" for u
    using assms(2-4) unfolding all_fit_def settled_def
    by (cases "u = t"; cases "st u" rule: held.cases) (auto dest: spec [of _ u])
  then have "v \<notin># (\<Sum>u\<in>busy st. held (st u))" using assms(1) by (auto simp: spec_conserves_def set_mset_sum)
  moreover have "mset (pushed_values es) = mset (popped_values es) + mset q + (\<Sum>u\<in>busy st. held (st u))"
    using assms(1) by (simp add: spec_conserves_def)
  then have "v \<in># mset (popped_values es) + mset q + (\<Sum>u\<in>busy st. held (st u))" using assms(3) unfolding settled_def by metis
  ultimately show ?thesis using assms(3) by (auto simp: settled_def)
qed

lemma no_false_empty:
  assumes "settled es v"
  shows "\<not> reach queue_spec init_spec (es @ [Invoke t OpPop, Return t (Popped None)]) a"
proof -
  let ?h = "es @ [Invoke t OpPop]"
  have "reach queue_spec init_spec fs a \<Longrightarrow>
      (fs = ?h \<longrightarrow> snd a t \<noteq> Finished (Popped None)) \<and> fs \<noteq> ?h @ [Return t (Popped None)]" for fs
  proof (induction rule: reach.induct)
    case reach_init
    show ?case by simp
  next
    case (reach_step fs a c a' e)
    obtain q st where a: "a = (q, st)" by (cases a)
    note C = atomic_queue.reach_inv [OF reach_step.hyps(1)] and F = statuses.reach_inv [OF reach_step.hyps(1)]
    show ?case
    proof (cases c)
      case (Call u op)
      with reach_step.hyps(2) a show ?thesis by (auto split: op_status.splits)
    next
      case (Effect u)
      with reach_step.hyps(2) a obtain op where op: "st u = Pending op" by (auto split: op_status.splits)
      obtain q' r where r: "apply_op op q = (q', r)" by fastforce
      with op Effect a reach_step.hyps(2) have a': "a' = (q', st(u := Finished r))" "e = []" by auto
      have "r \<noteq> Popped None" if "u = t" "fs = ?h"
      proof -
        have "st t = Pending OpPop" using F op that a by (auto simp: all_fit_def dest: spec [of _ t])
        then have "v \<in> set q" using settled_stays [OF _ _ assms] C F that a by blast
        then show ?thesis using r op \<open>st t = Pending OpPop\<close> that by (cases q) auto
      qed
      then show ?thesis using reach_step.IH a a' by auto
    next
      case (Reply u)
      with reach_step.hyps(2) a obtain r where "st u = Finished r" "a' = (q, st(u := Idle))" "e = [Return u r]" by (auto split: op_status.splits)
      then show ?thesis using reach_step.IH a by auto
    qed
  qed
  then show ?thesis by auto
qed

subsection \<open>Observing emptiness before deciding\<close>

text \<open>
  An implementation may read that the queue is empty and only later decide whether the pop reports it or starts again.
  The machine below separates the two: \<open>Observe\<close> notes that the queue is empty while a pop is pending, \<open>Commit\<close>
  lets a pop that has observed it return empty. Its histories are histories of the atomic queue: whichever pops will
  commit, their effect can be placed at the observation.
\<close>

datatype 'v observing_action =
    Plain "'v queue_action"
  | Observe tid
  | Commit tid

type_synonym 'v observing_queue = "'v atomic_queue \<times> tid set"

fun observing_spec :: "('v observing_action, 'v observing_queue, 'v queue_event) stepper" where
  "observing_spec (Plain c) (a, obs) =
     (case queue_spec c a of
        None \<Rightarrow> None
      | Some (a', e) \<Rightarrow> Some ((a', case c of Effect t \<Rightarrow> obs - {t} | _ \<Rightarrow> obs), e))"
| "observing_spec (Observe t) ((q, st), obs) =
     (if st t = Pending OpPop \<and> q = [] then Some (((q, st), insert t obs), []) else None)"
| "observing_spec (Commit t) ((q, st), obs) =
     (if t \<in> obs then Some (((q, st(t := Finished (Popped None))), obs - {t}), []) else None)"

definition chosen_empty :: "tid set \<Rightarrow> (tid \<Rightarrow> 'v op_status) \<Rightarrow> tid \<Rightarrow> 'v op_status" where
  "chosen_empty C st t = (if t \<in> C then Finished (Popped None) else st t)"

definition all_choices :: "'v queue_event list \<Rightarrow> 'v observing_queue \<Rightarrow> bool" where
  "all_choices es b = (case b of ((q, st), obs) \<Rightarrow>
     (\<forall>t \<in> obs. st t = Pending OpPop) \<and> (\<forall>C \<subseteq> obs. reach queue_spec init_spec es (q, chosen_empty C st)))"

lemma chosen_empty_none [simp]: "chosen_empty {} st = st"
  by (simp add: chosen_empty_def fun_eq_iff)

lemma chosen_empty_upd: "t \<notin> C \<Longrightarrow> (chosen_empty C st)(t := x) = chosen_empty C (st(t := x))"
  by (auto simp: chosen_empty_def)

lemma all_choices_plain:
  assumes "all_choices es ((q, st), obs)" and c: "queue_spec c (q, st) = Some ((q', st'), e)"
    and obs': "obs' = (case c of Effect t \<Rightarrow> obs - {t} | _ \<Rightarrow> obs)"
  shows "all_choices (es @ e) ((q', st'), obs')"
proof -
  have P: "\<forall>t \<in> obs. st t = Pending OpPop" and R: "\<And>C. C \<subseteq> obs \<Longrightarrow> reach queue_spec init_spec es (q, chosen_empty C st)"
    using assms(1) by (auto simp: all_choices_def)
  obtain t x where t: "st' = st(t := x)" "t \<notin> obs'" "obs' \<subseteq> obs"
    and step: "\<And>f. f t = st t \<Longrightarrow> queue_spec c (q, f) = Some ((q', f(t := x)), e)"
  proof (cases c)
    case (Call t op)
    then have "st t = Idle" using c by (auto split: op_status.splits)
    moreover from this have "t \<notin> obs" using P by auto
    ultimately show thesis using Call c obs' that [of t "Pending op"] by auto
  next
    case (Effect t)
    with c obtain op where op: "st t = Pending op" by (auto split: op_status.splits)
    with Effect c obs' that [of t "Finished (snd (apply_op op q))"] show thesis by (auto simp: case_prod_unfold Let_def)
  next
    case (Reply t)
    then obtain r where "st t = Finished r" using c by (auto split: op_status.splits)
    moreover from this have "t \<notin> obs" using P by auto
    ultimately show thesis using Reply c obs' that [of t Idle] by auto
  qed
  have "reach queue_spec init_spec (es @ e) (q', chosen_empty C st')" if C: "C \<subseteq> obs'" for C
  proof -
    have tC: "t \<notin> C" using C t(2) by blast
    have "queue_spec c (q, chosen_empty C st) = Some ((q', (chosen_empty C st)(t := x)), e)"
      by (rule step) (simp add: chosen_empty_def tC)
    then show ?thesis using reach.reach_step [OF R [of C]] C t tC by (simp add: chosen_empty_upd)
  qed
  then show ?thesis using P t by (auto simp: all_choices_def)
qed

lemma all_choices_step:
  assumes inv: "all_choices es b" and st: "observing_spec c b = Some (b', e)"
  shows "all_choices (es @ e) b'"
proof -
  obtain q s obs where b: "b = ((q, s), obs)" by (metis surj_pair)
  have P: "\<forall>t \<in> obs. s t = Pending OpPop" and R: "\<And>C. C \<subseteq> obs \<Longrightarrow> reach queue_spec init_spec es (q, chosen_empty C s)"
    using inv by (auto simp: all_choices_def b)
  show ?thesis
  proof (cases c)
    case (Plain p)
    with st b obtain q' s' where "queue_spec p (q, s) = Some ((q', s'), e)" and b': "b' = ((q', s'), case p of Effect t \<Rightarrow> obs - {t} | _ \<Rightarrow> obs)"
      by (auto split: option.splits)
    with all_choices_plain [of es q s obs p q' s' e] inv b show ?thesis by simp
  next
    case (Observe t)
    with st b have t: "s t = Pending OpPop" "q = []" "b' = ((q, s), insert t obs)" "e = []" by (auto split: if_splits)
    have "reach queue_spec init_spec es (q, chosen_empty C s)" if C: "C \<subseteq> insert t obs" for C
    proof (cases "t \<in> C")
      case True
      let ?C = "C - {t}"
      have r: "reach queue_spec init_spec es (q, chosen_empty ?C s)" using C by (intro R) auto
      have "reach queue_spec (q, chosen_empty ?C s) [] (q, (chosen_empty ?C s)(t := Finished (Popped None)))"
        using spec_effect [of "chosen_empty ?C s" t OpPop q] t by (simp add: chosen_empty_def)
      moreover have "(chosen_empty ?C s)(t := Finished (Popped None)) = chosen_empty C s" using True by (auto simp: chosen_empty_def)
      ultimately show ?thesis using reach_trans [OF _ r] by fastforce
    next
      case False
      then show ?thesis using R C by blast
    qed
    then show ?thesis using P t by (auto simp: all_choices_def)
  next
    case (Commit t)
    with st b have t: "t \<in> obs" "b' = ((q, s(t := Finished (Popped None))), obs - {t})" "e = []" by (auto split: if_splits)
    have "reach queue_spec init_spec es (q, chosen_empty C (s(t := Finished (Popped None))))" if C: "C \<subseteq> obs - {t}" for C
    proof -
      have "reach queue_spec init_spec es (q, chosen_empty (insert t C) s)" using C t(1) by (intro R) auto
      moreover have "chosen_empty (insert t C) s = chosen_empty C (s(t := Finished (Popped None)))" by (auto simp: chosen_empty_def)
      ultimately show ?thesis by simp
    qed
    then show ?thesis using P t by (auto simp: all_choices_def)
  qed
qed

definition init_observing :: "'v observing_queue" where
  "init_observing = (init_spec, {})"

interpretation observing: step_invariant observing_spec init_observing all_choices
proof
  show "all_choices [] init_observing"
    by (simp add: all_choices_def init_observing_def init_spec_def reach.reach_init)
qed (rule all_choices_step)

lemma observing_refines:
  assumes "reach observing_spec init_observing es b"
  shows "reach queue_spec init_spec es (fst b)"
proof -
  obtain q st obs where b: "b = ((q, st), obs)" by (metis surj_pair)
  have "\<forall>C \<subseteq> obs. reach queue_spec init_spec es (q, chosen_empty C st)"
    using observing.reach_inv [OF assms] by (simp add: all_choices_def b)
  then show ?thesis using b by fastforce
qed

end
