(* ===== verification/Node_Chain.thy ===== *)
theory Node_Chain
  imports Prelude
begin

text \<open>
  Positions in the chain of nodes of a linked queue, shared by the two Michael-Scott queues.

  \<open>ns\<close> lists the nodes ever linked, in order. It only grows, and \<open>head\<close> and \<open>tail\<close> only move forward in it, so what a thread has
  learnt about a pointer (\<open>seen\<close>, \<open>seen_next\<close>, \<open>follows\<close>, \<open>behind\<close>) stays true: the monotonicity lemmas. \<open>exclusive\<close> says
  that no two threads own the same node.
\<close>

definition node_at :: "addr list \<Rightarrow> nat \<Rightarrow> ptr \<Rightarrow> bool" where
  "node_at ns i p \<longleftrightarrow> i < length ns \<and> p = Some (ns ! i)"

text \<open>A pointer to a node at or before a position; one with a successor; a node and its successor.\<close>

definition seen :: "addr list \<Rightarrow> nat \<Rightarrow> ptr \<Rightarrow> bool" where
  "seen ns k p \<longleftrightarrow> (\<exists>i \<le> k. node_at ns i p)"

definition seen_next :: "addr list \<Rightarrow> nat \<Rightarrow> ptr \<Rightarrow> bool" where
  "seen_next ns k p \<longleftrightarrow> (\<exists>i \<le> k. node_at ns i p \<and> Suc i < length ns)"

definition follows :: "addr list \<Rightarrow> nat \<Rightarrow> ptr \<Rightarrow> ptr \<Rightarrow> bool" where
  "follows ns k p nx \<longleftrightarrow> (\<exists>i \<le> k. node_at ns i p \<and> node_at ns (Suc i) nx)"

definition behind :: "addr list \<Rightarrow> nat \<Rightarrow> ptr \<Rightarrow> bool" where
  "behind ns k p \<longleftrightarrow> (\<exists>i < k. node_at ns i p)"

definition exclusive :: "('pc \<Rightarrow> ptr) \<Rightarrow> (tid \<Rightarrow> 'pc) \<Rightarrow> bool" where
  "exclusive f pcs \<longleftrightarrow> (\<forall>t u a. f (pcs t) = Some a \<longrightarrow> f (pcs u) = Some a \<longrightarrow> t = u)"

lemma node_at_append [intro]: "node_at ns i p \<Longrightarrow> node_at (ns @ ms) i p"
  by (auto simp: node_at_def nth_append)

lemma node_at_unique: "distinct ns \<Longrightarrow> node_at ns i p \<Longrightarrow> node_at ns j p \<Longrightarrow> i = j"
  by (auto simp: node_at_def nth_eq_iff_index_eq)

lemma exclusive_upd:
  "exclusive f pcs \<Longrightarrow> f p = None \<or> f p = f (pcs t) \<Longrightarrow> exclusive f (pcs(t := p))"
  unfolding exclusive_def fun_upd_def by (metis option.distinct(1))

lemma exclusive_new:
  "exclusive f pcs \<Longrightarrow> (\<And>u. f (pcs u) \<noteq> f p) \<Longrightarrow> exclusive f (pcs(t := p))"
  unfolding exclusive_def fun_upd_def by metis

lemma seen_mono: "seen ns k p \<Longrightarrow> k \<le> k' \<Longrightarrow> seen (ns @ ms) k' p"
  unfolding seen_def by (meson le_trans node_at_append)

lemma behind_mono: "behind ns k p \<Longrightarrow> k \<le> k' \<Longrightarrow> behind (ns @ ms) k' p"
  unfolding behind_def by (meson less_le_trans node_at_append)

lemma seen_next_mono: "seen_next ns k p \<Longrightarrow> k \<le> k' \<Longrightarrow> seen_next (ns @ ms) k' p"
  unfolding seen_next_def length_append by (meson le_trans node_at_append trans_less_add1)

lemma follows_mono: "follows ns k p nx \<Longrightarrow> k \<le> k' \<Longrightarrow> follows (ns @ ms) k' p nx"
  unfolding follows_def by (meson le_trans node_at_append)

lemma last_position: "node_at ns i p \<Longrightarrow> \<not> Suc i < length ns \<Longrightarrow> i \<le> k \<Longrightarrow> k < length ns \<Longrightarrow> k = i"
  by (auto simp: node_at_def)

end
