(* ===== verification/Hazard.thy ===== *)
theory Hazard
  imports Prelude "HOL-Library.Multiset"
begin

text \<open>
  Hazard pointers: \<^verbatim>\<open>src/components/lock_free/hazard\<close> (\<open>HazardManager\<close>, \<open>Mutator\<close>,
  \<open>ThreadState\<close>, \<open>RetirePtr\<close>).

  A thread announces the node it is about to read in its \<open>protected_ptr\<close> and hands unlinked
  nodes over to its stack \<open>retired_ptrs\<close>; the collector frees the retired nodes that no thread
  protects. The map from threads to their states is kept as the list in which the unordered map is
  iterated; \<open>hz_freed\<close> lists the addresses whose deleter has run. A push on the stack of retired
  nodes (a compare-exchange loop) takes effect in one step.

  \<open>hz_step\<close> interleaves any number of mutator threads with the collector thread; the collector
  reads one hazard, takes one stack or treats one candidate per step and holds \<open>thread_lock\<close>
  for the whole pass, as the code does. The lemmas show that each retired node is freed at most once and
  is never lost, that a node protected before a pass starts survives while it stays protected,
  and that the usual hazard-pointer guarantee (protected before retired) is nevertheless broken: the
  pass takes the stacks of retired nodes after it has read the hazards. The sequential lemmas
  describe a pass without interference and the destructor.
\<close>

record thread_state =
  protected_ptr :: ptr
  retired_ptrs :: "addr list"   \<comment> \<open>the \<open>value\<close> fields of the \<open>RetirePtr\<close> stack, top first\<close>

record hazard_manager =
  hz_threads :: "(tid \<times> thread_state) list"
  approximate_free_list_size :: size_t
  mutators_count :: size_t
  cancel_collect :: bool
  hz_freed :: "addr list"

definition new_thread_state :: thread_state where
  "new_thread_state = \<lparr>protected_ptr = None, retired_ptrs = []\<rparr>"

definition init_hazard :: hazard_manager where
  "init_hazard =
     \<lparr>hz_threads = [], approximate_free_list_size = 0, mutators_count = 0, cancel_collect = False, hz_freed = []\<rparr>"

definition LimitFreeList :: size_t where
  "LimitFreeList = 8"

definition with_thread :: "tid \<Rightarrow> (thread_state \<Rightarrow> thread_state) \<Rightarrow> hazard_manager \<Rightarrow> hazard_manager" where
  "with_thread t f m = m\<lparr>hz_threads := map (\<lambda>(k, st). (k, if k = t then f st else st)) (hz_threads m)\<rparr>"

definition thread_ids :: "hazard_manager \<Rightarrow> tid list" where
  "thread_ids m = map fst (hz_threads m)"

definition registered :: "tid \<Rightarrow> hazard_manager \<Rightarrow> bool" where
  "registered t m \<longleftrightarrow> t \<in> set (thread_ids m)"

subsection \<open>The mutator\<close>

definition MakeMutator_insert :: "tid \<Rightarrow> hazard_manager \<Rightarrow> hazard_manager" where
  "MakeMutator_insert t m =
     (if registered t m then m else m\<lparr>hz_threads := hz_threads m @ [(t, new_thread_state)]\<rparr>)"

definition MakeMutator_count :: "hazard_manager \<Rightarrow> hazard_manager" where
  "MakeMutator_count m = m\<lparr>mutators_count := mutators_count m + 1\<rparr>"

text \<open>\<open>RegisterThread\<close> looks the thread up with \<open>operator[]\<close>: a null state when it is missing.\<close>

definition RegisterThread :: "tid \<Rightarrow> hazard_manager \<Rightarrow> fault + hazard_manager" where
  "RegisterThread t m = (if registered t m then Inr m else Inl NullDeref)"

definition MakeMutator :: "tid \<Rightarrow> hazard_manager \<Rightarrow> fault + hazard_manager" where
  "MakeMutator t m =
     (if cancel_collect m then Inl AssertFailed
      else RegisterThread t (MakeMutator_count (MakeMutator_insert t m)))"

definition protect :: "tid \<Rightarrow> ptr \<Rightarrow> hazard_manager \<Rightarrow> hazard_manager" where
  "protect t p = with_thread t (\<lambda>st. st\<lparr>protected_ptr := p\<rparr>)"

definition Release :: "tid \<Rightarrow> hazard_manager \<Rightarrow> hazard_manager" where
  "Release t = protect t None"

definition push_retired :: "tid \<Rightarrow> addr \<Rightarrow> hazard_manager \<Rightarrow> hazard_manager" where
  "push_retired t a = with_thread t (\<lambda>st. st\<lparr>retired_ptrs := a # retired_ptrs st\<rparr>)"

definition IncreaseRetired :: "hazard_manager \<Rightarrow> hazard_manager" where
  "IncreaseRetired m = m\<lparr>approximate_free_list_size := approximate_free_list_size m + 1\<rparr>"

definition Retire :: "tid \<Rightarrow> ptr \<Rightarrow> hazard_manager \<Rightarrow> hazard_manager" where
  "Retire t value m =
     (case value of None \<Rightarrow> m | Some a \<Rightarrow> IncreaseRetired (push_retired t a m))"

definition Mutator_leave :: "hazard_manager \<Rightarrow> fault + hazard_manager" where
  "Mutator_leave m =
     (let prev = mutators_count m; m' = m\<lparr>mutators_count := prev - 1\<rparr>
      in if prev > 0 then Inr m' else Inl AssertFailed)"

definition destroy_Mutator :: "tid \<Rightarrow> hazard_manager \<Rightarrow> fault + hazard_manager" where
  "destroy_Mutator t m = Mutator_leave (Release t m)"

subsection \<open>The collector\<close>

text \<open>
  \<open>CheckToDelete\<close> takes the whole stack of the thread and treats the candidates one by one: a
  protected candidate is pushed back, any other is deleted.
\<close>

definition thread_retired :: "tid \<Rightarrow> hazard_manager \<Rightarrow> addr list" where
  "thread_retired t m = (case map_of (hz_threads m) t of None \<Rightarrow> [] | Some st \<Rightarrow> retired_ptrs st)"

definition take_retired :: "tid \<Rightarrow> hazard_manager \<Rightarrow> hazard_manager" where
  "take_retired t = with_thread t (\<lambda>st. st\<lparr>retired_ptrs := []\<rparr>)"

definition check_candidate :: "tid \<Rightarrow> addr list \<Rightarrow> addr \<Rightarrow> hazard_manager \<Rightarrow> hazard_manager" where
  "check_candidate t prot c m =
     (if c \<in> set prot then IncreaseRetired (push_retired t c m)
      else m\<lparr>hz_freed := hz_freed m @ [c]\<rparr>)"

definition CheckToDelete :: "tid \<Rightarrow> addr list \<Rightarrow> hazard_manager \<Rightarrow> hazard_manager" where
  "CheckToDelete t prot m = fold (check_candidate t prot) (thread_retired t m) (take_retired t m)"

definition thread_hazard :: "tid \<Rightarrow> hazard_manager \<Rightarrow> addr list" where
  "thread_hazard t m =
     (case map_of (hz_threads m) t of
        None \<Rightarrow> []
      | Some st \<Rightarrow> (case protected_ptr st of None \<Rightarrow> [] | Some a \<Rightarrow> [a]))"

definition collect_pass :: "hazard_manager \<Rightarrow> hazard_manager" where
  "collect_pass m =
     (let m1 = m\<lparr>approximate_free_list_size := 0\<rparr>; ts = thread_ids m1;
          prot = concat (map (\<lambda>t. thread_hazard t m1) ts)
      in fold (\<lambda>t. CheckToDelete t prot) ts m1)"

definition collect_continues :: "hazard_manager \<Rightarrow> bool" where
  "collect_continues m \<longleftrightarrow> \<not> cancel_collect m \<and> mutators_count m \<noteq> 0"

definition collect_sleeps :: "hazard_manager \<Rightarrow> bool" where
  "collect_sleeps m \<longleftrightarrow> approximate_free_list_size m < LimitFreeList \<and> \<not> cancel_collect m"

fun destroy_threads :: "tid list \<Rightarrow> hazard_manager \<Rightarrow> fault + hazard_manager" where
  "destroy_threads [] m = Inr m"
| "destroy_threads (t # ts) m =
     (if thread_hazard t m \<noteq> [] then Inl AssertFailed
      else
        let m' = CheckToDelete t [] m
        in if thread_retired t m' \<noteq> [] then Inl AssertFailed else destroy_threads ts m')"

text \<open>The destructor, after the collector thread has been joined.\<close>

definition destroy_HazardManager :: "hazard_manager \<Rightarrow> fault + hazard_manager" where
  "destroy_HazardManager m =
     bind_res (destroy_threads (thread_ids m) (m\<lparr>cancel_collect := True\<rparr>))
       (\<lambda>m'. let m'' = m'\<lparr>hz_threads := []\<rparr>
              in if mutators_count m'' = 0 then Inr m'' else Inl AssertFailed)"

subsection \<open>Mutators and the collector interleaved\<close>

datatype mut_pc =
    NoMutator
  | MakeCount        \<comment> \<open>\<open>MakeMutator\<close>: the thread is in the map, next is the count\<close>
  | MakeRegister     \<comment> \<open>constructor: next is \<open>RegisterThread\<close>\<close>
  | HasMutator
  | RetireIncrease   \<comment> \<open>\<open>Retire\<close>: pushed, next is \<open>IncreaseRetired\<close>\<close>
  | DestroyCount     \<comment> \<open>destructor: released, next is the count\<close>
  | MutFault fault

datatype collector =
    CollectTest
  | CollectReset
  | CollectLock
  | Snapshot "tid list" "addr list"                   \<comment> \<open>threads to read, hazards read\<close>
  | Sweep "tid list" "addr list"                      \<comment> \<open>threads to check, hazards\<close>
  | Candidates tid "addr list" "tid list" "addr list" \<comment> \<open>thread, its candidates, threads to check, hazards\<close>
  | CollectSleep
  | CollectDone

record hazard_system =
  hz :: hazard_manager
  hz_collector :: collector
  hz_pc :: "tid \<Rightarrow> mut_pc"

datatype hz_event =
    Protects tid ptr
  | Retires tid addr
  | Frees addr

datatype hz_choice =
    Make tid
  | Protect tid ptr
  | RetireNode tid addr
  | Destroy tid
  | Continue tid
  | Collector

definition init_system :: hazard_system where
  "init_system = \<lparr>hz = init_hazard, hz_collector = CollectTest, hz_pc = (\<lambda>_. NoMutator)\<rparr>"

definition thread_lock_free :: "hazard_system \<Rightarrow> bool" where
  "thread_lock_free s =
     (case hz_collector s of Snapshot _ _ \<Rightarrow> False | Sweep _ _ \<Rightarrow> False | Candidates _ _ _ _ \<Rightarrow> False | _ \<Rightarrow> True)"

definition set_mut :: "tid \<Rightarrow> mut_pc \<Rightarrow> hazard_manager \<Rightarrow> hazard_system \<Rightarrow> hazard_system" where
  "set_mut t p m s = s\<lparr>hz := m, hz_pc := (hz_pc s)(t := p)\<rparr>"

definition settle_mut :: "tid \<Rightarrow> mut_pc \<Rightarrow> fault + hazard_manager \<Rightarrow> hazard_system \<Rightarrow> hazard_system" where
  "settle_mut t p r s = (case r of Inl f \<Rightarrow> set_mut t (MutFault f) (hz s) s | Inr m \<Rightarrow> set_mut t p m s)"

fun Collect_step :: "hazard_system \<Rightarrow> (hazard_system \<times> hz_event list) option" where
  "Collect_step s =
     (case hz_collector s of
        CollectTest \<Rightarrow>
          Some (s\<lparr>hz_collector := if collect_continues (hz s) then CollectReset else CollectDone\<rparr>, [])
      | CollectReset \<Rightarrow>
          Some (s\<lparr>hz := (hz s)\<lparr>approximate_free_list_size := 0\<rparr>, hz_collector := CollectLock\<rparr>, [])
      | CollectLock \<Rightarrow> Some (s\<lparr>hz_collector := Snapshot (thread_ids (hz s)) []\<rparr>, [])
      | Snapshot (t # ts) prot \<Rightarrow>
          Some (s\<lparr>hz_collector := Snapshot ts (thread_hazard t (hz s) @ prot)\<rparr>, [])
      | Snapshot [] prot \<Rightarrow> Some (s\<lparr>hz_collector := Sweep (thread_ids (hz s)) prot\<rparr>, [])
      | Sweep (t # ts) prot \<Rightarrow>
          Some (s\<lparr>hz := take_retired t (hz s),
                  hz_collector := Candidates t (thread_retired t (hz s)) ts prot\<rparr>, [])
      | Sweep [] prot \<Rightarrow> Some (s\<lparr>hz_collector := CollectSleep\<rparr>, [])
      | Candidates t (c # cs) ts prot \<Rightarrow>
          Some (s\<lparr>hz := check_candidate t prot c (hz s), hz_collector := Candidates t cs ts prot\<rparr>,
                if c \<in> set prot then [] else [Frees c])
      | Candidates t [] ts prot \<Rightarrow> Some (s\<lparr>hz_collector := Sweep ts prot\<rparr>, [])
      | CollectSleep \<Rightarrow>
          Some (if collect_sleeps (hz s) then s else s\<lparr>hz_collector := CollectTest\<rparr>, [])
      | CollectDone \<Rightarrow> None)"

fun hz_step :: "(hz_choice, hazard_system, hz_event) stepper" where
  "hz_step (Make t) s =
     (if hz_pc s t = NoMutator \<and> thread_lock_free s
      then Some (if cancel_collect (hz s) then set_mut t (MutFault AssertFailed) (hz s) s
                 else set_mut t MakeCount (MakeMutator_insert t (hz s)) s, [])
      else None)"
| "hz_step (Protect t p) s =
     (if hz_pc s t = HasMutator
      then Some (set_mut t HasMutator (protect t p (hz s)) s, [Protects t p]) else None)"
| "hz_step (RetireNode t a) s =
     (if hz_pc s t = HasMutator
      then Some (set_mut t RetireIncrease (push_retired t a (hz s)) s, [Retires t a]) else None)"
| "hz_step (Destroy t) s =
     (if hz_pc s t = HasMutator
      then Some (set_mut t DestroyCount (Release t (hz s)) s, [Protects t None]) else None)"
| "hz_step (Continue t) s =
     (case hz_pc s t of
        MakeCount \<Rightarrow> Some (set_mut t MakeRegister (MakeMutator_count (hz s)) s, [])
      | MakeRegister \<Rightarrow>
          (if thread_lock_free s
           then Some (settle_mut t HasMutator (RegisterThread t (hz s)) s, []) else None)
      | RetireIncrease \<Rightarrow> Some (set_mut t HasMutator (IncreaseRetired (hz s)) s, [])
      | DestroyCount \<Rightarrow> Some (settle_mut t NoMutator (Mutator_leave (hz s)) s, [])
      | _ \<Rightarrow> None)"
| "hz_step Collector s = Collect_step s"

subsection \<open>The store of thread states\<close>

definition all_retired :: "hazard_manager \<Rightarrow> addr list" where
  "all_retired m = concat (map (\<lambda>(k, st). retired_ptrs st) (hz_threads m))"

lemma thread_ids_with_thread [simp]: "thread_ids (with_thread t f m) = thread_ids m"
  by (simp add: thread_ids_def with_thread_def comp_def case_prod_unfold)

lemma with_thread_fields [simp]:
  "mutators_count (with_thread t f m) = mutators_count m"
  "cancel_collect (with_thread t f m) = cancel_collect m"
  "hz_freed (with_thread t f m) = hz_freed m"
  "approximate_free_list_size (with_thread t f m) = approximate_free_list_size m"
  by (simp_all add: with_thread_def)

lemma map_of_update:
  "map_of (map (\<lambda>(k, st). (k, if k = t then f st else st)) xs) t' =
     (if t' = t then map_option f (map_of xs t) else map_of xs t')"
  by (induction xs) auto

lemma map_of_with_thread:
  "map_of (hz_threads (with_thread t f m)) t' =
     (if t' = t then map_option f (map_of (hz_threads m) t) else map_of (hz_threads m) t')"
  by (simp add: with_thread_def map_of_update)

lemma update_absent:
  "t \<notin> fst ` set xs \<Longrightarrow> map (\<lambda>(k, st). (k, if k = t then f st else st)) xs = xs"
  by (induction xs) (auto simp: image_iff)

lemma retired_update:
  "distinct (map fst xs) \<Longrightarrow> map_of xs t = Some st \<Longrightarrow>
     mset (concat (map (\<lambda>(k, st). retired_ptrs st) (map (\<lambda>(k, st). (k, if k = t then f st else st)) xs)))
       + mset (retired_ptrs st) =
     mset (concat (map (\<lambda>(k, st). retired_ptrs st) xs)) + mset (retired_ptrs (f st))"
proof (induction xs)
  case (Cons x xs)
  obtain k s where x: "x = (k, s)" by (cases x)
  show ?case
  proof (cases "k = t")
    case True
    with Cons.prems x have "t \<notin> fst ` set xs" "st = s" by auto
    with x True show ?thesis by (simp add: update_absent [of t xs f])
  next
    case False
    with Cons x show ?thesis by (auto simp: ac_simps)
  qed
qed simp

lemma all_retired_with_thread:
  "distinct (thread_ids m) \<Longrightarrow> map_of (hz_threads m) t = Some st \<Longrightarrow>
     mset (all_retired (with_thread t f m)) + mset (retired_ptrs st) =
     mset (all_retired m) + mset (retired_ptrs (f st))"
  using retired_update [of "hz_threads m" t st f]
  by (simp add: all_retired_def with_thread_def thread_ids_def)

lemma registered_iff: "registered t m \<longleftrightarrow> map_of (hz_threads m) t \<noteq> None"
  by (simp add: registered_def thread_ids_def map_of_eq_None_iff)

lemma registered_map_of: "registered t m \<Longrightarrow> \<exists>st. map_of (hz_threads m) t = Some st"
  by (simp add: registered_iff)

lemma all_retired_push:
  "distinct (thread_ids m) \<Longrightarrow> registered t m \<Longrightarrow>
     mset (all_retired (push_retired t a m)) = add_mset a (mset (all_retired m))"
  using all_retired_with_thread [of m t _ "\<lambda>st. st\<lparr>retired_ptrs := a # retired_ptrs st\<rparr>"]
  by (auto dest!: registered_map_of simp: push_retired_def)

lemma all_retired_take:
  "distinct (thread_ids m) \<Longrightarrow> registered t m \<Longrightarrow>
     mset (all_retired m) = mset (thread_retired t m) + mset (all_retired (take_retired t m))"
  using all_retired_with_thread [of m t _ "\<lambda>st. st\<lparr>retired_ptrs := []\<rparr>"]
  by (auto dest!: registered_map_of simp: take_retired_def thread_retired_def ac_simps)

lemma all_retired_protect: "distinct (thread_ids m) \<Longrightarrow> mset (all_retired (protect t p m)) = mset (all_retired m)"
proof (cases "registered t m")
  case True
  then obtain st where "map_of (hz_threads m) t = Some st" using registered_map_of by blast
  moreover assume "distinct (thread_ids m)"
  ultimately show ?thesis
    using all_retired_with_thread [of m t st "\<lambda>st. st\<lparr>protected_ptr := p\<rparr>"] by (simp add: protect_def)
next
  case False
  then show ?thesis
    by (simp add: protect_def with_thread_def registered_def thread_ids_def update_absent)
qed

lemma all_retired_other [simp]:
  "all_retired (m\<lparr>approximate_free_list_size := n\<rparr>) = all_retired m"
  "all_retired (m\<lparr>mutators_count := c\<rparr>) = all_retired m"
  "all_retired (m\<lparr>hz_freed := fs\<rparr>) = all_retired m"
  "all_retired (m\<lparr>cancel_collect := b\<rparr>) = all_retired m"
  "all_retired (MakeMutator_insert t m) = all_retired m"
  "all_retired (IncreaseRetired m) = all_retired m"
  by (simp_all add: all_retired_def MakeMutator_insert_def new_thread_state_def IncreaseRetired_def)

lemma thread_ids_fields [simp]:
  "thread_ids (m\<lparr>approximate_free_list_size := n\<rparr>) = thread_ids m"
  "thread_ids (m\<lparr>mutators_count := c\<rparr>) = thread_ids m"
  "thread_ids (m\<lparr>hz_freed := fs\<rparr>) = thread_ids m"
  "thread_ids (m\<lparr>cancel_collect := b\<rparr>) = thread_ids m"
  by (simp_all add: thread_ids_def)

lemma thread_ids_ops [simp]:
  "thread_ids (push_retired t a m) = thread_ids m" "thread_ids (take_retired t m) = thread_ids m"
  "thread_ids (protect t p m) = thread_ids m" "thread_ids (check_candidate t prot c m) = thread_ids m"
  "thread_ids (MakeMutator_insert t m) = (if registered t m then thread_ids m else thread_ids m @ [t])"
  "thread_ids (MakeMutator_count m) = thread_ids m" "thread_ids (IncreaseRetired m) = thread_ids m"
  by (simp_all add: push_retired_def take_retired_def protect_def check_candidate_def
      MakeMutator_insert_def MakeMutator_count_def IncreaseRetired_def)
    (simp add: thread_ids_def)

lemma mutators_count_ops [simp]:
  "mutators_count (push_retired t a m) = mutators_count m"
  "mutators_count (take_retired t m) = mutators_count m"
  "mutators_count (protect t p m) = mutators_count m"
  "mutators_count (check_candidate t prot c m) = mutators_count m"
  "mutators_count (MakeMutator_insert t m) = mutators_count m"
  "mutators_count (MakeMutator_count m) = mutators_count m + 1"
  "mutators_count (IncreaseRetired m) = mutators_count m"
  by (simp_all add: push_retired_def take_retired_def protect_def check_candidate_def
      MakeMutator_insert_def MakeMutator_count_def IncreaseRetired_def)

lemma thread_hazard_ops [simp]:
  "thread_hazard t (push_retired t' a m) = thread_hazard t m"
  "thread_hazard t (take_retired t' m) = thread_hazard t m"
  "thread_hazard t (check_candidate t' prot c m) = thread_hazard t m"
  "thread_hazard t (MakeMutator_count m) = thread_hazard t m"
  "thread_hazard t (IncreaseRetired m) = thread_hazard t m"
  "thread_hazard t (m\<lparr>approximate_free_list_size := n\<rparr>) = thread_hazard t m"
  "thread_hazard t (m\<lparr>mutators_count := k\<rparr>) = thread_hazard t m"
  by (auto simp: thread_hazard_def push_retired_def take_retired_def check_candidate_def
      MakeMutator_count_def IncreaseRetired_def map_of_with_thread split: option.splits)

lemma thread_hazard_insert [simp]: "thread_hazard t (MakeMutator_insert t' m) = thread_hazard t m"
  by (auto simp: thread_hazard_def MakeMutator_insert_def registered_iff new_thread_state_def map_add_def
      split: option.splits if_splits)

lemma thread_hazard_protect:
  "thread_hazard t (protect t' p m) =
     (if t = t' \<and> registered t m then (case p of None \<Rightarrow> [] | Some a \<Rightarrow> [a]) else thread_hazard t m)"
  by (auto simp: thread_hazard_def protect_def map_of_with_thread registered_iff split: option.splits)

subsection \<open>Every retired node is freed once or still held\<close>

fun retires :: "hz_event list \<Rightarrow> addr list" where
  "retires [] = []"
| "retires (Retires t a # es) = a # retires es"
| "retires (_ # es) = retires es"

fun frees :: "hz_event list \<Rightarrow> addr list" where
  "frees [] = []"
| "frees (Frees a # es) = a # frees es"
| "frees (_ # es) = frees es"

lemma retires_append [simp]: "retires (es @ fs) = retires es @ retires fs"
  by (induction es rule: retires.induct) auto

lemma frees_append [simp]: "frees (es @ fs) = frees es @ frees fs"
  by (induction es rule: frees.induct) auto

fun in_hand :: "collector \<Rightarrow> addr list" where
  "in_hand (Candidates t cs ts prot) = cs"
| "in_hand _ = []"

fun to_visit :: "collector \<Rightarrow> tid list" where
  "to_visit (Candidates t cs ts prot) = t # ts"
| "to_visit (Sweep ts prot) = ts"
| "to_visit _ = []"

definition active :: "mut_pc \<Rightarrow> bool" where
  "active p \<longleftrightarrow> p \<in> {MakeCount, MakeRegister, HasMutator, RetireIncrease, DestroyCount}"

definition hz_wf :: "hazard_system \<Rightarrow> bool" where
  "hz_wf s \<longleftrightarrow> distinct (thread_ids (hz s)) \<and> (\<forall>t. active (hz_pc s t) \<longrightarrow> registered t (hz s)) \<and>
     set (to_visit (hz_collector s)) \<subseteq> set (thread_ids (hz s)) \<and> \<not> cancel_collect (hz s)"

definition conserved :: "hz_event list \<Rightarrow> hazard_system \<Rightarrow> bool" where
  "conserved es s \<longleftrightarrow>
     mset (retires es) = mset (frees es) + mset (all_retired (hz s)) + mset (in_hand (hz_collector s)) \<and>
     hz_freed (hz s) = frees es"

definition counted :: "hazard_system \<Rightarrow> tid set" where
  "counted s = {t. hz_pc s t \<in> {MakeRegister, HasMutator, RetireIncrease, DestroyCount}}"

definition counts :: "hazard_system \<Rightarrow> bool" where
  "counts s \<longleftrightarrow> (length (hz_threads (hz s)) < 2 ^ 64 \<longrightarrow>
     mutators_count (hz s) = of_nat (card (counted s)) \<and> (\<forall>t f. hz_pc s t \<noteq> MutFault f))"

lemmas mut_ops = set_mut_def settle_mut_def RegisterThread_def Mutator_leave_def Release_def Let_def

lemma cancel_collect_ops [simp]:
  "cancel_collect (push_retired t a m) = cancel_collect m"
  "cancel_collect (take_retired t m) = cancel_collect m"
  "cancel_collect (protect t p m) = cancel_collect m"
  "cancel_collect (check_candidate t prot c m) = cancel_collect m"
  "cancel_collect (MakeMutator_insert t m) = cancel_collect m"
  "cancel_collect (MakeMutator_count m) = cancel_collect m"
  "cancel_collect (IncreaseRetired m) = cancel_collect m"
  by (simp_all add: push_retired_def take_retired_def protect_def check_candidate_def
      MakeMutator_insert_def MakeMutator_count_def IncreaseRetired_def)

lemma hz_freed_ops [simp]:
  "hz_freed (push_retired t a m) = hz_freed m" "hz_freed (take_retired t m) = hz_freed m"
  "hz_freed (protect t p m) = hz_freed m" "hz_freed (MakeMutator_insert t m) = hz_freed m"
  "hz_freed (MakeMutator_count m) = hz_freed m" "hz_freed (IncreaseRetired m) = hz_freed m"
  by (simp_all add: push_retired_def take_retired_def protect_def MakeMutator_insert_def
      MakeMutator_count_def IncreaseRetired_def)

lemma all_retired_count [simp]: "all_retired (MakeMutator_count m) = all_retired m"
  by (simp add: MakeMutator_count_def)

lemma hz_step_wf:
  assumes "hz_wf s" and st: "hz_step c s = Some (s', e)"
  shows "hz_wf s'"
proof (cases c)
  case Collector
  with assms show ?thesis
    by (auto simp: hz_wf_def registered_def split: collector.splits list.splits if_splits)
next
  case (Make t)
  with assms show ?thesis
    by (auto simp: hz_wf_def registered_def mut_ops active_def split: if_splits)
next
  case (Continue t)
  with assms show ?thesis
    by (auto simp: hz_wf_def registered_def mut_ops active_def split: mut_pc.splits if_splits)
qed (use assms in \<open>auto simp: hz_wf_def registered_def mut_ops active_def split: if_splits\<close>)

lemma hz_step_conserved:
  assumes wf: "hz_wf s" and "conserved es s" and st: "hz_step c s = Some (s', e)"
  shows "conserved (es @ e) s'"
proof -
  have d: "distinct (thread_ids (hz s))" using wf by (simp add: hz_wf_def)
  have reg: "registered t (hz s)" if "hz_pc s t = HasMutator" for t
    using wf that by (simp add: hz_wf_def active_def)
  have vis: "registered t (hz s)" if "t \<in> set (to_visit (hz_collector s))" for t
    using wf that by (auto simp: hz_wf_def registered_def)
  show ?thesis
  proof (cases c)
    case Collector
    with assms d vis show ?thesis
      by (auto simp: conserved_def check_candidate_def all_retired_push ac_simps
          intro!: all_retired_take split: collector.splits list.splits if_splits)
  next
    case (Continue t)
    with assms d show ?thesis
      by (auto simp: conserved_def mut_ops split: mut_pc.splits if_splits)
  qed (use assms d reg in
      \<open>auto simp: conserved_def mut_ops all_retired_push all_retired_protect split: if_splits\<close>)
qed


lemma counted_upd:
  "counted (set_mut t p m s) =
     (if p \<in> {MakeRegister, HasMutator, RetireIncrease, DestroyCount} then insert t (counted s)
      else counted s - {t})"
  by (auto simp: counted_def set_mut_def)

lemma counted_collector [simp]: "counted (s\<lparr>hz := m\<rparr>) = counted s"
  "counted (s\<lparr>hz_collector := k\<rparr>) = counted s"
  by (simp_all add: counted_def)

lemma counted_bound:
  assumes "hz_wf s"
  shows "finite (counted s)" and "card (counted s) \<le> length (hz_threads (hz s))"
proof -
  have sub: "counted s \<subseteq> set (thread_ids (hz s))"
    using assms by (auto simp: counted_def hz_wf_def active_def registered_def)
  then show "finite (counted s)" by (rule finite_subset) simp
  have "card (counted s) \<le> card (set (thread_ids (hz s)))" using sub by (simp add: card_mono)
  also have "\<dots> \<le> length (hz_threads (hz s))" by (metis card_length length_map thread_ids_def)
  finally show "card (counted s) \<le> length (hz_threads (hz s))" .
qed

lemma hz_threads_length [simp]:
  "length (hz_threads (push_retired t a m)) = length (hz_threads m)"
  "length (hz_threads (take_retired t m)) = length (hz_threads m)"
  "length (hz_threads (protect t p m)) = length (hz_threads m)"
  "length (hz_threads (check_candidate t prot c m)) = length (hz_threads m)"
  "length (hz_threads (MakeMutator_count m)) = length (hz_threads m)"
  "length (hz_threads (IncreaseRetired m)) = length (hz_threads m)"
  "length (hz_threads (MakeMutator_insert t m)) =
     (if registered t m then length (hz_threads m) else Suc (length (hz_threads m)))"
  by (simp_all add: push_retired_def take_retired_def protect_def check_candidate_def with_thread_def
      MakeMutator_count_def IncreaseRetired_def MakeMutator_insert_def)

lemma of_nat_size_t_eq_0: "(of_nat n :: size_t) = 0 \<Longrightarrow> n < 2 ^ 64 \<Longrightarrow> n = 0"
  using unat_of_nat [where 'a = 64, of n] by simp

lemma leave_counted:
  assumes wf: "hz_wf s" and "counts s" and "hz_pc s t = DestroyCount" and len: "length (hz_threads (hz s)) < 2 ^ 64"
  shows "mutators_count (hz s) > 0" and "mutators_count (hz s) - 1 = of_nat (card (counted s - {t}))"
proof -
  have t: "t \<in> counted s" using assms(3) by (simp add: counted_def)
  have eq: "mutators_count (hz s) = of_nat (card (counted s))" using assms by (simp add: counts_def)
  have pos: "card (counted s) \<noteq> 0" using t counted_bound(1) [OF wf] by auto
  moreover have "card (counted s) < 2 ^ 64" using counted_bound(2) [OF wf] len by simp
  ultimately have "mutators_count (hz s) \<noteq> 0" using eq of_nat_size_t_eq_0 by metis
  then show "mutators_count (hz s) > 0" by (simp add: word_gt_0)
  show "mutators_count (hz s) - 1 = of_nat (card (counted s - {t}))"
    using t pos eq by (simp add: card_Diff_singleton flip: One_nat_def)
qed

lemma hz_step_counts:
  assumes wf: "hz_wf s" and cs: "counts s" and st: "hz_step c s = Some (s', e)"
  shows "counts s'"
proof (cases c)
  case Collector
  with cs st show ?thesis
    by (auto simp: counts_def split: collector.splits list.splits if_splits)
next
  case (Make t)
  with st have "hz_pc s t = NoMutator" by (simp split: if_splits)
  then have "t \<notin> counted s" by (simp add: counted_def)
  with Make wf cs st show ?thesis
    by (auto simp: counts_def counted_upd hz_wf_def split: if_splits)
       (auto simp: set_mut_def split: if_splits)
next
  case (Protect t p)
  with st have "t \<in> counted s" by (simp add: counted_def split: if_splits)
  with Protect cs st show ?thesis
    by (auto simp: counts_def counted_upd insert_absorb split: if_splits) (auto simp: set_mut_def split: if_splits)
next
  case (RetireNode t a)
  with st have "t \<in> counted s" by (simp add: counted_def split: if_splits)
  with RetireNode cs st show ?thesis
    by (auto simp: counts_def counted_upd insert_absorb split: if_splits) (auto simp: set_mut_def split: if_splits)
next
  case (Destroy t)
  with st have "t \<in> counted s" by (simp add: counted_def split: if_splits)
  with Destroy cs st show ?thesis
    by (auto simp: counts_def counted_upd insert_absorb Release_def split: if_splits) (auto simp: set_mut_def split: if_splits)
next
  case (Continue t)
  show ?thesis
  proof (cases "hz_pc s t")
    case MakeCount
    then have "t \<notin> counted s" by (simp add: counted_def)
    with MakeCount Continue cs st counted_bound(1) [OF wf] show ?thesis
      by (auto simp: counts_def counted_upd) (auto simp: set_mut_def split: if_splits)
  next
    case MakeRegister
    then have "t \<in> counted s" "registered t (hz s)" using wf by (auto simp: counted_def hz_wf_def active_def)
    with MakeRegister Continue cs st show ?thesis
      by (auto simp: counts_def counted_upd settle_mut_def RegisterThread_def insert_absorb split: if_splits)
         (auto simp: set_mut_def split: if_splits)
  next
    case RetireIncrease
    then have "t \<in> counted s" by (simp add: counted_def)
    with RetireIncrease Continue cs st show ?thesis
      by (auto simp: counts_def counted_upd insert_absorb) (auto simp: set_mut_def split: if_splits)
  next
    case DestroyCount
    with Continue st leave_counted [OF wf cs DestroyCount] cs show ?thesis
      by (auto simp: counts_def counted_upd settle_mut_def Mutator_leave_def Let_def)
         (auto simp: set_mut_def split: if_splits)
  qed (use Continue st in auto)
qed


definition hz_inv :: "hz_event list \<Rightarrow> hazard_system \<Rightarrow> bool" where
  "hz_inv es s \<longleftrightarrow> hz_wf s \<and> conserved es s \<and> counts s"

lemma hz_inv_init: "hz_inv [] init_system"
  by (simp add: hz_inv_def hz_wf_def conserved_def counts_def counted_def active_def init_system_def
      init_hazard_def all_retired_def thread_ids_def)

lemma hz_inv_step: "hz_inv es s \<Longrightarrow> hz_step c s = Some (s', e) \<Longrightarrow> hz_inv (es @ e) s'"
  unfolding hz_inv_def using hz_step_wf hz_step_conserved hz_step_counts by blast

interpretation hazards: step_invariant hz_step init_system hz_inv
  by unfold_locales (fact hz_inv_init, erule (1) hz_inv_step)

subsection \<open>Protection across a pass\<close>

fun shields :: "tid \<Rightarrow> addr \<Rightarrow> collector \<Rightarrow> bool" where
  "shields t a (Snapshot ts prot) \<longleftrightarrow> t \<in> set ts \<or> a \<in> set prot"
| "shields t a (Sweep ts prot) \<longleftrightarrow> a \<in> set prot"
| "shields t a (Candidates t' cs ts prot) \<longleftrightarrow> a \<in> set prot"
| "shields t a _ \<longleftrightarrow> True"

definition shielded :: "tid \<Rightarrow> addr \<Rightarrow> hazard_system \<Rightarrow> bool" where
  "shielded t a s \<longleftrightarrow> thread_hazard t (hz s) = [a] \<and> shields t a (hz_collector s)"

lemma thread_hazard_registered: "thread_hazard t m = [a] \<Longrightarrow> t \<in> set (thread_ids m)"
  using registered_iff [of t m] by (auto simp: thread_hazard_def registered_def split: option.splits)

lemma shielded_step:
  assumes "shielded t a s" and "hz_step c s = Some (s', e)" and "\<forall>p. Protects t p \<notin> set e"
  shows "shielded t a s' \<and> a \<notin> set (frees e)"
proof (cases c)
  case Collector
  with assms show ?thesis
    by (auto simp: shielded_def thread_hazard_registered split: collector.splits list.splits if_splits)
next
  case (Continue t')
  with assms show ?thesis
    by (auto simp: shielded_def mut_ops split: mut_pc.splits if_splits)
qed (use assms in \<open>auto simp: shielded_def mut_ops thread_hazard_protect split: if_splits\<close>)

lemma shielded_reach:
  "reach hz_step s es s' \<Longrightarrow> shielded t a s \<Longrightarrow> \<forall>p. Protects t p \<notin> set es \<Longrightarrow>
     shielded t a s' \<and> a \<notin> set (frees es)"
proof (induction rule: reach.induct)
  case (reach_step es s1 c s2 e)
  then have "shielded t a s1 \<and> a \<notin> set (frees es)" by auto
  with shielded_step [OF _ reach_step.hyps(2), of t a] reach_step.prems show ?case by auto
qed simp

lemma shields_unlocked: "thread_lock_free s \<Longrightarrow> shields t a (hz_collector s)"
  by (cases "hz_collector s") (auto simp: thread_lock_free_def)

subsection \<open>A pass without interference, and the destructor\<close>

lemma thread_ids_pass [simp]: "thread_ids (fold (check_candidate t prot) cs m) = thread_ids m"
  by (induction cs arbitrary: m) simp_all

lemma thread_ids_CheckToDelete [simp]: "thread_ids (CheckToDelete t prot m) = thread_ids m"
  by (simp add: CheckToDelete_def)

lemma thread_hazard_CheckToDelete [simp]: "thread_hazard t' (CheckToDelete t prot m) = thread_hazard t' m"
proof -
  have "thread_hazard t' (fold (check_candidate t prot) cs m) = thread_hazard t' m" for cs m
    by (induction cs arbitrary: m) simp_all
  then show ?thesis by (simp add: CheckToDelete_def)
qed

lemma thread_retired_push:
  "registered t m \<Longrightarrow>
     thread_retired t' (push_retired t a m) = (if t' = t then a # thread_retired t m else thread_retired t' m)"
  by (auto simp: thread_retired_def push_retired_def map_of_with_thread registered_iff)

lemma thread_retired_take:
  "thread_retired t' (take_retired t m) = (if t' = t then [] else thread_retired t' m)"
  by (auto simp: thread_retired_def take_retired_def map_of_with_thread split: option.splits)

lemma thread_retired_other [simp]:
  "thread_retired t (m\<lparr>hz_freed := fs\<rparr>) = thread_retired t m"
  "thread_retired t (m\<lparr>approximate_free_list_size := n\<rparr>) = thread_retired t m"
  "thread_retired t (m\<lparr>cancel_collect := b\<rparr>) = thread_retired t m"
  "thread_retired t (IncreaseRetired m) = thread_retired t m"
  by (simp_all add: thread_retired_def IncreaseRetired_def)

lemma check_candidates_pass:
  "registered t m \<Longrightarrow>
     hz_freed (fold (check_candidate t prot) cs m) = hz_freed m @ filter (\<lambda>c. c \<notin> set prot) cs \<and>
     thread_retired t' (fold (check_candidate t prot) cs m) =
       (if t' = t then rev (filter (\<lambda>c. c \<in> set prot) cs) @ thread_retired t m else thread_retired t' m) \<and>
     mutators_count (fold (check_candidate t prot) cs m) = mutators_count m"
proof (induction cs arbitrary: m)
  case (Cons c cs)
  have "registered t (check_candidate t prot c m)" using Cons.prems by (simp add: registered_def)
  from Cons.IH [OF this] Cons.prems show ?case
    by (auto simp: check_candidate_def thread_retired_push)
qed simp

lemma CheckToDelete_effect:
  assumes "registered t m"
  shows "hz_freed (CheckToDelete t prot m) = hz_freed m @ filter (\<lambda>c. c \<notin> set prot) (thread_retired t m)"
    and "thread_retired t' (CheckToDelete t prot m) =
      (if t' = t then rev (filter (\<lambda>c. c \<in> set prot) (thread_retired t m)) else thread_retired t' m)"
    and "mutators_count (CheckToDelete t prot m) = mutators_count m"
proof -
  have "registered t (take_retired t m)" using assms by (simp add: registered_def)
  from check_candidates_pass [OF this]
  show "hz_freed (CheckToDelete t prot m) = hz_freed m @ filter (\<lambda>c. c \<notin> set prot) (thread_retired t m)"
    and "thread_retired t' (CheckToDelete t prot m) =
      (if t' = t then rev (filter (\<lambda>c. c \<in> set prot) (thread_retired t m)) else thread_retired t' m)"
    and "mutators_count (CheckToDelete t prot m) = mutators_count m"
    by (simp_all add: CheckToDelete_def thread_retired_take)
qed

lemma all_retired_concat:
  "distinct (thread_ids m) \<Longrightarrow> all_retired m = concat (map (\<lambda>t. thread_retired t m) (thread_ids m))"
  unfolding all_retired_def thread_ids_def thread_retired_def
  by (rule arg_cong [where f = concat]) (auto simp: comp_def intro!: map_cong dest: eq_key_imp_eq_value split: option.splits)

text \<open>The result of checking the stacks of a list of threads, thread by thread.\<close>

lemma sweep_effect:
  "distinct ts \<Longrightarrow> set ts \<subseteq> set (thread_ids m) \<Longrightarrow>
     (let m' = fold (\<lambda>t. CheckToDelete t prot) ts m in
        hz_freed m' = hz_freed m @ filter (\<lambda>c. c \<notin> set prot) (concat (map (\<lambda>t. thread_retired t m) ts)) \<and>
        (\<forall>t. thread_retired t m' =
           (if t \<in> set ts then rev (filter (\<lambda>c. c \<in> set prot) (thread_retired t m)) else thread_retired t m)) \<and>
        thread_ids m' = thread_ids m \<and> mutators_count m' = mutators_count m \<and>
        (\<forall>t. thread_hazard t m' = thread_hazard t m))"
proof (induction ts arbitrary: m)
  case (Cons t ts)
  then have reg: "registered t m" and nt: "t \<notin> set ts" by (auto simp: registered_def)
  note eff = CheckToDelete_effect [OF reg, where prot = prot]
  have same: "map (\<lambda>t'. if t' = t then f t' else g t') ts = map g ts" for f g :: "tid \<Rightarrow> addr list"
    using nt by auto
  from Cons.IH [of "CheckToDelete t prot m"] Cons.prems nt show ?case
    by (auto simp: Let_def eff same)
qed simp


lemma destroy_threads_ok:
  "distinct ts \<Longrightarrow> set ts \<subseteq> set (thread_ids m) \<Longrightarrow> \<forall>t \<in> set ts. thread_hazard t m = [] \<Longrightarrow>
     destroy_threads ts m = Inr (fold (\<lambda>t. CheckToDelete t []) ts m)"
proof (induction ts arbitrary: m)
  case (Cons t ts)
  then have "registered t m" by (auto simp: registered_def)
  from CheckToDelete_effect(2) [OF this] have "thread_retired t (CheckToDelete t [] m) = []" by simp
  with Cons show ?case by (simp add: Let_def)
qed simp

lemma destroy_threads_protected:
  "t \<in> set ts \<Longrightarrow> thread_hazard t m \<noteq> [] \<Longrightarrow> \<exists>f. destroy_threads ts m = Inl f"
  by (induction ts arbitrary: m) (auto simp: Let_def)

subsection \<open>Properties\<close>

text \<open>
  C22: reclamation is exactly once, in every interleaving of mutators and collector: the nodes
  retired so far are, as a multiset, the freed ones, the ones on the threads' stacks and the candidates
  the collector holds. So no retired node is lost, and when no node is retired twice none is
  freed twice.
\<close>

theorem hazard_exactly_once:
  assumes "reach hz_step init_system es s"
  shows "mset (retires es) = mset (hz_freed (hz s)) + mset (all_retired (hz s)) + mset (in_hand (hz_collector s)) \<and>
    (distinct (retires es) \<longrightarrow> distinct (hz_freed (hz s)))"
proof -
  have "conserved es s" using hazards.reach_inv [OF assms] by (simp add: hz_inv_def)
  then have eq: "mset (retires es) = mset (hz_freed (hz s) @ all_retired (hz s) @ in_hand (hz_collector s))"
    by (simp add: conserved_def)
  from mset_eq_imp_distinct_iff [OF eq] eq show ?thesis by auto
qed

theorem hazard_exactly_once_witness:
  "\<exists>es s. reach hz_step init_system es s \<and> hz_freed (hz s) = [5] \<and> all_retired (hz s) = [6] \<and>
     mset (retires es) = {#5, 6#}"
proof -
  have "run_ok hz_step
     ([Make 1, Continue 1, Continue 1, Protect 1 (Some 6), RetireNode 1 5, Continue 1, RetireNode 1 6] @
      replicate 10 Collector) init_system
     (\<lambda>es s. hz_freed (hz s) = [5] \<and> all_retired (hz s) = [6] \<and> in_hand (hz_collector s) = [])"
    by code_simp
  then obtain es s where r: "reach hz_step init_system es s" and "hz_freed (hz s) = [5]"
    and "all_retired (hz s) = [6]" and "in_hand (hz_collector s) = []"
    by (rule run_okE) blast
  with hazard_exactly_once [OF r] show ?thesis by (auto intro!: exI [of _ es] exI [of _ s])
qed

text \<open>
  C23: a node that a thread protects while no collection pass is under way is freed neither by the
  next pass nor by any later one as long as the thread keeps its hazard pointer unchanged, whatever the other
  threads do.
\<close>

theorem hazard_protected_survives:
  assumes "reach hz_step init_system es s" and "thread_hazard t (hz s) = [a]" and "thread_lock_free s"
    and "reach hz_step s fs s'" and "\<forall>p. Protects t p \<notin> set fs"
  shows "a \<notin> set (frees fs) \<and> thread_hazard t (hz s') = [a]"
proof -
  have "shielded t a s" using assms(2,3) by (simp add: shielded_def shields_unlocked)
  from shielded_reach [OF assms(4) this assms(5)] show ?thesis by (simp add: shielded_def)
qed

theorem hazard_protected_survives_witness:
  "\<exists>s fs s'. reach hz_step s fs s' \<and> thread_hazard 1 (hz s) = [6] \<and> retires fs = [5, 6] \<and>
     frees fs = [5] \<and> thread_hazard 1 (hz s') = [6] \<and> 6 \<notin> set (frees fs)"
proof -
  have "run_ok hz_step [Make 1, Continue 1, Continue 1, Protect 1 (Some 6)] init_system
     (\<lambda>es s. thread_hazard 1 (hz s) = [6] \<and> thread_lock_free s \<and>
        run_ok hz_step ([RetireNode 1 5, Continue 1, RetireNode 1 6] @ replicate 10 Collector) s
          (\<lambda>fs s'. fs = [Retires 1 5, Retires 1 6, Frees 5]))"
    by code_simp
  then obtain es s where r: "reach hz_step init_system es s" and h: "thread_hazard 1 (hz s) = [6]"
    and l: "thread_lock_free s"
    and rest: "run_ok hz_step ([RetireNode 1 5, Continue 1, RetireNode 1 6] @ replicate 10 Collector) s
          (\<lambda>fs s'. fs = [Retires 1 5, Retires 1 6, Frees 5])"
    by (rule run_okE) blast
  from rest obtain fs s' where r': "reach hz_step s fs s'" and fs: "fs = [Retires 1 5, Retires 1 6, Frees 5]"
    by (rule run_okE) blast
  from hazard_protected_survives [OF r h l r'] fs h r' show ?thesis
    by (intro exI [of _ s] exI [of _ fs] exI [of _ s']) auto
qed

text \<open>
  C24: the hazard-pointer guarantee fails in \<open>Collect\<close>: a thread protects a node, the node is
  retired only afterwards, the thread keeps its protection, and the collector frees the node all the same. The
  pass reads the hazards before it takes the stacks of retired nodes, so a node
  protected and retired in between is not seen as protected.
\<close>

theorem hazard_snapshot_race:
  "\<exists>es1 es2 es3 s. reach hz_step init_system (es1 @ Protects 1 (Some 5) # es2 @ Retires 2 5 # es3) s \<and>
     (\<forall>p. Protects 1 p \<notin> set (es2 @ es3)) \<and> thread_hazard 1 (hz s) = [5] \<and> 5 \<in> set (hz_freed (hz s))"
proof -
  have "run_ok hz_step
     ([Make 1, Continue 1, Continue 1, Make 2, Continue 2, Continue 2] @ replicate 5 Collector @
      [Protect 1 (Some 5), RetireNode 2 5] @ replicate 5 Collector) init_system
     (\<lambda>es s. es = [] @ Protects 1 (Some 5) # [] @ Retires 2 5 # [Frees 5] \<and>
        thread_hazard 1 (hz s) = [5] \<and> hz_freed (hz s) = [5])"
    by code_simp
  then obtain es s where "reach hz_step init_system es s"
    and "es = [] @ Protects 1 (Some 5) # [] @ Retires 2 5 # [Frees 5]"
    and "thread_hazard 1 (hz s) = [5]" "hz_freed (hz s) = [5]"
    by (rule run_okE) blast
  then show ?thesis
    by (intro exI [of _ "[]"] exI [of _ "[Frees 5]"] exI [of _ s]) auto
qed

text \<open>
  C25: the mutator count is exact: as long as fewer than \<open>2^64\<close> threads have used the manager, it is
  the number of threads between the increment of \<open>MakeMutator\<close> and the decrement of
  \<open>~Mutator\<close>, and neither the assertion of the destructor nor the lookup of \<open>RegisterThread\<close> fails.
\<close>

theorem hazard_mutator_count:
  assumes "reach hz_step init_system es s" and "length (hz_threads (hz s)) < 2 ^ 64"
  shows "unat (mutators_count (hz s)) =
      card {t. hz_pc s t \<in> {MakeRegister, HasMutator, RetireIncrease, DestroyCount}} \<and>
    (\<forall>t f. hz_pc s t \<noteq> MutFault f)"
proof -
  have inv: "hz_wf s" "counts s" using hazards.reach_inv [OF assms(1)] by (auto simp: hz_inv_def)
  have "card (counted s) < 2 ^ 64" using counted_bound(2) [OF inv(1)] assms(2) by linarith
  with inv(2) assms(2) show ?thesis
    by (simp add: counts_def counted_def unat_of_nat)
qed

theorem hazard_mutator_count_witness:
  "\<exists>es s. reach hz_step init_system es s \<and>
     unat (mutators_count (hz s)) = card {t. hz_pc s t \<in> {MakeRegister, HasMutator, RetireIncrease, DestroyCount}} \<and>
     mutators_count (hz s) = 2"
proof -
  have "run_ok hz_step [Make 1, Continue 1, Continue 1, Make 2, Continue 2, Make 3] init_system
     (\<lambda>es s. length (hz_threads (hz s)) = 3 \<and> mutators_count (hz s) = 2)"
    by code_simp
  then obtain es s where r: "reach hz_step init_system es s" and l: "length (hz_threads (hz s)) = 3"
    and c: "mutators_count (hz s) = 2"
    by (rule run_okE) blast
  from l have "length (hz_threads (hz s)) < 2 ^ 64" by simp
  from hazard_mutator_count [OF r this] r c show ?thesis by blast
qed

text \<open>
  A pass without interference frees exactly the retired nodes that no thread protects and keeps
  the others, and the destructor frees every retired node and passes its assertions when no thread protects a
  node and no mutator is left.
\<close>

lemma hazard_pass_and_destructor:
  assumes "distinct (thread_ids m)"
  shows "(let prot = concat (map (\<lambda>t. thread_hazard t m) (thread_ids m)); m' = collect_pass m in
      hz_freed m' = hz_freed m @ filter (\<lambda>a. a \<notin> set prot) (all_retired m) \<and>
      mset (all_retired m') = mset (filter (\<lambda>a. a \<in> set prot) (all_retired m))) \<and>
    ((\<forall>t \<in> set (thread_ids m). thread_hazard t m = []) \<longrightarrow> mutators_count m = 0 \<longrightarrow>
      (\<exists>m'. destroy_HazardManager m = Inr m' \<and> hz_threads m' = [] \<and>
         hz_freed m' = hz_freed m @ all_retired m))"
proof -
  let ?m0 = "m\<lparr>approximate_free_list_size := 0\<rparr>" and ?m1 = "m\<lparr>cancel_collect := True\<rparr>"
  define prot where "prot = concat (map (\<lambda>t. thread_hazard t m) (thread_ids m))"
  define m' where "m' = collect_pass m"
  have m': "m' = fold (\<lambda>t. CheckToDelete t prot) (thread_ids m) ?m0"
    by (simp add: m'_def collect_pass_def prot_def Let_def)
  note all = all_retired_concat [OF assms]
  from sweep_effect [of "thread_ids m" ?m0 prot] assms
  have pass: "hz_freed m' = hz_freed m @ filter (\<lambda>a. a \<notin> set prot) (all_retired m)"
    and ret: "\<forall>t \<in> set (thread_ids m). thread_retired t m' = rev (filter (\<lambda>c. c \<in> set prot) (thread_retired t m))"
    and ids: "thread_ids m' = thread_ids m"
    by (auto simp: Let_def m' all)
  have "all_retired m' = concat (map (\<lambda>t. thread_retired t m') (thread_ids m))"
    using all_retired_concat [of m'] assms ids by simp
  also have "mset \<dots> = mset (filter (\<lambda>a. a \<in> set prot) (all_retired m))"
  proof -
    have "mset (concat (map (\<lambda>t. thread_retired t m') ts)) =
        mset (filter (\<lambda>a. a \<in> set prot) (concat (map (\<lambda>t. thread_retired t m) ts)))"
      if "set ts \<subseteq> set (thread_ids m)" for ts
      using that ret by (induction ts) auto
    then show ?thesis by (simp add: all)
  qed
  finally have kept: "mset (all_retired m') = mset (filter (\<lambda>a. a \<in> set prot) (all_retired m))" .
  have "\<exists>m'. destroy_HazardManager m = Inr m' \<and> hz_threads m' = [] \<and> hz_freed m' = hz_freed m @ all_retired m"
    if h: "\<forall>t \<in> set (thread_ids m). thread_hazard t m = []" and c: "mutators_count m = 0"
  proof -
    have "\<forall>t \<in> set (thread_ids m). thread_hazard t ?m1 = []" using h by (simp add: thread_hazard_def)
    with destroy_threads_ok [of "thread_ids m" ?m1] assms
    have "destroy_threads (thread_ids m) ?m1 = Inr (fold (\<lambda>t. CheckToDelete t []) (thread_ids m) ?m1)" by simp
    with sweep_effect [of "thread_ids m" ?m1 "[]"] assms c show ?thesis
      by (simp add: destroy_HazardManager_def Let_def all)
  qed
  with pass kept show ?thesis by (auto simp: Let_def prot_def m'_def)
qed

end
