(* ===== verification/Simple_MS_Queue.thy ===== *)
theory Simple_MS_Queue
  imports Queue_Spec Node_Chain Hazard
begin

text \<open>
  The Michael-Scott queue of \<^verbatim>\<open>src/components/lock_free/simple_ms_queue.h\<close>.

  Nodes live in a heap; \<open>new\<close> picks any address that is not allocated (the choice of the step
  names it), and a node freed by the collector leaves the heap, so that a later access is a
  \<open>UseAfterFree\<close> fault. Each load, store and compare-exchange of \<open>Push\<close> and \<open>TryPop\<close> is one
  step of the thread; a weak compare-exchange may fail spuriously (the choice says so). The
  hazard-pointer system of \<open>Hazard\<close> is part of the state: \<open>TryPop\<close> drives the thread's mutator
  through \<open>hz_step\<close>, and the collector's steps free nodes of the heap.

  The lemmas show that the queue is linearizable and free of faults in the runs in which the collector thread
  has ended (\<open>simple_refines\<close>, an \<open>event_simulation\<close> into \<open>queue_spec\<close>), and that with a running
  collector both operations can read freed memory.
\<close>

subsection \<open>Nodes and program points\<close>

datatype 'v cell =
    NoValue          \<comment> \<open>the empty optional of the dummy node\<close>
  | Item 'v
  | MovedFrom

record 'v ms_node =
  node_value :: "'v cell"
  node_next :: ptr

datatype 'v simple_pc =
    QIdle
  | PushLoad addr                \<comment> \<open>the new node\<close>
  | PushCheck addr ptr           \<comment> \<open>\<open>old_tail\<close>; next is \<open>old_tail->next.load()\<close>\<close>
  | PushHelpLoad addr ptr
  | PushHelp addr ptr ptr
  | PushLink addr ptr
  | PushSwing addr ptr
  | PopLoad                      \<comment> \<open>\<open>Acquire\<close>: first load\<close>
  | PopProtect ptr
  | PopValidate ptr
  | PopNext ptr                  \<comment> \<open>\<open>old_head\<close>; next is \<open>old_head->next.load()\<close>\<close>
  | PopReleaseEmpty
  | PopTail ptr
  | PopHelpLoad ptr
  | PopHelp ptr ptr
  | PopHeadNext ptr
  | PopCas ptr ptr
  | PopReadNext ptr
  | PopReadValue ptr ptr
  | PopRelease ptr 'v
  | PopRetire ptr 'v
  | PopRetireCount 'v
  | QReturn "'v queue_result"
  | QFault fault

record 'v simple_queue =
  sq_head :: ptr
  sq_tail :: ptr
  sq_heap :: "addr \<Rightarrow> 'v ms_node option"
  sq_hz :: hazard_system
  sq_pc :: "tid \<Rightarrow> 'v simple_pc"

datatype 'v simple_choice =
    CallPush tid 'v addr   \<comment> \<open>the thread, the item and the address \<open>new\<close> returns\<close>
  | CallTryPop tid
  | Go tid bool            \<comment> \<open>whether a weak compare-exchange fails spuriously\<close>
  | Hz hz_choice           \<comment> \<open>mutator construction and destruction, collector\<close>

text \<open>The constructor: both pointers refer to a dummy node.\<close>

definition init_simple :: "collector \<Rightarrow> 'v simple_queue" where
  "init_simple k =
     \<lparr>sq_head = Some 0, sq_tail = Some 0,
      sq_heap = (\<lambda>_. None)(0 := Some \<lparr>node_value = NoValue, node_next = None\<rparr>),
      sq_hz = init_system\<lparr>hz_collector := k\<rparr>, sq_pc = (\<lambda>_. QIdle)\<rparr>"

definition set_pc :: "tid \<Rightarrow> 'v simple_pc \<Rightarrow> 'v simple_queue \<Rightarrow> 'v simple_queue" where
  "set_pc t p s = s\<lparr>sq_pc := (sq_pc s)(t := p)\<rparr>"

text \<open>Access to a node through a pointer, with the faults of a null and of a dangling pointer.\<close>

definition deref :: "'v simple_queue \<Rightarrow> ptr \<Rightarrow> fault + addr \<times> 'v ms_node" where
  "deref s p =
     (case p of
        None \<Rightarrow> Inl NullDeref
      | Some a \<Rightarrow> (case sq_heap s a of None \<Rightarrow> Inl UseAfterFree | Some nd \<Rightarrow> Inr (a, nd)))"

definition on_node ::
  "tid \<Rightarrow> ptr \<Rightarrow> (addr \<Rightarrow> 'v ms_node \<Rightarrow> 'v simple_queue) \<Rightarrow> 'v simple_queue \<Rightarrow> 'v simple_queue" where
  "on_node t p f s = (case deref s p of Inl e \<Rightarrow> set_pc t (QFault e) s | Inr (a, nd) \<Rightarrow> f a nd)"

definition hz_move :: "hz_choice \<Rightarrow> 'v simple_queue \<Rightarrow> 'v simple_queue option" where
  "hz_move c s =
     (case hz_step c (sq_hz s) of
        None \<Rightarrow> None
      | Some (h, e) \<Rightarrow>
          Some (s\<lparr>sq_hz := h, sq_heap := fold (\<lambda>a hp. hp(a := None)) (frees e) (sq_heap s)\<rparr>))"

subsection \<open>Push\<close>

definition Push_load :: "tid \<Rightarrow> addr \<Rightarrow> 'v simple_queue \<Rightarrow> 'v simple_queue" where
  "Push_load t n s = set_pc t (PushCheck n (sq_tail s)) s"

definition Push_check :: "tid \<Rightarrow> addr \<Rightarrow> ptr \<Rightarrow> 'v simple_queue \<Rightarrow> 'v simple_queue" where
  "Push_check t n old_tail s =
     on_node t old_tail
       (\<lambda>a nd. set_pc t (if node_next nd \<noteq> None then PushHelpLoad n old_tail else PushLink n old_tail) s) s"

definition Push_help_load :: "tid \<Rightarrow> addr \<Rightarrow> ptr \<Rightarrow> 'v simple_queue \<Rightarrow> 'v simple_queue" where
  "Push_help_load t n old_tail s =
     on_node t old_tail (\<lambda>a nd. set_pc t (PushHelp n old_tail (node_next nd)) s) s"

definition cas_tail :: "bool \<Rightarrow> ptr \<Rightarrow> ptr \<Rightarrow> 'v simple_queue \<Rightarrow> 'v simple_queue" where
  "cas_tail spurious expected desired s =
     (if \<not> spurious \<and> sq_tail s = expected then s\<lparr>sq_tail := desired\<rparr> else s)"

definition Push_help :: "tid \<Rightarrow> bool \<Rightarrow> addr \<Rightarrow> ptr \<Rightarrow> ptr \<Rightarrow> 'v simple_queue \<Rightarrow> 'v simple_queue" where
  "Push_help t spurious n old_tail nx s = set_pc t (PushLoad n) (cas_tail spurious old_tail nx s)"

definition Push_link :: "tid \<Rightarrow> bool \<Rightarrow> addr \<Rightarrow> ptr \<Rightarrow> 'v simple_queue \<Rightarrow> 'v simple_queue" where
  "Push_link t spurious n old_tail s =
     on_node t old_tail
       (\<lambda>a nd. if \<not> spurious \<and> node_next nd = None
               then set_pc t (PushSwing n old_tail)
                      (s\<lparr>sq_heap := (sq_heap s)(a := Some (nd\<lparr>node_next := Some n\<rparr>))\<rparr>)
               else set_pc t (PushLoad n) s) s"

definition Push_swing :: "tid \<Rightarrow> addr \<Rightarrow> ptr \<Rightarrow> 'v simple_queue \<Rightarrow> 'v simple_queue" where
  "Push_swing t n old_tail s = set_pc t (QReturn Pushed) (cas_tail False old_tail (Some n) s)"

subsection \<open>TryPop\<close>

definition Acquire_load :: "tid \<Rightarrow> 'v simple_queue \<Rightarrow> 'v simple_queue" where
  "Acquire_load t s = set_pc t (PopProtect (sq_head s)) s"

definition Acquire_store :: "tid \<Rightarrow> ptr \<Rightarrow> 'v simple_queue \<Rightarrow> 'v simple_queue option" where
  "Acquire_store t before s = map_option (set_pc t (PopValidate before)) (hz_move (Protect t before) s)"

definition Acquire_validate :: "tid \<Rightarrow> ptr \<Rightarrow> 'v simple_queue \<Rightarrow> 'v simple_queue" where
  "Acquire_validate t before s =
     (if sq_head s = before then set_pc t (PopNext (sq_head s)) s
      else set_pc t (PopProtect (sq_head s)) s)"

definition TryPop_next :: "tid \<Rightarrow> ptr \<Rightarrow> 'v simple_queue \<Rightarrow> 'v simple_queue" where
  "TryPop_next t old_head s =
     on_node t old_head (\<lambda>a nd. set_pc t (if node_next nd = None then PopReleaseEmpty else PopTail old_head) s) s"

definition TryPop_release_empty :: "tid \<Rightarrow> 'v simple_queue \<Rightarrow> 'v simple_queue option" where
  "TryPop_release_empty t s = map_option (set_pc t (QReturn (Popped None))) (hz_move (Protect t None) s)"

definition TryPop_tail :: "tid \<Rightarrow> ptr \<Rightarrow> 'v simple_queue \<Rightarrow> 'v simple_queue" where
  "TryPop_tail t old_head s =
     set_pc t (if old_head = sq_tail s then PopHelpLoad old_head else PopHeadNext old_head) s"

definition TryPop_help_load :: "tid \<Rightarrow> ptr \<Rightarrow> 'v simple_queue \<Rightarrow> 'v simple_queue" where
  "TryPop_help_load t old_tail s =
     on_node t old_tail (\<lambda>a nd. set_pc t (PopHelp old_tail (node_next nd)) s) s"

definition TryPop_help :: "tid \<Rightarrow> bool \<Rightarrow> ptr \<Rightarrow> ptr \<Rightarrow> 'v simple_queue \<Rightarrow> 'v simple_queue" where
  "TryPop_help t spurious old_tail nx s = set_pc t PopLoad (cas_tail spurious old_tail nx s)"

definition TryPop_head_next :: "tid \<Rightarrow> ptr \<Rightarrow> 'v simple_queue \<Rightarrow> 'v simple_queue" where
  "TryPop_head_next t old_head s =
     on_node t old_head (\<lambda>a nd. set_pc t (PopCas old_head (node_next nd)) s) s"

definition TryPop_cas :: "tid \<Rightarrow> bool \<Rightarrow> ptr \<Rightarrow> ptr \<Rightarrow> 'v simple_queue \<Rightarrow> 'v simple_queue" where
  "TryPop_cas t spurious old_head nx s =
     (if \<not> spurious \<and> sq_head s = old_head then set_pc t (PopReadNext old_head) (s\<lparr>sq_head := nx\<rparr>)
      else set_pc t PopLoad s)"

definition TryPop_read_next :: "tid \<Rightarrow> ptr \<Rightarrow> 'v simple_queue \<Rightarrow> 'v simple_queue" where
  "TryPop_read_next t old_head s =
     on_node t old_head (\<lambda>a nd. set_pc t (PopReadValue old_head (node_next nd)) s) s"

text \<open>
  \<open>std::move(*next->value)\<close>: dereferencing an empty optional is undefined; a value that has been moved
  from must not be read again.
\<close>

definition TryPop_read_value :: "tid \<Rightarrow> ptr \<Rightarrow> ptr \<Rightarrow> 'v simple_queue \<Rightarrow> 'v simple_queue" where
  "TryPop_read_value t old_head nx s =
     on_node t nx
       (\<lambda>a nd. case node_value nd of
                 Item v \<Rightarrow> set_pc t (PopRelease old_head v)
                   (s\<lparr>sq_heap := (sq_heap s)(a := Some (nd\<lparr>node_value := MovedFrom\<rparr>))\<rparr>)
               | _ \<Rightarrow> set_pc t (QFault RuntimeError) s) s"

definition TryPop_release :: "tid \<Rightarrow> ptr \<Rightarrow> 'v \<Rightarrow> 'v simple_queue \<Rightarrow> 'v simple_queue option" where
  "TryPop_release t old_head v s = map_option (set_pc t (PopRetire old_head v)) (hz_move (Protect t None) s)"

definition TryPop_retire :: "tid \<Rightarrow> ptr \<Rightarrow> 'v \<Rightarrow> 'v simple_queue \<Rightarrow> 'v simple_queue option" where
  "TryPop_retire t old_head v s =
     (case old_head of
        None \<Rightarrow> Some (set_pc t (QReturn (Popped (Some v))) s)
      | Some a \<Rightarrow> map_option (set_pc t (PopRetireCount v)) (hz_move (RetireNode t a) s))"

definition TryPop_retire_count :: "tid \<Rightarrow> 'v \<Rightarrow> 'v simple_queue \<Rightarrow> 'v simple_queue option" where
  "TryPop_retire_count t v s = map_option (set_pc t (QReturn (Popped (Some v)))) (hz_move (Continue t) s)"

subsection \<open>The queue as a step machine\<close>

definition simple_go :: "tid \<Rightarrow> bool \<Rightarrow> 'v simple_queue \<Rightarrow> 'v simple_queue option" where
  "simple_go t spurious s =
     (case sq_pc s t of
        QIdle \<Rightarrow> None
      | PushLoad n \<Rightarrow> Some (Push_load t n s)
      | PushCheck n ot \<Rightarrow> Some (Push_check t n ot s)
      | PushHelpLoad n ot \<Rightarrow> Some (Push_help_load t n ot s)
      | PushHelp n ot nx \<Rightarrow> Some (Push_help t spurious n ot nx s)
      | PushLink n ot \<Rightarrow> Some (Push_link t spurious n ot s)
      | PushSwing n ot \<Rightarrow> Some (Push_swing t n ot s)
      | PopLoad \<Rightarrow> Some (Acquire_load t s)
      | PopProtect b \<Rightarrow> Acquire_store t b s
      | PopValidate b \<Rightarrow> Some (Acquire_validate t b s)
      | PopNext h \<Rightarrow> Some (TryPop_next t h s)
      | PopReleaseEmpty \<Rightarrow> TryPop_release_empty t s
      | PopTail h \<Rightarrow> Some (TryPop_tail t h s)
      | PopHelpLoad ot \<Rightarrow> Some (TryPop_help_load t ot s)
      | PopHelp ot nx \<Rightarrow> Some (TryPop_help t spurious ot nx s)
      | PopHeadNext h \<Rightarrow> Some (TryPop_head_next t h s)
      | PopCas h nx \<Rightarrow> Some (TryPop_cas t spurious h nx s)
      | PopReadNext h \<Rightarrow> Some (TryPop_read_next t h s)
      | PopReadValue h nx \<Rightarrow> Some (TryPop_read_value t h nx s)
      | PopRelease h v \<Rightarrow> TryPop_release t h v s
      | PopRetire h v \<Rightarrow> TryPop_retire t h v s
      | PopRetireCount v \<Rightarrow> TryPop_retire_count t v s
      | QReturn r \<Rightarrow> None
      | QFault f \<Rightarrow> None)"

text \<open>Outside \<open>TryPop\<close> a thread may create or destroy its mutator; the collector moves at any time.\<close>

fun hz_allowed :: "hz_choice \<Rightarrow> 'v simple_queue \<Rightarrow> bool" where
  "hz_allowed (Make t) s \<longleftrightarrow> sq_pc s t = QIdle"
| "hz_allowed (Continue t) s \<longleftrightarrow> sq_pc s t = QIdle"
| "hz_allowed (Destroy t) s \<longleftrightarrow> sq_pc s t = QIdle"
| "hz_allowed Collector s \<longleftrightarrow> True"
| "hz_allowed (Protect t p) s \<longleftrightarrow> False"
| "hz_allowed (RetireNode t a) s \<longleftrightarrow> False"

fun simple_step :: "('v simple_choice, 'v simple_queue, 'v queue_event) stepper" where
  "simple_step (CallPush t v a) s =
     (if sq_pc s t = QIdle \<and> sq_heap s a = None
      then Some (set_pc t (PushLoad a)
                   (s\<lparr>sq_heap := (sq_heap s)(a := Some \<lparr>node_value = Item v, node_next = None\<rparr>)\<rparr>),
                 [Invoke t (OpPush v)])
      else None)"
| "simple_step (CallTryPop t) s =
     (if sq_pc s t = QIdle \<and> hz_pc (sq_hz s) t = HasMutator
      then Some (set_pc t PopLoad s, [Invoke t OpPop]) else None)"
| "simple_step (Go t spurious) s =
     (case sq_pc s t of
        QReturn r \<Rightarrow> Some (set_pc t QIdle s, [Return t r])
      | _ \<Rightarrow> map_option (\<lambda>s'. (s', [])) (simple_go t spurious s))"
| "simple_step (Hz c) s =
     (if hz_allowed c s then map_option (\<lambda>s'. (s', [])) (hz_move c s) else None)"

subsection \<open>The chain of nodes\<close>

text \<open>
  \<open>ns\<close> lists the nodes ever linked, in order; \<open>head\<close> and \<open>tail\<close> are at the positions \<open>hi\<close> and
  \<open>ti\<close> of it, and the queued values are those of the nodes behind \<open>head\<close>.
\<close>

definition nxt :: "('v ms_node option) \<Rightarrow> ptr" where
  "nxt o' = (case o' of None \<Rightarrow> None | Some nd \<Rightarrow> node_next nd)"

definition val :: "('v ms_node option) \<Rightarrow> 'v cell" where
  "val o' = (case o' of None \<Rightarrow> NoValue | Some nd \<Rightarrow> node_value nd)"

definition linked :: "addr list \<Rightarrow> (addr \<Rightarrow> 'v ms_node option) \<Rightarrow> bool" where
  "linked ns hp \<longleftrightarrow> (\<forall>i < length ns. hp (ns ! i) \<noteq> None \<and>
     nxt (hp (ns ! i)) = (if Suc i < length ns then Some (ns ! Suc i) else None))"

definition fresh_node :: "addr list \<Rightarrow> (addr \<Rightarrow> 'v ms_node option) \<Rightarrow> addr \<Rightarrow> 'v \<Rightarrow> bool" where
  "fresh_node ns hp n v \<longleftrightarrow> n \<notin> set ns \<and> hp n = Some \<lparr>node_value = Item v, node_next = None\<rparr>"

definition taken :: "addr list \<Rightarrow> nat \<Rightarrow> (addr \<Rightarrow> 'v ms_node option) \<Rightarrow> ptr \<Rightarrow> 'v \<Rightarrow> bool" where
  "taken ns hi hp h v \<longleftrightarrow> (\<exists>i < hi. node_at ns i h \<and> Suc i < length ns \<and> val (hp (ns ! Suc i)) = Item v)"

definition pushing :: "addr list \<Rightarrow> (addr \<Rightarrow> 'v ms_node option) \<Rightarrow> 'v op_status \<Rightarrow> addr \<Rightarrow> bool" where
  "pushing ns hp st n \<longleftrightarrow> (\<exists>v. st = Pending (OpPush v) \<and> fresh_node ns hp n v)"

text \<open>What a thread at a program point knows; \<open>st\<close> is the state of its abstract operation.\<close>

fun pc_ok ::
  "addr list \<Rightarrow> nat \<Rightarrow> nat \<Rightarrow> (addr \<Rightarrow> 'v ms_node option) \<Rightarrow> 'v op_status \<Rightarrow> 'v simple_pc \<Rightarrow> bool" where
  "pc_ok ns hi ti hp st QIdle \<longleftrightarrow> st = Idle"
| "pc_ok ns hi ti hp st (PushLoad n) \<longleftrightarrow> pushing ns hp st n"
| "pc_ok ns hi ti hp st (PushCheck n ot) \<longleftrightarrow> pushing ns hp st n \<and> seen ns ti ot"
| "pc_ok ns hi ti hp st (PushHelpLoad n ot) \<longleftrightarrow> pushing ns hp st n \<and> seen_next ns ti ot"
| "pc_ok ns hi ti hp st (PushHelp n ot nx) \<longleftrightarrow> pushing ns hp st n \<and> follows ns ti ot nx"
| "pc_ok ns hi ti hp st (PushLink n ot) \<longleftrightarrow> pushing ns hp st n \<and> seen ns ti ot"
| "pc_ok ns hi ti hp st (PushSwing n ot) \<longleftrightarrow> st = Finished Pushed \<and> follows ns ti ot (Some n)"
| "pc_ok ns hi ti hp st PopLoad \<longleftrightarrow> st = Pending OpPop"
| "pc_ok ns hi ti hp st (PopProtect b) \<longleftrightarrow> st = Pending OpPop \<and> seen ns hi b"
| "pc_ok ns hi ti hp st (PopValidate b) \<longleftrightarrow> st = Pending OpPop \<and> seen ns hi b"
| "pc_ok ns hi ti hp st (PopNext h) \<longleftrightarrow> st = Pending OpPop \<and> seen ns hi h"
| "pc_ok ns hi ti hp st PopReleaseEmpty \<longleftrightarrow> st = Finished (Popped None)"
| "pc_ok ns hi ti hp st (PopTail h) \<longleftrightarrow> st = Pending OpPop \<and> seen_next ns hi h"
| "pc_ok ns hi ti hp st (PopHelpLoad h) \<longleftrightarrow> st = Pending OpPop \<and> seen_next ns ti h"
| "pc_ok ns hi ti hp st (PopHelp ot nx) \<longleftrightarrow> st = Pending OpPop \<and> follows ns ti ot nx"
| "pc_ok ns hi ti hp st (PopHeadNext h) \<longleftrightarrow> st = Pending OpPop \<and> behind ns ti h"
| "pc_ok ns hi ti hp st (PopCas h nx) \<longleftrightarrow> st = Pending OpPop \<and> behind ns ti h \<and> follows ns ti h nx"
| "pc_ok ns hi ti hp st (PopReadNext h) \<longleftrightarrow> (\<exists>v. st = Finished (Popped (Some v)) \<and> taken ns hi hp h v)"
| "pc_ok ns hi ti hp st (PopReadValue h nx) \<longleftrightarrow>
     (\<exists>v. st = Finished (Popped (Some v)) \<and> taken ns hi hp h v) \<and> follows ns hi h nx"
| "pc_ok ns hi ti hp st (PopRelease h v) \<longleftrightarrow> st = Finished (Popped (Some v))"
| "pc_ok ns hi ti hp st (PopRetire h v) \<longleftrightarrow> st = Finished (Popped (Some v))"
| "pc_ok ns hi ti hp st (PopRetireCount v) \<longleftrightarrow> st = Finished (Popped (Some v))"
| "pc_ok ns hi ti hp st (QReturn r) \<longleftrightarrow> st = Finished r"
| "pc_ok ns hi ti hp st (QFault f) \<longleftrightarrow> False"

text \<open>The node a thread is about to link, and the head it has just unlinked.\<close>

fun owned :: "'v simple_pc \<Rightarrow> ptr" where
  "owned (PushLoad n) = Some n"
| "owned (PushCheck n ot) = Some n"
| "owned (PushHelpLoad n ot) = Some n"
| "owned (PushHelp n ot nx) = Some n"
| "owned (PushLink n ot) = Some n"
| "owned _ = None"

fun claimed :: "'v simple_pc \<Rightarrow> ptr" where
  "claimed (PopReadNext h) = h"
| "claimed (PopReadValue h nx) = h"
| "claimed _ = None"

definition chain_ok :: "addr list \<Rightarrow> nat \<Rightarrow> nat \<Rightarrow> 'v list \<Rightarrow> 'v simple_queue \<Rightarrow> bool" where
  "chain_ok ns hi ti q s \<longleftrightarrow>
     distinct ns \<and> linked ns (sq_heap s) \<and> hi \<le> ti \<and> node_at ns hi (sq_head s) \<and> node_at ns ti (sq_tail s) \<and>
     map (\<lambda>a. val (sq_heap s a)) (drop (Suc hi) ns) = map Item q"

definition sq_inv ::
  "addr list \<Rightarrow> nat \<Rightarrow> nat \<Rightarrow> 'v list \<Rightarrow> (tid \<Rightarrow> 'v op_status) \<Rightarrow> 'v simple_queue \<Rightarrow> bool" where
  "sq_inv ns hi ti q st s \<longleftrightarrow> chain_ok ns hi ti q s \<and> hz_collector (sq_hz s) = CollectDone \<and>
     (\<forall>t. pc_ok ns hi ti (sq_heap s) (st t) (sq_pc s t)) \<and>
     exclusive owned (sq_pc s) \<and> exclusive claimed (sq_pc s)"

definition sq_sim :: "'v atomic_queue \<Rightarrow> 'v simple_queue \<Rightarrow> bool" where
  "sq_sim a s = (case a of (q, st) \<Rightarrow> \<exists>ns hi ti. sq_inv ns hi ti q st s)"

subsection \<open>Stability\<close>

text \<open>
  Other threads' knowledge survives when the chain grows, both ends move forward, fresh nodes
  stay and the values a thread has claimed stay.
\<close>

lemma taken_mono:
  assumes "taken ns hi hp h v" and "hi \<le> hi'"
    and "\<And>i. node_at ns i h \<Longrightarrow> Suc i < length ns \<Longrightarrow> val (hp' (ns ! Suc i)) = val (hp (ns ! Suc i))"
  shows "taken (ns @ ms) hi' hp' h v"
proof -
  obtain i where i: "i < hi" "node_at ns i h" "Suc i < length ns" "val (hp (ns ! Suc i)) = Item v"
    using assms(1) by (auto simp: taken_def)
  with assms(3) [of i] have "val (hp' ((ns @ ms) ! Suc i)) = Item v" by (simp add: nth_append)
  with i assms(2) show ?thesis unfolding taken_def by (intro exI [of _ i]) auto
qed

lemma pc_ok_stable:
  assumes "pc_ok ns hi ti hp st pc" and "hi \<le> hi'" "ti \<le> ti'"
    and "\<And>n v. owned pc = Some n \<Longrightarrow> fresh_node ns hp n v \<Longrightarrow> fresh_node (ns @ ms) hp' n v"
    and "\<And>i. node_at ns i (claimed pc) \<Longrightarrow> Suc i < length ns \<Longrightarrow> val (hp' (ns ! Suc i)) = val (hp (ns ! Suc i))"
  shows "pc_ok (ns @ ms) hi' ti' hp' st pc"
proof -
  have push: "pushing (ns @ ms) hp' st n" if "owned pc = Some n" "pushing ns hp st n" for n
    using that assms(4) by (auto simp: pushing_def)
  show ?thesis
    using assms(1-3,5) push
    by (cases pc) (auto intro: seen_mono seen_next_mono behind_mono follows_mono taken_mono)
qed


subsection \<open>Steps of one thread\<close>

lemma hz_step_done:
  "hz_step c h = Some (h', e) \<Longrightarrow> hz_collector h = CollectDone \<Longrightarrow> hz_collector h' = CollectDone \<and> frees e = []"
  by (cases c) (auto simp: mut_ops split: if_splits mut_pc.splits)

lemma hz_move_local:
  assumes "hz_move c s = Some s'" and "hz_collector (sq_hz s) = CollectDone"
  obtains h where "s' = s\<lparr>sq_hz := h\<rparr>" "hz_collector h = CollectDone"
  using assms hz_step_done by (fastforce simp: hz_move_def split: option.splits)

lemma sq_invD:
  assumes "sq_inv ns hi ti q st s"
  shows "distinct ns" "linked ns (sq_heap s)" "hi \<le> ti" "hi < length ns" "ti < length ns"
    "sq_head s = Some (ns ! hi)" "sq_tail s = Some (ns ! ti)"
    "pc_ok ns hi ti (sq_heap s) (st t) (sq_pc s t)" "hz_collector (sq_hz s) = CollectDone"
    "map (\<lambda>a. val (sq_heap s a)) (drop (Suc hi) ns) = map Item q"
  using assms by (auto simp: sq_inv_def chain_ok_def node_at_def)

lemma deref_node:
  assumes "linked ns (sq_heap s)" and "node_at ns i p"
  obtains nd where "deref s p = Inr (ns ! i, nd)" "sq_heap s (ns ! i) = Some nd"
    "node_next nd = (if Suc i < length ns then Some (ns ! Suc i) else None)"
  using assms by (fastforce simp: linked_def node_at_def deref_def nxt_def)

lemma sq_local:
  assumes inv: "sq_inv ns hi ti q st s" and "hz_collector h = CollectDone"
    and "pc_ok ns hi ti (sq_heap s) x p"
    and "owned p = None \<or> owned p = owned (sq_pc s t)" and "claimed p = None \<or> claimed p = claimed (sq_pc s t)"
  shows "sq_inv ns hi ti q (st(t := x)) (set_pc t p (s\<lparr>sq_hz := h\<rparr>))"
  using assms by (auto simp: sq_inv_def chain_ok_def set_pc_def intro!: exclusive_upd)

lemma sq_local_same:
  assumes "sq_inv ns hi ti q st s" and "pc_ok ns hi ti (sq_heap s) (st t) p"
    and "owned p = None \<or> owned p = owned (sq_pc s t)" and "claimed p = None \<or> claimed p = claimed (sq_pc s t)"
  shows "sq_inv ns hi ti q st (set_pc t p s)"
  using sq_local [OF assms(1) sq_invD(9) [OF assms(1)], of "st t" p t] assms(2-) by simp

lemma follows_tail:
  assumes inv: "sq_inv ns hi ti q st s" and "follows ns k ot nx" and "sq_tail s = ot"
  shows "node_at ns (Suc ti) nx"
proof -
  obtain i where "node_at ns i ot" "node_at ns (Suc i) nx" using assms(2) by (auto simp: follows_def)
  moreover have "node_at ns ti ot" using sq_invD(5,7) [OF inv] assms(3) by (auto simp: node_at_def)
  ultimately show ?thesis using node_at_unique sq_invD(1) [OF inv] by blast
qed

lemma sq_tail_cas:
  assumes inv: "sq_inv ns hi ti q st s" and "follows ns k ot nx"
    and ok: "\<And>ti'. ti \<le> ti' \<Longrightarrow> pc_ok ns hi ti' (sq_heap s) (st t) p"
    and "owned p = None \<or> owned p = owned (sq_pc s t)" and "claimed p = None \<or> claimed p = claimed (sq_pc s t)"
  shows "\<exists>ti'. sq_inv ns hi ti' q st (set_pc t p (cas_tail sp ot nx s))"
proof (cases "\<not> sp \<and> sq_tail s = ot")
  case False
  with sq_local_same [OF inv ok assms(4,5)] show ?thesis by (auto simp: cas_tail_def)
next
  case True
  then have at: "node_at ns (Suc ti) nx" using follows_tail [OF inv assms(2)] by blast
  have "pc_ok ns hi (Suc ti) (sq_heap s) (st u) (((sq_pc s)(t := p)) u)" for u
    using pc_ok_stable [OF sq_invD(8) [OF inv, of u], of hi "Suc ti" "[]" "sq_heap s"] ok by auto
  with True at inv assms(4,5) have "sq_inv ns hi (Suc ti) q st (set_pc t p (cas_tail sp ot nx s))"
    by (auto simp: sq_inv_def chain_ok_def cas_tail_def set_pc_def intro!: exclusive_upd)
  then show ?thesis by blast
qed

lemma linked_append:
  assumes "linked ns hp" and "ns \<noteq> []" and "n \<notin> set ns" and "distinct ns"
    and "hp (last ns) = Some nd" and "hp n = Some nd'" and "node_next nd' = None"
  shows "linked (ns @ [n]) (hp(last ns := Some (nd\<lparr>node_next := Some n\<rparr>)))"
  unfolding linked_def
proof (intro allI impI)
  fix i
  assume i: "i < length (ns @ [n])"
  have last: "last ns = ns ! (length ns - 1)" using assms(2) by (rule last_conv_nth)
  consider "i = length ns" | "i = length ns - 1" "i < length ns" | "Suc i < length ns" using i by fastforce
  then show "(hp(last ns := Some (nd\<lparr>node_next := Some n\<rparr>))) ((ns @ [n]) ! i) \<noteq> None \<and>
      nxt ((hp(last ns := Some (nd\<lparr>node_next := Some n\<rparr>))) ((ns @ [n]) ! i)) =
      (if Suc i < length (ns @ [n]) then Some ((ns @ [n]) ! Suc i) else None)"
  proof cases
    case 1
    then show ?thesis using assms by (auto simp: nxt_def)
  next
    case 2
    then show ?thesis using assms(2) last by (auto simp: nxt_def nth_append)
  next
    case 3
    then have "ns ! i \<noteq> last ns" using assms(2,4) by (simp add: last nth_eq_iff_index_eq)
    with 3 assms(1) show ?thesis by (simp add: linked_def nth_append)
  qed
qed


lemma fresh_owned:
  assumes "sq_inv ns hi ti q st s" and "owned (sq_pc s u) = Some n"
  shows "n \<notin> set ns" and "sq_heap s n \<noteq> None"
  using sq_invD(8) [OF assms(1), of u] assms(2)
  by (cases "sq_pc s u"; auto simp: pushing_def fresh_node_def)+

lemma claimed_behind:
  assumes "sq_inv ns hi ti q st s" and "claimed (sq_pc s u) = Some a"
  shows "\<exists>i < hi. node_at ns i (Some a)"
  using sq_invD(8) [OF assms(1), of u] assms(2)
  by (cases "sq_pc s u") (auto simp: taken_def)

lemma linked_upd:
  assumes "linked ns hp" and "hp a = Some nd" and "node_next nd' = node_next nd"
  shows "linked ns (hp(a := Some nd'))"
proof -
  have "nxt ((hp(a := Some nd')) b) = nxt (hp b)" for b using assms(2,3) by (simp add: nxt_def)
  with assms(1) show ?thesis by (simp add: linked_def)
qed

text \<open>Linking the new node: the effect of a push.\<close>

lemma sq_link:
  assumes inv: "sq_inv ns hi ti q st s" and pc: "sq_pc s t = PushLink n ot"
    and nd: "deref s ot = Inr (a, nd)" "node_next nd = None"
    and s': "s' = set_pc t (PushSwing n ot) (s\<lparr>sq_heap := (sq_heap s)(a := Some (nd\<lparr>node_next := Some n\<rparr>))\<rparr>)"
  shows "\<exists>v. st t = Pending (OpPush v) \<and> sq_inv (ns @ [n]) hi ti (q @ [v]) (st(t := Finished Pushed)) s'"
proof -
  note D = sq_invD [OF inv]
  obtain v i where st: "st t = Pending (OpPush v)" and fresh: "fresh_node ns (sq_heap s) n v"
    and i: "i \<le> ti" "node_at ns i ot"
    using D(8) [of t] pc by (auto simp: pushing_def seen_def)
  obtain nd' where nd': "deref s ot = Inr (ns ! i, nd')" "sq_heap s (ns ! i) = Some nd'"
    "node_next nd' = (if Suc i < length ns then Some (ns ! Suc i) else None)"
    using deref_node [OF D(2) i(2)] by blast
  with nd have a: "a = ns ! i" "sq_heap s a = Some nd" "\<not> Suc i < length ns" by (auto split: if_splits)
  then have ti: "ti = i" using last_position [OF i(2) _ i(1)] D(5) by blast
  have len: "length ns = Suc i" using a(3) i(2) by (auto simp: node_at_def)
  then have ns: "ns \<noteq> []" "last ns = a" using a(1) by (auto simp: last_conv_nth simp flip: length_greater_0_conv)
  let ?hp = "(sq_heap s)(a := Some (nd\<lparr>node_next := Some n\<rparr>))"
  have n: "n \<notin> set ns" "sq_heap s n = Some \<lparr>node_value = Item v, node_next = None\<rparr>"
    using fresh by (auto simp: fresh_node_def)
  have link: "linked (ns @ [n]) ?hp"
    using linked_append [OF D(2) ns(1) n(1) D(1)] a n(2) ns(2) by simp
  have val: "val (?hp b) = val (sq_heap s b)" for b using a(2) by (simp add: val_def)
  have vals: "map (\<lambda>a. val (?hp a)) (drop (Suc hi) (ns @ [n])) = map Item (q @ [v])"
    using D(4,10) n(2) unfolding val by (simp add: val_def)
  have na: "n \<noteq> a" using n(1) a(1) i(2) by (auto simp: node_at_def)
  have others: "pc_ok (ns @ [n]) hi ti ?hp (st u) (sq_pc s u)" if "u \<noteq> t" for u
  proof (rule pc_ok_stable [OF D(8) order_refl order_refl])
    fix m w
    assume "owned (sq_pc s u) = Some m" "fresh_node ns (sq_heap s) m w"
    moreover have "m \<noteq> n"
      using inv \<open>u \<noteq> t\<close> pc \<open>owned (sq_pc s u) = Some m\<close>
      by (auto simp: sq_inv_def exclusive_def)
    moreover have "m \<noteq> a"
      using \<open>fresh_node ns (sq_heap s) m w\<close> a(1) i(2) by (auto simp: fresh_node_def node_at_def)
    ultimately show "fresh_node (ns @ [n]) ?hp m w" by (simp add: fresh_node_def)
  qed (simp only: val)
  have fol: "follows (ns @ [n]) ti ot (Some n)"
    using i ti D(5) a(3) unfolding follows_def node_at_def
    by (intro exI [of _ i]) (auto simp: nth_append)
  have at: "node_at (ns @ [n]) hi (sq_head s)" "node_at (ns @ [n]) ti (sq_tail s)"
    using D(4-7) by (auto simp: node_at_def nth_append)
  have "sq_inv (ns @ [n]) hi ti (q @ [v]) (st(t := Finished Pushed)) s'"
    using inv link vals others fol at D(1,3) n(1)
    by (auto simp: sq_inv_def chain_ok_def s' set_pc_def intro!: exclusive_upd)
  with st show ?thesis by blast
qed

text \<open>Moving the head: the effect of a pop.\<close>

lemma sq_pop:
  assumes inv: "sq_inv ns hi ti q st s" and pc: "sq_pc s t = PopCas h nx" and h: "sq_head s = h"
    and s': "s' = set_pc t (PopReadNext h) (s\<lparr>sq_head := nx\<rparr>)"
  shows "\<exists>v q'. q = v # q' \<and> st t = Pending OpPop \<and>
    sq_inv ns (Suc hi) ti q' (st(t := Finished (Popped (Some v)))) s'"
proof -
  note D = sq_invD [OF inv]
  have at: "node_at ns hi h" using D(4,6) h by (auto simp: node_at_def)
  have st: "st t = Pending OpPop" and b: "behind ns ti h" and f: "follows ns ti h nx"
    using D(8) [of t] pc by auto
  have lt: "hi < ti" using b node_at_unique [OF D(1) at] by (auto simp: behind_def)
  have nx: "node_at ns (Suc hi) nx" using f node_at_unique [OF D(1) at] by (auto simp: follows_def)
  then have len: "Suc hi < length ns" by (simp add: node_at_def)
  then have "drop (Suc hi) ns = ns ! Suc hi # drop (Suc (Suc hi)) ns" by (rule Cons_nth_drop_Suc [symmetric])
  with D(10) obtain v q' where q: "q = v # q'" and v: "val (sq_heap s (ns ! Suc hi)) = Item v"
    and rest: "map (\<lambda>a. val (sq_heap s a)) (drop (Suc (Suc hi)) ns) = map Item q'"
    by (cases q) auto
  have tk: "taken ns (Suc hi) (sq_heap s) h v"
    using at len v unfolding taken_def by (intro exI [of _ hi]) simp
  have others: "pc_ok ns (Suc hi) ti (sq_heap s) (st u) (sq_pc s u)" for u
    using pc_ok_stable [OF D(8) [of u], of "Suc hi" ti "[]" "sq_heap s"] by auto
  have excl: "claimed (sq_pc s u) \<noteq> h" for u
    using claimed_behind [OF inv, of u] node_at_unique [OF D(1) at] at
    by (metis less_irrefl node_at_def)
  have "exclusive claimed ((sq_pc s)(t := PopReadNext h))"
    using inv excl by (intro exclusive_new) (auto simp: sq_inv_def)
  with inv others tk rest lt nx have "sq_inv ns (Suc hi) ti q' (st(t := Finished (Popped (Some v)))) s'"
    by (auto simp: sq_inv_def chain_ok_def s' set_pc_def intro!: exclusive_upd)
  with q st show ?thesis by blast
qed

text \<open>Reading the popped value empties the node; no other thread reads it.\<close>

lemma sq_read:
  assumes inv: "sq_inv ns hi ti q st s" and pc: "sq_pc s t = PopReadValue h nx"
  shows "\<exists>v. st t = Finished (Popped (Some v)) \<and> sq_inv ns hi ti q st (TryPop_read_value t h nx s)"
proof -
  note D = sq_invD [OF inv]
  obtain v i where st: "st t = Finished (Popped (Some v))" and i: "i < hi" "node_at ns i h" "Suc i < length ns"
    and v: "val (sq_heap s (ns ! Suc i)) = Item v"
    using D(8) [of t] pc by (auto simp: taken_def)
  have nx: "node_at ns (Suc i) nx"
    using D(8) [of t] pc node_at_unique [OF D(1) i(2)] by (auto simp: follows_def)
  let ?a = "ns ! Suc i"
  obtain nd where nd: "deref s nx = Inr (?a, nd)" "sq_heap s ?a = Some nd"
    using deref_node [OF D(2) nx] by blast
  let ?hp = "(sq_heap s)(?a := Some (nd\<lparr>node_value := MovedFrom\<rparr>))"
  have r: "TryPop_read_value t h nx s = set_pc t (PopRelease h v) (s\<lparr>sq_heap := ?hp\<rparr>)"
    using nd v by (simp add: TryPop_read_value_def on_node_def val_def)
  have link: "linked ns ?hp" using linked_upd [OF D(2) nd(2)] by simp
  have "?a \<notin> set (drop (Suc hi) ns)"
    using D(1) i(1,3) by (auto simp: in_set_conv_nth nth_eq_iff_index_eq)
  then have vals: "map (\<lambda>a. val (?hp a)) (drop (Suc hi) ns) = map Item q"
    using D(10) by (metis (mono_tags, lifting) fun_upd_other map_eq_conv)
  have others': "pc_ok (ns @ []) hi ti ?hp (st u) (sq_pc s u)" if "u \<noteq> t" for u
  proof (rule pc_ok_stable [OF D(8) order_refl order_refl])
    fix n w
    assume "owned (sq_pc s u) = Some n" and "fresh_node ns (sq_heap s) n w"
    then show "fresh_node (ns @ []) ?hp n w" using i(3) by (auto simp: fresh_node_def)
  next
    fix j
    assume j: "node_at ns j (claimed (sq_pc s u))" "Suc j < length ns"
    have "j \<noteq> i"
      using inv that pc j(1) i(2) by (auto simp: sq_inv_def exclusive_def node_at_def)
    then have "ns ! Suc j \<noteq> ?a" using D(1) j(2) i(3) by (simp add: nth_eq_iff_index_eq)
    then show "val (?hp (ns ! Suc j)) = val (sq_heap s (ns ! Suc j))" by simp
  qed
  then have others: "pc_ok ns hi ti ?hp (st u) (sq_pc s u)" if "u \<noteq> t" for u using that by simp
  have "sq_inv ns hi ti q st (set_pc t (PopRelease h v) (s\<lparr>sq_heap := ?hp\<rparr>))"
    using inv link vals others st
    by (auto simp: sq_inv_def chain_ok_def set_pc_def intro!: exclusive_upd)
  with st r show ?thesis by simp
qed


subsection \<open>The simulation\<close>

lemma sq_simI: "sq_inv ns hi ti q st s \<Longrightarrow> sq_sim (q, st) s"
  by (auto simp: sq_sim_def)

definition answers :: "'v atomic_queue \<Rightarrow> 'v queue_event list \<Rightarrow> 'v simple_queue \<Rightarrow> bool" where
  "answers a e s' \<longleftrightarrow> (\<exists>a'. reach queue_spec a e a' \<and> sq_sim a' s')"

lemma answers_same: "sq_inv ns hi ti q st s' \<Longrightarrow> answers (q, st) [] s'"
  unfolding answers_def by (blast intro: reach.reach_init sq_simI)

lemma answers_effect:
  "st t = Pending op \<Longrightarrow> apply_op op q = (q', r) \<Longrightarrow> sq_inv ns hi ti q' (st(t := Finished r)) s' \<Longrightarrow>
     answers (q, st) [] s'"
  unfolding answers_def using spec_effect [of st t op q] by (auto intro: sq_simI)

lemma go_push:
  assumes inv: "sq_inv ns hi ti q st s" and go: "simple_go t sp s = Some s'"
    and pc: "owned (sq_pc s t) \<noteq> None \<or> (\<exists>n ot. sq_pc s t = PushSwing n ot)"
  shows "answers (q, st) [] s'"
proof -
  note D = sq_invD [OF inv]
  note ok = D(8) [of t]
  show ?thesis
  proof (cases "sq_pc s t")
    case (PushLoad n)
    with ok D(5,7) have "pc_ok ns hi ti (sq_heap s) (st t) (PushCheck n (sq_tail s))"
      by (auto simp: seen_def node_at_def)
    from sq_local_same [OF inv this] PushLoad go show ?thesis
      by (auto simp: simple_go_def Push_load_def intro!: answers_same)
  next
    case (PushCheck n ot)
    with ok obtain i where i: "i \<le> ti" "node_at ns i ot" by (auto simp: seen_def)
    obtain nd where nd: "deref s ot = Inr (ns ! i, nd)" "node_next nd = (if Suc i < length ns then Some (ns ! Suc i) else None)"
      using deref_node [OF D(2) i(2)] by blast
    let ?p = "if node_next nd \<noteq> None then PushHelpLoad n ot else PushLink n ot"
    have "pc_ok ns hi ti (sq_heap s) (st t) ?p" using PushCheck ok i nd by (auto simp: seen_next_def)
    from sq_local_same [OF inv this] PushCheck go nd(1) show ?thesis
      by (auto simp: simple_go_def Push_check_def on_node_def intro!: answers_same)
  next
    case (PushHelpLoad n ot)
    with ok obtain i where i: "i \<le> ti" "node_at ns i ot" "Suc i < length ns" by (auto simp: seen_next_def)
    obtain nd where nd: "deref s ot = Inr (ns ! i, nd)" "node_next nd = Some (ns ! Suc i)"
      using deref_node [OF D(2) i(2)] i(3) by metis
    have "pc_ok ns hi ti (sq_heap s) (st t) (PushHelp n ot (node_next nd))"
      using PushHelpLoad ok i nd by (auto simp: follows_def node_at_def)
    from sq_local_same [OF inv this] PushHelpLoad go nd(1) show ?thesis
      by (auto simp: simple_go_def Push_help_load_def on_node_def intro!: answers_same)
  next
    case (PushHelp n ot nx)
    with ok have "follows ns ti ot nx" by simp
    from sq_tail_cas [OF inv this, of t "PushLoad n" sp] PushHelp ok go show ?thesis
      by (auto simp: simple_go_def Push_help_def intro: answers_same)
  next
    case (PushLink n ot)
    with ok obtain i where i: "i \<le> ti" "node_at ns i ot" by (auto simp: seen_def)
    obtain nd where nd: "deref s ot = Inr (ns ! i, nd)" using deref_node [OF D(2) i(2)] by blast
    show ?thesis
    proof (cases "\<not> sp \<and> node_next nd = None")
      case True
      with sq_link [OF inv PushLink nd] obtain v where "st t = Pending (OpPush v)"
        "sq_inv (ns @ [n]) hi ti (q @ [v]) (st(t := Finished Pushed)) s'"
        using go PushLink nd by (auto simp: simple_go_def Push_link_def on_node_def)
      then show ?thesis by (auto intro: answers_effect)
    next
      case False
      have "pc_ok ns hi ti (sq_heap s) (st t) (PushLoad n)" using PushLink ok by simp
      from sq_local_same [OF inv this] PushLink go nd False show ?thesis
        by (auto simp: simple_go_def Push_link_def on_node_def intro!: answers_same)
    qed
  next
    case (PushSwing n ot)
    with ok have "follows ns ti ot (Some n)" by simp
    from sq_tail_cas [OF inv this, of t "QReturn Pushed" False] PushSwing ok go show ?thesis
      by (auto simp: simple_go_def Push_swing_def intro: answers_same)
  qed (use pc in auto)
qed

lemma hz_then_local:
  assumes inv: "sq_inv ns hi ti q st s" and "hz_move c s = Some s1" and "pc_ok ns hi ti (sq_heap s) (st t) p"
    and "owned p = None" and "claimed p = None"
  shows "answers (q, st) [] (set_pc t p s1)"
proof -
  obtain h where "s1 = s\<lparr>sq_hz := h\<rparr>" "hz_collector h = CollectDone"
    using hz_move_local [OF assms(2) sq_invD(9) [OF inv]] by blast
  with sq_local [OF inv, of h "st t" p t] assms(3-) show ?thesis by (auto intro: answers_same)
qed


lemma go_pop_search:
  assumes inv: "sq_inv ns hi ti q st s" and go: "simple_go t sp s = Some s'"
    and st: "st t = Pending OpPop"
  shows "answers (q, st) [] s'"
proof -
  note D = sq_invD [OF inv]
  note ok = D(8) [of t]
  have head: "seen ns hi (sq_head s)" using D(4,6) by (auto simp: seen_def node_at_def)
  show ?thesis
  proof (cases "sq_pc s t")
    case PopLoad
    with st head have "pc_ok ns hi ti (sq_heap s) (st t) (PopProtect (sq_head s))" by simp
    from sq_local_same [OF inv this] PopLoad go show ?thesis
      by (auto simp: simple_go_def Acquire_load_def intro!: answers_same)
  next
    case (PopProtect b)
    with go obtain s1 where "hz_move (Protect t b) s = Some s1" "s' = set_pc t (PopValidate b) s1"
      by (auto simp: simple_go_def Acquire_store_def)
    with hz_then_local [OF inv, of "Protect t b" s1 t "PopValidate b"] PopProtect ok show ?thesis by simp
  next
    case (PopValidate b)
    let ?p = "if sq_head s = b then PopNext (sq_head s) else PopProtect (sq_head s)"
    have "pc_ok ns hi ti (sq_heap s) (st t) ?p" using st head by auto
    from sq_local_same [OF inv this] PopValidate go show ?thesis
      by (auto simp: simple_go_def Acquire_validate_def intro!: answers_same)
  next
    case (PopNext h)
    with ok obtain i where i: "i \<le> hi" "node_at ns i h" by (auto simp: seen_def)
    obtain nd where nd: "deref s h = Inr (ns ! i, nd)" "node_next nd = (if Suc i < length ns then Some (ns ! Suc i) else None)"
      using deref_node [OF D(2) i(2)] by blast
    show ?thesis
    proof (cases "Suc i < length ns")
      case True
      then have "pc_ok ns hi ti (sq_heap s) (st t) (PopTail h)" using st i by (auto simp: seen_next_def)
      from sq_local_same [OF inv this] PopNext go nd True show ?thesis
        by (auto simp: simple_go_def TryPop_next_def on_node_def intro!: answers_same)
    next
      case False
      then have "hi = i" using last_position [OF i(2) _ i(1) D(4)] by blast
      with False D(10) have q: "q = []" by simp
      have "sq_inv ns hi ti q (st(t := Finished (Popped None))) (set_pc t PopReleaseEmpty (s\<lparr>sq_hz := sq_hz s\<rparr>))"
        by (rule sq_local [OF inv D(9)]) auto
      with PopNext go nd False q st show ?thesis
        by (auto simp: simple_go_def TryPop_next_def on_node_def intro: answers_effect)
    qed
  next
    case (PopTail h)
    with ok obtain i where i: "i \<le> hi" "node_at ns i h" "Suc i < length ns" by (auto simp: seen_next_def)
    let ?p = "if h = sq_tail s then PopHelpLoad h else PopHeadNext h"
    have "pc_ok ns hi ti (sq_heap s) (st t) ?p"
    proof (cases "h = sq_tail s")
      case False
      then have "i \<noteq> ti" using i(2) D(7) by (auto simp: node_at_def)
      with False st i D(3) show ?thesis by (auto simp: behind_def intro!: exI [of _ i])
    qed (use st i D(3) in \<open>auto simp: seen_next_def intro!: exI [of _ i]\<close>)
    from sq_local_same [OF inv this] PopTail go show ?thesis
      by (auto simp: simple_go_def TryPop_tail_def intro!: answers_same)
  next
    case (PopHelpLoad ot)
    with ok obtain i where i: "i \<le> ti" "node_at ns i ot" "Suc i < length ns" by (auto simp: seen_next_def)
    obtain nd where nd: "deref s ot = Inr (ns ! i, nd)" "node_next nd = Some (ns ! Suc i)"
      using deref_node [OF D(2) i(2)] i(3) by metis
    have "pc_ok ns hi ti (sq_heap s) (st t) (PopHelp ot (node_next nd))"
      using st i nd by (auto simp: follows_def node_at_def)
    from sq_local_same [OF inv this] PopHelpLoad go nd(1) show ?thesis
      by (auto simp: simple_go_def TryPop_help_load_def on_node_def intro!: answers_same)
  next
    case (PopHelp ot nx)
    with ok have "follows ns ti ot nx" by simp
    from sq_tail_cas [OF inv this, of t PopLoad sp] st go PopHelp show ?thesis
      by (auto simp: simple_go_def TryPop_help_def intro: answers_same)
  next
    case (PopHeadNext h)
    with ok obtain i where i: "i < ti" "node_at ns i h" by (auto simp: behind_def)
    then have len: "Suc i < length ns" using D(5) by simp
    obtain nd where nd: "deref s h = Inr (ns ! i, nd)" "node_next nd = Some (ns ! Suc i)"
      using deref_node [OF D(2) i(2)] len by metis
    have "pc_ok ns hi ti (sq_heap s) (st t) (PopCas h (node_next nd))"
      using st i nd len by (auto simp: behind_def follows_def node_at_def intro!: exI [of _ i])
    from sq_local_same [OF inv this] PopHeadNext go nd(1) show ?thesis
      by (auto simp: simple_go_def TryPop_head_next_def on_node_def intro!: answers_same)
  next
    case (PopCas h nx)
    show ?thesis
    proof (cases "\<not> sp \<and> sq_head s = h")
      case True
      then obtain v q' where "q = v # q'" "sq_inv ns (Suc hi) ti q' (st(t := Finished (Popped (Some v)))) s'"
        using sq_pop [OF inv PopCas, of s'] go PopCas by (auto simp: simple_go_def TryPop_cas_def)
      with st show ?thesis by (auto intro: answers_effect)
    next
      case False
      have "pc_ok ns hi ti (sq_heap s) (st t) PopLoad" using st by simp
      from sq_local_same [OF inv this] PopCas go False show ?thesis
        by (auto simp: simple_go_def TryPop_cas_def intro!: answers_same)
    qed
  qed (use ok st go in \<open>auto simp: simple_go_def pushing_def\<close>)
qed

lemma go_pop_finish:
  assumes inv: "sq_inv ns hi ti q st s" and go: "simple_go t sp s = Some s'"
    and st: "st t = Finished r" and pc: "\<And>n ot. sq_pc s t \<noteq> PushSwing n ot"
  shows "answers (q, st) [] s'"
proof -
  note D = sq_invD [OF inv]
  note ok = D(8) [of t]
  show ?thesis
  proof (cases "sq_pc s t")
    case PopReleaseEmpty
    with go obtain s1 where "hz_move (Protect t None) s = Some s1" "s' = set_pc t (QReturn (Popped None)) s1"
      by (auto simp: simple_go_def TryPop_release_empty_def)
    with hz_then_local [OF inv, of _ s1 t] PopReleaseEmpty ok show ?thesis by simp
  next
    case (PopReadNext h)
    with ok obtain v i where v: "st t = Finished (Popped (Some v))" "taken ns hi (sq_heap s) h v"
      and i: "i < hi" "node_at ns i h" "Suc i < length ns" by (auto simp: taken_def)
    obtain nd where nd: "deref s h = Inr (ns ! i, nd)" "node_next nd = Some (ns ! Suc i)"
      using deref_node [OF D(2) i(2)] i(3) by metis
    have "pc_ok ns hi ti (sq_heap s) (st t) (PopReadValue h (node_next nd))"
      using v i nd by (auto simp: follows_def node_at_def intro!: exI [of _ i])
    from sq_local_same [OF inv this] PopReadNext go nd(1) show ?thesis
      by (auto simp: simple_go_def TryPop_read_next_def on_node_def intro!: answers_same)
  next
    case (PopReadValue h nx)
    with sq_read [OF inv PopReadValue] go show ?thesis
      by (auto simp: simple_go_def intro: answers_same)
  next
    case (PopRelease h v)
    with go obtain s1 where "hz_move (Protect t None) s = Some s1" "s' = set_pc t (PopRetire h v) s1"
      by (auto simp: simple_go_def TryPop_release_def)
    with hz_then_local [OF inv, of _ s1 t] PopRelease ok show ?thesis by simp
  next
    case (PopRetire h v)
    show ?thesis
    proof (cases h)
      case None
      have "pc_ok ns hi ti (sq_heap s) (st t) (QReturn (Popped (Some v)))" using PopRetire ok by simp
      from sq_local_same [OF inv this] PopRetire go None show ?thesis
        by (auto simp: simple_go_def TryPop_retire_def intro!: answers_same)
    next
      case (Some a)
      with PopRetire go obtain s1 where "hz_move (RetireNode t a) s = Some s1" "s' = set_pc t (PopRetireCount v) s1"
        by (auto simp: simple_go_def TryPop_retire_def)
      with hz_then_local [OF inv, of _ s1 t] PopRetire ok show ?thesis by simp
    qed
  next
    case (PopRetireCount v)
    with go obtain s1 where "hz_move (Continue t) s = Some s1" "s' = set_pc t (QReturn (Popped (Some v))) s1"
      by (auto simp: simple_go_def TryPop_retire_count_def)
    with hz_then_local [OF inv, of _ s1 t] PopRetireCount ok show ?thesis by simp
  qed (use ok st go pc in \<open>auto simp: simple_go_def pushing_def\<close>)
qed

lemma go_answers:
  assumes inv: "sq_inv ns hi ti q st s" and go: "simple_go t sp s = Some s'"
  shows "answers (q, st) [] s'"
proof (cases "st t")
  case Idle
  with sq_invD(8) [OF inv, of t] go show ?thesis
    by (cases "sq_pc s t") (auto simp: simple_go_def pushing_def)
next
  case (Pending op)
  show ?thesis
  proof (cases op)
    case (OpPush v)
    with Pending sq_invD(8) [OF inv, of t] have "owned (sq_pc s t) \<noteq> None" by (cases "sq_pc s t") auto
    with go_push [OF inv go] show ?thesis by blast
  next
    case OpPop
    with Pending go_pop_search [OF inv go] show ?thesis by simp
  qed
next
  case (Finished r)
  then show ?thesis
    by (cases "\<exists>n ot. sq_pc s t = PushSwing n ot") (use go_push [OF inv go] go_pop_finish [OF inv go] in auto)
qed


lemma linked_alloc: "linked ns hp \<Longrightarrow> hp a = None \<Longrightarrow> a \<notin> set ns \<and> linked ns (hp(a := x))"
  unfolding linked_def in_set_conv_nth by (metis fun_upd_other)

lemma call_push_answers:
  assumes inv: "sq_inv ns hi ti q st s" and idle: "sq_pc s t = QIdle" and a: "sq_heap s a = None"
  shows "answers (q, st) [Invoke t (OpPush v)]
    (set_pc t (PushLoad a) (s\<lparr>sq_heap := (sq_heap s)(a := Some \<lparr>node_value = Item v, node_next = None\<rparr>)\<rparr>))"
    (is "answers _ _ (set_pc t _ (s\<lparr>sq_heap := ?hp\<rparr>))")
proof -
  note D = sq_invD [OF inv]
  have fresh: "a \<notin> set ns" "linked ns ?hp" using linked_alloc [OF D(2) a] by auto
  then have same: "val (?hp b) = val (sq_heap s b)" if "b \<in> set ns" for b using that by auto
  have "map (\<lambda>b. val (?hp b)) (drop (Suc hi) ns) = map (\<lambda>b. val (sq_heap s b)) (drop (Suc hi) ns)"
    using fresh(1) by (auto dest: in_set_dropD)
  then have vals: "map (\<lambda>b. val (?hp b)) (drop (Suc hi) ns) = map Item q" using D(10) by simp
  have "pc_ok (ns @ []) hi ti ?hp (st u) (sq_pc s u)" for u
  proof (rule pc_ok_stable [OF D(8) order_refl order_refl])
    fix n w
    assume "owned (sq_pc s u) = Some n" "fresh_node ns (sq_heap s) n w"
    then show "fresh_node (ns @ []) ?hp n w" using a by (auto simp: fresh_node_def)
  qed (simp only: same nth_mem)
  then have others: "pc_ok ns hi ti ?hp (st u) (sq_pc s u)" for u by simp
  have "owned (sq_pc s u) \<noteq> Some a" for u using fresh_owned(2) [OF inv, of u a] a by auto
  then have excl: "exclusive owned ((sq_pc s)(t := PushLoad a))"
    using inv by (intro exclusive_new) (auto simp: sq_inv_def)
  have "sq_inv ns hi ti q (st(t := Pending (OpPush v))) (set_pc t (PushLoad a) (s\<lparr>sq_heap := ?hp\<rparr>))"
    using inv fresh vals others excl
    by (auto simp: sq_inv_def chain_ok_def set_pc_def pushing_def fresh_node_def intro!: exclusive_upd)
  moreover have "st t = Idle" using D(8) [of t] idle by simp
  ultimately show ?thesis unfolding answers_def using spec_call [of st t q] by (auto intro: sq_simI)
qed

lemma call_pop_answers:
  assumes inv: "sq_inv ns hi ti q st s" and idle: "sq_pc s t = QIdle"
  shows "answers (q, st) [Invoke t OpPop] (set_pc t PopLoad s)"
proof -
  have "sq_inv ns hi ti q (st(t := Pending OpPop)) (set_pc t PopLoad (s\<lparr>sq_hz := sq_hz s\<rparr>))"
    by (rule sq_local [OF inv sq_invD(9) [OF inv]]) auto
  moreover have "st t = Idle" using sq_invD(8) [OF inv, of t] idle by simp
  ultimately show ?thesis unfolding answers_def using spec_call [of st t q] by (auto intro: sq_simI)
qed

lemma return_answers:
  assumes inv: "sq_inv ns hi ti q st s" and pc: "sq_pc s t = QReturn r"
  shows "answers (q, st) [Return t r] (set_pc t QIdle s)"
proof -
  have "sq_inv ns hi ti q (st(t := Idle)) (set_pc t QIdle (s\<lparr>sq_hz := sq_hz s\<rparr>))"
    by (rule sq_local [OF inv sq_invD(9) [OF inv]]) auto
  moreover have "st t = Finished r" using sq_invD(8) [OF inv, of t] pc by simp
  ultimately show ?thesis unfolding answers_def using spec_reply [of st t r q] by (auto intro: sq_simI)
qed

lemma hz_answers:
  assumes inv: "sq_inv ns hi ti q st s" and "hz_move c s = Some s'"
  shows "answers (q, st) [] s'"
proof -
  obtain h where "s' = s\<lparr>sq_hz := h\<rparr>" "hz_collector h = CollectDone"
    using hz_move_local [OF assms(2) sq_invD(9) [OF inv]] by blast
  with inv have "sq_inv ns hi ti q st s'" by (auto simp: sq_inv_def chain_ok_def)
  then show ?thesis by (rule answers_same)
qed

lemma simple_sim_step:
  assumes "sq_sim a s" and st: "simple_step c s = Some (s', e)"
  shows "answers a e s'"
proof -
  obtain q st ns hi ti where a: "a = (q, st)" and inv: "sq_inv ns hi ti q st s"
    using assms(1) by (auto simp: sq_sim_def split: prod.splits)
  show ?thesis
  proof (cases c)
    case (CallPush t v b)
    with st call_push_answers [OF inv, of t b v] a show ?thesis by (auto split: if_splits)
  next
    case (CallTryPop t)
    with st call_pop_answers [OF inv, of t] a show ?thesis by (auto split: if_splits)
  next
    case (Go t sp)
    show ?thesis
    proof (cases "\<exists>r. sq_pc s t = QReturn r")
      case True
      with Go st return_answers [OF inv, of t] a show ?thesis by auto
    next
      case False
      with Go st have "simple_go t sp s = Some s'" "e = []" by (auto split: simple_pc.splits)
      with go_answers [OF inv] a show ?thesis by simp
    qed
  next
    case (Hz k)
    with st hz_answers [OF inv, of k] a show ?thesis by (auto split: if_splits)
  qed
qed

lemma simple_sim_init: "sq_sim init_spec (init_simple CollectDone)"
proof -
  have "sq_inv [0] 0 0 [] (\<lambda>_. Idle) (init_simple CollectDone)"
    by (auto simp: sq_inv_def chain_ok_def linked_def node_at_def init_simple_def nxt_def exclusive_def)
  then show ?thesis by (auto simp: init_spec_def sq_sim_def)
qed

interpretation simple_refines:
  event_simulation simple_step "init_simple CollectDone" queue_spec init_spec sq_sim
  by unfold_locales (fact simple_sim_init, use simple_sim_step in \<open>simp add: answers_def\<close>)

lemma sq_sim_no_fault: "sq_sim a s \<Longrightarrow> sq_pc s t \<noteq> QFault f"
  by (auto simp: sq_sim_def split: prod.splits dest: sq_invD(8) [where t = t])


subsection \<open>The destructor\<close>

text \<open>
  \<open>~SimpleMSQueue\<close> runs when no thread uses the queue. The loop follows the links; on a
  cyclic chain it would not end, hence the option.
\<close>

partial_function (option) destroy_simple :: "ptr \<Rightarrow> (addr \<Rightarrow> 'v ms_node option) \<Rightarrow> (fault + (addr \<Rightarrow> 'v ms_node option)) option" where
  "destroy_simple head hp =
     (case head of
        None \<Rightarrow> Some (Inr hp)
      | Some to_delete \<Rightarrow>
          (case hp to_delete of
             None \<Rightarrow> Some (Inl UseAfterFree)
           | Some nd \<Rightarrow> destroy_simple (node_next nd) (hp(to_delete := None))))"

lemma destroy_chain:
  assumes "distinct ns" and "linked ns hp" and "i < length ns"
  shows "destroy_simple (Some (ns ! i)) hp = Some (Inr (\<lambda>a. if a \<in> set (drop i ns) then None else hp a))"
  using assms
proof (induction "length ns - i" arbitrary: i hp ns)
  case 0
  then show ?case by simp
next
  case (Suc k)
  obtain nd where nd: "hp (ns ! i) = Some nd" "node_next nd = (if Suc i < length ns then Some (ns ! Suc i) else None)"
    using Suc.prems(2,3) by (fastforce simp: linked_def nxt_def)
  have drop: "drop i ns = ns ! i # drop (Suc i) ns" using Suc.prems(3) by (simp add: Cons_nth_drop_Suc)
  show ?case
  proof (cases "Suc i < length ns")
    case False
    then have "drop (Suc i) ns = []" by simp
    with False nd drop show ?thesis by (simp add: destroy_simple.simps fun_upd_def)
  next
    case True
    let ?ms = "drop (Suc i) ns" and ?hp = "hp(ns ! i := None)"
    have notin: "ns ! i \<notin> set ?ms" using Suc.prems(1) drop by (metis distinct.simps(2) distinct_drop)
    have lk: "linked ?ms ?hp"
      unfolding linked_def
    proof (intro allI impI)
      fix j
      assume "j < length ?ms"
      then have j: "Suc i + j < length ns" "?ms ! j = ns ! (Suc i + j)" by auto
      moreover have "ns ! (Suc i + j) \<noteq> ns ! i" using Suc.prems(1,3) j(1) by (simp add: nth_eq_iff_index_eq)
      ultimately show "?hp (?ms ! j) \<noteq> None \<and>
          nxt (?hp (?ms ! j)) = (if Suc j < length ?ms then Some (?ms ! Suc j) else None)"
        using Suc.prems(2) by (auto simp: linked_def)
    qed
    have "k = length ?ms - 0" using Suc.hyps(2) by simp
    from Suc.hyps(1) [OF this _ lk] Suc.prems(1) True
    have "destroy_simple (Some (ns ! Suc i)) ?hp = Some (Inr (\<lambda>a. if a \<in> set ?ms then None else ?hp a))"
      by simp
    with nd True drop show ?thesis by (subst destroy_simple.simps) (auto simp: fun_eq_iff)
  qed
qed


subsection \<open>Properties\<close>

text \<open>
  C2: \<open>SimpleMSQueue\<close> is linearizable and does not fault while no node is reclaimed. In every
  interleaving of \<open>Push\<close> and \<open>TryPop\<close> calls of any number of threads, with spurious failures of the
  weak compare-exchanges, the history of calls and returns is a history of the atomic queue; no thread
  dereferences a null or freed pointer or reads a value twice; and the popped values were
  pushed, each popped at most once.
\<close>

theorem simple_ms_queue_linearizable:
  assumes "reach simple_step (init_simple CollectDone) es s"
  shows "(\<exists>a. reach queue_spec init_spec es a) \<and> (\<forall>t f. sq_pc s t \<noteq> QFault f) \<and>
    mset (popped_values es) \<subseteq># mset (pushed_values es)"
proof -
  obtain a where "reach queue_spec init_spec es a" "sq_sim a s"
    using simple_refines.refines [OF assms] by blast
  then show ?thesis using sq_sim_no_fault spec_pops_pushed by blast
qed

theorem simple_ms_queue_linearizable_witness:
  "\<exists>es s. reach simple_step (init_simple CollectDone) es s \<and> popped_values es = [7 :: nat] \<and>
     (\<exists>a. reach queue_spec init_spec es a)"
proof -
  have "run_ok simple_step
     ([Hz (Make 1), Hz (Continue 1), Hz (Continue 1), CallTryPop 1, CallPush 2 (7 :: nat) 10, Go 2 False, Go 2 False,
       Go 1 False, Go 1 False, Go 2 True, Go 2 False, Go 2 False, Go 2 False, Go 1 False, Go 2 False] @
      replicate 10 (Go 1 False)) (init_simple CollectDone)
     (\<lambda>es s. popped_values es = [7])"
    by code_simp
  then obtain es s where r: "reach simple_step (init_simple CollectDone) es s" and "popped_values es = [7 :: nat]"
    by (rule run_okE) blast
  with simple_ms_queue_linearizable [OF r] show ?thesis by blast
qed

text \<open>
  C26: with a running collector both operations can read freed memory. \<open>TryPop\<close> reads
  \<open>next->value\<close> after its compare-exchange has published \<open>next\<close> as the new head while only the old head is
  protected, so that another thread can pop and retire \<open>next\<close> and the collector free it first.
  \<open>Push\<close> dereferences the tail it has loaded without protecting it at all.
\<close>

theorem simple_ms_queue_use_after_free:
  "(\<exists>es s. reach simple_step (init_simple CollectTest :: nat simple_queue) es s \<and>
      sq_pc s 1 = QFault UseAfterFree \<and> thread_hazard 1 (hz (sq_hz s)) = [0]) \<and>
   (\<exists>es s. reach simple_step (init_simple CollectTest :: nat simple_queue) es s \<and>
      sq_pc s 3 = QFault UseAfterFree \<and> hz_pc (sq_hz s) 3 = NoMutator)"
proof
  have "run_ok simple_step
     ([Hz (Make 1), Hz (Continue 1), Hz (Continue 1), Hz (Make 2), Hz (Continue 2), Hz (Continue 2)] @
      CallPush 3 7 10 # replicate 5 (Go 3 False) @ CallPush 3 8 11 # replicate 5 (Go 3 False) @
      CallTryPop 1 # replicate 8 (Go 1 False) @ CallTryPop 2 # replicate 12 (Go 2 False) @
      replicate 10 (Hz Collector) @ [Go 1 False]) (init_simple CollectTest :: nat simple_queue)
     (\<lambda>es s. sq_pc s 1 = QFault UseAfterFree \<and> thread_hazard 1 (hz (sq_hz s)) = [0])"
    by code_simp
  then show "\<exists>es s. reach simple_step (init_simple CollectTest :: nat simple_queue) es s \<and>
      sq_pc s 1 = QFault UseAfterFree \<and> thread_hazard 1 (hz (sq_hz s)) = [0]"
    by (rule run_okE) blast
next
  have "run_ok simple_step
     ([Hz (Make 1), Hz (Continue 1), Hz (Continue 1), CallPush 3 7 10, Go 3 False] @
      CallPush 2 8 11 # replicate 5 (Go 2 False) @ CallTryPop 1 # replicate 12 (Go 1 False) @
      replicate 7 (Hz Collector) @ [Go 3 False]) (init_simple CollectTest :: nat simple_queue)
     (\<lambda>es s. sq_pc s 3 = QFault UseAfterFree \<and> hz_pc (sq_hz s) 3 = NoMutator)"
    by code_simp
  then show "\<exists>es s. reach simple_step (init_simple CollectTest :: nat simple_queue) es s \<and>
      sq_pc s 3 = QFault UseAfterFree \<and> hz_pc (sq_hz s) 3 = NoMutator"
    by (rule run_okE) blast
qed

text \<open>
  The destructor, run when no operation is under way, ends without a fault and frees every
  node of the chain from \<open>head\<close> on, and nothing else.
\<close>

lemma simple_ms_queue_destructor:
  assumes "reach simple_step (init_simple CollectDone) es s" and "\<forall>t. sq_pc s t = QIdle"
  shows "\<exists>ns q. destroy_simple (sq_head s) (sq_heap s) = Some (Inr (\<lambda>a. if a \<in> set ns then None else sq_heap s a)) \<and>
    sq_head s = Some (hd ns) \<and> map (\<lambda>a. val (sq_heap s a)) (tl ns) = map Item q \<and>
    reach queue_spec init_spec es (q, \<lambda>_. Idle)"
proof -
  obtain a where r: "reach queue_spec init_spec es a" and "sq_sim a s"
    using simple_refines.refines [OF assms(1)] by blast
  then obtain q st ns hi ti where a: "a = (q, st)" and inv: "sq_inv ns hi ti q st s"
    by (auto simp: sq_sim_def split: prod.splits)
  note D = sq_invD [OF inv]
  have "st = (\<lambda>_. Idle)" using D(8) assms(2) by (intro ext) (metis pc_ok.simps(1))
  moreover have "hd (drop hi ns) = ns ! hi" "tl (drop hi ns) = drop (Suc hi) ns"
    using D(4) by (simp_all add: hd_drop_conv_nth drop_Suc tl_drop)
  ultimately show ?thesis
    using destroy_chain [OF D(1,2,4)] D(6,10) r a by (intro exI [of _ "drop hi ns"] exI [of _ q]) simp
qed

end
