(* ===== verification/Tasks.thy ===== *)
theory Tasks
  imports Prelude
begin

text \<open>
  Tasks: the base class of the intrusive tasks (\<^verbatim>\<open>src/executor/task/task_base.h\<close>), the counters an
  executor keeps of them (\<open>Shutdowner\<close> in \<^verbatim>\<open>src/executor/executor.h\<close>), and the older task with
  a status that threads can wait for (\<^verbatim>\<open>src/executor/task/task.cpp\<close>).

  The methods of the older task hold its mutex for their whole body, so each is one step;
  \<open>Wait\<close> gives the mutex up while it sleeps on the condition variable, and may be woken spuriously. A
  \<open>notify_one\<close> wakes one sleeper, which the choice of the step names.

  The lemmas show how the state of a task advances, that the status of a task is decided at most
  once, that \<open>Wait\<close> returns only then and that a single waiter is never forgotten; with two
  waiters the second one is, because the status is announced by \<open>notify_one\<close>.
\<close>

subsection \<open>The task base class\<close>

datatype state_task = PLANNED | RUNNING | FINISHED

datatype scheduler_hint = GLOBAL | LOCAL

datatype task_run_result = UNCOMPLETED | COMPLETE

record task_base =
  tb_state :: state_task
  tb_worker :: ptr

definition new_task :: task_base where
  "new_task = \<lparr>tb_state = PLANNED, tb_worker = None\<rparr>"

definition GetState :: "task_base \<Rightarrow> state_task" where
  "GetState tb = tb_state tb"

definition ProgressState :: "task_base \<Rightarrow> fault + task_base" where
  "ProgressState tb =
     (case tb_state tb of
        PLANNED \<Rightarrow> Inr (tb\<lparr>tb_state := RUNNING\<rparr>)
      | RUNNING \<Rightarrow> Inr (tb\<lparr>tb_state := FINISHED\<rparr>)
      | FINISHED \<Rightarrow> Inl RuntimeError)"

definition SetWorker :: "ptr \<Rightarrow> task_base \<Rightarrow> task_base" where
  "SetWorker w tb = (if tb_worker tb = None then tb\<lparr>tb_worker := w\<rparr> else tb)"

definition GetWorker :: "task_base \<Rightarrow> ptr" where
  "GetWorker tb = tb_worker tb"

text \<open>The enumeration order of the states.\<close>

fun state_rank :: "state_task \<Rightarrow> nat" where
  "state_rank PLANNED = 0"
| "state_rank RUNNING = 1"
| "state_rank FINISHED = 2"

lemma state_rank_inject: "state_rank x = state_rank y \<Longrightarrow> x = y"
  by (cases x; cases y) auto

instantiation state_task :: linorder
begin

definition less_eq_state_task :: "state_task \<Rightarrow> state_task \<Rightarrow> bool" where
  "less_eq_state_task x y \<longleftrightarrow> state_rank x \<le> state_rank y"

definition less_state_task :: "state_task \<Rightarrow> state_task \<Rightarrow> bool" where
  "less_state_task x y \<longleftrightarrow> state_rank x < state_rank y"

instance
  by standard (auto simp: less_eq_state_task_def less_state_task_def intro: state_rank_inject)

end

lemma state_task_order [simp]: "PLANNED < RUNNING" "RUNNING < FINISHED" "x \<le> FINISHED"
  by (simp_all add: less_eq_state_task_def less_state_task_def) (cases x, simp_all)

subsection \<open>The counters of an executor\<close>

record shutdowner =
  sd_count_tasks :: size_t
  sd_shutdown :: bool
  sd_suspended_workers :: size_t

definition init_shutdowner :: shutdowner where
  "init_shutdowner = \<lparr>sd_count_tasks = 0, sd_shutdown = False, sd_suspended_workers = 0\<rparr>"

definition IsShutdown :: "shutdowner \<Rightarrow> bool" where
  "IsShutdown sd = sd_shutdown sd"

definition StartShutdown :: "shutdowner \<Rightarrow> shutdowner" where
  "StartShutdown sd = sd\<lparr>sd_shutdown := True\<rparr>"

definition GetTasks :: "shutdowner \<Rightarrow> size_t" where
  "GetTasks sd = sd_count_tasks sd"

definition AddTask :: "shutdowner \<Rightarrow> shutdowner" where
  "AddTask sd = sd\<lparr>sd_count_tasks := sd_count_tasks sd + 1\<rparr>"

definition RemoveTask :: "shutdowner \<Rightarrow> shutdowner" where
  "RemoveTask sd = sd\<lparr>sd_count_tasks := sd_count_tasks sd - 1\<rparr>"

definition CanCloseWorker :: "shutdowner \<Rightarrow> bool" where
  "CanCloseWorker sd = (sd_shutdown sd \<and> sd_count_tasks sd = 0)"

definition AddSuspendedWorker :: "shutdowner \<Rightarrow> shutdowner" where
  "AddSuspendedWorker sd = sd\<lparr>sd_suspended_workers := sd_suspended_workers sd + 1\<rparr>"

definition WakeUpSuspendedWorker :: "shutdowner \<Rightarrow> shutdowner" where
  "WakeUpSuspendedWorker sd = sd\<lparr>sd_suspended_workers := sd_suspended_workers sd - 1\<rparr>"

definition GetSuspendedWorkers :: "shutdowner \<Rightarrow> size_t" where
  "GetSuspendedWorkers sd = sd_suspended_workers sd"

subsection \<open>The task with a status\<close>

datatype task_status = NotStarted | Completed | Cancelled | Failed

datatype task_pc =
    TOutside
  | TSleeping      \<comment> \<open>in \<open>Wait\<close>, on the condition variable\<close>
  | TAwake         \<comment> \<open>in \<open>Wait\<close>, woken, about to take the mutex and test the status\<close>
  | TFault fault

record status_task =
  st_status :: task_status
  st_error :: ptr
  st_sleepers :: "tid list"
  st_pc :: "tid \<Rightarrow> task_pc"

datatype task_event =
    Decided task_status
  | WaitReturned tid

datatype task_choice =
    Cancel tid "tid option"           \<comment> \<open>the caller and the sleeper \<open>notify_one\<close> wakes\<close>
  | MarkCompleted tid "tid option"
  | MarFailed tid addr "tid option"
  | Wait tid
  | Awake tid
  | Spurious tid

definition init_status_task :: status_task where
  "init_status_task = \<lparr>st_status = NotStarted, st_error = None, st_sleepers = [], st_pc = (\<lambda>_. TOutside)\<rparr>"

definition notify_one :: "tid option \<Rightarrow> status_task \<Rightarrow> status_task option" where
  "notify_one w s =
     (case w of
        None \<Rightarrow> if st_sleepers s = [] then Some s else None
      | Some u \<Rightarrow>
          if u \<in> set (st_sleepers s)
          then Some (s\<lparr>st_sleepers := remove1 u (st_sleepers s), st_pc := (st_pc s)(u := TAwake)\<rparr>)
          else None)"

definition decide :: "tid \<Rightarrow> task_status \<Rightarrow> ptr \<Rightarrow> tid option \<Rightarrow> status_task \<Rightarrow> (status_task \<times> task_event list) option" where
  "decide t x err w s =
     (if st_pc s t \<noteq> TOutside then None
      else if st_status s \<noteq> NotStarted then Some (s\<lparr>st_pc := (st_pc s)(t := TFault AssertFailed)\<rparr>, [])
      else map_option (\<lambda>s'. (s', [Decided x])) (notify_one w (s\<lparr>st_status := x, st_error := err\<rparr>)))"

definition Wait_test :: "tid \<Rightarrow> status_task \<Rightarrow> status_task \<times> task_event list" where
  "Wait_test t s =
     (if st_status s = NotStarted
      then (s\<lparr>st_sleepers := st_sleepers s @ [t], st_pc := (st_pc s)(t := TSleeping)\<rparr>, [])
      else (s\<lparr>st_pc := (st_pc s)(t := TOutside)\<rparr>, [WaitReturned t]))"

fun task_step :: "(task_choice, status_task, task_event) stepper" where
  "task_step (Cancel t w) s = decide t Cancelled (st_error s) w s"
| "task_step (MarkCompleted t w) s = decide t Completed (st_error s) w s"
| "task_step (MarFailed t p w) s = decide t Failed (Some p) w s"
| "task_step (Wait t) s = (if st_pc s t = TOutside then Some (Wait_test t s) else None)"
| "task_step (Awake t) s = (if st_pc s t = TAwake then Some (Wait_test t s) else None)"
| "task_step (Spurious t) s =
     (if t \<in> set (st_sleepers s)
      then Some (s\<lparr>st_sleepers := remove1 t (st_sleepers s), st_pc := (st_pc s)(t := TAwake)\<rparr>, []) else None)"

definition IsCompleted :: "status_task \<Rightarrow> bool" where
  "IsCompleted s \<longleftrightarrow> Completed = st_status s"

definition IsCanceled :: "status_task \<Rightarrow> bool" where
  "IsCanceled s \<longleftrightarrow> Cancelled = st_status s"

definition IsFinished :: "status_task \<Rightarrow> bool" where
  "IsFinished s \<longleftrightarrow> NotStarted \<noteq> st_status s"

definition IsFailed :: "status_task \<Rightarrow> bool" where
  "IsFailed s \<longleftrightarrow> Failed = st_status s"

definition GetError :: "status_task \<Rightarrow> ptr" where
  "GetError s = st_error s"

subsection \<open>The status is decided once\<close>

fun decisions :: "task_event list \<Rightarrow> task_status list" where
  "decisions [] = []"
| "decisions (Decided x # es) = x # decisions es"
| "decisions (WaitReturned t # es) = decisions es"

fun waits_after_decision :: "bool \<Rightarrow> task_event list \<Rightarrow> bool" where
  "waits_after_decision d [] \<longleftrightarrow> True"
| "waits_after_decision d (Decided x # es) \<longleftrightarrow> waits_after_decision True es"
| "waits_after_decision d (WaitReturned t # es) \<longleftrightarrow> d \<and> waits_after_decision d es"

lemma decisions_append [simp]: "decisions (es @ fs) = decisions es @ decisions fs"
  by (induction es rule: decisions.induct) auto

lemma waits_after_append:
  "waits_after_decision d (es @ fs) \<longleftrightarrow>
     waits_after_decision d es \<and> waits_after_decision (d \<or> decisions es \<noteq> []) fs"
  by (induction d es rule: waits_after_decision.induct) auto

definition task_inv :: "task_event list \<Rightarrow> status_task \<Rightarrow> bool" where
  "task_inv es s \<longleftrightarrow>
     decisions es = (if st_status s = NotStarted then [] else [st_status s]) \<and>
     waits_after_decision False es \<and>
     (st_error s \<noteq> None \<longrightarrow> st_status s = Failed) \<and> (st_status s = Failed \<longrightarrow> st_error s \<noteq> None) \<and>
     distinct (st_sleepers s) \<and> (\<forall>t. t \<in> set (st_sleepers s) \<longleftrightarrow> st_pc s t = TSleeping)"

lemmas task_ops = decide_def notify_one_def Wait_test_def

lemma task_inv_step:
  assumes "task_inv es s" and "task_step c s = Some (s', e)"
  shows "task_inv (es @ e) s'"
  using assms
  by (cases c)
     (auto simp: task_inv_def task_ops waits_after_append split: if_splits option.splits)

interpretation status_tasks: step_invariant task_step init_status_task task_inv
  by unfold_locales (simp add: task_inv_def init_status_task_def, erule (1) task_inv_step)

lemma ProgressState_mono: "ProgressState tb = Inr tb' \<Longrightarrow> tb_state tb < tb_state tb' \<and> tb_worker tb' = tb_worker tb"
  by (auto simp: ProgressState_def split: state_task.splits)

lemma ProgressState_fails: "ProgressState tb = Inl f \<longleftrightarrow> tb_state tb = FINISHED \<and> f = RuntimeError"
  by (auto simp: ProgressState_def split: state_task.splits)

subsection \<open>Sleepers\<close>

text \<open>With one waiting thread the announcement reaches it.\<close>

definition lone_waiter :: "tid \<Rightarrow> status_task \<Rightarrow> bool" where
  "lone_waiter t s \<longleftrightarrow>
     (if st_pc s t = TSleeping then st_sleepers s = [t] \<and> st_status s = NotStarted else st_sleepers s = []) \<and>
     (\<forall>u. u \<noteq> t \<longrightarrow> st_pc s u \<noteq> TAwake \<and> st_pc s u \<noteq> TSleeping)"

lemma lone_waiter_step:
  assumes "lone_waiter t s" and "task_step c s = Some (s', e)" and "\<And>u. c = Wait u \<Longrightarrow> u = t"
  shows "lone_waiter t s'"
proof (cases c)
  case (Awake u)
  with assms show ?thesis by (cases "u = t") (auto simp: lone_waiter_def task_ops split: if_splits)
qed (use assms in \<open>auto simp: lone_waiter_def task_ops split: if_splits option.splits\<close>)

lemma lone_waiter_sched:
  "sched task_step cs s0 = Some (s, es) \<Longrightarrow> lone_waiter t s0 \<Longrightarrow> \<forall>u. Wait u \<in> set cs \<longrightarrow> u = t \<Longrightarrow>
     lone_waiter t s"
proof (induction cs arbitrary: s0 es)
  case (Cons c cs)
  then obtain s1 e es1 where st: "task_step c s0 = Some (s1, e)" and rest: "sched task_step cs s1 = Some (s, es1)"
    by (auto split: option.splits)
  have "lone_waiter t s1" using lone_waiter_step [OF Cons.prems(2) st] Cons.prems(3) by simp
  with Cons.IH [OF rest] Cons.prems(3) show ?case by simp
qed simp

text \<open>Once the status is decided nobody notifies a sleeper again.\<close>

lemma forgotten_sleeper:
  "sched task_step cs s = Some (s', es) \<Longrightarrow> st_status s \<noteq> NotStarted \<Longrightarrow> st_pc s t = TSleeping \<Longrightarrow>
     Spurious t \<notin> set cs \<Longrightarrow> st_status s' \<noteq> NotStarted \<and> st_pc s' t = TSleeping"
proof (induction cs arbitrary: s es)
  case (Cons c cs)
  then obtain s1 e es1 where st: "task_step c s = Some (s1, e)" and rest: "sched task_step cs s1 = Some (s', es1)"
    by (auto split: option.splits)
  from st Cons.prems have "st_status s1 \<noteq> NotStarted \<and> st_pc s1 t = TSleeping"
    by (cases c) (auto simp: task_ops split: if_splits)
  with Cons.IH [OF rest] Cons.prems show ?case by simp
qed simp

subsection \<open>A task made of a callable\<close>

text \<open>\<open>FiberTask\<close>, a task with a status that runs a \<^verbatim>\<open>std::function\<close>: an empty one throws. \<open>invoke\<close> is the call operator of the wrapped object, a
  parameter. \<open>Run\<close> does not decide the status: whoever runs the task has to mark it, or the threads in \<open>Wait\<close> stay there.\<close>

record 'f fiber_task =
  fk_task :: status_task
  fk_function :: "'f option"

definition make_FiberTask :: "'f option \<Rightarrow> 'f fiber_task" where
  "make_FiberTask f = \<lparr>fk_task = init_status_task, fk_function = f\<rparr>"

definition FiberTask_Run :: "('f \<Rightarrow> 'w \<Rightarrow> 'w \<times> 'f) \<Rightarrow> 'w \<Rightarrow> 'f fiber_task \<Rightarrow> fault + ('w \<times> 'f fiber_task)" where
  "FiberTask_Run invoke w ft =
     (case fk_function ft of
        None \<Rightarrow> Inl RuntimeError
      | Some f \<Rightarrow> (case invoke f w of (w', f') \<Rightarrow> Inr (w', ft\<lparr>fk_function := Some f'\<rparr>)))"

lemma FiberTask_Run_undecided:
  assumes "FiberTask_Run invoke w ft = Inr (w', ft')"
  shows "fk_task ft' = fk_task ft" "\<exists>f f'. fk_function ft = Some f \<and> invoke f w = (w', f') \<and> fk_function ft' = Some f'"
  using assms by (auto simp: FiberTask_Run_def split: option.splits prod.splits)

subsection \<open>Properties\<close>

text \<open>
  the status of a task is decided at most once: in every interleaving exactly one of
  \<open>Cancel\<close>, \<open>MarkCompleted\<close> and \<open>MarFailed\<close> succeeds, \<open>Wait\<close> returns only afterwards, and an error is
  stored exactly when the task failed.
\<close>

lemma task_status_decided_once:
  assumes "reach task_step init_status_task es s"
  shows "decisions es = (if IsFinished s then [st_status s] else []) \<and> waits_after_decision False es \<and>
    (IsFinished s \<longleftrightarrow> IsCompleted s \<or> IsCanceled s \<or> IsFailed s) \<and> (IsFailed s \<longleftrightarrow> GetError s \<noteq> None)"
  using status_tasks.reach_inv [OF assms]
  by (cases "st_status s")
     (auto simp: task_inv_def IsFinished_def IsCompleted_def IsCanceled_def IsFailed_def GetError_def)

text \<open>
  A single waiter is not forgotten: when only one thread ever calls \<open>Wait\<close>, then after the
  status is decided no thread sleeps on the condition variable.
\<close>

lemma task_single_waiter_woken:
  assumes "sched task_step cs init_status_task = Some (s, es)" and "\<forall>u. Wait u \<in> set cs \<longrightarrow> u = t" and "IsFinished s"
  shows "st_sleepers s = [] \<and> (\<forall>u. st_pc s u \<noteq> TSleeping)"
proof -
  have "lone_waiter t init_status_task" by (simp add: lone_waiter_def init_status_task_def)
  from lone_waiter_sched [OF assms(1) this assms(2)] assms(3) show ?thesis
    by (auto simp: lone_waiter_def IsFinished_def split: if_splits)
qed

text \<open>
  with two waiters \<open>Wait\<close> can block for ever although the task is finished: \<open>notify_one\<close> wakes
  one of them, and the other sleeps on in every continuation without a spurious wake-up.
\<close>

lemma task_second_waiter_forgotten:
  "\<exists>es s. reach task_step init_status_task es s \<and> IsFinished s \<and>
     (\<forall>cs s' es'. Spurious 2 \<notin> set cs \<longrightarrow> sched task_step cs s = Some (s', es') \<longrightarrow> st_pc s' 2 = TSleeping)"
proof -
  have "run_ok task_step [Wait 1, Wait 2, MarkCompleted 3 (Some 1)] init_status_task
     (\<lambda>es s. IsFinished s \<and> st_pc s 2 = TSleeping)"
    by code_simp
  then obtain es s where "reach task_step init_status_task es s" "IsFinished s" "st_pc s 2 = TSleeping"
    by (rule run_okE) blast
  then show ?thesis using forgotten_sleeper [of _ s _ _ 2] unfolding IsFinished_def by metis
qed

end
