(* ===== verification/Manual_Executor.thy ===== *)
theory Manual_Executor
  imports Intrusive_List
begin

text \<open>
  The manual executor of \<^verbatim>\<open>src/executor/manual/intrusive_manual_executor.cpp\<close>.

  The executor keeps an intrusive list of tasks and its own counter \<^verbatim>\<open>count_tasks\<close>; both are
  only accessed under its spin lock, so each critical section is one operation here. \<open>Run\<close> is
  code of the client: the parameter \<open>run\<close> maps a task and the state of the world to the new
  world and the tasks that were submitted to the executor meanwhile, by the task itself or by other
  threads, in their order.

  The lemmas show that the counter agrees with the list, and that \<open>RunAtMost\<close> and \<open>Drain\<close>
  run the tasks first-in first-out, tasks submitted during the run included. \<open>Drain\<close> need not end, so
  it is a partial function; it is shown to return whenever the tasks run out.
\<close>

type_synonym 'w task_body = "addr \<Rightarrow> 'w \<Rightarrow> 'w \<times> addr list"

record manual_executor =
  me_links :: links
  me_tasks :: intrusive_list
  me_count :: size_t

definition init_manual :: "links \<Rightarrow> manual_executor" where
  "init_manual h = \<lparr>me_links = h, me_tasks = empty_list, me_count = 0\<rparr>"

definition me_Submit :: "ptr \<Rightarrow> manual_executor \<Rightarrow> fault + manual_executor" where
  "me_Submit task e =
     bind_res (Push task (me_links e, me_tasks e))
       (\<lambda>(h, l). Inr (e\<lparr>me_links := h, me_tasks := l, me_count := me_count e + 1\<rparr>))"

text \<open>The critical section of the loops: \<open>None\<close> when the executor is empty.\<close>

definition me_take :: "manual_executor \<Rightarrow> fault + (manual_executor \<times> ptr) option" where
  "me_take e =
     (if me_count e = 0 then Inr None
      else bind_res (Pop (me_links e) (me_tasks e))
             (\<lambda>(l, task). Inr (Some (e\<lparr>me_tasks := l, me_count := me_count e - 1\<rparr>, task))))"

fun submit_all :: "addr list \<Rightarrow> manual_executor \<Rightarrow> fault + manual_executor" where
  "submit_all [] e = Inr e"
| "submit_all (a # as) e = bind_res (me_Submit (Some a) e) (submit_all as)"

definition run_task :: "'w task_body \<Rightarrow> ptr \<Rightarrow> 'w \<Rightarrow> manual_executor \<Rightarrow> fault + ('w \<times> manual_executor)" where
  "run_task run task w e =
     (case task of
        None \<Rightarrow> Inl NullDeref
      | Some a \<Rightarrow>
          (case run a w of (w', subs) \<Rightarrow> bind_res (submit_all subs e) (\<lambda>e'. Inr (w', e'))))"

text \<open>One iteration of the loops: \<open>None\<close> is the \<open>break\<close>.\<close>

definition me_iterate :: "'w task_body \<Rightarrow> 'w \<Rightarrow> manual_executor \<Rightarrow> fault + ('w \<times> manual_executor) option" where
  "me_iterate run w e =
     bind_res (me_take e)
       (\<lambda>r. case r of
              None \<Rightarrow> Inr None
            | Some (e', task) \<Rightarrow> bind_res (run_task run task w e') (\<lambda>x. Inr (Some x)))"

function RunAtMost_loop ::
  "'w task_body \<Rightarrow> size_t \<Rightarrow> size_t \<Rightarrow> 'w \<Rightarrow> manual_executor \<Rightarrow> fault + (size_t \<times> 'w \<times> manual_executor)" where
  "RunAtMost_loop run limit done_tasks w e =
     (if done_tasks = limit then Inr (done_tasks, w, e)
      else
        case me_iterate run w e of
          Inl f \<Rightarrow> Inl f
        | Inr None \<Rightarrow> Inr (done_tasks, w, e)
        | Inr (Some (w', e')) \<Rightarrow> RunAtMost_loop run limit (done_tasks + 1) w' e')"
  by pat_completeness auto
termination
proof (relation "measure (\<lambda>(run, limit, done_tasks, w, e). unat (limit - done_tasks))", simp)
  fix run :: "'w task_body" and limit done_tasks :: size_t and w w' :: 'w and e e' :: manual_executor
  assume "done_tasks \<noteq> limit"
  then have "limit - done_tasks \<noteq> 0" by simp
  then have "unat (limit - done_tasks - 1) < unat (limit - done_tasks)"
    by (metis unat_size_t_dec diff_less unat_gt_0 zero_less_one)
  then show "((run, limit, done_tasks + 1, w', e'), (run, limit, done_tasks, w, e))
      \<in> measure (\<lambda>(run, limit, done_tasks, w, e). unat (limit - done_tasks))"
    by (simp add: algebra_simps)
qed

declare RunAtMost_loop.simps [simp del]

definition RunAtMost :: "'w task_body \<Rightarrow> size_t \<Rightarrow> 'w \<Rightarrow> manual_executor \<Rightarrow> fault + (size_t \<times> 'w \<times> manual_executor)" where
  "RunAtMost run limit w e = RunAtMost_loop run limit 0 w e"

definition RunNext :: "'w task_body \<Rightarrow> 'w \<Rightarrow> manual_executor \<Rightarrow> fault + (bool \<times> 'w \<times> manual_executor)" where
  "RunNext run w e = bind_res (RunAtMost run 1 w e) (\<lambda>(n, w', e'). Inr (1 = n, w', e'))"

partial_function (option) Drain_loop ::
  "'w task_body \<Rightarrow> size_t \<Rightarrow> 'w \<Rightarrow> manual_executor \<Rightarrow> (fault + (size_t \<times> 'w \<times> manual_executor)) option" where
  "Drain_loop run done_tasks w e =
     (case me_iterate run w e of
        Inl f \<Rightarrow> Some (Inl f)
      | Inr None \<Rightarrow> Some (Inr (done_tasks, w, e))
      | Inr (Some (w', e')) \<Rightarrow> Drain_loop run (done_tasks + 1) w' e')"

definition Drain :: "'w task_body \<Rightarrow> 'w \<Rightarrow> manual_executor \<Rightarrow> (fault + (size_t \<times> 'w \<times> manual_executor)) option" where
  "Drain run w e = Drain_loop run 0 w e"

definition TaskCount :: "manual_executor \<Rightarrow> size_t" where
  "TaskCount e = me_count e"

definition me_IsEmpty :: "manual_executor \<Rightarrow> bool" where
  "me_IsEmpty e \<longleftrightarrow> me_count e = 0"

definition NonEmpty :: "manual_executor \<Rightarrow> bool" where
  "NonEmpty e \<longleftrightarrow> \<not> me_IsEmpty e"

subsection \<open>The executor on the list of its tasks\<close>

text \<open>
  The specification: run at most \<open>n\<close> tasks from the front of the queue, each followed by the
  insertion of the tasks submitted meanwhile. \<open>None\<close> when a task is submitted that is queued
  already or when \<open>2^64\<close> tasks would be queued.
\<close>

fun can_submit :: "addr list \<Rightarrow> addr list \<Rightarrow> bool" where
  "can_submit [] q \<longleftrightarrow> True"
| "can_submit (a # as) q \<longleftrightarrow> list_room a q \<and> can_submit as (q @ [a])"

fun fifo_run :: "'w task_body \<Rightarrow> nat \<Rightarrow> 'w \<Rightarrow> addr list \<Rightarrow> (nat \<times> 'w \<times> addr list) option" where
  "fifo_run run 0 w q = Some (0, w, q)"
| "fifo_run run (Suc n) w [] = Some (0, w, [])"
| "fifo_run run (Suc n) w (a # q) =
     (case run a w of (w', subs) \<Rightarrow>
        if can_submit subs q
        then map_option (\<lambda>(k, w'', q'). (Suc k, w'', q')) (fifo_run run n w' (q @ subs))
        else None)"

definition me_queue :: "manual_executor \<Rightarrow> addr list" where
  "me_queue e = items (me_links e) (me_tasks e)"

definition me_inv :: "manual_executor \<Rightarrow> bool" where
  "me_inv e \<longleftrightarrow> il_inv (me_links e) (me_tasks e) \<and> me_count e = il_size (me_tasks e)"

lemma me_inv_init: "me_inv (init_manual h)" "me_queue (init_manual h) = []"
  by (simp_all add: me_inv_def me_queue_def init_manual_def il_inv_empty_list items_empty_list)
     (simp add: empty_list_def)

lemma me_count_queue: "me_inv e \<Longrightarrow> unat (me_count e) = length (me_queue e)"
  using il_inv_size by (auto simp: me_inv_def me_queue_def Size_def)

lemma Push_size: "Push (Some n) (h, l) = Inr (h', l') \<Longrightarrow> il_size l' = il_size l + 1"
  by (auto simp: Push_def bind_res_Inr_iff split: option.splits)

lemma Pop_size: "Pop h l = Inr (l', Some a) \<Longrightarrow> il_size l' = il_size l - 1"
  by (auto simp: Pop_def Let_def bind_res_Inr_iff split: if_splits option.splits)

lemma me_Submit_ok:
  assumes "me_inv e" and "list_room a (me_queue e)"
  obtains e' where "me_Submit (Some a) e = Inr e'" "me_inv e'" "me_queue e' = me_queue e @ [a]"
proof -
  obtain h l where "Push (Some a) (me_links e, me_tasks e) = Inr (h, l)" "il_inv h l"
    "items h l = items (me_links e) (me_tasks e) @ [a]"
    using assms by (auto simp: me_inv_def me_queue_def list_room_def elim: Push_ok)
  with that assms(1) Push_size show thesis by (auto simp: me_Submit_def me_inv_def me_queue_def)
qed

lemma submit_all_ok:
  "me_inv e \<Longrightarrow> can_submit as (me_queue e) \<Longrightarrow>
     \<exists>e'. submit_all as e = Inr e' \<and> me_inv e' \<and> me_queue e' = me_queue e @ as"
proof (induction as arbitrary: e)
  case (Cons a as)
  obtain e1 where "me_Submit (Some a) e = Inr e1" "me_inv e1" "me_queue e1 = me_queue e @ [a]"
    using me_Submit_ok Cons.prems by (metis can_submit.simps(2))
  with Cons.IH [of e1] Cons.prems show ?case by auto
qed simp

lemma me_take_empty: "me_inv e \<Longrightarrow> me_queue e = [] \<Longrightarrow> me_take e = Inr None"
  using me_count_queue [of e] by (simp add: me_take_def unat_eq_0)

lemma me_take_cons:
  assumes "me_inv e" and "me_queue e = a # q"
  obtains e' where "me_take e = Inr (Some (e', Some a))" "me_inv e'" "me_queue e' = q"
proof -
  have "me_count e \<noteq> 0" using me_count_queue [OF assms(1)] assms(2) by auto
  moreover obtain l where "Pop (me_links e) (me_tasks e) = Inr (l, Some a)" "il_inv (me_links e) l"
    "items (me_links e) l = q"
    using assms by (auto simp: me_inv_def me_queue_def elim: Pop_cons)
  ultimately show thesis using that assms(1) Pop_size by (auto simp: me_take_def me_inv_def me_queue_def)
qed

lemma me_iterate_empty: "me_inv e \<Longrightarrow> me_queue e = [] \<Longrightarrow> me_iterate run w e = Inr None"
  by (simp add: me_iterate_def me_take_empty)

lemma me_iterate_cons:
  assumes "me_inv e" and "me_queue e = a # q" and "run a w = (w', subs)" and "can_submit subs q"
  obtains e' where "me_iterate run w e = Inr (Some (w', e'))" "me_inv e'" "me_queue e' = q @ subs"
proof -
  obtain e1 where e1: "me_take e = Inr (Some (e1, Some a))" "me_inv e1" "me_queue e1 = q"
    using me_take_cons [OF assms(1,2)] .
  with submit_all_ok [of e1 subs] assms(4) obtain e2
    where "submit_all subs e1 = Inr e2" "me_inv e2" "me_queue e2 = q @ subs" by auto
  with e1 that assms(3) show thesis by (simp add: me_iterate_def run_task_def)
qed

lemma RunAtMost_loop_ok:
  "me_inv e \<Longrightarrow> fifo_run run n w (me_queue e) = Some (k, w', q') \<Longrightarrow> unat (limit - done_tasks) = n \<Longrightarrow>
     \<exists>e'. RunAtMost_loop run limit done_tasks w e = Inr (done_tasks + of_nat k, w', e') \<and> me_inv e' \<and> me_queue e' = q'"
proof (induction run n w "me_queue e" arbitrary: e k done_tasks rule: fifo_run.induct)
  case (1 run w e)
  then show ?case by (simp add: RunAtMost_loop.simps unat_eq_0)
next
  case (2 run n w e)
  then have "done_tasks \<noteq> limit" by auto
  with 2 show ?case by (simp add: RunAtMost_loop.simps [of _ limit done_tasks] me_iterate_empty)
next
  case (3 run n w a q e)
  obtain w1 subs where run: "run a w = (w1, subs)" by fastforce
  with 3 obtain k1 where sub: "can_submit subs q" and k: "k = Suc k1"
    and rest: "fifo_run run n w1 (q @ subs) = Some (k1, w', q')"
    by (auto simp flip: "3.hyps"(2) split: if_splits)
  obtain e1 where e1: "me_iterate run w e = Inr (Some (w1, e1))" "me_inv e1" "me_queue e1 = q @ subs"
    using me_iterate_cons [where run = run and w = w, OF "3.prems"(1) "3.hyps"(2) [symmetric] run sub] .
  have ne: "done_tasks \<noteq> limit" using "3.prems"(3) by auto
  have "unat (limit - (done_tasks + 1)) = n"
    using unat_size_t_dec_Suc [OF "3.prems"(3)] by (simp add: algebra_simps)
  from "3.hyps"(1) [OF run [symmetric] sub e1(3) [symmetric] e1(2), of k1 "done_tasks + 1"] rest e1(3) this
  obtain e' where "RunAtMost_loop run limit (done_tasks + 1) w1 e1 = Inr (done_tasks + 1 + of_nat k1, w', e')"
    "me_inv e'" "me_queue e' = q'"
    by auto
  with ne e1(1) k show ?case by (simp add: RunAtMost_loop.simps [of _ limit done_tasks] algebra_simps)
qed

lemma Drain_loop_ok:
  "me_inv e \<Longrightarrow> fifo_run run n w (me_queue e) = Some (k, w', []) \<Longrightarrow>
     \<exists>e'. Drain_loop run done_tasks w e = Some (Inr (done_tasks + of_nat k, w', e')) \<and> me_inv e' \<and> me_queue e' = []"
proof (induction run n w "me_queue e" arbitrary: e k done_tasks rule: fifo_run.induct)
  case (1 run w e)
  then show ?case by (simp add: Drain_loop.simps me_iterate_empty)
next
  case (2 run n w e)
  then show ?case by (simp add: Drain_loop.simps me_iterate_empty)
next
  case (3 run n w a q e)
  obtain w1 subs where run: "run a w = (w1, subs)" by fastforce
  with 3 obtain k1 where sub: "can_submit subs q" and k: "k = Suc k1"
    and rest: "fifo_run run n w1 (q @ subs) = Some (k1, w', [])"
    by (auto simp flip: "3.hyps"(2) split: if_splits)
  obtain e1 where e1: "me_iterate run w e = Inr (Some (w1, e1))" "me_inv e1" "me_queue e1 = q @ subs"
    using me_iterate_cons [where run = run and w = w, OF "3.prems"(1) "3.hyps"(2) [symmetric] run sub] .
  from "3.hyps"(1) [OF run [symmetric] sub e1(3) [symmetric] e1(2), of k1 "done_tasks + 1"] rest e1(3)
  obtain e' where "Drain_loop run (done_tasks + 1) w1 e1 = Some (Inr (done_tasks + 1 + of_nat k1, w', e'))"
    "me_inv e'" "me_queue e' = []"
    by auto
  with e1(1) k show ?case by (simp add: Drain_loop.simps [of _ done_tasks] algebra_simps)
qed

lemma fifo_run_bound:
  "fifo_run run n w q = Some (k, w', q') \<Longrightarrow> k \<le> n \<and> (q' \<noteq> [] \<longrightarrow> k = n)"
  by (induction run n w q arbitrary: k rule: fifo_run.induct) (auto split: prod.splits if_splits)

text \<open>Tasks that submit nothing: the queue runs from front to back.\<close>

lemma fifo_run_closed:
  assumes "\<And>a w. a \<in> set q \<Longrightarrow> snd (run a w) = []"
  shows "fifo_run run (length q) w q = Some (length q, fold (\<lambda>a w. fst (run a w)) q w, [])"
  using assms
proof (induction q arbitrary: w)
  case (Cons a q)
  have "run a w = (fst (run a w), [])" using Cons.prems [of a w] by (metis list.set_intros(1) prod.collapse)
  with Cons show ?case by (simp add: case_prod_unfold)
qed simp

subsection \<open>Properties\<close>

text \<open>
  C27: \<open>RunAtMost\<close> runs the queued tasks first-in first-out, including those submitted while it
  runs, up to the limit, and returns how many it ran; it stops early only when the executor is
  empty. Afterwards the counter and the list agree again.
\<close>

theorem manual_run_at_most:
  assumes "me_inv e" and "fifo_run run (unat limit) w (me_queue e) = Some (k, w', q')"
  shows "\<exists>e'. RunAtMost run limit w e = Inr (of_nat k, w', e') \<and> me_inv e' \<and> me_queue e' = q' \<and>
    unat (TaskCount e') = length q' \<and> (of_nat k \<noteq> limit \<longrightarrow> me_IsEmpty e')"
proof -
  obtain e' where e': "RunAtMost_loop run limit 0 w e = Inr (of_nat k, w', e')" "me_inv e'" "me_queue e' = q'"
    using RunAtMost_loop_ok [OF assms, of limit 0] by auto
  have cnt: "unat (me_count e') = length q'" using me_count_queue [OF e'(2)] e'(3) by simp
  have "me_count e' = 0" if "of_nat k \<noteq> limit"
  proof -
    have "k \<noteq> unat limit" using that by auto
    with fifo_run_bound [OF assms(2)] have "q' = []" by auto
    with cnt show ?thesis by (simp add: unat_eq_0)
  qed
  with e' cnt show ?thesis by (auto simp: RunAtMost_def TaskCount_def me_IsEmpty_def)
qed

text \<open>A task logs itself and the tasks 1 and 2 each submit a follow-up task.\<close>

definition sample_body :: "addr list task_body" where
  "sample_body a log = (log @ [a], if a \<in> {1, 2} then [a + 10] else [])"

definition sample_executor :: manual_executor where
  "sample_executor = \<lparr>me_links = (\<lambda>_. Some 2), me_tasks = \<lparr>il_size = 2, il_head = Some 1, il_tail = Some 2\<rparr>, me_count = 2\<rparr>"

lemma sample_inv: "me_inv sample_executor" "me_queue sample_executor = [1, 2]"
proof -
  have "chain (\<lambda>_. Some 2) (Some 1) (Suc (Suc 0)) = [1, 2]" by simp
  then have c: "chain (\<lambda>_. Some 2) (Some 1) 2 = [1, 2]" by (simp only: numeral_2_eq_2)
  show "me_inv sample_executor" "me_queue sample_executor = [1, 2]"
    using c by (simp_all add: me_inv_def me_queue_def sample_executor_def il_inv_def items_def)
qed

theorem manual_run_at_most_witness:
  "\<exists>e'. RunAtMost sample_body 3 [] sample_executor = Inr (3, [1, 2, 11], e') \<and> me_queue e' = [12]"
proof -
  have "fifo_run sample_body (Suc (Suc (Suc 0))) [] (me_queue sample_executor) = Some (3, [1, 2, 11], [12])"
    by (simp add: sample_inv(2) sample_body_def list_room_def)
  moreover have "unat (3 :: size_t) = Suc (Suc (Suc 0))" by simp
  ultimately have "fifo_run sample_body (unat (3 :: size_t)) [] (me_queue sample_executor) = Some (3, [1, 2, 11], [12])"
    by (simp only:)
  from manual_run_at_most [OF sample_inv(1) this] show ?thesis by auto
qed

text \<open>
  \<open>Drain\<close> returns once the tasks run out: whenever the queue together with the tasks submitted on the way
  is exhausted after some number of tasks, \<open>Drain\<close> ends without a fault, has run them first-in first-out,
  returns their number and leaves the executor empty.
\<close>

lemma manual_drain:
  assumes "me_inv e" and "fifo_run run n w (me_queue e) = Some (k, w', [])"
  shows "\<exists>e'. Drain run w e = Some (Inr (of_nat k, w', e')) \<and> me_inv e' \<and> me_queue e' = [] \<and> me_IsEmpty e'"
proof -
  obtain e' where e': "Drain_loop run 0 w e = Some (Inr (of_nat k, w', e'))" "me_inv e'" "me_queue e' = []"
    using Drain_loop_ok [OF assms, of 0] by auto
  with me_count_queue [OF e'(2)] show ?thesis by (auto simp: Drain_def me_IsEmpty_def unat_eq_0)
qed

text \<open>
  \<open>Submit\<close> of a task that is not queued appends it and makes the executor non-empty, and
  \<open>RunNext\<close> on an executor whose first task submits nothing runs exactly that task and returns true, while
  on an empty executor it runs nothing and returns false.
\<close>

lemma manual_submit_run_next:
  assumes "me_inv e" and "list_room a (me_queue e)" and "\<forall>x v. snd (run x v) = []"
  shows "\<exists>e1 e2. me_Submit (Some a) e = Inr e1 \<and> me_queue e1 = me_queue e @ [a] \<and> NonEmpty e1 \<and>
    RunNext run w e1 = Inr (True, fst (run (hd (me_queue e @ [a])) w), e2) \<and> me_queue e2 = tl (me_queue e @ [a]) \<and>
    (me_queue e = [] \<longrightarrow> RunNext run w e = Inr (False, w, e) \<and> \<not> NonEmpty e)"
proof -
  obtain e1 where e1: "me_Submit (Some a) e = Inr e1" "me_inv e1" "me_queue e1 = me_queue e @ [a]"
    using me_Submit_ok [OF assms(1,2)] .
  have ne: "NonEmpty e1" using me_count_queue [OF e1(2)] e1(3) by (auto simp: NonEmpty_def me_IsEmpty_def)
  obtain x q where q: "me_queue e1 = x # q" using e1(3) by (cases "me_queue e") auto
  have "snd (run x w) = []" using assms(3) by simp
  then have "fifo_run run (Suc 0) w (me_queue e1) = Some (1, fst (run x w), q)"
    using q by (simp add: case_prod_unfold)
  with RunAtMost_loop_ok [OF e1(2), of run "Suc 0" w 1 _ q 1 0]
  obtain e2 where "RunAtMost_loop run 1 0 w e1 = Inr (1, fst (run x w), e2)" "me_queue e2 = q" by auto
  moreover have "RunNext run w e = Inr (False, w, e) \<and> \<not> NonEmpty e" if "me_queue e = []"
    using that assms(1) me_count_queue [OF assms(1)]
    by (simp add: RunNext_def RunAtMost_def RunAtMost_loop.simps me_iterate_empty NonEmpty_def me_IsEmpty_def unat_eq_0)
  moreover have "hd (me_queue e @ [a]) = x" "tl (me_queue e @ [a]) = q" using e1(3) q by (metis list.sel(1), metis list.sel(3))
  ultimately show ?thesis
    using e1 ne by (intro exI [of _ e1] exI [of _ e2]) (simp add: RunNext_def RunAtMost_def)
qed

end
