(* ===== verification/Strand.thy ===== *)
theory Strand
  imports Intrusive_List Lock_Spec
begin

text \<open>
  The strand of \<^verbatim>\<open>src/executor/strand/intrusive_strand.cpp\<close>: tasks submitted to it by any
  threads run one after another on an underlying executor.

  The spin lock is a field that names its holder; each access to the atomic \<open>state\<close>, each critical section
  of \<open>RunBatch\<close> and each call of the underlying executor is a step. The underlying executor is only known to
  start each submitted batch at some time on some thread: \<open>strand_planned\<close> counts the batches
  it has been given and not started. A task that runs is client code between the events \<open>Started\<close>
  and \<open>Ended\<close>; calls it makes are those of any thread. The client submits a task again only
  after it was started (\<open>strand_out\<close>: the tasks handed over and not started yet).

  The lemmas show that the strand refines a serial first-in first-out executor and that none of its
  assertions fails (\<open>strand_refines\<close>), and that a task submitted between the test \<open>IsTasksEmpty\<close> and
  the change of the state to \<open>READY\<close> is left without a planned batch.
\<close>

datatype strand_state = READY | PLAN | RUNNING

datatype strand_pc =
    SIdle
  | SubLock addr
  | SubPlan
  | SubInternal
  | SubUnlock
  | BatchStart
  | BatchSwap
  | BatchLoop intrusive_list
  | BatchRun addr intrusive_list
  | BatchCheck intrusive_list
  | BatchReady intrusive_list
  | BatchPlan intrusive_list
  | BatchInternal intrusive_list
  | StrandFault fault

record strand =
  strand_links :: links
  strand_tasks :: intrusive_list
  strand_lock :: "tid option"
  strand_st :: strand_state
  strand_planned :: nat
  strand_out :: "addr list"
  strand_pc :: "tid \<Rightarrow> strand_pc"

datatype strand_event =
    Queued addr
  | Started addr
  | Ended addr

datatype strand_choice =
    SubmitTask tid addr
  | StartBatch tid
  | StrandGo tid

definition init_strand :: "links \<Rightarrow> strand" where
  "init_strand h =
     \<lparr>strand_links = h, strand_tasks = empty_list, strand_lock = None, strand_st = READY,
      strand_planned = 0, strand_out = [], strand_pc = (\<lambda>_. SIdle)\<rparr>"

definition at :: "tid \<Rightarrow> strand_pc \<Rightarrow> strand \<Rightarrow> strand" where
  "at t p s = s\<lparr>strand_pc := (strand_pc s)(t := p)\<rparr>"

subsection \<open>Submit\<close>

definition Submit_push :: "tid \<Rightarrow> addr \<Rightarrow> strand \<Rightarrow> (strand \<times> strand_event list) option" where
  "Submit_push t task s =
     (if strand_lock s \<noteq> None then None
      else Some (case Push (Some task) (strand_links s, strand_tasks s) of
                   Inl f \<Rightarrow> (at t (StrandFault f) s, [])
                 | Inr (h, l) \<Rightarrow>
                     (at t SubPlan (s\<lparr>strand_links := h, strand_tasks := l, strand_lock := Some t\<rparr>), [Queued task])))"

definition ChangeState :: "strand_state \<Rightarrow> strand_state \<Rightarrow> strand \<Rightarrow> strand \<times> bool" where
  "ChangeState from to s = (if strand_st s = from then (s\<lparr>strand_st := to\<rparr>, True) else (s, False))"

text \<open>\<open>PlanTask\<close>: the program points to go to when the batch is to be submitted and when not.\<close>

definition PlanTask :: "tid \<Rightarrow> strand_state \<Rightarrow> strand_pc \<Rightarrow> strand_pc \<Rightarrow> strand \<Rightarrow> strand" where
  "PlanTask t from yes no s = (case ChangeState from PLAN s of (s', ok) \<Rightarrow> at t (if ok then yes else no) s')"

definition SubmitInternal :: "tid \<Rightarrow> strand_pc \<Rightarrow> strand \<Rightarrow> strand" where
  "SubmitInternal t p s = at t p (s\<lparr>strand_planned := strand_planned s + 1\<rparr>)"

definition Submit_unlock :: "tid \<Rightarrow> strand \<Rightarrow> strand" where
  "Submit_unlock t s = at t SIdle (s\<lparr>strand_lock := None\<rparr>)"

subsection \<open>RunBatch\<close>

definition RunBatch_start :: "tid \<Rightarrow> strand \<Rightarrow> strand" where
  "RunBatch_start t s =
     (case ChangeState PLAN RUNNING s of (s', result) \<Rightarrow> at t (if result then BatchSwap else StrandFault AssertFailed) s')"

definition RunBatch_swap :: "tid \<Rightarrow> strand \<Rightarrow> strand option" where
  "RunBatch_swap t s =
     (if strand_lock s \<noteq> None then None
      else Some (if IsEmpty (strand_tasks s) then at t (StrandFault AssertFailed) s
                 else case swap_lists empty_list (strand_tasks s) of
                        Inl f \<Rightarrow> at t (StrandFault f) s
                      | Inr (scheduled, rest) \<Rightarrow> at t (BatchLoop scheduled) (s\<lparr>strand_tasks := rest\<rparr>)))"

definition RunBatch_pop :: "tid \<Rightarrow> intrusive_list \<Rightarrow> strand \<Rightarrow> strand \<times> strand_event list" where
  "RunBatch_pop t scheduled s =
     (if IsEmpty scheduled then (at t (BatchCheck scheduled) s, [])
      else case Pop (strand_links s) scheduled of
             Inl f \<Rightarrow> (at t (StrandFault f) s, [])
           | Inr (l, None) \<Rightarrow> (at t (StrandFault NullDeref) s, [])
           | Inr (l, Some task) \<Rightarrow>
               (at t (BatchRun task l) (s\<lparr>strand_out := remove1 task (strand_out s)\<rparr>), [Started task]))"

definition RunBatch_ran :: "tid \<Rightarrow> addr \<Rightarrow> intrusive_list \<Rightarrow> strand \<Rightarrow> strand \<times> strand_event list" where
  "RunBatch_ran t task scheduled s = (at t (BatchLoop scheduled) s, [Ended task])"

definition IsTasksEmpty :: "strand \<Rightarrow> bool" where
  "IsTasksEmpty s = IsEmpty (strand_tasks s)"

definition RunBatch_check :: "tid \<Rightarrow> intrusive_list \<Rightarrow> strand \<Rightarrow> strand option" where
  "RunBatch_check t scheduled s =
     (if strand_lock s \<noteq> None then None
      else Some (at t (if IsTasksEmpty s then BatchReady scheduled else BatchPlan scheduled) s))"

text \<open>The end of \<open>RunBatch\<close> destroys \<open>scheduled_tasks\<close>.\<close>

definition RunBatch_return :: "intrusive_list \<Rightarrow> strand_pc" where
  "RunBatch_return scheduled = (case destroy_list scheduled of Inl f \<Rightarrow> StrandFault f | Inr _ \<Rightarrow> SIdle)"

definition RunBatch_ready :: "tid \<Rightarrow> intrusive_list \<Rightarrow> strand \<Rightarrow> strand" where
  "RunBatch_ready t scheduled s =
     (case ChangeState RUNNING READY s of
        (s', result) \<Rightarrow> at t (if result then RunBatch_return scheduled else StrandFault AssertFailed) s')"

subsection \<open>The strand as a step machine\<close>

definition strand_go :: "tid \<Rightarrow> strand \<Rightarrow> (strand \<times> strand_event list) option" where
  "strand_go t s =
     (case strand_pc s t of
        SIdle \<Rightarrow> None
      | SubLock a \<Rightarrow> Submit_push t a s
      | SubPlan \<Rightarrow> Some (PlanTask t READY SubInternal SubUnlock s, [])
      | SubInternal \<Rightarrow> Some (SubmitInternal t SubUnlock s, [])
      | SubUnlock \<Rightarrow> Some (Submit_unlock t s, [])
      | BatchStart \<Rightarrow> Some (RunBatch_start t s, [])
      | BatchSwap \<Rightarrow> map_option (\<lambda>s'. (s', [])) (RunBatch_swap t s)
      | BatchLoop l \<Rightarrow> Some (RunBatch_pop t l s)
      | BatchRun a l \<Rightarrow> Some (RunBatch_ran t a l s)
      | BatchCheck l \<Rightarrow> map_option (\<lambda>s'. (s', [])) (RunBatch_check t l s)
      | BatchReady l \<Rightarrow> Some (RunBatch_ready t l s, [])
      | BatchPlan l \<Rightarrow> Some (PlanTask t RUNNING (BatchInternal l) (RunBatch_return l) s, [])
      | BatchInternal l \<Rightarrow> Some (SubmitInternal t (RunBatch_return l) s, [])
      | StrandFault f \<Rightarrow> None)"

fun strand_step :: "(strand_choice, strand, strand_event) stepper" where
  "strand_step (SubmitTask t a) s =
     (if strand_pc s t = SIdle \<and> a \<notin> set (strand_out s) \<and> int (length (strand_out s)) + 2 < 2 ^ 64
      then Some (at t (SubLock a) (s\<lparr>strand_out := strand_out s @ [a]\<rparr>), []) else None)"
| "strand_step (StartBatch t) s =
     (if strand_pc s t = SIdle \<and> strand_planned s > 0
      then Some (at t BatchStart (s\<lparr>strand_planned := strand_planned s - 1\<rparr>), []) else None)"
| "strand_step (StrandGo t) s = strand_go t s"

subsection \<open>The serial executor\<close>

datatype serial_action = QueueTask addr | StartTask | EndTask

type_synonym serial = "addr list \<times> addr option"

fun serial_spec :: "(serial_action, serial, strand_event) stepper" where
  "serial_spec (QueueTask a) (q, r) = Some ((q @ [a], r), [Queued a])"
| "serial_spec StartTask (q, r) =
     (case q of a # q' \<Rightarrow> if r = None then Some ((q', Some a), [Started a]) else None | [] \<Rightarrow> None)"
| "serial_spec EndTask (q, r) = (case r of Some a \<Rightarrow> Some ((q, None), [Ended a]) | None \<Rightarrow> None)"

fun queued :: "strand_event list \<Rightarrow> addr list" where
  "queued [] = []"
| "queued (Queued a # es) = a # queued es"
| "queued (_ # es) = queued es"

fun started :: "strand_event list \<Rightarrow> addr list" where
  "started [] = []"
| "started (Started a # es) = a # started es"
| "started (_ # es) = started es"

text \<open>Runs do not overlap: after a start comes the end of the same task before the next start.\<close>

fun runs_after :: "addr option \<Rightarrow> strand_event list \<Rightarrow> addr option option" where
  "runs_after r [] = Some r"
| "runs_after r (Queued a # es) = runs_after r es"
| "runs_after r (Started a # es) = (if r = None then runs_after (Some a) es else None)"
| "runs_after r (Ended a # es) = (if r = Some a then runs_after None es else None)"

lemma queued_append [simp]: "queued (es @ fs) = queued es @ queued fs"
  by (induction es rule: queued.induct) auto

lemma started_append [simp]: "started (es @ fs) = started es @ started fs"
  by (induction es rule: started.induct) auto

lemma runs_after_append: "runs_after r (es @ fs) = (case runs_after r es of None \<Rightarrow> None | Some r' \<Rightarrow> runs_after r' fs)"
  by (induction r es rule: runs_after.induct) auto

lemma serial_history:
  "reach serial_spec ([], None) es a \<Longrightarrow> queued es = started es @ fst a \<and> runs_after None es = Some (snd a)"
proof (induction rule: reach.induct)
  case reach_init
  show ?case by simp
next
  case (reach_step es a c a' e)
  obtain q r where a: "a = (q, r)" by (cases a)
  with reach_step show ?case
    by (cases c) (auto simp: runs_after_append split: list.splits option.splits if_splits)
qed

subsection \<open>The invariant\<close>

text \<open>
  A batch exists from the moment the state leaves \<open>READY\<close>: it is being handed to the underlying
  executor, planned there, or running. \<open>token\<close> marks the program points of the thread that has
  it, \<open>st_at\<close> the state of the strand there.
\<close>

fun token :: "strand_pc \<Rightarrow> bool" where
  "token SIdle = False"
| "token (SubLock a) = False"
| "token SubPlan = False"
| "token SubUnlock = False"
| "token (StrandFault f) = False"
| "token _ = True"

fun st_at :: "strand_pc \<Rightarrow> strand_state" where
  "st_at SubInternal = PLAN"
| "st_at BatchStart = PLAN"
| "st_at (BatchInternal l) = PLAN"
| "st_at _ = RUNNING"

fun scheduled_at :: "strand_pc \<Rightarrow> intrusive_list" where
  "scheduled_at (BatchLoop l) = l"
| "scheduled_at (BatchRun a l) = l"
| "scheduled_at (BatchCheck l) = l"
| "scheduled_at (BatchReady l) = l"
| "scheduled_at (BatchPlan l) = l"
| "scheduled_at (BatchInternal l) = l"
| "scheduled_at _ = empty_list"

fun running_at :: "strand_pc \<Rightarrow> addr option" where
  "running_at (BatchRun a l) = Some a"
| "running_at _ = None"

fun locked_at :: "strand_pc \<Rightarrow> bool" where
  "locked_at SubPlan = True"
| "locked_at SubInternal = True"
| "locked_at SubUnlock = True"
| "locked_at _ = False"

fun needs_tasks :: "strand_pc \<Rightarrow> bool" where
  "needs_tasks SubPlan = True"
| "needs_tasks SubInternal = True"
| "needs_tasks BatchStart = True"
| "needs_tasks BatchSwap = True"
| "needs_tasks (BatchPlan l) = True"
| "needs_tasks (BatchInternal l) = True"
| "needs_tasks _ = False"

fun drained_at :: "strand_pc \<Rightarrow> bool" where
  "drained_at (BatchCheck l) = IsEmpty l"
| "drained_at (BatchReady l) = IsEmpty l"
| "drained_at (BatchPlan l) = IsEmpty l"
| "drained_at (BatchInternal l) = IsEmpty l"
| "drained_at (StrandFault f) = False"
| "drained_at _ = True"

fun offered :: "strand_pc \<Rightarrow> ptr" where
  "offered (SubLock a) = Some a"
| "offered _ = None"

definition holder_pc :: "tid option \<Rightarrow> strand \<Rightarrow> strand_pc" where
  "holder_pc own s = (case own of None \<Rightarrow> SIdle | Some t \<Rightarrow> strand_pc s t)"

definition tasks_of :: "strand \<Rightarrow> addr list" where
  "tasks_of s = items (strand_links s) (strand_tasks s)"

definition scheduled_of :: "tid option \<Rightarrow> strand \<Rightarrow> addr list" where
  "scheduled_of own s = items (strand_links s) (scheduled_at (holder_pc own s))"

definition control_inv :: "tid option \<Rightarrow> strand \<Rightarrow> bool" where
  "control_inv own s \<longleftrightarrow>
     (\<forall>t. token (strand_pc s t) \<longleftrightarrow> own = Some t) \<and>
     (\<forall>t. locked_at (strand_pc s t) \<longleftrightarrow> strand_lock s = Some t) \<and>
     (\<forall>t. drained_at (strand_pc s t)) \<and>
     (case own of
        None \<Rightarrow> strand_st s = READY \<and> strand_planned s = 0 \<or> strand_st s = PLAN \<and> strand_planned s = 1
      | Some t \<Rightarrow> strand_planned s = 0 \<and> strand_st s = st_at (strand_pc s t))"

definition lists_inv :: "tid option \<Rightarrow> strand \<Rightarrow> bool" where
  "lists_inv own s \<longleftrightarrow>
     il_inv (strand_links s) (strand_tasks s) \<and> il_inv (strand_links s) (scheduled_at (holder_pc own s)) \<and>
     distinct (tasks_of s @ scheduled_of own s) \<and> set (tasks_of s @ scheduled_of own s) \<subseteq> set (strand_out s) \<and>
     distinct (strand_out s) \<and> length (strand_out s) + 1 < 2 ^ 64 \<and>
     (\<forall>t a. offered (strand_pc s t) = Some a \<longrightarrow>
        a \<in> set (strand_out s) \<and> a \<notin> set (tasks_of s @ scheduled_of own s)) \<and>
     (\<forall>t u a. offered (strand_pc s t) = Some a \<longrightarrow> offered (strand_pc s u) = Some a \<longrightarrow> t = u)"

definition waiting_inv :: "strand \<Rightarrow> bool" where
  "waiting_inv s \<longleftrightarrow> (\<forall>t. needs_tasks (strand_pc s t) \<longrightarrow> tasks_of s \<noteq> []) \<and>
     (strand_planned s > 0 \<longrightarrow> tasks_of s \<noteq> [])"

definition strand_inv :: "tid option \<Rightarrow> strand \<Rightarrow> bool" where
  "strand_inv own s \<longleftrightarrow> control_inv own s \<and> lists_inv own s \<and> waiting_inv s"

definition strand_sim :: "serial \<Rightarrow> strand \<Rightarrow> bool" where
  "strand_sim a s \<longleftrightarrow> (\<exists>own. strand_inv own s \<and> fst a = scheduled_of own s @ tasks_of s \<and>
     snd a = running_at (holder_pc own s))"

lemmas strand_defs = at_def ChangeState_def PlanTask_def SubmitInternal_def Submit_unlock_def RunBatch_start_def

text \<open>Steps that touch neither list: the thread keeps, takes or gives up the token.\<close>

lemma lists_inv_same:
  assumes "lists_inv own s" and "strand_links s' = strand_links s" "strand_tasks s' = strand_tasks s"
    "strand_out s' = strand_out s" and "\<And>u. offered (strand_pc s' u) = None \<or> offered (strand_pc s' u) = offered (strand_pc s u)"
    and "scheduled_at (holder_pc own' s') = scheduled_at (holder_pc own s)"
  shows "lists_inv own' s' \<and> tasks_of s' = tasks_of s \<and> scheduled_of own' s' = scheduled_of own s"
proof -
  have eq: "tasks_of s' = tasks_of s" "scheduled_of own' s' = scheduled_of own s"
    using assms by (simp_all add: tasks_of_def scheduled_of_def)
  have off: "offered (strand_pc s' u) = Some a \<Longrightarrow> offered (strand_pc s u) = Some a" for u a
    using assms(5) [of u] by auto
  have "lists_inv own' s'"
    using assms(1) unfolding lists_inv_def eq assms(2,3,4,6) by (blast dest: off)
  with eq show ?thesis by simp
qed


definition abs_of :: "tid option \<Rightarrow> strand \<Rightarrow> serial" where
  "abs_of own s = (scheduled_of own s @ tasks_of s, running_at (holder_pc own s))"

definition serves :: "serial \<Rightarrow> strand_event list \<Rightarrow> strand \<Rightarrow> bool" where
  "serves a e s' \<longleftrightarrow> (\<exists>a'. reach serial_spec a e a' \<and> strand_sim a' s')"

lemma serves_quiet:
  assumes "lists_inv own s" and "strand_links s' = strand_links s" "strand_tasks s' = strand_tasks s"
    "strand_out s' = strand_out s" and "\<And>u. offered (strand_pc s' u) = None \<or> offered (strand_pc s' u) = offered (strand_pc s u)"
    and "scheduled_at (holder_pc own' s') = scheduled_at (holder_pc own s)"
    and "running_at (holder_pc own' s') = running_at (holder_pc own s)"
    and "control_inv own' s'" and "waiting_inv s'"
  shows "serves (abs_of own s) [] s'"
proof -
  have "strand_inv own' s'" and "abs_of own' s' = abs_of own s"
    using lists_inv_same [OF assms(1-6)] assms(7-9) by (simp_all add: strand_inv_def abs_of_def)
  then have "strand_sim (abs_of own s) s'"
    unfolding strand_sim_def by (metis abs_of_def fst_conv snd_conv)
  with reach.reach_init [of serial_spec "abs_of own s"] show ?thesis
    unfolding serves_def by (intro exI [of _ "abs_of own s"] conjI)
qed

lemma waiting_invD: "waiting_inv s \<Longrightarrow> needs_tasks (strand_pc s t) \<Longrightarrow> tasks_of s \<noteq> []"
  unfolding waiting_inv_def by blast

lemma control_invD:
  assumes "control_inv own s"
  shows "token (strand_pc s t) \<longleftrightarrow> own = Some t" "locked_at (strand_pc s t) \<longleftrightarrow> strand_lock s = Some t"
    "drained_at (strand_pc s t)"
    "own = None \<Longrightarrow> strand_st s = READY \<and> strand_planned s = 0 \<or> strand_st s = PLAN \<and> strand_planned s = 1"
    "own = Some t \<Longrightarrow> strand_planned s = 0 \<and> strand_st s = st_at (strand_pc s t)"
  using assms by (auto simp: control_inv_def split: option.splits)

lemma st_at_not_ready: "st_at p \<noteq> READY"
  by (cases p) auto

lemma go_submit:
  assumes inv: "strand_inv own s" and pc: "strand_pc s t \<in> {SubPlan, SubInternal, SubUnlock}"
    and go: "strand_go t s = Some (s', e)"
  shows "serves (abs_of own s) e s'"
proof -
  have C: "control_inv own s" and L: "lists_inv own s" and W: "waiting_inv s" using inv by (simp_all add: strand_inv_def)
  note D = control_invD [OF C]
  consider (plan) "strand_pc s t = SubPlan" | (internal) "strand_pc s t = SubInternal" | (unlock) "strand_pc s t = SubUnlock"
    using pc by blast
  then show ?thesis
  proof cases
    case plan
    have ne: "own \<noteq> Some t" using D(1) [of t] plan by simp
    have tasks: "tasks_of s \<noteq> []" using waiting_invD [OF W, of t] plan by simp
    show ?thesis
    proof (cases "strand_st s = READY")
      case True
      have own: "own = None"
        using D(5) True st_at_not_ready by (cases own) metis+
      then have p0: "strand_planned s = 0" using D(4) True by auto
      let ?s = "at t SubInternal (s\<lparr>strand_st := PLAN\<rparr>)"
      have "control_inv (Some t) ?s"
        using C plan own p0 by (auto simp: control_inv_def at_def)
      moreover have "waiting_inv ?s" using W tasks by (auto simp: waiting_inv_def at_def tasks_of_def)
      ultimately have "serves (abs_of own s) [] ?s"
        using own plan by (intro serves_quiet [OF L, where own' = "Some t"]) (auto simp: at_def holder_pc_def)
      with go plan True show ?thesis by (simp add: strand_go_def PlanTask_def ChangeState_def)
    next
      case False
      let ?s = "at t SubUnlock s"
      have "control_inv own ?s"
        using C plan ne by (auto simp: control_inv_def at_def split: option.splits)
      moreover have "waiting_inv ?s" using W by (auto simp: waiting_inv_def at_def tasks_of_def)
      ultimately have "serves (abs_of own s) [] ?s"
        using ne plan by (intro serves_quiet [OF L, where own' = own])
          (auto simp: at_def holder_pc_def split: option.splits)
      with go plan False show ?thesis by (simp add: strand_go_def PlanTask_def ChangeState_def)
    qed
  next
    case internal
    then have own: "own = Some t" using D(1) [of t] by simp
    have tasks: "tasks_of s \<noteq> []" using waiting_invD [OF W, of t] internal by simp
    have st: "strand_planned s = 0" "strand_st s = PLAN" using D(5) [OF own] internal by auto
    let ?s = "at t SubUnlock (s\<lparr>strand_planned := 1\<rparr>)"
    have "control_inv None ?s" using C internal own st by (auto simp: control_inv_def at_def)
    moreover have "waiting_inv ?s" using W tasks by (auto simp: waiting_inv_def at_def tasks_of_def)
    ultimately have "serves (abs_of own s) [] ?s"
      using own internal by (intro serves_quiet [OF L, where own' = None]) (auto simp: at_def holder_pc_def)
    with go internal st show ?thesis by (simp add: strand_go_def SubmitInternal_def)
  next
    case unlock
    have ne: "own \<noteq> Some t" using D(1) [of t] unlock by simp
    let ?s = "at t SIdle (s\<lparr>strand_lock := None\<rparr>)"
    have lk: "strand_lock s = Some t" using D(2) [of t] unlock by simp
    have "control_inv own ?s"
      using C unlock ne lk by (auto simp: control_inv_def at_def split: option.splits)
    moreover have "waiting_inv ?s" using W by (auto simp: waiting_inv_def at_def tasks_of_def)
    ultimately have "serves (abs_of own s) [] ?s"
      using ne unlock by (intro serves_quiet [OF L, where own' = own])
        (auto simp: at_def holder_pc_def split: option.splits)
    with go unlock show ?thesis by (simp add: strand_go_def Submit_unlock_def)
  qed
qed


text \<open>A step of the thread that has the batch and keeps both lists.\<close>

lemma holder_step:
  assumes inv: "strand_inv (Some t) s" and sh: "scheduled_at p = scheduled_at (strand_pc s t)"
    and run: "running_at p = None" "running_at (strand_pc s t) = None"
    and off: "offered p = None" and lk: "locked_at p = False" "\<not> locked_at (strand_pc s t)" and dr: "drained_at p"
    and need: "needs_tasks p \<Longrightarrow> tasks_of s \<noteq> []"
    and tok: "token p" "st = st_at p"
  shows "serves (abs_of (Some t) s) [] (at t p (s\<lparr>strand_st := st\<rparr>))"
proof (rule serves_quiet [where own' = "Some t"])
  have C: "control_inv (Some t) s" and W: "waiting_inv s" using inv by (simp_all add: strand_inv_def)
  show "control_inv (Some t) (at t p (s\<lparr>strand_st := st\<rparr>))"
    using C lk dr tok by (auto simp: control_inv_def at_def)
  show "waiting_inv (at t p (s\<lparr>strand_st := st\<rparr>))"
    using W need by (auto simp: waiting_inv_def at_def tasks_of_def)
qed (use assms in \<open>auto simp: strand_inv_def at_def holder_pc_def\<close>)

text \<open>The end of a batch: nobody has the token; a planned batch implies queued tasks.\<close>

lemma holder_leaves:
  assumes inv: "strand_inv (Some t) s" and dr: "IsEmpty (scheduled_at (strand_pc s t))"
    and run: "running_at (strand_pc s t) = None" and lk: "\<not> locked_at (strand_pc s t)"
    and st: "st = READY \<and> n = 0 \<or> st = PLAN \<and> n = 1 \<and> tasks_of s \<noteq> []"
  shows "serves (abs_of (Some t) s) [] (at t SIdle (s\<lparr>strand_st := st, strand_planned := n\<rparr>))"
proof -
  let ?s = "at t SIdle (s\<lparr>strand_st := st, strand_planned := n\<rparr>)"
  have C: "control_inv (Some t) s" and L: "lists_inv (Some t) s" and W: "waiting_inv s"
    using inv by (simp_all add: strand_inv_def)
  have "il_inv (strand_links s) (scheduled_at (strand_pc s t))" using L by (simp add: lists_inv_def holder_pc_def)
  then have empty: "scheduled_of (Some t) s = []" using dr by (simp add: IsEmpty_iff scheduled_of_def holder_pc_def)
  have sch: "scheduled_of None ?s = []" by (simp add: scheduled_of_def holder_pc_def items_empty_list)
  have tk: "tasks_of ?s = tasks_of s" by (simp add: tasks_of_def at_def)
  have "control_inv None ?s" using C lk st by (auto simp: control_inv_def at_def)
  moreover have "waiting_inv ?s" using W st by (auto simp: waiting_inv_def at_def tasks_of_def)
  moreover have "lists_inv None ?s"
    using L empty unfolding lists_inv_def sch tk
    by (auto simp: at_def holder_pc_def il_inv_empty_list split: if_splits)
  ultimately have "strand_inv None ?s" by (simp add: strand_inv_def)
  moreover have "abs_of None ?s = abs_of (Some t) s"
    using empty sch tk run by (simp add: abs_of_def holder_pc_def)
  ultimately have "strand_sim (abs_of (Some t) s) ?s"
    unfolding strand_sim_def by (metis abs_of_def fst_conv snd_conv)
  with reach.reach_init [of serial_spec "abs_of (Some t) s"] show ?thesis
    unfolding serves_def by (intro exI [of _ "abs_of (Some t) s"] conjI)
qed

lemma go_batch_end:
  assumes inv: "strand_inv own s" and go: "strand_go t s = Some (s', e)"
    and pc: "strand_pc s t = BatchStart \<or> (\<exists>l. strand_pc s t \<in> {BatchCheck l, BatchReady l, BatchPlan l, BatchInternal l})"
  shows "serves (abs_of own s) e s'"
proof -
  have C: "control_inv own s" and W: "waiting_inv s" using inv by (simp_all add: strand_inv_def)
  note D = control_invD [OF C]
  have own: "own = Some t" using D(1) [of t] pc by auto
  note st = D(5) [OF own]
  note inv' = inv [unfolded own]
  have dr: "drained_at (strand_pc s t)" by (rule D(3))
  show ?thesis
  proof (cases "strand_pc s t")
    case BatchStart
    have "tasks_of s \<noteq> []" using waiting_invD [OF W, of t] BatchStart by simp
    with holder_step [OF inv', of BatchSwap RUNNING] BatchStart
    have "serves (abs_of own s) [] (at t BatchSwap (s\<lparr>strand_st := RUNNING\<rparr>))" by (simp add: own)
    with BatchStart go st show ?thesis by (simp add: strand_go_def RunBatch_start_def ChangeState_def)
  next
    case (BatchCheck l)
    let ?p = "if IsTasksEmpty s then BatchReady l else BatchPlan l"
    have l: "il_inv (strand_links s) (strand_tasks s)" using inv by (simp add: strand_inv_def lists_inv_def)
    have "serves (abs_of (Some t) s) [] (at t ?p (s\<lparr>strand_st := RUNNING\<rparr>))"
      by (rule holder_step [OF inv'])
         (use BatchCheck dr l in \<open>auto simp: IsTasksEmpty_def IsEmpty_iff tasks_of_def split: if_splits\<close>)
    moreover have "s\<lparr>strand_st := RUNNING\<rparr> = s" using st BatchCheck by simp
    ultimately have "serves (abs_of own s) [] (at t ?p s)" by (simp add: own)
    with BatchCheck go show ?thesis by (auto simp: strand_go_def RunBatch_check_def split: if_splits)
  next
    case (BatchReady l)
    with holder_leaves [OF inv', of READY 0] dr
    have "serves (abs_of own s) [] (at t SIdle (s\<lparr>strand_st := READY, strand_planned := 0\<rparr>))" by (simp add: own)
    moreover have "s\<lparr>strand_st := READY, strand_planned := 0\<rparr> = s\<lparr>strand_st := READY\<rparr>" using st by simp
    ultimately show ?thesis using BatchReady go st dr
      by (simp add: strand_go_def RunBatch_ready_def ChangeState_def RunBatch_return_def destroy_list_def)
  next
    case (BatchPlan l)
    have "tasks_of s \<noteq> []" using waiting_invD [OF W, of t] BatchPlan by simp
    with holder_step [OF inv', of "BatchInternal l" PLAN] BatchPlan dr
    have "serves (abs_of own s) [] (at t (BatchInternal l) (s\<lparr>strand_st := PLAN\<rparr>))" by (simp add: own)
    with BatchPlan go st show ?thesis by (simp add: strand_go_def PlanTask_def ChangeState_def)
  next
    case (BatchInternal l)
    have "tasks_of s \<noteq> []" using waiting_invD [OF W, of t] BatchInternal by simp
    with holder_leaves [OF inv', of PLAN 1] BatchInternal dr
    have "serves (abs_of own s) [] (at t SIdle (s\<lparr>strand_st := PLAN, strand_planned := 1\<rparr>))" by (simp add: own)
    moreover have "s\<lparr>strand_st := PLAN, strand_planned := 1\<rparr> = s\<lparr>strand_planned := strand_planned s + 1\<rparr>"
      using st BatchInternal by simp
    ultimately show ?thesis using BatchInternal go dr
      by (simp add: strand_go_def SubmitInternal_def RunBatch_return_def destroy_list_def)
  qed (use pc in auto)
qed

lemma start_batch:
  assumes inv: "strand_inv own s" and idle: "strand_pc s t = SIdle" and pl: "strand_planned s > 0"
  shows "serves (abs_of own s) [] (at t BatchStart (s\<lparr>strand_planned := strand_planned s - 1\<rparr>))"
proof -
  have C: "control_inv own s" and L: "lists_inv own s" and W: "waiting_inv s" using inv by (simp_all add: strand_inv_def)
  note D = control_invD [OF C]
  have own: "own = None" using D(5) pl by (cases own) auto
  have st: "strand_st s = PLAN" "strand_planned s = 1" using D(4) [OF own] pl by auto
  show ?thesis
  proof (rule serves_quiet [OF L, where own' = "Some t"])
    show "control_inv (Some t) (at t BatchStart (s\<lparr>strand_planned := strand_planned s - 1\<rparr>))"
      using C idle own st D(2) [of t] by (auto simp: control_inv_def at_def)
    show "waiting_inv (at t BatchStart (s\<lparr>strand_planned := strand_planned s - 1\<rparr>))"
      using W pl by (auto simp: waiting_inv_def at_def tasks_of_def)
  qed (use own in \<open>auto simp: at_def holder_pc_def\<close>)
qed


subsection \<open>Steps that change the lists\<close>

lemma strand_simI: "strand_inv own s \<Longrightarrow> strand_sim (abs_of own s) s"
  unfolding strand_sim_def by (metis abs_of_def fst_conv snd_conv)

lemma servesI: "reach serial_spec a e (abs_of own s) \<Longrightarrow> strand_inv own s \<Longrightarrow> serves a e s"
  unfolding serves_def using strand_simI by metis

lemma submit_call:
  assumes inv: "strand_inv own s" and idle: "strand_pc s t = SIdle" and a: "a \<notin> set (strand_out s)"
    and len: "int (length (strand_out s)) + 2 < 2 ^ 64"
  shows "serves (abs_of own s) [] (at t (SubLock a) (s\<lparr>strand_out := strand_out s @ [a]\<rparr>))"
proof -
  let ?s = "at t (SubLock a) (s\<lparr>strand_out := strand_out s @ [a]\<rparr>)"
  have C: "control_inv own s" and L: "lists_inv own s" and W: "waiting_inv s" using inv by (simp_all add: strand_inv_def)
  note D = control_invD [OF C]
  have ne: "own \<noteq> Some t" using D(1) [of t] idle by simp
  have hp: "holder_pc own ?s = holder_pc own s" using ne by (auto simp: holder_pc_def at_def split: option.splits)
  have eq: "tasks_of ?s = tasks_of s" "scheduled_of own ?s = scheduled_of own s"
    using hp by (simp_all add: tasks_of_def scheduled_of_def at_def)
  have "control_inv own ?s"
    using C idle ne D(2) [of t] by (auto simp: control_inv_def at_def split: option.splits)
  moreover have "waiting_inv ?s" using W by (auto simp: waiting_inv_def at_def tasks_of_def)
  moreover have "lists_inv own ?s"
    using L a len unfolding lists_inv_def eq hp
    by (auto simp: at_def split: if_splits)
  ultimately have "strand_inv own ?s" by (simp add: strand_inv_def)
  moreover have "abs_of own ?s = abs_of own s" using eq hp by (simp add: abs_of_def)
  ultimately show ?thesis using servesI [of "abs_of own s" "[]" own ?s] reach.reach_init by metis
qed

lemma lists_room:
  assumes "lists_inv own s" and "offered (strand_pc s t) = Some a"
  shows "a \<notin> set (tasks_of s)" "a \<notin> set (scheduled_of own s)" "length (tasks_of s) + 1 < 2 ^ 64"
proof -
  have "card (set (tasks_of s)) \<le> card (set (strand_out s))"
    using assms(1) by (intro card_mono) (auto simp: lists_inv_def)
  moreover have "distinct (tasks_of s)" "distinct (strand_out s)" using assms(1) by (auto simp: lists_inv_def)
  ultimately show "length (tasks_of s) + 1 < 2 ^ 64"
    using assms(1) by (simp add: distinct_card lists_inv_def)
  show "a \<notin> set (tasks_of s)" "a \<notin> set (scheduled_of own s)" using assms by (auto simp: lists_inv_def)
qed

lemma submit_push:
  assumes inv: "strand_inv own s" and pc: "strand_pc s t = SubLock a" and free: "strand_lock s = None"
    and s': "Submit_push t a s = Some (s', e)"
  shows "serves (abs_of own s) e s'"
proof -
  have C: "control_inv own s" and L: "lists_inv own s" and W: "waiting_inv s" using inv by (simp_all add: strand_inv_def)
  note D = control_invD [OF C]
  have ne: "own \<noteq> Some t" using D(1) [of t] pc by simp
  note room = lists_room [OF L, of t a]
  let ?h = "strand_links s" and ?l = "strand_tasks s" and ?k = "scheduled_at (holder_pc own s)"
  have il: "il_inv ?h ?l" "il_inv ?h ?k" using L by (auto simp: lists_inv_def)
  obtain h l where push: "Push (Some a) (?h, ?l) = Inr (h, l)" "il_inv h l" "items h l = items ?h ?l @ [a]"
    and upd: "h = ?h \<or> (\<exists>b \<in> set (items ?h ?l). h = ?h(b := Some a))"
    using Push_ok [OF il(1), of a] room pc by (auto simp: tasks_of_def)
  have "b \<notin> set (items ?h ?k)" if "b \<in> set (items ?h ?l)" for b
    using L that by (auto simp: lists_inv_def tasks_of_def scheduled_of_def)
  then have k: "il_inv h ?k" "items h ?k = items ?h ?k"
    using upd il(2) by (auto simp: il_inv_upd_notin items_upd_notin)
  let ?s = "at t SubPlan (s\<lparr>strand_links := h, strand_tasks := l, strand_lock := Some t\<rparr>)"
  have out: "s' = ?s" "e = [Queued a]" using s' free push(1) by (auto simp: Submit_push_def)
  have hp: "holder_pc own ?s = holder_pc own s" using ne by (auto simp: holder_pc_def at_def split: option.splits)
  have eq: "tasks_of ?s = tasks_of s @ [a]" "scheduled_of own ?s = scheduled_of own s"
    using hp push(3) k(2) by (simp_all add: tasks_of_def scheduled_of_def at_def)
  have "control_inv own ?s"
    using C pc ne free by (auto simp: control_inv_def at_def split: option.splits)
  moreover have "waiting_inv ?s" unfolding waiting_inv_def eq by simp
  moreover have "lists_inv own ?s"
    using L room pc push(2) k(1) unfolding lists_inv_def eq hp
    by (auto simp: at_def split: if_splits) (metis offered.simps(1))+
  ultimately have "strand_inv own ?s" by (simp add: strand_inv_def)
  moreover have "reach serial_spec (abs_of own s) [Queued a] (abs_of own ?s)"
    using eq hp by (intro reach_single [where c = "QueueTask a"]) (simp add: abs_of_def)
  ultimately show ?thesis unfolding out by (rule servesI [rotated])
qed

lemma run_swap:
  assumes inv: "strand_inv own s" and pc: "strand_pc s t = BatchSwap" and s': "RunBatch_swap t s = Some s'"
  shows "serves (abs_of own s) [] s'"
proof -
  have C: "control_inv own s" and L: "lists_inv own s" and W: "waiting_inv s" using inv by (simp_all add: strand_inv_def)
  note D = control_invD [OF C]
  have own: "own = Some t" using D(1) [of t] pc by simp
  have ne: "tasks_of s \<noteq> []" using waiting_invD [OF W, of t] pc by simp
  have il: "il_inv (strand_links s) (strand_tasks s)" using L by (auto simp: lists_inv_def)
  have free: "strand_lock s = None" and nonempty: "\<not> IsEmpty (strand_tasks s)"
    using s' ne il by (auto simp: RunBatch_swap_def IsEmpty_iff tasks_of_def split: if_splits)
  have "IsEmpty empty_list" by (simp add: IsEmpty_def empty_list_def)
  then have out: "s' = at t (BatchLoop (strand_tasks s)) (s\<lparr>strand_tasks := empty_list\<rparr>)"
    using s' free nonempty by (simp add: RunBatch_swap_def swap_lists_ok)
  have hp: "holder_pc own s = BatchSwap" "holder_pc own s' = BatchLoop (strand_tasks s)"
    using own pc out by (simp_all add: holder_pc_def at_def)
  have eq: "tasks_of s' = []" "scheduled_of own s' = tasks_of s" "scheduled_of own s = []"
    using hp out by (simp_all add: tasks_of_def scheduled_of_def at_def items_empty_list)
  have "control_inv own s'"
    using C pc own out free by (auto simp: control_inv_def at_def)
  moreover have "waiting_inv s'"
  proof -
    have tok: "token (strand_pc s u) \<longleftrightarrow> u = t" for u using D(1) [of u] own by auto
    have lk: "\<not> locked_at (strand_pc s u)" for u using D(2) [of u] free by simp
    have "\<not> needs_tasks (strand_pc s' u)" for u
      using tok [of u] lk [of u] out by (cases "strand_pc s u"; cases "u = t") (auto simp: at_def)
    with D(5) [OF own] out show ?thesis by (simp add: waiting_inv_def at_def)
  qed
  moreover have "lists_inv own s'"
    using L il out unfolding lists_inv_def eq hp
    by (auto simp: at_def il_inv_empty_list split: if_splits)
  ultimately have "strand_inv own s'" by (simp add: strand_inv_def)
  moreover have "abs_of own s' = abs_of own s" using eq hp by (simp add: abs_of_def)
  ultimately show ?thesis using servesI [of "abs_of own s" "[]" own s'] reach.reach_init by metis
qed


lemma run_pop:
  assumes inv: "strand_inv own s" and pc: "strand_pc s t = BatchLoop l" and s': "RunBatch_pop t l s = (s', e)"
  shows "serves (abs_of own s) e s'"
proof (cases "IsEmpty l")
  case True
  have C: "control_inv own s" using inv by (simp add: strand_inv_def)
  have own: "own = Some t" using control_invD(1) [OF C, of t] pc by simp
  have st: "strand_st s = RUNNING" using control_invD(5) [OF C own] pc by simp
  have "serves (abs_of (Some t) s) [] (at t (BatchCheck l) (s\<lparr>strand_st := RUNNING\<rparr>))"
    by (rule holder_step [OF inv [unfolded own]]) (use pc True in auto)
  moreover have "s\<lparr>strand_st := RUNNING\<rparr> = s" using st by simp
  ultimately show ?thesis using True s' own by (simp add: RunBatch_pop_def)
next
  case False
  have C: "control_inv own s" and L: "lists_inv own s" and W: "waiting_inv s" using inv by (simp_all add: strand_inv_def)
  note D = control_invD [OF C]
  have own: "own = Some t" using D(1) [of t] pc by simp
  have hp: "holder_pc own s = BatchLoop l" using own pc by (simp add: holder_pc_def)
  have il: "il_inv (strand_links s) l" using L hp by (auto simp: lists_inv_def)
  then obtain a xs where it: "items (strand_links s) l = a # xs"
    using False by (metis IsEmpty_iff neq_Nil_conv)
  obtain l' where pop: "Pop (strand_links s) l = Inr (l', Some a)" "il_inv (strand_links s) l'"
    "items (strand_links s) l' = xs"
    using Pop_cons [OF il it] .
  let ?s = "at t (BatchRun a l') (s\<lparr>strand_out := remove1 a (strand_out s)\<rparr>)"
  have out: "s' = ?s" "e = [Started a]" using s' False pop(1) by (auto simp: RunBatch_pop_def)
  have hp': "holder_pc own ?s = BatchRun a l'" using own by (simp add: holder_pc_def at_def)
  have eq: "tasks_of ?s = tasks_of s" "scheduled_of own ?s = xs" "scheduled_of own s = a # xs"
    using hp hp' it pop(3) by (simp_all add: tasks_of_def scheduled_of_def at_def)
  have "control_inv own ?s"
    using C pc own D(2) [of t] by (auto simp: control_inv_def at_def)
  moreover have "waiting_inv ?s" using W by (auto simp: waiting_inv_def at_def tasks_of_def)
  moreover have "lists_inv own ?s"
  proof -
    have dis: "distinct (tasks_of s @ a # xs)" "distinct (strand_out s)" "set (tasks_of s @ a # xs) \<subseteq> set (strand_out s)"
      and len: "length (strand_out s) + 1 < 2 ^ 64"
      and off: "\<And>u b. offered (strand_pc s u) = Some b \<Longrightarrow> b \<in> set (strand_out s) \<and> b \<notin> set (tasks_of s @ a # xs)"
      and excl: "\<And>u v b. offered (strand_pc s u) = Some b \<Longrightarrow> offered (strand_pc s v) = Some b \<Longrightarrow> u = v"
      using L unfolding lists_inv_def eq by blast+
    have pcs: "strand_pc ?s u = (if u = t then BatchRun a l' else strand_pc s u)" for u by (simp add: at_def)
    have outs: "strand_out ?s = remove1 a (strand_out s)" "strand_links ?s = strand_links s" "strand_tasks ?s = strand_tasks s"
      by (simp_all add: at_def)
    have "set (tasks_of s @ xs) \<subseteq> set (remove1 a (strand_out s))" using dis by auto
    moreover have "length (remove1 a (strand_out s)) + 1 < 2 ^ 64" using len by (auto simp: length_remove1)
    moreover have "b \<in> set (remove1 a (strand_out s)) \<and> b \<notin> set (tasks_of s @ xs)"
      if "offered (strand_pc ?s u) = Some b" for u b
      using off [of u b] that dis(2) unfolding pcs by (auto split: if_splits)
    moreover have "u = v" if "offered (strand_pc ?s u) = Some b" "offered (strand_pc ?s v) = Some b" for u v b
      using excl [of u b v] that unfolding pcs by (auto split: if_splits)
    ultimately show ?thesis
      using L dis pop(2) hp' unfolding lists_inv_def eq outs by (auto simp: scheduled_at.simps)
  qed
  ultimately have "strand_inv own ?s" by (simp add: strand_inv_def)
  moreover have "reach serial_spec (abs_of own s) [Started a] (abs_of own ?s)"
    using eq hp hp' by (intro reach_single [where c = StartTask]) (simp add: abs_of_def)
  ultimately show ?thesis unfolding out by (rule servesI [rotated])
qed

lemma run_ran:
  assumes inv: "strand_inv own s" and pc: "strand_pc s t = BatchRun a l"
  shows "serves (abs_of own s) [Ended a] (at t (BatchLoop l) s)"
proof -
  let ?s = "at t (BatchLoop l) s"
  have C: "control_inv own s" and L: "lists_inv own s" and W: "waiting_inv s" using inv by (simp_all add: strand_inv_def)
  note D = control_invD [OF C]
  have own: "own = Some t" using D(1) [of t] pc by simp
  have hp: "holder_pc own s = BatchRun a l" "holder_pc own ?s = BatchLoop l"
    using own pc by (simp_all add: holder_pc_def at_def)
  have same: "lists_inv own ?s \<and> tasks_of ?s = tasks_of s \<and> scheduled_of own ?s = scheduled_of own s"
    using hp pc by (intro lists_inv_same [OF L]) (auto simp: at_def)
  have "control_inv own ?s" using C pc own D(2) [of t] by (auto simp: control_inv_def at_def)
  moreover have "waiting_inv ?s" using W by (auto simp: waiting_inv_def at_def tasks_of_def)
  ultimately have "strand_inv own ?s" using same by (simp add: strand_inv_def)
  moreover have "reach serial_spec (abs_of own s) [Ended a] (abs_of own ?s)"
    using same hp by (intro reach_single [where c = EndTask]) (simp add: abs_of_def)
  ultimately show ?thesis by (rule servesI [rotated])
qed

lemma strand_sim_step:
  assumes "strand_sim a s" and st: "strand_step c s = Some (s', e)"
  shows "serves a e s'"
proof -
  obtain own where inv: "strand_inv own s" and a: "a = abs_of own s"
    using assms(1) by (auto simp: strand_sim_def abs_of_def prod_eq_iff)
  show ?thesis
  proof (cases c)
    case (SubmitTask t b)
    with st submit_call [OF inv, of t b] a show ?thesis by (auto split: if_splits)
  next
    case (StartBatch t)
    with st start_batch [OF inv, of t] a show ?thesis by (auto split: if_splits)
  next
    case (StrandGo t)
    then have go: "strand_go t s = Some (s', e)" using st by simp
    show ?thesis
    proof (cases "strand_pc s t")
      case (SubLock b)
      with go have "Submit_push t b s = Some (s', e)" by (simp add: strand_go_def)
      moreover from this have "strand_lock s = None" by (auto simp: Submit_push_def split: if_splits)
      ultimately show ?thesis using submit_push [OF inv SubLock] a by simp
    next
      case BatchSwap
      with go have "RunBatch_swap t s = Some s'" "e = []" by (auto simp: strand_go_def)
      with run_swap [OF inv BatchSwap] a show ?thesis by simp
    next
      case (BatchLoop l)
      with go run_pop [OF inv BatchLoop, of s' e] a show ?thesis by (simp add: strand_go_def)
    next
      case (BatchRun b l)
      with go run_ran [OF inv BatchRun] a show ?thesis by (auto simp: strand_go_def RunBatch_ran_def)
    qed (use go_submit [OF inv _ go] go_batch_end [OF inv go] go a in \<open>auto simp: strand_go_def\<close>)
  qed
qed

lemma strand_sim_init: "strand_sim ([], None) (init_strand h)"
proof -
  have "strand_inv None (init_strand h)"
    by (simp add: strand_inv_def control_inv_def lists_inv_def waiting_inv_def init_strand_def tasks_of_def
        scheduled_of_def holder_pc_def items_empty_list il_inv_empty_list)
  then show ?thesis
    unfolding strand_sim_def
    by (intro exI [of _ None]) (simp add: init_strand_def tasks_of_def scheduled_of_def holder_pc_def items_empty_list)
qed

interpretation strand_refines:
  event_simulation strand_step "init_strand h" serial_spec "([], None)" strand_sim for h
  by unfold_locales (fact strand_sim_init, use strand_sim_step in \<open>simp add: serves_def\<close>)


lemma strand_sim_no_fault: "strand_sim a s \<Longrightarrow> strand_pc s t \<noteq> StrandFault f"
  unfolding strand_sim_def strand_inv_def by (metis control_invD(3) drained_at.simps(5))

lemma strand_sim_one_batch:
  assumes "strand_sim a s" and "token (strand_pc s i)" and "token (strand_pc s j)"
  shows "i = j"
proof -
  obtain own where "control_inv own s" using assms(1) by (auto simp: strand_sim_def strand_inv_def)
  from control_invD(1) [OF this] assms(2,3) show ?thesis by (metis option.inject)
qed

subsection \<open>Properties\<close>

text \<open>
  C3: the strand runs its tasks one at a time, in the order in which they were queued, each at most
  once, and none of its assertions fails: in every interleaving of submitting threads and batches on the
  underlying executor the history of queued, started and ended tasks is that of a serial executor, so
  that the queued tasks are the started ones followed by those still in the queue and no two runs overlap.
  That a task in the queue is started at all is not claimed: \<open>strand_lost_wakeup\<close> shows one that no batch is planned for.
\<close>

theorem strand_serial_fifo:
  assumes "reach strand_step (init_strand h) es s"
  shows "(\<exists>q r. reach serial_spec ([], None) es (q, r) \<and> queued es = started es @ q \<and> runs_after None es = Some r) \<and>
    (\<forall>t f. strand_pc s t \<noteq> StrandFault f) \<and>
    (\<forall>i j a b k l. strand_pc s i = BatchRun a k \<longrightarrow> strand_pc s j = BatchRun b l \<longrightarrow> i = j)"
proof -
  obtain a where a: "reach serial_spec ([], None) es a" "strand_sim a s"
    using strand_refines.refines [OF assms] by blast
  have "reach serial_spec ([], None) es (fst a, snd a)" using a(1) by simp
  with serial_history [OF a(1)] have
    "\<exists>q r. reach serial_spec ([], None) es (q, r) \<and> queued es = started es @ q \<and> runs_after None es = Some r"
    by blast
  moreover have "i = j" if "strand_pc s i = BatchRun b k" "strand_pc s j = BatchRun c l" for i j b c k l
    using strand_sim_one_batch [OF a(2), of i j] that by simp
  ultimately show ?thesis using strand_sim_no_fault [OF a(2)] by blast
qed

theorem strand_serial_fifo_witness:
  "\<exists>es s. reach strand_step (init_strand (\<lambda>_. None)) es s \<and> started es = [5, 6] \<and> queued es = [5, 6, 7] \<and>
     (\<exists>q. queued es = started es @ q)"
proof -
  have "run_ok strand_step
     ([SubmitTask 1 5, SubmitTask 2 6] @ replicate 4 (StrandGo 1) @ replicate 3 (StrandGo 2) @ [StartBatch 3] @
      replicate 3 (StrandGo 3) @ [SubmitTask 1 7] @ replicate 3 (StrandGo 1) @ replicate 2 (StrandGo 3))
     (init_strand (\<lambda>_. None))
     (\<lambda>es s. started es = [5, 6] \<and> queued es = [5, 6, 7])"
    by code_simp
  then obtain es s where r: "reach strand_step (init_strand (\<lambda>_. None)) es s" and "started es = [5, 6]"
    "queued es = [5, 6, 7]"
    by (rule run_okE) blast
  with strand_serial_fifo [OF r] show ?thesis by blast
qed

text \<open>
  Outside the state \<open>READY\<close> there is exactly one batch: either one is planned on the underlying
  executor and nobody runs, or none is planned and exactly one thread is submitting or running it; and
  a planned batch always finds a task.
\<close>

lemma strand_one_batch:
  assumes "reach strand_step (init_strand h) es s" and "strand_st s \<noteq> READY"
  shows "(strand_planned s = 1 \<and> \<not> IsTasksEmpty s \<and> (\<forall>t. \<not> token (strand_pc s t))) \<or>
    (strand_planned s = 0 \<and> (\<exists>!t. token (strand_pc s t)))"
proof -
  obtain a where "strand_sim a s" using strand_refines.refines [OF assms(1)] by blast
  then obtain own where C: "control_inv own s" and L: "lists_inv own s" and W: "waiting_inv s"
    by (auto simp: strand_sim_def strand_inv_def)
  note D = control_invD [OF C]
  have il: "il_inv (strand_links s) (strand_tasks s)" using L by (simp add: lists_inv_def)
  show ?thesis
  proof (cases own)
    case None
    then have "strand_planned s = 1" using D(4) assms(2) by auto
    moreover from this have "\<not> IsTasksEmpty s"
      using W il by (simp add: waiting_inv_def IsTasksEmpty_def IsEmpty_iff tasks_of_def)
    ultimately show ?thesis using D(1) None by simp
  next
    case (Some t)
    then show ?thesis using D(1) D(5) [of t] by auto
  qed
qed

text \<open>
  the strand can strand a task: a task submitted after \<open>RunBatch\<close> has found the list empty and
  before it has set the state back to \<open>READY\<close> is queued while the state is \<open>RUNNING\<close>, so no batch is planned
  for it; every thread is idle, the state is \<open>READY\<close>, nothing is planned and the task waits until
  another one is submitted.
\<close>

lemma strand_lost_wakeup:
  "\<exists>es s. reach strand_step (init_strand (\<lambda>_. None)) es s \<and> strand_st s = READY \<and> strand_planned s = 0 \<and>
     queued es = [5, 6] \<and> started es = [5] \<and> \<not> IsTasksEmpty s \<and> strand_pc s 1 = SIdle \<and> strand_pc s 2 = SIdle"
proof -
  have "run_ok strand_step
     (SubmitTask 1 5 # replicate 4 (StrandGo 1) @ StartBatch 2 # replicate 6 (StrandGo 2) @
      SubmitTask 1 6 # replicate 3 (StrandGo 1) @ [StrandGo 2]) (init_strand (\<lambda>_. None))
     (\<lambda>es s. strand_st s = READY \<and> strand_planned s = 0 \<and> queued es = [5, 6] \<and> started es = [5] \<and>
        \<not> IsTasksEmpty s \<and> strand_pc s 1 = SIdle \<and> strand_pc s 2 = SIdle)"
    by code_simp
  then show ?thesis by (rule run_okE) blast
qed

end
