(* ===== verification/Intrusive_Pool.thy ===== *)
theory Intrusive_Pool
  imports Intrusive_List Tasks
begin

text \<open>
  The thread pool of \<^verbatim>\<open>src/executor/pool/intrusive_pool.cpp\<close> with the counters and the
  condition variable it inherits from \<open>Shutdowner\<close> (\<^verbatim>\<open>src/executor/executor.h\<close>).

  A worker pops a task under the mutex, runs it (client code between \<open>TaskStarted\<close> and
  \<open>TaskEnded\<close>), decrements the task counter, notifies the threads in \<open>WaitIdle\<close> and starts over;
  when it finds no task it leaves if the pool is shutting down. Each critical section and each access to an
  atomic outside of one is a step. \<open>WaitIdle\<close> holds its mutex from the test of the
  counter to the call of \<open>wait\<close>; the notifiers do not take it. The destructor starts the shutdown, waits for
  the worker count to reach zero, joins the workers and asserts that no task is left. The
  client hands a task over again only after it was started or refused (\<open>pl_out\<close>).

  The lemmas show the first-in first-out discipline, that the counter is exactly the number of tasks added and
  not yet completed, and what the return of \<open>WaitIdle\<close> implies; and three runs show a lost task,
  the failing assertion of the destructor, and a lost wake-up of \<open>WaitIdle\<close>.
\<close>

datatype pool_pc =
    PIdle
  | SubCheck addr
  | SubAdd addr
  | SubPush addr
  | WorkPop
  | WorkRun addr
  | WorkRemove
  | WorkNotify
  | WorkShut
  | WorkExit
  | WorkExitNotify
  | WorkDone
  | IdleLock
  | IdleTest
  | IdleBlock
  | IdleSleep
  | DtorStart
  | DtorWait
  | DtorSleep
  | DtorJoin
  | DtorAssert
  | DtorDone
  | PoolFault fault

record pool =
  pl_sd :: shutdowner
  pl_links :: links
  pl_tasks :: intrusive_list
  pl_workers_count :: size_t       \<comment> \<open>\<^verbatim>\<open>workers_count_\<close>, the constructor's argument\<close>
  pl_spawned :: size_t             \<comment> \<open>the loop counter of \<open>Start\<close>\<close>
  pl_workers :: "tid list"
  pl_count_workers :: size_t
  pl_idle_mutex :: "tid option"
  pl_dtor :: "tid option"          \<comment> \<open>the thread in the destructor\<close>
  pl_out :: "addr list"
  pl_pc :: "tid \<Rightarrow> pool_pc"

datatype pool_event =
    TaskQueued addr
  | TaskRefused addr
  | TaskStarted addr
  | TaskEnded addr
  | IdleReturned tid

datatype pool_choice =
    Spawn tid                     \<comment> \<open>one iteration of \<open>Start\<close>\<close>
  | PoolSubmit tid addr
  | WaitIdle tid
  | Destroy tid
  | PoolGo tid
  | PoolSpurious tid

definition init_pool :: "size_t \<Rightarrow> links \<Rightarrow> pool" where
  "init_pool count h =
     \<lparr>pl_sd = init_shutdowner, pl_links = h, pl_tasks = empty_list, pl_workers_count = count, pl_spawned = 0,
      pl_workers = [], pl_count_workers = 0, pl_idle_mutex = None, pl_dtor = None, pl_out = [], pl_pc = (\<lambda>_. PIdle)\<rparr>"

definition goto :: "tid \<Rightarrow> pool_pc \<Rightarrow> pool \<Rightarrow> pool" where
  "goto t p s = s\<lparr>pl_pc := (pl_pc s)(t := p)\<rparr>"

definition Start_iteration :: "tid \<Rightarrow> pool \<Rightarrow> pool option" where
  "Start_iteration t s =
     (if pl_pc s t = PIdle \<and> pl_spawned s < pl_workers_count s \<and> t \<notin> set (pl_workers s)
      then Some (goto t WorkPop
             (s\<lparr>pl_spawned := pl_spawned s + 1, pl_count_workers := pl_count_workers s + 1,
                pl_workers := pl_workers s @ [t]\<rparr>))
      else None)"

subsection \<open>Submit\<close>

definition PoolSubmit_check :: "tid \<Rightarrow> addr \<Rightarrow> pool \<Rightarrow> pool \<times> pool_event list" where
  "PoolSubmit_check t a s =
     (if IsShutdown (pl_sd s) then (goto t PIdle (s\<lparr>pl_out := remove1 a (pl_out s)\<rparr>), [TaskRefused a])
      else (goto t (SubAdd a) s, []))"

definition PoolSubmit_add :: "tid \<Rightarrow> addr \<Rightarrow> pool \<Rightarrow> pool" where
  "PoolSubmit_add t a s = goto t (SubPush a) (s\<lparr>pl_sd := AddTask (pl_sd s)\<rparr>)"

definition PoolSubmit_push :: "tid \<Rightarrow> addr \<Rightarrow> pool \<Rightarrow> pool \<times> pool_event list" where
  "PoolSubmit_push t a s =
     (case Push (Some a) (pl_links s, pl_tasks s) of
        Inl f \<Rightarrow> (goto t (PoolFault f) s, [])
      | Inr (h, l) \<Rightarrow> (goto t PIdle (s\<lparr>pl_links := h, pl_tasks := l\<rparr>), [TaskQueued a]))"

subsection \<open>The loop of a worker\<close>

definition Worker_pop :: "tid \<Rightarrow> pool \<Rightarrow> pool \<times> pool_event list" where
  "Worker_pop t s =
     (case Pop (pl_links s) (pl_tasks s) of
        Inl f \<Rightarrow> (goto t (PoolFault f) s, [])
      | Inr (l, None) \<Rightarrow> (goto t WorkShut (s\<lparr>pl_tasks := l\<rparr>), [])
      | Inr (l, Some a) \<Rightarrow>
          (goto t (WorkRun a) (s\<lparr>pl_tasks := l, pl_out := remove1 a (pl_out s)\<rparr>), [TaskStarted a]))"

definition Worker_remove :: "tid \<Rightarrow> pool \<Rightarrow> pool" where
  "Worker_remove t s = goto t WorkNotify (s\<lparr>pl_sd := RemoveTask (pl_sd s)\<rparr>)"

text \<open>\<open>NotifyAll\<close>: every thread asleep in \<open>WaitIdle\<close> goes back to take the mutex.\<close>

definition NotifyAll :: "pool \<Rightarrow> pool" where
  "NotifyAll s = s\<lparr>pl_pc := (\<lambda>u. if pl_pc s u = IdleSleep then IdleLock else pl_pc s u)\<rparr>"

definition Worker_shut :: "tid \<Rightarrow> pool \<Rightarrow> pool" where
  "Worker_shut t s = goto t (if IsShutdown (pl_sd s) then WorkExit else WorkPop) s"

definition Worker_exit :: "tid \<Rightarrow> pool \<Rightarrow> pool" where
  "Worker_exit t s = goto t WorkExitNotify (s\<lparr>pl_count_workers := pl_count_workers s - 1\<rparr>)"

text \<open>\<^verbatim>\<open>empty_workers_.notify_one()\<close>: only the destructor waits for it.\<close>

definition notify_exit :: "pool \<Rightarrow> pool" where
  "notify_exit s =
     (case pl_dtor s of None \<Rightarrow> s | Some u \<Rightarrow> if pl_pc s u = DtorSleep then goto u DtorWait s else s)"

subsection \<open>WaitIdle and the destructor\<close>

definition WaitIdle_test :: "tid \<Rightarrow> pool \<Rightarrow> pool \<times> pool_event list" where
  "WaitIdle_test t s =
     (if 0 \<noteq> GetTasks (pl_sd s) then (goto t IdleBlock s, [])
      else (goto t PIdle (s\<lparr>pl_idle_mutex := None\<rparr>), [IdleReturned t]))"

definition WaitIdle_block :: "tid \<Rightarrow> pool \<Rightarrow> pool" where
  "WaitIdle_block t s = goto t IdleSleep (s\<lparr>pl_idle_mutex := None\<rparr>)"

definition WaitShutdown_test :: "tid \<Rightarrow> pool \<Rightarrow> pool" where
  "WaitShutdown_test t s = goto t (if 0 \<noteq> pl_count_workers s then DtorSleep else DtorJoin) s"

definition Destroy_assert :: "tid \<Rightarrow> pool \<Rightarrow> pool" where
  "Destroy_assert t s = goto t (if 0 = GetTasks (pl_sd s) then DtorDone else PoolFault AssertFailed) s"

definition pool_go :: "tid \<Rightarrow> pool \<Rightarrow> (pool \<times> pool_event list) option" where
  "pool_go t s =
     (case pl_pc s t of
        SubCheck a \<Rightarrow> Some (PoolSubmit_check t a s)
      | SubAdd a \<Rightarrow> Some (PoolSubmit_add t a s, [])
      | SubPush a \<Rightarrow> Some (PoolSubmit_push t a s)
      | WorkPop \<Rightarrow> Some (Worker_pop t s)
      | WorkRun a \<Rightarrow> Some (goto t WorkRemove s, [TaskEnded a])
      | WorkRemove \<Rightarrow> Some (Worker_remove t s, [])
      | WorkNotify \<Rightarrow> Some (goto t WorkPop (NotifyAll s), [])
      | WorkShut \<Rightarrow> Some (Worker_shut t s, [])
      | WorkExit \<Rightarrow> Some (Worker_exit t s, [])
      | WorkExitNotify \<Rightarrow> Some (goto t WorkDone (notify_exit s), [])
      | IdleLock \<Rightarrow>
          (if pl_idle_mutex s = None then Some (goto t IdleTest (s\<lparr>pl_idle_mutex := Some t\<rparr>), []) else None)
      | IdleTest \<Rightarrow> Some (WaitIdle_test t s)
      | IdleBlock \<Rightarrow> Some (WaitIdle_block t s, [])
      | DtorStart \<Rightarrow> Some (goto t DtorWait (s\<lparr>pl_sd := StartShutdown (pl_sd s)\<rparr>), [])
      | DtorWait \<Rightarrow> Some (WaitShutdown_test t s, [])
      | DtorJoin \<Rightarrow>
          (if list_all (\<lambda>u. pl_pc s u = WorkDone) (pl_workers s) then Some (goto t DtorAssert s, []) else None)
      | DtorAssert \<Rightarrow> Some (Destroy_assert t s, [])
      | _ \<Rightarrow> None)"

fun pool_step :: "(pool_choice, pool, pool_event) stepper" where
  "pool_step (Spawn t) s = map_option (\<lambda>s'. (s', [])) (Start_iteration t s)"
| "pool_step (PoolSubmit t a) s =
     (if pl_pc s t = PIdle \<and> a \<notin> set (pl_out s) \<and> int (length (pl_out s)) + 2 < 2 ^ 64
      then Some (goto t (SubCheck a) (s\<lparr>pl_out := pl_out s @ [a]\<rparr>), []) else None)"
| "pool_step (WaitIdle t) s = (if pl_pc s t = PIdle then Some (goto t IdleLock s, []) else None)"
| "pool_step (Destroy t) s = (if pl_pc s t = PIdle \<and> pl_dtor s = None then Some (goto t DtorStart (s\<lparr>pl_dtor := Some t\<rparr>), []) else None)"
| "pool_step (PoolGo t) s = pool_go t s"
| "pool_step (PoolSpurious t) s =
     (if pl_pc s t = IdleSleep then Some (goto t IdleLock s, [])
      else if pl_pc s t = DtorSleep then Some (goto t DtorWait s, []) else None)"

subsection \<open>Accounting\<close>

fun pool_queued :: "pool_event list \<Rightarrow> addr list" where
  "pool_queued [] = []"
| "pool_queued (TaskQueued a # es) = a # pool_queued es"
| "pool_queued (_ # es) = pool_queued es"

fun pool_started :: "pool_event list \<Rightarrow> addr list" where
  "pool_started [] = []"
| "pool_started (TaskStarted a # es) = a # pool_started es"
| "pool_started (_ # es) = pool_started es"

lemma pool_queued_append [simp]: "pool_queued (es @ fs) = pool_queued es @ pool_queued fs"
  by (induction es rule: pool_queued.induct) auto

lemma pool_started_append [simp]: "pool_started (es @ fs) = pool_started es @ pool_started fs"
  by (induction es rule: pool_started.induct) auto

text \<open>The threads that hold a task which is counted but not in the list.\<close>

fun carries :: "pool_pc \<Rightarrow> bool" where
  "carries (SubPush a) = True"
| "carries (WorkRun a) = True"
| "carries WorkRemove = True"
| "carries _ = False"

fun handing :: "pool_pc \<Rightarrow> ptr" where
  "handing (SubCheck a) = Some a"
| "handing (SubAdd a) = Some a"
| "handing (SubPush a) = Some a"
| "handing _ = None"

definition pool_items :: "pool \<Rightarrow> addr list" where
  "pool_items s = items (pl_links s) (pl_tasks s)"

definition inflight :: "pool \<Rightarrow> tid set" where
  "inflight s = {t. carries (pl_pc s t)}"

definition unfinished :: "pool \<Rightarrow> nat" where
  "unfinished s = card (inflight s) + length (pool_items s)"

definition pool_count_inv :: "pool \<Rightarrow> bool" where
  "pool_count_inv s \<longleftrightarrow> finite (inflight s) \<and> sd_count_tasks (pl_sd s) = of_nat (unfinished s)"

definition pool_list_inv :: "pool_event list \<Rightarrow> pool \<Rightarrow> bool" where
  "pool_list_inv es s \<longleftrightarrow>
     il_inv (pl_links s) (pl_tasks s) \<and> pool_queued es = pool_started es @ pool_items s \<and>
     distinct (pl_out s) \<and> set (pool_items s) \<subseteq> set (pl_out s) \<and> length (pl_out s) + 1 < 2 ^ 64 \<and>
     (\<forall>t a. handing (pl_pc s t) = Some a \<longrightarrow> a \<in> set (pl_out s) \<and> a \<notin> set (pool_items s)) \<and>
     (\<forall>t u a. handing (pl_pc s t) = Some a \<longrightarrow> handing (pl_pc s u) = Some a \<longrightarrow> t = u) \<and>
     (\<forall>t f. pl_pc s t = PoolFault f \<longrightarrow> f = AssertFailed)"

lemma inflight_goto: "inflight (goto t p s) = (if carries p then insert t (inflight s) else inflight s - {t})"
  by (auto simp: inflight_def goto_def)

lemma pool_items_fields [simp]:
  "pool_items (goto t p s) = pool_items s" "pool_items (s\<lparr>pl_sd := d\<rparr>) = pool_items s"
  "pool_items (s\<lparr>pl_out := q\<rparr>) = pool_items s" "pool_items (s\<lparr>pl_idle_mutex := m\<rparr>) = pool_items s"
  "pool_items (s\<lparr>pl_count_workers := c\<rparr>) = pool_items s" "pool_items (NotifyAll s) = pool_items s"
  "pool_items (notify_exit s) = pool_items s" "pool_items (s\<lparr>pl_dtor := d'\<rparr>) = pool_items s"
  "pool_items (s\<lparr>pl_spawned := n, pl_count_workers := c, pl_workers := ws\<rparr>) = pool_items s"
  by (simp_all add: pool_items_def goto_def NotifyAll_def notify_exit_def split: option.splits)

lemma inflight_fields [simp]:
  "inflight (s\<lparr>pl_sd := d\<rparr>) = inflight s" "inflight (s\<lparr>pl_out := q\<rparr>) = inflight s"
  "inflight (s\<lparr>pl_idle_mutex := m\<rparr>) = inflight s" "inflight (s\<lparr>pl_count_workers := c\<rparr>) = inflight s"
  "inflight (s\<lparr>pl_dtor := d'\<rparr>) = inflight s" "inflight (s\<lparr>pl_tasks := l\<rparr>) = inflight s"
  "inflight (s\<lparr>pl_tasks := l, pl_out := q\<rparr>) = inflight s" "inflight (s\<lparr>pl_links := h\<rparr>) = inflight s"
  "inflight (s\<lparr>pl_spawned := n, pl_count_workers := c, pl_workers := ws\<rparr>) = inflight s"
  by (simp_all add: inflight_def)

lemma inflight_notify [simp]: "inflight (NotifyAll s) = inflight s" "inflight (notify_exit s) = inflight s"
  by (auto simp: inflight_def NotifyAll_def notify_exit_def goto_def split: option.splits if_splits)

lemma goto_fields [simp]:
  "pl_sd (goto t p s) = pl_sd s" "pl_links (goto t p s) = pl_links s" "pl_tasks (goto t p s) = pl_tasks s"
  "pl_out (goto t p s) = pl_out s"
  by (simp_all add: goto_def)

lemma notify_fields [simp]:
  "pl_sd (NotifyAll s) = pl_sd s" "pl_links (NotifyAll s) = pl_links s" "pl_tasks (NotifyAll s) = pl_tasks s"
  "pl_out (NotifyAll s) = pl_out s"
  "pl_sd (notify_exit s) = pl_sd s" "pl_links (notify_exit s) = pl_links s" "pl_tasks (notify_exit s) = pl_tasks s"
  "pl_out (notify_exit s) = pl_out s"
  by (simp_all add: NotifyAll_def notify_exit_def split: option.splits)

lemmas pool_ops = Start_iteration_def PoolSubmit_check_def PoolSubmit_add_def Worker_remove_def Worker_shut_def
  Worker_exit_def WaitIdle_test_def WaitIdle_block_def WaitShutdown_test_def Destroy_assert_def

text \<open>A step that moves one thread between program points that carry no task, or carry the same.\<close>

lemma count_same:
  assumes "pool_count_inv s" and "carries p \<longleftrightarrow> carries (pl_pc s t)"
  shows "pool_count_inv (goto t p s)"
proof -
  have "inflight (goto t p s) = inflight s" using assms(2) by (auto simp: inflight_def goto_def)
  with assms(1) show ?thesis by (simp add: pool_count_inv_def unfinished_def)
qed

lemma count_fields:
  assumes "pool_count_inv s" and "inflight s' = inflight s" "pool_items s' = pool_items s"
    "sd_count_tasks (pl_sd s') = sd_count_tasks (pl_sd s)"
  shows "pool_count_inv s'"
  using assms by (simp add: pool_count_inv_def unfinished_def)

lemma count_idle:
  assumes "pool_count_inv s" and "\<not> carries (pl_pc s t)" "\<not> carries p"
    and "inflight s1 = inflight s" "pool_items s1 = pool_items s" "sd_count_tasks (pl_sd s1) = sd_count_tasks (pl_sd s)"
  shows "pool_count_inv (goto t p s1)"
proof -
  have "inflight (goto t p s1) = inflight s" using assms(2-4) by (auto simp: inflight_goto) (simp add: inflight_def)
  with assms show ?thesis by (simp add: pool_count_inv_def unfinished_def)
qed

lemma Pop_items:
  assumes "il_inv (pl_links s) (pl_tasks s)"
  shows "(pool_items s = [] \<and> Pop (pl_links s) (pl_tasks s) = Inr (pl_tasks s, None)) \<or>
    (\<exists>a l xs. pool_items s = a # xs \<and> Pop (pl_links s) (pl_tasks s) = Inr (l, Some a) \<and>
       il_inv (pl_links s) l \<and> items (pl_links s) l = xs)"
proof (cases "pool_items s")
  case Nil
  with Pop_empty [OF assms] show ?thesis by (simp add: pool_items_def)
next
  case (Cons a xs)
  with Pop_cons [OF assms, of a xs] show ?thesis by (metis pool_items_def)
qed

lemma Push_items:
  assumes L: "pool_list_inv es s" and "handing (pl_pc s t) = Some a"
  obtains h l where "Push (Some a) (pl_links s, pl_tasks s) = Inr (h, l)" "il_inv h l" "items h l = pool_items s @ [a]"
proof -
  have "card (set (pool_items s)) \<le> card (set (pl_out s))"
    using L by (intro card_mono) (auto simp: pool_list_inv_def)
  moreover have "distinct (pool_items s)" using L by (simp add: pool_list_inv_def il_inv_def pool_items_def)
  ultimately have "length (pool_items s) + 1 < 2 ^ 64"
    using L by (simp add: distinct_card pool_list_inv_def)
  moreover have "a \<notin> set (pool_items s)" "il_inv (pl_links s) (pl_tasks s)"
    using assms by (auto simp: pool_list_inv_def)
  ultimately show thesis using that Push_ok [of "pl_links s" "pl_tasks s" a] unfolding pool_items_def by metis
qed


lemma list_same:
  assumes "pool_list_inv es s" and "pl_links s' = pl_links s" "pl_tasks s' = pl_tasks s" "pl_out s' = pl_out s"
    and "\<And>u. handing (pl_pc s' u) = None \<or> handing (pl_pc s' u) = handing (pl_pc s u)"
    and "\<And>u f. pl_pc s' u = PoolFault f \<Longrightarrow> f = AssertFailed \<or> pl_pc s u = PoolFault f"
    and "pool_queued e = []" "pool_started e = []"
  shows "pool_list_inv (es @ e) s'"
proof -
  have eq: "pool_items s' = pool_items s" using assms by (simp add: pool_items_def)
  have off: "handing (pl_pc s' u) = Some a \<Longrightarrow> handing (pl_pc s u) = Some a" for u a
    using assms(5) [of u] by auto
  have D: "il_inv (pl_links s) (pl_tasks s)" "pool_queued es = pool_started es @ pool_items s" "distinct (pl_out s)"
    "set (pool_items s) \<subseteq> set (pl_out s)" "length (pl_out s) + 1 < 2 ^ 64"
    and H: "\<And>t a. handing (pl_pc s t) = Some a \<Longrightarrow> a \<in> set (pl_out s) \<and> a \<notin> set (pool_items s)"
    "\<And>t u a. handing (pl_pc s t) = Some a \<Longrightarrow> handing (pl_pc s u) = Some a \<Longrightarrow> t = u"
    "\<And>t f. pl_pc s t = PoolFault f \<Longrightarrow> f = AssertFailed"
    using assms(1) unfolding pool_list_inv_def by blast+
  show ?thesis
    unfolding pool_list_inv_def eq assms(2,3,4) pool_queued_append pool_started_append assms(7,8)
    using D H off assms(6) by (simp add: D(2)) blast
qed

lemma pool_submit_step:
  assumes "pool_list_inv es s" and "pl_pc s t = PIdle" "a \<notin> set (pl_out s)" "int (length (pl_out s)) + 2 < 2 ^ 64"
  shows "pool_list_inv es (goto t (SubCheck a) (s\<lparr>pl_out := pl_out s @ [a]\<rparr>))"
  using assms unfolding pool_list_inv_def by (auto simp: goto_def pool_items_def split: if_splits)

lemma pool_refuse_step:
  assumes L: "pool_list_inv es s" and "pl_pc s t = SubCheck a"
  shows "pool_list_inv (es @ [TaskRefused a]) (goto t PIdle (s\<lparr>pl_out := remove1 a (pl_out s)\<rparr>))"
proof -
  have a: "a \<notin> set (pool_items s)" "\<And>u. u \<noteq> t \<Longrightarrow> handing (pl_pc s u) \<noteq> Some a"
    using assms unfolding pool_list_inv_def by (metis handing.simps(1))+
  then show ?thesis
    using assms unfolding pool_list_inv_def
    by (auto simp: goto_def pool_items_def length_remove1 split: if_splits)
qed

lemma pool_push_step:
  assumes L: "pool_list_inv es s" and pc: "pl_pc s t = SubPush a"
    and push: "Push (Some a) (pl_links s, pl_tasks s) = Inr (h, l)" "il_inv h l" "items h l = pool_items s @ [a]"
  shows "pool_list_inv (es @ [TaskQueued a]) (goto t PIdle (s\<lparr>pl_links := h, pl_tasks := l\<rparr>))"
proof -
  let ?s = "goto t PIdle (s\<lparr>pl_links := h, pl_tasks := l\<rparr>)"
  have eq: "pool_items ?s = pool_items s @ [a]" using push(3) by (simp add: pool_items_def)
  have a: "a \<in> set (pl_out s)" "\<And>u. u \<noteq> t \<Longrightarrow> handing (pl_pc s u) \<noteq> Some a"
    using L pc unfolding pool_list_inv_def by (metis handing.simps(3))+
  then show ?thesis
    using L push(2) unfolding pool_list_inv_def eq by (auto simp: goto_def split: if_splits)
qed

lemma pool_pop_step:
  assumes L: "pool_list_inv es s" and it: "pool_items s = a # xs" and l: "il_inv (pl_links s) l" "items (pl_links s) l = xs"
  shows "pool_list_inv (es @ [TaskStarted a]) (goto t (WorkRun a) (s\<lparr>pl_tasks := l, pl_out := remove1 a (pl_out s)\<rparr>))"
proof -
  let ?s = "goto t (WorkRun a) (s\<lparr>pl_tasks := l, pl_out := remove1 a (pl_out s)\<rparr>)"
  have eq: "pool_items ?s = xs" using l(2) by (simp add: pool_items_def)
  have d: "a \<notin> set xs" using L it unfolding pool_list_inv_def pool_items_def il_inv_def by (metis distinct.simps(2))
  have o1: "distinct (remove1 a (pl_out s))" "set (remove1 a (pl_out s)) = set (pl_out s) - {a}"
    "length (remove1 a (pl_out s)) + 1 < 2 ^ 64"
    using L unfolding pool_list_inv_def by (auto simp: length_remove1)
  show ?thesis
    using L d l(1) o1 unfolding pool_list_inv_def eq it by (auto simp: goto_def it split: if_splits)
qed


lemma count_push:
  assumes "pool_count_inv s" and "pl_pc s t = SubPush a" and "items h l = pool_items s @ [a]"
  shows "pool_count_inv (goto t PIdle (s\<lparr>pl_links := h, pl_tasks := l\<rparr>))"
proof -
  have "t \<in> inflight s" using assms(2) by (simp add: inflight_def)
  moreover have fin: "finite (inflight s)" using assms(1) by (simp add: pool_count_inv_def)
  ultimately obtain k where "card (inflight s) = Suc k" "card (inflight s - {t}) = k"
    using card.remove [of "inflight s" t] by metis
  with assms fin show ?thesis
    by (simp add: pool_count_inv_def unfinished_def inflight_goto) (simp add: pool_items_def)
qed

lemma count_pop:
  assumes "pool_count_inv s" and "pl_pc s t = WorkPop" and "pool_items s = a # xs" and "items (pl_links s) l = xs"
  shows "pool_count_inv (goto t (WorkRun a) (s\<lparr>pl_tasks := l, pl_out := q\<rparr>))"
proof -
  have "t \<notin> inflight s" using assms(2) by (simp add: inflight_def)
  with assms show ?thesis
    by (simp add: pool_count_inv_def unfinished_def inflight_goto) (simp add: pool_items_def)
qed

lemma count_add:
  assumes "pool_count_inv s" and "pl_pc s t = SubAdd a"
  shows "pool_count_inv (goto t (SubPush a) (s\<lparr>pl_sd := AddTask (pl_sd s)\<rparr>))"
proof -
  have "t \<notin> inflight s" using assms(2) by (simp add: inflight_def)
  with assms show ?thesis by (simp add: pool_count_inv_def unfinished_def inflight_goto AddTask_def)
qed

lemma count_remove:
  assumes "pool_count_inv s" and "pl_pc s t = WorkRemove"
  shows "pool_count_inv (goto t WorkNotify (s\<lparr>pl_sd := RemoveTask (pl_sd s)\<rparr>))"
proof -
  have "t \<in> inflight s" using assms(2) by (simp add: inflight_def)
  moreover have fin: "finite (inflight s)" using assms(1) by (simp add: pool_count_inv_def)
  ultimately obtain k where "card (inflight s) = Suc k" "card (inflight s - {t}) = k"
    using card.remove [of "inflight s" t] by metis
  with assms fin show ?thesis by (simp add: pool_count_inv_def unfinished_def inflight_goto RemoveTask_def)
qed

definition pool_inv :: "pool_event list \<Rightarrow> pool \<Rightarrow> bool" where
  "pool_inv es s \<longleftrightarrow> pool_list_inv es s \<and> pool_count_inv s"

lemma pool_go_tasks:
  assumes inv: "pool_inv es s" and go: "pool_go t s = Some (s', e)"
    and pc: "pl_pc s t = WorkPop \<or> (\<exists>a. pl_pc s t \<in> {SubCheck a, SubAdd a, SubPush a})"
  shows "pool_inv (es @ e) s'"
proof -
  have L: "pool_list_inv es s" and C: "pool_count_inv s" using inv by (simp_all add: pool_inv_def)
  have il: "il_inv (pl_links s) (pl_tasks s)" using L by (simp add: pool_list_inv_def)
  show ?thesis
  proof (cases "pl_pc s t")
    case (SubCheck a)
    have "pool_count_inv (goto t PIdle (s\<lparr>pl_out := remove1 a (pl_out s)\<rparr>))"
      by (rule count_same, rule count_fields [OF C]) (use SubCheck in auto)
    moreover have "pool_count_inv (goto t (SubAdd a) s)" by (rule count_same [OF C]) (simp add: SubCheck)
    moreover have "pool_list_inv (es @ []) (goto t (SubAdd a) s)"
      by (rule list_same [OF L]) (auto simp: goto_def SubCheck split: if_splits)
    ultimately show ?thesis
      using SubCheck go pool_refuse_step [OF L SubCheck]
      by (auto simp: pool_inv_def pool_go_def PoolSubmit_check_def split: if_splits)
  next
    case (SubAdd a)
    have "pool_list_inv (es @ []) (goto t (SubPush a) (s\<lparr>pl_sd := AddTask (pl_sd s)\<rparr>))"
      by (rule list_same [OF L]) (auto simp: goto_def SubAdd split: if_splits)
    with count_add [OF C SubAdd] SubAdd go show ?thesis by (auto simp: pool_inv_def pool_go_def PoolSubmit_add_def)
  next
    case (SubPush a)
    have "handing (pl_pc s t) = Some a" using SubPush by simp
    then obtain h l where "Push (Some a) (pl_links s, pl_tasks s) = Inr (h, l)" "il_inv h l" "items h l = pool_items s @ [a]"
      using Push_items [OF L] by metis
    with pool_push_step [OF L SubPush] count_push [OF C SubPush] SubPush go show ?thesis
      by (auto simp: pool_inv_def pool_go_def PoolSubmit_push_def)
  next
    case WorkPop
    consider "pool_items s = []" "Pop (pl_links s) (pl_tasks s) = Inr (pl_tasks s, None)"
      | a l xs where "pool_items s = a # xs" "Pop (pl_links s) (pl_tasks s) = Inr (l, Some a)"
        "il_inv (pl_links s) l" "items (pl_links s) l = xs"
      using Pop_items [OF il] by blast
    then show ?thesis
    proof cases
      case 1
      have "pool_count_inv (goto t WorkShut s)" by (rule count_same [OF C]) (simp add: WorkPop)
      moreover have "pool_list_inv (es @ []) (goto t WorkShut s)"
        by (rule list_same [OF L]) (auto simp: goto_def WorkPop split: if_splits)
      ultimately show ?thesis using 1 WorkPop go by (auto simp: pool_inv_def pool_go_def Worker_pop_def)
    next
      case (2 a l xs)
      with pool_pop_step [OF L 2(1,3,4), of t] count_pop [OF C WorkPop 2(1,4)] WorkPop go show ?thesis
        by (auto simp: pool_inv_def pool_go_def Worker_pop_def)
    qed
  qed (use pc in auto)
qed

lemma pool_go_rest:
  assumes inv: "pool_inv es s" and go: "pool_go t s = Some (s', e)"
    and pc: "handing (pl_pc s t) = None" "pl_pc s t \<noteq> WorkPop"
  shows "pool_inv (es @ e) s'"
proof -
  have L: "pool_list_inv es s" and C: "pool_count_inv s" using inv by (simp_all add: pool_inv_def)
  have list: "pool_list_inv (es @ e) s'"
    by (rule list_same [OF L])
       (use go pc in \<open>auto simp: pool_go_def pool_ops goto_def NotifyAll_def notify_exit_def
          split: pool_pc.splits if_splits option.splits\<close>)
  have "pool_count_inv s'"
  proof (cases "pl_pc s t")
    case WorkRemove
    with count_remove [OF C WorkRemove] go show ?thesis by (auto simp: pool_go_def Worker_remove_def)
  next
    case (WorkRun a)
    with count_same [OF C, of WorkRemove t] go show ?thesis by (auto simp: pool_go_def)
  next
    case WorkNotify
    have "pool_count_inv (NotifyAll s)" by (rule count_fields [OF C]) simp_all
    with count_same [of "NotifyAll s" WorkPop t] WorkNotify go show ?thesis by (auto simp: pool_go_def NotifyAll_def)
  next
    case WorkExitNotify
    have "pool_count_inv (notify_exit s)" by (rule count_fields [OF C]) simp_all
    moreover have "\<not> carries (pl_pc (notify_exit s) t)"
      using WorkExitNotify by (auto simp: notify_exit_def goto_def split: option.splits)
    ultimately show ?thesis
      using count_same [of "notify_exit s" WorkDone t] WorkExitNotify go by (auto simp: pool_go_def)
  qed (use go pc in \<open>auto simp: pool_go_def pool_ops StartShutdown_def split: if_splits intro!: count_idle [OF C]\<close>)
  with list show ?thesis by (simp add: pool_inv_def)
qed

lemma pool_inv_step:
  assumes inv: "pool_inv es s" and st: "pool_step c s = Some (s', e)"
  shows "pool_inv (es @ e) s'"
proof -
  have L: "pool_list_inv es s" and C: "pool_count_inv s" using inv by (simp_all add: pool_inv_def)
  show ?thesis
  proof (cases c)
    case (PoolGo t)
    with st have go: "pool_go t s = Some (s', e)" by simp
    show ?thesis
    proof (cases "handing (pl_pc s t) = None \<and> pl_pc s t \<noteq> WorkPop")
      case True
      then show ?thesis using pool_go_rest [OF inv go] by simp
    next
      case False
      then have "pl_pc s t = WorkPop \<or> (\<exists>a. pl_pc s t \<in> {SubCheck a, SubAdd a, SubPush a})"
        by (cases "pl_pc s t") auto
      with pool_go_tasks [OF inv go] show ?thesis by blast
    qed
  next
    case (PoolSubmit t a)
    have "pool_count_inv (goto t (SubCheck a) (s\<lparr>pl_out := pl_out s @ [a]\<rparr>))" if "pl_pc s t = PIdle"
      by (rule count_same, rule count_fields [OF C]) (use that in auto)
    with PoolSubmit st pool_submit_step [OF L, of t a] show ?thesis by (auto simp: pool_inv_def split: if_splits)
  next
    case (Spawn t)
    have "pool_list_inv (es @ e) s'"
      by (rule list_same [OF L]) (use Spawn st in \<open>auto simp: Start_iteration_def goto_def split: if_splits\<close>)
    moreover have "pool_count_inv s'"
      using Spawn st by (auto simp: Start_iteration_def split: if_splits intro!: count_idle [OF C])
    ultimately show ?thesis by (simp add: pool_inv_def)
  next
    case (WaitIdle t)
    have "pool_list_inv (es @ e) s'"
      by (rule list_same [OF L]) (use WaitIdle st in \<open>auto simp: goto_def split: if_splits\<close>)
    moreover have "pool_count_inv s'"
      using WaitIdle st by (auto split: if_splits intro!: count_idle [OF C])
    ultimately show ?thesis by (simp add: pool_inv_def)
  next
    case (Destroy t)
    have "pool_list_inv (es @ e) s'"
      by (rule list_same [OF L]) (use Destroy st in \<open>auto simp: goto_def split: if_splits\<close>)
    moreover have "pool_count_inv s'"
      using Destroy st by (auto split: if_splits intro!: count_idle [OF C])
    ultimately show ?thesis by (simp add: pool_inv_def)
  next
    case (PoolSpurious t)
    have "pool_list_inv (es @ e) s'"
      by (rule list_same [OF L]) (use PoolSpurious st in \<open>auto simp: goto_def split: if_splits\<close>)
    moreover have "pool_count_inv s'"
      using PoolSpurious st by (auto split: if_splits intro!: count_idle [OF C])
    ultimately show ?thesis by (simp add: pool_inv_def)
  qed
qed

interpretation pools: step_invariant pool_step "init_pool n h" pool_inv for n h
  by unfold_locales
    (simp add: pool_inv_def pool_list_inv_def pool_count_inv_def unfinished_def inflight_def pool_items_def
      init_pool_def init_shutdowner_def items_empty_list il_inv_empty_list, erule (1) pool_inv_step)


subsection \<open>A thread asleep in WaitIdle that nobody wakes\<close>

fun inert :: "pool_pc \<Rightarrow> bool" where
  "inert (SubCheck a) = False"
| "inert (SubAdd a) = False"
| "inert (SubPush a) = False"
| "inert (WorkRun a) = False"
| "inert WorkRemove = False"
| "inert WorkNotify = False"
| "inert _ = True"

definition asleep :: "tid \<Rightarrow> pool \<Rightarrow> bool" where
  "asleep t s \<longleftrightarrow> pl_pc s t = IdleSleep \<and> (\<forall>u. inert (pl_pc s u)) \<and> IsEmpty (pl_tasks s)"

lemma asleep_step:
  assumes "asleep t s" and "pool_step c s = Some (s', e)" and "\<And>u a. c \<noteq> PoolSubmit u a" and "c \<noteq> PoolSpurious t"
  shows "asleep t s'"
proof -
  have pop: "Pop (pl_links s) (pl_tasks s) = Inr (pl_tasks s, None)" using assms(1) by (simp add: asleep_def Pop_def)
  have inert: "inert (pl_pc s u)" for u using assms(1) by (simp add: asleep_def)
  show ?thesis
  proof (cases c)
    case (PoolGo u)
    with assms(1,2) inert [of u] pop show ?thesis
      by (cases "pl_pc s u")
         (auto simp: asleep_def pool_go_def pool_ops Worker_pop_def goto_def notify_exit_def split: if_splits option.splits)
  qed (use assms in \<open>auto simp: asleep_def pool_ops goto_def split: if_splits\<close>)
qed

lemma asleep_sched:
  "sched pool_step cs s = Some (s', es) \<Longrightarrow> asleep t s \<Longrightarrow> \<forall>u a. PoolSubmit u a \<notin> set cs \<Longrightarrow>
     PoolSpurious t \<notin> set cs \<Longrightarrow> asleep t s'"
proof (induction cs arbitrary: s es)
  case (Cons c cs)
  then obtain s1 e es1 where st: "pool_step c s = Some (s1, e)" and rest: "sched pool_step cs s1 = Some (s', es1)"
    by (auto split: option.splits)
  have "asleep t s1" using asleep_step [OF Cons.prems(2) st] Cons.prems(3,4) by auto
  with Cons.IH [OF rest] Cons.prems(3,4) show ?case by simp
qed simp

subsection \<open>Threads outside the pool\<close>

fun actor :: "pool_choice \<Rightarrow> tid" where
  "actor (Spawn t) = t"
| "actor (PoolSubmit t a) = t"
| "actor (WaitIdle t) = t"
| "actor (Destroy t) = t"
| "actor (PoolGo t) = t"
| "actor (PoolSpurious t) = t"

lemma bystander_step:
  assumes "pool_step c s = Some (s', e)" and "u \<noteq> actor c" and "pl_pc s u = PIdle"
  shows "pl_pc s' u = PIdle"
  using assms
  by (cases c)
     (auto simp: pool_go_def pool_ops Worker_pop_def PoolSubmit_push_def goto_def NotifyAll_def notify_exit_def
       split: pool_pc.splits if_splits sum.splits option.splits prod.splits)

lemma bystander_sched:
  "sched pool_step cs s = Some (s', es) \<Longrightarrow> u \<notin> actor ` set cs \<Longrightarrow> pl_pc s u = PIdle \<Longrightarrow> pl_pc s' u = PIdle"
proof (induction cs arbitrary: s es)
  case (Cons c cs)
  then obtain s1 e es1 where "pool_step c s = Some (s1, e)" and "sched pool_step cs s1 = Some (s', es1)"
    by (auto split: option.splits)
  with Cons bystander_step [of c s s1 e u] show ?case by simp
qed simp

lemma carriers_bound:
  assumes "sched pool_step cs (init_pool n h) = Some (s, es)"
  shows "card {t. carries (pl_pc s t)} \<le> length cs"
proof -
  have "carries (pl_pc s t) \<Longrightarrow> t \<in> actor ` set cs" for t
    using bystander_sched [OF assms, of t] by (cases "t \<in> actor ` set cs") (simp_all add: init_pool_def)
  then have "{t. carries (pl_pc s t)} \<subseteq> set (map actor cs)" by auto
  then have "card {t. carries (pl_pc s t)} \<le> card (set (map actor cs))" by (simp add: card_mono)
  also have "\<dots> \<le> length cs" by (metis card_length length_map)
  finally show ?thesis .
qed

subsection \<open>Properties\<close>

text \<open>
  C9: the pool starts the queued tasks first-in first-out and each at most once, and its task counter is
  exactly the number of tasks that were added and not yet completed: those in the list and those that
  a submitting thread or a worker carries. The list operations never fault.
\<close>

theorem intrusive_pool_accounting:
  assumes "reach pool_step (init_pool n h) es s"
  shows "pool_queued es = pool_started es @ pool_items s \<and>
    GetTasks (pl_sd s) = of_nat (card {t. carries (pl_pc s t)} + length (pool_items s)) \<and>
    (\<forall>t f. pl_pc s t = PoolFault f \<longrightarrow> f = AssertFailed)"
  using pools.reach_inv [OF assms]
  by (simp add: pool_inv_def pool_list_inv_def pool_count_inv_def unfinished_def inflight_def GetTasks_def)

theorem intrusive_pool_accounting_witness:
  "\<exists>es s. reach pool_step (init_pool 2 (\<lambda>_. None)) es s \<and> GetTasks (pl_sd s) = 2 \<and> pool_started es = [5] \<and>
     pool_queued es = [5, 6] \<and> pool_items s = [6]"
proof -
  have "run_ok pool_step
     ([Spawn 1, Spawn 2, PoolSubmit 3 5, PoolSubmit 4 6] @ replicate 3 (PoolGo 3) @ replicate 3 (PoolGo 4) @ [PoolGo 1])
     (init_pool 2 (\<lambda>_. None))
     (\<lambda>es s. GetTasks (pl_sd s) = 2 \<and> pool_started es = [5] \<and> pool_queued es = [5, 6])"
    by code_simp
  then obtain es s where r: "reach pool_step (init_pool 2 (\<lambda>_. None)) es s" and "GetTasks (pl_sd s) = 2"
    "pool_started es = [5]" "pool_queued es = [5, 6]"
    by (rule run_okE) blast
  with intrusive_pool_accounting [OF r] show ?thesis by auto
qed

text \<open>
  when \<open>WaitIdle\<close> returns, every task added so far has been completed: at the moment of its
  last test no task is queued, in the hands of a submitting thread or running, and the started tasks are all the
  queued ones.
\<close>

lemma intrusive_pool_wait_idle:
  assumes "reach pool_step (init_pool n h) es s" and "pool_step c s = Some (s', [IdleReturned t])"
    and "card {t. carries (pl_pc s t)} + length (pool_items s) < 2 ^ 64"
  shows "pool_items s = [] \<and> pool_started es = pool_queued es \<and> (\<forall>u. \<not> carries (pl_pc s u))"
proof -
  have L: "pool_list_inv es s" and C: "pool_count_inv s"
    using pools.reach_inv [OF assms(1)] by (simp_all add: pool_inv_def)
  have "GetTasks (pl_sd s) = 0"
    using assms(2) by (cases c) (auto simp: pool_go_def pool_ops Worker_pop_def PoolSubmit_push_def
        split: pool_pc.splits if_splits sum.splits option.splits prod.splits)
  then have "(of_nat (unfinished s) :: size_t) = 0" using C by (simp add: pool_count_inv_def GetTasks_def)
  moreover have "unfinished s < 2 ^ 64" using assms(3) by (simp add: unfinished_def inflight_def)
  ultimately have "unfinished s = 0" using unat_of_nat [where 'a = 64, of "unfinished s"] by simp
  then have "pool_items s = []" "inflight s = {}" using C by (simp_all add: unfinished_def pool_count_inv_def)
  with L show ?thesis by (auto simp: pool_list_inv_def inflight_def)
qed

text \<open>
  C28: a task whose submission has completed before the destructor starts can be lost, and the assertion of the
  destructor then fails: a worker finds the list empty, the task is submitted, the shutdown
  starts, and the worker leaves because it tests the shutdown flag only now. The task is never started.
\<close>

theorem intrusive_pool_loses_task:
  "\<exists>es1 es2 s1 s2. reach pool_step (init_pool 1 (\<lambda>_. None)) es1 s1 \<and> TaskQueued 5 \<in> set es1 \<and>
     pl_pc s1 3 = PIdle \<and> \<not> IsShutdown (pl_sd s1) \<and> pl_dtor s1 = None \<and>
     reach pool_step s1 es2 s2 \<and> pool_started (es1 @ es2) = [] \<and> pl_pc s2 3 = PoolFault AssertFailed"
proof -
  have "run_ok pool_step ([Spawn 1, PoolGo 1, PoolSubmit 3 5] @ replicate 3 (PoolGo 3)) (init_pool 1 (\<lambda>_. None))
     (\<lambda>es1 s1. es1 = [TaskQueued 5] \<and> pl_pc s1 3 = PIdle \<and> \<not> IsShutdown (pl_sd s1) \<and> pl_dtor s1 = None \<and>
        run_ok pool_step ([Destroy 3, PoolGo 3] @ replicate 3 (PoolGo 1) @ replicate 3 (PoolGo 3)) s1
          (\<lambda>es2 s2. es2 = [] \<and> pl_pc s2 3 = PoolFault AssertFailed))"
    by code_simp
  then obtain es1 s1 where r1: "reach pool_step (init_pool 1 (\<lambda>_. None)) es1 s1" and e1: "es1 = [TaskQueued 5]"
    and p: "pl_pc s1 3 = PIdle" "\<not> IsShutdown (pl_sd s1)" "pl_dtor s1 = None"
    and rest: "run_ok pool_step ([Destroy 3, PoolGo 3] @ replicate 3 (PoolGo 1) @ replicate 3 (PoolGo 3)) s1
          (\<lambda>es2 s2. es2 = [] \<and> pl_pc s2 3 = PoolFault AssertFailed)"
    by (rule run_okE) blast
  from rest obtain es2 s2 where "reach pool_step s1 es2 s2" "es2 = []" "pl_pc s2 3 = PoolFault AssertFailed"
    by (rule run_okE) blast
  with r1 e1 p show ?thesis by (intro exI [of _ es1] exI [of _ es2] exI [of _ s1] exI [of _ s2]) simp
qed

text \<open>
  \<open>WaitIdle\<close> can miss its wake-up: the last task is removed and announced between its test of the
  counter and its call of \<open>wait\<close>, because the workers do not take the mutex; it then sleeps with the counter at zero, and
  for ever unless another task is submitted or it wakes spuriously.
\<close>

lemma intrusive_pool_lost_wakeup:
  "\<exists>es s. reach pool_step (init_pool 1 (\<lambda>_. None)) es s \<and> GetTasks (pl_sd s) = 0 \<and>
     (\<forall>cs s' es'. (\<forall>u a. PoolSubmit u a \<notin> set cs) \<longrightarrow> PoolSpurious 4 \<notin> set cs \<longrightarrow>
        sched pool_step cs s = Some (s', es') \<longrightarrow> pl_pc s' 4 = IdleSleep)"
proof -
  let ?cs = "[Spawn 1, PoolSubmit 3 5] @ replicate 3 (PoolGo 3) @ WaitIdle 4 # replicate 2 (PoolGo 4) @
      replicate 4 (PoolGo 1) @ [PoolGo 4]"
  have "run_ok pool_step ?cs (init_pool 1 (\<lambda>_. None))
     (\<lambda>es s. GetTasks (pl_sd s) = 0 \<and> pl_pc s 4 = IdleSleep \<and> IsEmpty (pl_tasks s) \<and>
        pl_pc s 1 = WorkPop \<and> pl_pc s 3 = PIdle)"
    by code_simp
  then obtain es s where r: "reach pool_step (init_pool 1 (\<lambda>_. None)) es s" and g: "GetTasks (pl_sd s) = 0"
    and p: "pl_pc s 4 = IdleSleep" "IsEmpty (pl_tasks s)" "pl_pc s 1 = WorkPop" "pl_pc s 3 = PIdle"
    and cs: "sched pool_step ?cs (init_pool 1 (\<lambda>_. None)) = Some (s, es)"
    by (rule run_okE) blast
  have "inert (pl_pc s u)" for u
  proof (cases "u \<in> {1, 3, 4}")
    case True
    with p show ?thesis by auto
  next
    case False
    with bystander_sched [OF cs, of u] show ?thesis by (simp add: init_pool_def)
  qed
  with p have "asleep 4 s" by (simp add: asleep_def)
  with asleep_sched [of _ s _ _ 4] r g show ?thesis unfolding asleep_def by metis
qed

end
