(* ===== verification/Coro_Mutex.thy ===== *)
theory Coro_Mutex
  imports Lock_Spec
begin

text \<open>
  The mutex for C++ coroutines of \<^verbatim>\<open>src/components/async_mutex\<close>: \<open>co_await mutex.lock()\<close> and
  \<open>mutex.unlock()\<close>.

  \<open>operator co_await\<close> takes the spin lock and gives its guard to the awaiter; \<open>await_ready\<close> tries
  the flag and releases the guard on success; otherwise the coroutine is suspended and \<open>await_suspend\<close>
  moves the awaiter (guard included) into the list and releases the guard from there. \<open>Unlock\<close>
  hands the mutex to the first waiter without clearing the flag, releases the spin lock and resumes
  the waiter. Each access is a step; a coroutine is the actor of its own steps, on whatever thread it runs.
  The resumed coroutine and the one that resumed it proceed independently from then on.

  The lemmas show that the mutex refines the queue lock (mutual exclusion, first come first
  served) and that a suspended coroutine is never forgotten or resumed twice.
\<close>

datatype coro_pc =
    COut
  | CSpin               \<comment> \<open>\<open>operator co_await\<close>: next is the spin lock\<close>
  | CReady              \<comment> \<open>\<open>await_ready\<close>: next is \<open>TryLock\<close>\<close>
  | CReleaseIn          \<comment> \<open>\<open>await_ready\<close>: next is \<open>ReleaseLock\<close>\<close>
  | CPark               \<comment> \<open>\<open>await_suspend\<close>: next is \<open>emplace_back\<close>\<close>
  | CReleasePark        \<comment> \<open>\<open>ParkAwaiter\<close>: next is \<open>ReleaseLock\<close>\<close>
  | CParked
  | CIn
  | CUnSpin
  | CUnlock
  | CUnRelease nat      \<comment> \<open>\<open>lock.unlock()\<close>, then resume the waiter\<close>
  | CResume nat
  | CUnDone
  | CFault fault

record coro_mutex =
  cm_spin :: "nat option"
  cm_flag :: bool
  cm_waiters :: "nat list"
  cm_pc :: "nat \<Rightarrow> coro_pc"

datatype coro_choice = CoAwaitLock nat | CallUnlock nat | CoroGo nat

definition init_coro_mutex :: coro_mutex where
  "init_coro_mutex = \<lparr>cm_spin = None, cm_flag = False, cm_waiters = [], cm_pc = (\<lambda>_. COut)\<rparr>"

definition cto :: "nat \<Rightarrow> coro_pc \<Rightarrow> coro_mutex \<Rightarrow> coro_mutex" where
  "cto c p s = s\<lparr>cm_pc := (cm_pc s)(c := p)\<rparr>"

text \<open>The constructor of a guard on the spin lock, and \<open>ReleaseLock\<close> or the end of a guard.\<close>

definition take_spin :: "nat \<Rightarrow> coro_pc \<Rightarrow> coro_mutex \<Rightarrow> coro_mutex option" where
  "take_spin c p s = (if cm_spin s = None then Some (cto c p (s\<lparr>cm_spin := Some c\<rparr>)) else None)"

definition ReleaseLock :: "nat \<Rightarrow> coro_pc \<Rightarrow> coro_mutex \<Rightarrow> coro_mutex" where
  "ReleaseLock c p s = cto c p (s\<lparr>cm_spin := None\<rparr>)"

definition TryLock :: "coro_mutex \<Rightarrow> coro_mutex \<times> bool" where
  "TryLock s = (if cm_flag s then (s, False) else (s\<lparr>cm_flag := True\<rparr>, True))"

definition await_ready :: "nat \<Rightarrow> coro_mutex \<Rightarrow> coro_mutex \<times> lock_event list" where
  "await_ready c s =
     (case TryLock s of
        (s', lock_own) \<Rightarrow> if lock_own then (cto c CReleaseIn s', [Announced c, Acquired c]) else (cto c CPark s', []))"

definition ParkAwaiter :: "nat \<Rightarrow> coro_mutex \<Rightarrow> coro_mutex" where
  "ParkAwaiter c s = cto c CReleasePark (s\<lparr>cm_waiters := cm_waiters s @ [c]\<rparr>)"

definition Unlock :: "nat \<Rightarrow> coro_mutex \<Rightarrow> coro_mutex" where
  "Unlock c s =
     (case cm_waiters s of
        w # ws \<Rightarrow> cto c (CUnRelease w) (s\<lparr>cm_waiters := ws\<rparr>)
      | [] \<Rightarrow> cto c CUnDone (s\<lparr>cm_flag := False\<rparr>))"

text \<open>Resuming a coroutine that is not suspended is undefined.\<close>

definition Resume :: "nat \<Rightarrow> nat \<Rightarrow> coro_mutex \<Rightarrow> coro_mutex \<times> lock_event list" where
  "Resume c w s =
     (if cm_pc s w = CParked then (cto w CIn (cto c COut s), [Acquired w]) else (cto c (CFault Abort) s, []))"

fun coro_step :: "(coro_choice, coro_mutex, lock_event) stepper" where
  "coro_step (CoAwaitLock c) s = (if cm_pc s c = COut then Some (cto c CSpin s, []) else None)"
| "coro_step (CallUnlock c) s = (if cm_pc s c = CIn then Some (cto c CUnSpin s, []) else None)"
| "coro_step (CoroGo c) s =
     (case cm_pc s c of
        CSpin \<Rightarrow> map_option (\<lambda>s'. (s', [])) (take_spin c CReady s)
      | CReady \<Rightarrow> Some (await_ready c s)
      | CReleaseIn \<Rightarrow> Some (ReleaseLock c CIn s, [])
      | CPark \<Rightarrow> Some (ParkAwaiter c s, [Announced c])
      | CReleasePark \<Rightarrow> Some (ReleaseLock c CParked s, [])
      | CUnSpin \<Rightarrow> map_option (\<lambda>s'. (s', [])) (take_spin c CUnlock s)
      | CUnlock \<Rightarrow> Some (Unlock c s, [Released c])
      | CUnRelease w \<Rightarrow> Some (ReleaseLock c (CResume w) s, [])
      | CResume w \<Rightarrow> Some (Resume c w s)
      | CUnDone \<Rightarrow> Some (ReleaseLock c COut s, [])
      | _ \<Rightarrow> None)"

definition IsSet :: "coro_mutex \<Rightarrow> bool" where
  "IsSet s = cm_flag s"

subsection \<open>The invariant\<close>

text \<open>\<open>own\<close> is the coroutine that has the mutex: inside, or handed it and about to be resumed.\<close>

fun spinning_at :: "coro_pc \<Rightarrow> bool" where
  "spinning_at CReady = True"
| "spinning_at CReleaseIn = True"
| "spinning_at CPark = True"
| "spinning_at CReleasePark = True"
| "spinning_at CUnlock = True"
| "spinning_at (CUnRelease w) = True"
| "spinning_at CUnDone = True"
| "spinning_at _ = False"

fun inside_at :: "coro_pc \<Rightarrow> bool" where
  "inside_at CReleaseIn = True"
| "inside_at CIn = True"
| "inside_at CUnSpin = True"
| "inside_at CUnlock = True"
| "inside_at _ = False"

fun hands_to :: "coro_pc \<Rightarrow> nat option" where
  "hands_to (CUnRelease w) = Some w"
| "hands_to (CResume w) = Some w"
| "hands_to _ = None"

definition parked_at :: "coro_pc \<Rightarrow> bool" where
  "parked_at p \<longleftrightarrow> p = CReleasePark \<or> p = CParked"

text \<open>Who has the mutex: nobody, a coroutine inside, or a waiter that the coroutine that left is about to resume.\<close>

datatype holder = Free | Has nat | Gives nat nat

fun given_to :: "holder \<Rightarrow> nat option" where
  "given_to (Gives u w) = Some w"
| "given_to _ = None"

fun given_by :: "holder \<Rightarrow> nat \<Rightarrow> nat option" where
  "given_by (Gives u w) c = (if c = u then Some w else None)"
| "given_by _ c = None"

definition coro_inv :: "holder \<Rightarrow> coro_mutex \<Rightarrow> bool" where
  "coro_inv h s \<longleftrightarrow>
     (\<forall>c. spinning_at (cm_pc s c) \<longleftrightarrow> cm_spin s = Some c) \<and>
     (\<forall>c. inside_at (cm_pc s c) \<longleftrightarrow> h = Has c) \<and>
     (\<forall>c. hands_to (cm_pc s c) = given_by h c) \<and>
     (\<forall>c. parked_at (cm_pc s c) \<longleftrightarrow> c \<in> set (cm_waiters s) \<or> given_to h = Some c) \<and>
     (\<forall>w. given_to h = Some w \<longrightarrow> w \<notin> set (cm_waiters s) \<and> cm_pc s w = CParked) \<and>
     distinct (cm_waiters s) \<and> (cm_flag s \<longleftrightarrow> h \<noteq> Free) \<and> (h = Free \<longrightarrow> cm_waiters s = []) \<and>
     (\<forall>c f. cm_pc s c \<noteq> CFault f) \<and> (\<forall>c. cm_pc s c = CPark \<longrightarrow> cm_flag s)"

fun coro_abs :: "holder \<Rightarrow> nat list \<Rightarrow> nat list \<times> bool" where
  "coro_abs Free ws = (ws, False)"
| "coro_abs (Has c) ws = (c # ws, True)"
| "coro_abs (Gives u w) ws = (w # ws, False)"

definition coro_sim :: "nat list \<times> bool \<Rightarrow> coro_mutex \<Rightarrow> bool" where
  "coro_sim a s \<longleftrightarrow> (\<exists>h. coro_inv h s \<and> a = coro_abs h (cm_waiters s))"

definition keeps :: "nat list \<times> bool \<Rightarrow> lock_event list \<Rightarrow> coro_mutex \<Rightarrow> bool" where
  "keeps a e s' \<longleftrightarrow> (\<exists>a'. reach queue_lock_spec a e a' \<and> coro_sim a' s')"

lemma keepsI: "coro_inv h s' \<Longrightarrow> reach queue_lock_spec a e (coro_abs h (cm_waiters s')) \<Longrightarrow> keeps a e s'"
  unfolding keeps_def coro_sim_def by blast

lemma coro_invD:
  assumes "coro_inv h s"
  shows "spinning_at (cm_pc s c) \<longleftrightarrow> cm_spin s = Some c" "inside_at (cm_pc s c) \<longleftrightarrow> h = Has c"
    "hands_to (cm_pc s c) = given_by h c"
    "parked_at (cm_pc s c) \<longleftrightarrow> c \<in> set (cm_waiters s) \<or> given_to h = Some c"
    "given_to h = Some w \<Longrightarrow> w \<notin> set (cm_waiters s) \<and> cm_pc s w = CParked"
    "distinct (cm_waiters s)" "cm_flag s \<longleftrightarrow> h \<noteq> Free" "h = Free \<Longrightarrow> cm_waiters s = []" "cm_pc s c \<noteq> CFault f"
    "cm_pc s c = CPark \<Longrightarrow> cm_flag s"
  using assms unfolding coro_inv_def by blast+

text \<open>Steps of one coroutine that only move it and the spin lock.\<close>

lemma coro_quiet:
  assumes inv: "coro_inv h s" and "inside_at p \<longleftrightarrow> inside_at (cm_pc s c)" "hands_to p = hands_to (cm_pc s c)"
    "parked_at p \<longleftrightarrow> parked_at (cm_pc s c)" "cm_pc s c \<noteq> CParked" "\<And>f. p \<noteq> CFault f" "p = CPark \<Longrightarrow> cm_flag s"
    and spin: "(sp = cm_spin s \<and> (spinning_at p \<longleftrightarrow> spinning_at (cm_pc s c))) \<or>
      (cm_spin s = None \<and> sp = Some c \<and> spinning_at p) \<or> (cm_spin s = Some c \<and> sp = None \<and> \<not> spinning_at p)"
  shows "keeps (coro_abs h (cm_waiters s)) [] (cto c p (s\<lparr>cm_spin := sp\<rparr>))"
proof -
  note D = coro_invD [OF inv]
  have "spinning_at (((cm_pc s)(c := p)) d) \<longleftrightarrow> sp = Some d" for d
    using spin D(1) [of c] D(1) [of d] by (cases "d = c") auto
  moreover have "inside_at (((cm_pc s)(c := p)) d) \<longleftrightarrow> h = Has d" for d
    using assms(2) D(2) by simp
  moreover have "hands_to (((cm_pc s)(c := p)) d) = given_by h d" for d
    using assms(3) D(3) by simp
  moreover have "parked_at (((cm_pc s)(c := p)) d) \<longleftrightarrow> d \<in> set (cm_waiters s) \<or> given_to h = Some d" for d
    using assms(4) D(4) by simp
  moreover have "w \<notin> set (cm_waiters s) \<and> ((cm_pc s)(c := p)) w = CParked" if "given_to h = Some w" for w
    using D(5) [OF that] assms(5) by auto
  ultimately have "coro_inv h (cto c p (s\<lparr>cm_spin := sp\<rparr>))"
    using D(6-10) assms(6,7) unfolding coro_inv_def cto_def by simp metis
  then show ?thesis by (rule keepsI) (simp add: cto_def reach.reach_init)
qed

lemma coro_try:
  assumes inv: "coro_inv h s" and pc: "cm_pc s c = CReady" and st: "await_ready c s = (s', e)"
  shows "keeps (coro_abs h (cm_waiters s)) e s'"
proof (cases "cm_flag s")
  case True
  have "keeps (coro_abs h (cm_waiters s)) [] (cto c CPark (s\<lparr>cm_spin := cm_spin s\<rparr>))"
    by (rule coro_quiet [OF inv]) (simp_all add: pc parked_at_def True)
  with True st show ?thesis by (simp add: await_ready_def TryLock_def)
next
  case False
  note D = coro_invD [OF inv]
  have h: "h = Free" "cm_waiters s = []" using D(7,8) False by auto
  let ?s = "cto c CReleaseIn (s\<lparr>cm_flag := True\<rparr>)"
  have "coro_inv (Has c) ?s"
    using inv h pc unfolding coro_inv_def cto_def by (auto simp: parked_at_def)
  moreover have "reach queue_lock_spec ([], False) ([Announced c] @ [Acquired c]) ([c], True)"
  proof (rule reach.reach_step)
    show "reach queue_lock_spec ([], False) [Announced c] ([c], False)"
      by (rule reach_single [where c = "Announced c"]) simp
    show "queue_lock_spec (Acquired c) ([c], False) = Some (([c], True), [Acquired c])" by simp
  qed
  ultimately show ?thesis using False st h
    by (auto simp: await_ready_def TryLock_def cto_def intro!: keepsI [of "Has c"])
qed


lemma coro_park:
  assumes inv: "coro_inv h s" and pc: "cm_pc s c = CPark"
  shows "keeps (coro_abs h (cm_waiters s)) [Announced c] (ParkAwaiter c s)"
proof -
  note D = coro_invD [OF inv]
  have flag: "cm_flag s" using D(10) pc by blast
  have c: "c \<notin> set (cm_waiters s)" "given_to h \<noteq> Some c" "h \<noteq> Has c" "h \<noteq> Free"
    using D(4) [of c] D(2) [of c] D(7) flag pc by (auto simp: parked_at_def)
  have "coro_inv h (ParkAwaiter c s)"
    using inv pc c D(1) [of c] D(3) [of c] unfolding coro_inv_def ParkAwaiter_def cto_def by (auto simp: parked_at_def)
  moreover have "reach queue_lock_spec (coro_abs h (cm_waiters s)) [Announced c] (coro_abs h (cm_waiters s @ [c]))"
    using c by (intro reach_single [where c = "Announced c"]) (cases h, auto)
  ultimately show ?thesis by (intro keepsI) (simp_all add: ParkAwaiter_def cto_def)
qed

lemma coro_unlock:
  assumes inv: "coro_inv h s" and pc: "cm_pc s c = CUnlock"
  shows "keeps (coro_abs h (cm_waiters s)) [Released c] (Unlock c s)"
proof -
  note D = coro_invD [OF inv]
  have h: "h = Has c" using D(2) [of c] pc by simp
  have spin: "cm_spin s = Some c" using D(1) [of c] pc by simp
  show ?thesis
  proof (cases "cm_waiters s")
    case Nil
    have "\<not> spinning_at (cm_pc s d)" if "d \<noteq> c" for d using D(1) [of d] spin that by simp
    then have "cm_pc s d \<noteq> CPark" if "d \<noteq> c" for d using that spinning_at.simps(3) by metis
    with inv pc h Nil have "coro_inv Free (Unlock c s)"
      unfolding coro_inv_def Unlock_def cto_def by (auto simp: parked_at_def)
    moreover have "reach queue_lock_spec ([c], True) [Released c] ([], False)"
      by (rule reach_single [where c = "Released c"]) simp
    ultimately show ?thesis using Nil h by (intro keepsI [of Free]) (simp_all add: Unlock_def cto_def)
  next
    case (Cons w ws)
    have w: "w \<notin> set ws" "w \<noteq> c"
      using D(4) [of c] D(6) pc Cons by (auto simp: parked_at_def)
    have "parked_at (cm_pc s w)" using D(4) [of w] Cons by simp
    moreover have "cm_pc s w \<noteq> CReleasePark" using D(1) [of w] spin w(2) by auto
    ultimately have pw: "cm_pc s w = CParked" by (simp add: parked_at_def)
    have "coro_inv (Gives c w) (Unlock c s)"
      using inv pc h Cons w pw unfolding coro_inv_def Unlock_def cto_def by (auto simp: parked_at_def)
    moreover have "reach queue_lock_spec (c # w # ws, True) [Released c] (w # ws, False)"
      by (rule reach_single [where c = "Released c"]) simp
    ultimately show ?thesis using Cons h by (intro keepsI [of "Gives c w"]) (simp_all add: Unlock_def cto_def)
  qed
qed

lemma coro_resume:
  assumes inv: "coro_inv h s" and pc: "cm_pc s c = CResume w" and st: "Resume c w s = (s', e)"
  shows "keeps (coro_abs h (cm_waiters s)) e s'"
proof -
  note D = coro_invD [OF inv]
  have h: "h = Gives c w" using D(3) [of c] pc by (cases h) (auto split: if_splits)
  have pw: "cm_pc s w = CParked" "w \<notin> set (cm_waiters s)" using D(5) [of w] h by auto
  have ne: "w \<noteq> c" using pw pc by auto
  have out: "s' = cto w CIn (cto c COut s)" "e = [Acquired w]" using st pw by (auto simp: Resume_def)
  have "coro_inv (Has w) s'"
    using inv pc h pw ne D(1) [of c] D(1) [of w] D(3) [of w] D(4) [of c] unfolding coro_inv_def out cto_def by (auto simp: parked_at_def)
  moreover have "reach queue_lock_spec (w # cm_waiters s, False) [Acquired w] (w # cm_waiters s, True)"
    by (rule reach_single [where c = "Acquired w"]) simp
  ultimately show ?thesis using h out by (intro keepsI [of "Has w"]) (simp_all add: cto_def)
qed


lemma coro_sim_step:
  assumes "coro_sim a s" and st: "coro_step k s = Some (s', e)"
  shows "keeps a e s'"
proof -
  obtain h where inv: "coro_inv h s" and a: "a = coro_abs h (cm_waiters s)" using assms(1) by (auto simp: coro_sim_def)
  note D = coro_invD [OF inv]
  have quiet: "keeps a [] (cto c p (s\<lparr>cm_spin := sp\<rparr>))"
    if "inside_at p \<longleftrightarrow> inside_at (cm_pc s c)" "hands_to p = hands_to (cm_pc s c)"
      "parked_at p \<longleftrightarrow> parked_at (cm_pc s c)" "cm_pc s c \<noteq> CParked" "\<And>f. p \<noteq> CFault f" "p \<noteq> CPark"
      "(sp = cm_spin s \<and> (spinning_at p \<longleftrightarrow> spinning_at (cm_pc s c))) \<or>
      (cm_spin s = None \<and> sp = Some c \<and> spinning_at p) \<or> (cm_spin s = Some c \<and> sp = None \<and> \<not> spinning_at p)"
    for c p sp
    unfolding a using coro_quiet [OF inv that(1-5) _ that(7)] that(6) by blast
  have call: "keeps a [] (cto c p s)"
    if "inside_at p \<longleftrightarrow> inside_at (cm_pc s c)" "hands_to p = hands_to (cm_pc s c)"
      "parked_at p \<longleftrightarrow> parked_at (cm_pc s c)" "cm_pc s c \<noteq> CParked" "\<And>f. p \<noteq> CFault f" "p \<noteq> CPark"
      "spinning_at p \<longleftrightarrow> spinning_at (cm_pc s c)" for c p
    using quiet [of p c "cm_spin s"] that by simp
  show ?thesis
  proof (cases k)
    case (CoAwaitLock c)
    with st show ?thesis by (auto simp: parked_at_def split: if_splits intro!: call)
  next
    case (CallUnlock c)
    with st show ?thesis by (auto simp: parked_at_def split: if_splits intro!: call)
  next
    case (CoroGo c)
    show ?thesis
    proof (cases "cm_pc s c")
      case CReady
      with CoroGo st coro_try [OF inv CReady, of s' e] a show ?thesis by simp
    next
      case CPark
      with CoroGo st coro_park [OF inv CPark] a show ?thesis by auto
    next
      case CUnlock
      with CoroGo st coro_unlock [OF inv CUnlock] a show ?thesis by auto
    next
      case (CResume w)
      with CoroGo st coro_resume [OF inv CResume, of s' e] a show ?thesis by simp
    qed (use CoroGo st D(1) [of c] in
        \<open>auto simp: take_spin_def ReleaseLock_def parked_at_def split: if_splits intro!: quiet\<close>)
  qed
qed

lemma coro_sim_init: "coro_sim ([], False) init_coro_mutex"
proof -
  have "coro_inv Free init_coro_mutex" by (simp add: coro_inv_def init_coro_mutex_def parked_at_def)
  then show ?thesis unfolding coro_sim_def by (intro exI [of _ Free]) (simp add: init_coro_mutex_def)
qed

interpretation coro_refines:
  event_simulation coro_step init_coro_mutex queue_lock_spec "([], False)" coro_sim
  by unfold_locales (fact coro_sim_init, use coro_sim_step in \<open>simp add: keeps_def\<close>)

definition coro_holds :: "coro_mutex \<Rightarrow> nat \<Rightarrow> bool" where
  "coro_holds s c \<longleftrightarrow> cm_pc s c = CIn"

lemma coro_sim_exclusive: "coro_sim a s \<Longrightarrow> coro_holds s i \<Longrightarrow> coro_holds s j \<Longrightarrow> i = j"
  unfolding coro_sim_def coro_holds_def by (metis coro_invD(2) holder.inject(1) inside_at.simps(2))

interpretation coro_lock: lock_protocol coro_step init_coro_mutex "\<lambda>_ s. \<exists>a. coro_sim a s" coro_holds
proof
  show "\<exists>a. coro_sim a init_coro_mutex" using coro_sim_init by blast
next
  fix s c s' e
  assume "\<exists>a. coro_sim a s" and "coro_step c s = Some (s', e)"
  then show "\<exists>a. coro_sim a s'" using coro_sim_step unfolding keeps_def by meson
next
  fix s i j
  assume "\<exists>a. coro_sim a s" "coro_holds s i" "coro_holds s j"
  then show "i = j" using coro_sim_exclusive by blast
qed

subsection \<open>Properties\<close>

text \<open>
  C6: the coroutine mutex is a fair lock: in every interleaving at most one coroutine is inside, the
  coroutines enter in the order in which they got hold of the mutex's queue, a suspended coroutine is resumed only
  while suspended and exactly when it is its turn, and one that is suspended is in the list of
  waiters or about to be resumed by the coroutine that left.
\<close>

theorem coro_mutex_correct:
  assumes "reach coro_step init_coro_mutex es s"
  shows "(\<forall>i j. cm_pc s i = CIn \<longrightarrow> cm_pc s j = CIn \<longrightarrow> i = j) \<and> alternates None es \<and>
    (\<exists>waiting. announced es = acquired es @ waiting) \<and> (\<forall>c f. cm_pc s c \<noteq> CFault f) \<and>
    (\<forall>c. cm_pc s c = CParked \<longrightarrow> IsSet s \<and> (c \<in> set (cm_waiters s) \<or> (\<exists>u. hands_to (cm_pc s u) = Some c)))"
proof -
  obtain a where a: "reach queue_lock_spec ([], False) es a" "coro_sim a s"
    using coro_refines.refines [OF assms] by blast
  then obtain h where inv: "coro_inv h s" by (auto simp: coro_sim_def)
  note D = coro_invD [OF inv]
  have "IsSet s \<and> (c \<in> set (cm_waiters s) \<or> (\<exists>u. hands_to (cm_pc s u) = Some c))" if "cm_pc s c = CParked" for c
  proof -
    have "c \<in> set (cm_waiters s) \<or> given_to h = Some c" using D(4) [of c] that by (simp add: parked_at_def)
    moreover have "\<exists>u. hands_to (cm_pc s u) = Some c" if "given_to h = Some c"
      using that D(3) by (cases h) auto
    moreover have "h \<noteq> Free" using calculation(1) D(8) by (cases h) auto
    ultimately show ?thesis using D(7) by (auto simp: IsSet_def)
  qed
  moreover have "\<forall>i j. cm_pc s i = CIn \<longrightarrow> cm_pc s j = CIn \<longrightarrow> i = j"
    using coro_lock.mutual_exclusion [OF assms] by (simp add: coro_holds_def)
  moreover have "alternates None es" "\<exists>waiting. announced es = acquired es @ waiting"
    using queue_lock_fifo [OF a(1)] by (auto split: prod.splits)
  ultimately show ?thesis using D(9) by blast
qed

theorem coro_mutex_correct_witness:
  "\<exists>es s. reach coro_step init_coro_mutex es s \<and> cm_pc s 2 = CIn \<and> cm_pc s 3 = CParked \<and>
     announced es = [1, 2, 3] \<and> acquired es = [1, 2] \<and> alternates None es"
proof -
  have "run_ok coro_step
     ([CoAwaitLock 1] @ replicate 3 (CoroGo 1) @ CoAwaitLock 2 # replicate 4 (CoroGo 2) @
      CoAwaitLock 3 # replicate 4 (CoroGo 3) @ CallUnlock 1 # replicate 4 (CoroGo 1)) init_coro_mutex
     (\<lambda>es s. cm_pc s 2 = CIn \<and> cm_pc s 3 = CParked \<and> announced es = [1, 2, 3] \<and> acquired es = [1, 2])"
    by code_simp
  then obtain es s where r: "reach coro_step init_coro_mutex es s" and "cm_pc s 2 = CIn" "cm_pc s 3 = CParked"
    "announced es = [1, 2, 3]" "acquired es = [1, 2]"
    by (rule run_okE) blast
  with coro_mutex_correct [OF r] show ?thesis by blast
qed

end
