(* ===== verification/Fibers.thy ===== *)
theory Fibers
  imports Tasks Manual_Executor
begin

text \<open>
  Fibers: \<^verbatim>\<open>src/fiber/awaiter_fiber.cpp\<close>, the handle \<^verbatim>\<open>src/fiber/handle/stopped_fiber.cpp\<close>, the
  awaiters \<^verbatim>\<open>src/fiber/awaiter\<close>, and \<open>Go\<close> and \<open>Yield\<close> of \<^verbatim>\<open>src/go/go.cpp\<close>.

  A fiber is a task that owns a coroutine. Its routine is client code; what the runtime sees of it is the
  sequence of awaiters it suspends with (\<open>fb_awaits\<close>), after which it completes. \<open>Run\<close> resumes the
  coroutine; when it comes back suspended, the awaiter receives a handle to the fiber and decides when to
  schedule it again. The fibers live in a heap: a completed fiber deletes itself. The operations return a fault
  where the code asserts, dereferences a null or freed fiber, resumes a finished coroutine, or throws out of a
  \<open>noexcept\<close> function. \<open>await_suspend\<close>, the effect of an awaiter other than \<open>YieldAwaiter\<close>, is a
  parameter; the synchronisation objects are in \<open>Fiber_Sync\<close>.

  The lemmas describe a handle (it schedules a fiber once), a run of a fiber on every branch, and fibers
  that yield on the manual executor: draining it runs every fiber to its end.
\<close>

datatype awaiter =
    YieldAwaiter
  | OtherAwaiter addr

record fiber =
  fb_task :: task_base
  fb_executor :: addr
  fb_awaiter :: "awaiter option"
  fb_awaits :: "awaiter list"      \<comment> \<open>what the routine still awaits\<close>
  fb_completed :: bool

record runtime =
  rt_fibers :: "addr \<Rightarrow> fiber option"
  rt_current :: ptr                \<comment> \<open>the thread-local \<open>current_fiber\<close>\<close>
  rt_submitted :: "addr list"      \<comment> \<open>calls of \<open>executor_->Submit\<close>, in order\<close>
  rt_fault :: "fault option"

subsection \<open>The handle of a stopped fiber\<close>

type_synonym stopped_fiber = ptr

definition Invalid :: stopped_fiber where
  "Invalid = None"

definition IsValid :: "stopped_fiber \<Rightarrow> bool" where
  "IsValid h \<longleftrightarrow> h \<noteq> None"

definition Release :: "stopped_fiber \<Rightarrow> fault + (stopped_fiber \<times> addr)" where
  "Release h = (case h of None \<Rightarrow> Inl AssertFailed | Some f \<Rightarrow> Inr (None, f))"

definition Schedule :: "addr \<Rightarrow> runtime \<Rightarrow> fault + runtime" where
  "Schedule f rt =
     (case rt_fibers rt f of
        None \<Rightarrow> Inl UseAfterFree
      | Some _ \<Rightarrow> Inr (rt\<lparr>rt_submitted := rt_submitted rt @ [f]\<rparr>))"

definition sf_Schedule :: "stopped_fiber \<Rightarrow> runtime \<Rightarrow> fault + (stopped_fiber \<times> runtime)" where
  "sf_Schedule h rt =
     bind_res (Release h) (\<lambda>(h', f). bind_res (Schedule f rt) (\<lambda>rt'. Inr (h', rt')))"

subsection \<open>Running a fiber\<close>

definition Self :: "runtime \<Rightarrow> ptr" where
  "Self rt = rt_current rt"

definition GetScheduler :: "fiber \<Rightarrow> addr" where
  "GetScheduler fb = fb_executor fb"

text \<open>The method \<open>Suspend\<close>: the fiber leaves its coroutine with a non-null awaiter.\<close>

definition fiber_Suspend :: "awaiter \<Rightarrow> fiber \<Rightarrow> fiber" where
  "fiber_Suspend w fb = fb\<lparr>fb_awaiter := Some w\<rparr>"

text \<open>The free function \<open>Suspend\<close> acts on the current fiber.\<close>

definition Suspend :: "awaiter \<Rightarrow> runtime \<Rightarrow> fault + runtime" where
  "Suspend w rt =
     (case Self rt of
        None \<Rightarrow> Inl AssertFailed
      | Some f \<Rightarrow>
          (case rt_fibers rt f of
             None \<Rightarrow> Inl UseAfterFree
           | Some fb \<Rightarrow> Inr (rt\<lparr>rt_fibers := (rt_fibers rt)(f \<mapsto> fiber_Suspend w fb)\<rparr>)))"

text \<open>
  Resuming the coroutine runs the routine up to its next suspension or to its end; a coroutine that has ended aborts
  the process when it is resumed (\<open>ExitTo\<close> is not meant to come back).
\<close>

definition coro_Resume :: "addr \<Rightarrow> runtime \<Rightarrow> fault + runtime" where
  "coro_Resume f rt =
     (case rt_fibers rt f of
        None \<Rightarrow> Inl UseAfterFree
      | Some fb \<Rightarrow>
          if fb_completed fb then Inl Abort
          else (case fb_awaits fb of
                  [] \<Rightarrow> Inr (rt\<lparr>rt_fibers := (rt_fibers rt)(f \<mapsto> fb\<lparr>fb_completed := True\<rparr>)\<rparr>)
                | w # ws \<Rightarrow> Suspend w (rt\<lparr>rt_fibers := (rt_fibers rt)(f \<mapsto> fb\<lparr>fb_awaits := ws\<rparr>)\<rparr>)))"

definition Switch :: "addr \<Rightarrow> runtime \<Rightarrow> fault + runtime" where
  "Switch f rt =
     bind_res (coro_Resume f (rt\<lparr>rt_current := Some f\<rparr>)) (\<lambda>rt'. Inr (rt'\<lparr>rt_current := None\<rparr>))"

definition sf_Switch :: "stopped_fiber \<Rightarrow> runtime \<Rightarrow> fault + (stopped_fiber \<times> runtime)" where
  "sf_Switch h rt = bind_res (Release h) (\<lambda>(h', f). bind_res (Switch f rt) (\<lambda>rt'. Inr (h', rt')))"

definition AwaitSuspend ::
  "(addr \<Rightarrow> stopped_fiber \<Rightarrow> runtime \<Rightarrow> fault + runtime) \<Rightarrow> awaiter \<Rightarrow> stopped_fiber \<Rightarrow> runtime \<Rightarrow> fault + runtime" where
  "AwaitSuspend await_suspend w h rt =
     (case w of
        YieldAwaiter \<Rightarrow> bind_res (sf_Schedule h rt) (\<lambda>(h', rt'). Inr rt')
      | OtherAwaiter a \<Rightarrow> await_suspend a h rt)"

definition Run ::
  "(addr \<Rightarrow> stopped_fiber \<Rightarrow> runtime \<Rightarrow> fault + runtime) \<Rightarrow> addr \<Rightarrow> runtime \<Rightarrow> fault + (runtime \<times> task_run_result)" where
  "Run await_suspend f rt =
     bind_res (Switch f rt)
       (\<lambda>rt1. case rt_fibers rt1 f of
                None \<Rightarrow> Inl UseAfterFree
              | Some fb \<Rightarrow>
                  if fb_completed fb then
                    (case ProgressState (fb_task fb) of
                       Inl _ \<Rightarrow> Inl Abort
                     | Inr _ \<Rightarrow> Inr (rt1\<lparr>rt_fibers := (rt_fibers rt1)(f := None)\<rparr>, COMPLETE))
                  else
                    bind_res (case fb_awaiter fb of None \<Rightarrow> Inr rt1 | Some w \<Rightarrow> AwaitSuspend await_suspend w (Some f) rt1)
                      (\<lambda>rt2. Inr (rt2, UNCOMPLETED)))"

subsection \<open>Go and Yield\<close>

definition new_fiber :: "addr \<Rightarrow> awaiter list \<Rightarrow> fiber" where
  "new_fiber ex ws = \<lparr>fb_task = new_task, fb_executor = ex, fb_awaiter = None, fb_awaits = ws, fb_completed = False\<rparr>"

text \<open>\<open>new\<close> returns an address \<open>f\<close> that is not allocated.\<close>

definition Go :: "addr \<Rightarrow> addr \<Rightarrow> awaiter list \<Rightarrow> runtime \<Rightarrow> fault + runtime" where
  "Go scheduler f ws rt = Schedule f (rt\<lparr>rt_fibers := (rt_fibers rt)(f \<mapsto> new_fiber scheduler ws)\<rparr>)"

definition Go_current :: "addr \<Rightarrow> awaiter list \<Rightarrow> runtime \<Rightarrow> fault + runtime" where
  "Go_current f ws rt =
     (case Self rt of
        None \<Rightarrow> Inl NullDeref
      | Some me \<Rightarrow> (case rt_fibers rt me of None \<Rightarrow> Inl UseAfterFree | Some fb \<Rightarrow> Go (GetScheduler fb) f ws rt))"

definition Yield :: "runtime \<Rightarrow> fault + runtime" where
  "Yield = Suspend YieldAwaiter"

subsection \<open>Fibers as tasks of the manual executor\<close>

definition no_awaiter :: "addr \<Rightarrow> stopped_fiber \<Rightarrow> runtime \<Rightarrow> fault + runtime" where
  "no_awaiter a h rt = Inl Abort"

definition fiber_body :: "runtime task_body" where
  "fiber_body f rt =
     (case Run no_awaiter f (rt\<lparr>rt_submitted := []\<rparr>) of
        Inl e \<Rightarrow> (rt\<lparr>rt_fault := Some e\<rparr>, [])
      | Inr (rt', r) \<Rightarrow> (rt'\<lparr>rt_submitted := []\<rparr>, rt_submitted rt'))"

definition ready :: "runtime \<Rightarrow> addr \<Rightarrow> bool" where
  "ready rt f \<longleftrightarrow> (\<exists>fb. rt_fibers rt f = Some fb \<and> \<not> fb_completed fb \<and> set (fb_awaits fb) \<subseteq> {YieldAwaiter} \<and>
     tb_state (fb_task fb) \<noteq> FINISHED)"

definition runs_left :: "runtime \<Rightarrow> addr \<Rightarrow> nat" where
  "runs_left rt f = (case rt_fibers rt f of None \<Rightarrow> 0 | Some fb \<Rightarrow> Suc (length (fb_awaits fb)))"

lemmas fiber_ops = Switch_def coro_Resume_def Suspend_def Self_def fiber_Suspend_def AwaitSuspend_def
  sf_Schedule_def Release_def Schedule_def

lemma Run_last:
  assumes "rt_fibers rt f = Some fb" "\<not> fb_completed fb" "fb_awaits fb = []" "tb_state (fb_task fb) \<noteq> FINISHED"
  shows "Run aw f rt = Inr (rt\<lparr>rt_fibers := (rt_fibers rt)(f := None), rt_current := None\<rparr>, COMPLETE)"
  using assms by (cases "tb_state (fb_task fb)") (simp_all add: Run_def fiber_ops ProgressState_def)

lemma Run_yield:
  assumes "rt_fibers rt f = Some fb" "\<not> fb_completed fb" "fb_awaits fb = YieldAwaiter # ws"
  shows "Run aw f rt =
    Inr (rt\<lparr>rt_fibers := (rt_fibers rt)(f \<mapsto> fb\<lparr>fb_awaits := ws, fb_awaiter := Some YieldAwaiter\<rparr>),
            rt_current := None, rt_submitted := rt_submitted rt @ [f]\<rparr>, UNCOMPLETED)"
  using assms by (simp add: Run_def fiber_ops)

lemma fiber_body_step:
  assumes "ready rt f" and "rt_fault rt = None"
  obtains rt' subs where "fiber_body f rt = (rt', subs)" "rt_fault rt' = None" "\<And>g. g \<noteq> f \<Longrightarrow> rt_fibers rt' g = rt_fibers rt g"
    "subs = (if runs_left rt f = 1 then [] else [f])" "runs_left rt' f = runs_left rt f - 1"
    "runs_left rt f \<noteq> 1 \<longrightarrow> ready rt' f" "runs_left rt f = 1 \<longrightarrow> rt_fibers rt' f = None"
proof -
  obtain fb where fb: "rt_fibers rt f = Some fb" "\<not> fb_completed fb" "set (fb_awaits fb) \<subseteq> {YieldAwaiter}"
    "tb_state (fb_task fb) \<noteq> FINISHED"
    using assms(1) by (auto simp: ready_def)
  show thesis
  proof (cases "fb_awaits fb")
    case Nil
    have "Run no_awaiter f (rt\<lparr>rt_submitted := []\<rparr>) =
        Inr (rt\<lparr>rt_submitted := [], rt_fibers := (rt_fibers rt)(f := None), rt_current := None\<rparr>, COMPLETE)"
      using Run_last [of "rt\<lparr>rt_submitted := []\<rparr>" f fb] fb Nil by simp
    with that fb Nil assms(2) show ?thesis by (simp add: fiber_body_def runs_left_def)
  next
    case (Cons w ws)
    then have w: "w = YieldAwaiter" using fb(3) by simp
    have "Run no_awaiter f (rt\<lparr>rt_submitted := []\<rparr>) =
        Inr (rt\<lparr>rt_fibers := (rt_fibers rt)(f \<mapsto> fb\<lparr>fb_awaits := ws, fb_awaiter := Some YieldAwaiter\<rparr>),
            rt_current := None, rt_submitted := [f]\<rparr>, UNCOMPLETED)"
      using Run_yield [of "rt\<lparr>rt_submitted := []\<rparr>" f fb ws] fb Cons w by simp
    with that fb Cons w assms(2) show ?thesis by (simp add: fiber_body_def runs_left_def ready_def)
  qed
qed


definition all_runs :: "runtime \<Rightarrow> addr list \<Rightarrow> nat" where
  "all_runs rt q = sum_list (map (runs_left rt) q)"

lemma ready_other: "rt_fibers rt' g = rt_fibers rt g \<Longrightarrow> ready rt' g = ready rt g"
  by (simp add: ready_def)

lemma runs_left_ready: "ready rt f \<Longrightarrow> 0 < runs_left rt f"
  by (auto simp: ready_def runs_left_def)

lemma all_runs_other: "(\<And>g. g \<in> set q \<Longrightarrow> rt_fibers rt' g = rt_fibers rt g) \<Longrightarrow> all_runs rt' q = all_runs rt q"
  unfolding all_runs_def runs_left_def by (metis (no_types, lifting) map_eq_conv)

lemma yielding_fibers_finish:
  "\<forall>f \<in> set q. ready rt f \<Longrightarrow> distinct q \<Longrightarrow> length q < 2 ^ 64 \<Longrightarrow> rt_fault rt = None \<Longrightarrow>
     \<exists>rt'. fifo_run fiber_body (all_runs rt q) rt q = Some (all_runs rt q, rt', []) \<and> rt_fault rt' = None \<and>
       (\<forall>f. rt_fibers rt' f = (if f \<in> set q then None else rt_fibers rt f))"
proof (induction "all_runs rt q" arbitrary: rt q)
  case 0
  then have "q = []" using runs_left_ready by (cases q) (force simp: all_runs_def)+
  with 0 show ?case by (simp add: all_runs_def)
next
  case (Suc n)
  then obtain f q' where q: "q = f # q'" by (cases q) (auto simp: all_runs_def)
  have rf: "ready rt f" using Suc.prems q by simp
  obtain rt1 subs where step: "fiber_body f rt = (rt1, subs)" "rt_fault rt1 = None"
    "\<And>g. g \<noteq> f \<Longrightarrow> rt_fibers rt1 g = rt_fibers rt g" "subs = (if runs_left rt f = 1 then [] else [f])"
    "runs_left rt1 f = runs_left rt f - 1" "runs_left rt f \<noteq> 1 \<longrightarrow> ready rt1 f" "runs_left rt f = 1 \<longrightarrow> rt_fibers rt1 f = None"
    using fiber_body_step [OF rf Suc.prems(4)] by blast
  let ?q = "q' @ subs"
  have nf: "f \<notin> set q'" using Suc.prems(2) q by simp
  have same: "all_runs rt1 q' = all_runs rt q'" by (rule all_runs_other, rule step(3)) (use nf in auto)
  have pos: "0 < runs_left rt f" by (rule runs_left_ready [OF rf])
  have n: "n = all_runs rt1 ?q"
    using Suc.hyps(2) q same step(4,5) pos by (auto simp: all_runs_def)
  have rdy: "\<forall>g \<in> set ?q. ready rt1 g"
  proof
    fix g
    assume "g \<in> set ?q"
    then consider "g \<in> set q'" | "g = f" "runs_left rt f \<noteq> 1" using step(4) by (auto split: if_splits)
    then show "ready rt1 g"
    proof cases
      case 1
      with nf have "ready rt1 g = ready rt g" by (intro ready_other step(3)) auto
      with 1 Suc.prems(1) q show ?thesis by simp
    qed (use step(6) in simp)
  qed
  have dis: "distinct ?q" "length ?q < 2 ^ 64" using Suc.prems(2,3) q nf step(4) by auto
  obtain rt' where rt': "fifo_run fiber_body n rt1 ?q = Some (n, rt', [])" "rt_fault rt' = None"
    "\<forall>g. rt_fibers rt' g = (if g \<in> set ?q then None else rt_fibers rt1 g)"
    using Suc.hyps(1) [OF n rdy dis step(2)] n by auto
  have "can_submit subs q'" using step(4) nf Suc.prems(3) q by (auto simp: list_room_def)
  then have "fifo_run fiber_body (Suc n) rt q = Some (Suc n, rt', [])" using q step(1) rt'(1) by simp
  moreover have "\<forall>g. rt_fibers rt' g = (if g \<in> set q then None else rt_fibers rt g)"
    using rt'(3) q step(3,4,7) nf by (auto split: if_splits)
  ultimately show ?case using rt'(2) Suc.hyps(2) by auto
qed

subsection \<open>Properties\<close>

text \<open>
  fibers that yield run to completion on the manual executor: draining an executor that holds any
  distinct fibers, each of which still yields some number of times, ends; it makes exactly one run per yield and one
  more per fiber, every fiber has completed and deleted itself, no other fiber was touched, and nothing faulted.
\<close>

lemma yielding_fibers_drain:
  assumes "me_inv e" and "\<forall>f \<in> set (me_queue e). ready rt f" and "rt_fault rt = None"
  shows "\<exists>rt' e'. Drain fiber_body rt e = Some (Inr (of_nat (all_runs rt (me_queue e)), rt', e')) \<and>
    me_queue e' = [] \<and> rt_fault rt' = None \<and>
    (\<forall>f. rt_fibers rt' f = (if f \<in> set (me_queue e) then None else rt_fibers rt f))"
proof -
  have q: "distinct (me_queue e)" "length (me_queue e) < 2 ^ 64"
    using assms(1) me_count_queue [OF assms(1)] unsigned_less [where 'b = 64 and 'a = nat, of "me_count e"]
    by (simp_all add: me_inv_def me_queue_def il_inv_def)
  obtain rt' where rt': "fifo_run fiber_body (all_runs rt (me_queue e)) rt (me_queue e) =
      Some (all_runs rt (me_queue e), rt', [])" "rt_fault rt' = None"
    "\<forall>f. rt_fibers rt' f = (if f \<in> set (me_queue e) then None else rt_fibers rt f)"
    using yielding_fibers_finish [OF assms(2) q assms(3)] by blast
  obtain e' where "Drain_loop fiber_body 0 rt e = Some (Inr (0 + of_nat (all_runs rt (me_queue e)), rt', e'))" "me_queue e' = []"
    using Drain_loop_ok [OF assms(1) rt'(1), of 0] by blast
  with rt' show ?thesis by (auto simp: Drain_def)
qed

end
