(* ===== verification/Fiber_Sync.thy ===== *)
theory Fiber_Sync
  imports Fibers Lock_Spec
begin

text \<open>
  The mutex for fibers, \<^verbatim>\<open>src/fiber/sync/async_mutex.cpp\<close>, with its awaiter in
  \<^verbatim>\<open>src/fiber/awaiter/mutex_awaiter.h\<close>.

  The mutex keeps an intrusive list of waiters, one per waiting fiber (the node of a fiber's waiter is
  named by the fiber), under a spin lock. A fiber that has to wait suspends while it
  holds the spin lock; the executor's thread then runs \<open>AwaitSuspend\<close>, which parks the waiter and
  releases the lock. Since the lock protects every access in between (\<open>Queue_Spin_Lock\<close>), parking is
  one step. The one action outside the lock is kept: \<open>Guard::Release\<close> stores \<^verbatim>\<open>is_owner = false\<close> after it
  has given the lock up, into the waiting fiber's stack (\<open>fm_clearing\<close>); a fiber that is resumed before that
  store runs \<open>~Guard\<close> with the flag still set and releases a lock it does not hold. A fiber that does so stops in the
  model, so what is shown holds up to the first such release.

  The lemmas show that the mutex is a fair lock with direct hand-over (\<open>fiber_mutex_refines\<close>) and that the
  premature release can happen.
\<close>

subsection \<open>AsyncMutex\<close>

datatype fm_pc =
    FOut
  | FIn
  | FParked
  | FScheduled
  | FUnlockSched addr       \<comment> \<open>\<open>Unlock\<close>: next is \<open>next_waiter->Schedule()\<close>\<close>
  | FFault fault

record fiber_mutex =
  fm_locked :: bool
  fm_links :: links
  fm_waiters :: intrusive_list
  fm_clearing :: "addr \<Rightarrow> bool"
  fm_pc :: "addr \<Rightarrow> fm_pc"

datatype fm_choice =
    FmLock addr
  | FmClear addr
  | FmUnlock addr
  | FmSchedule addr
  | FmResume addr

definition init_fiber_mutex :: "links \<Rightarrow> fiber_mutex" where
  "init_fiber_mutex h =
     \<lparr>fm_locked = False, fm_links = h, fm_waiters = empty_list, fm_clearing = (\<lambda>_. False), fm_pc = (\<lambda>_. FOut)\<rparr>"

definition fto :: "addr \<Rightarrow> fm_pc \<Rightarrow> fiber_mutex \<Rightarrow> fiber_mutex" where
  "fto f p s = s\<lparr>fm_pc := (fm_pc s)(f := p)\<rparr>"

text \<open>A waiter is constructed on the stack of the fiber that waits, so its link is null when it is parked.\<close>

definition fresh_waiter :: "addr \<Rightarrow> links \<Rightarrow> links" where
  "fresh_waiter w h = h(w := None)"

definition Park :: "addr \<Rightarrow> fiber_mutex \<Rightarrow> fault + fiber_mutex" where
  "Park w s =
     bind_res (Push (Some w) (fm_links s, fm_waiters s)) (\<lambda>(h, l). Inr (s\<lparr>fm_links := h, fm_waiters := l\<rparr>))"

definition Lock :: "addr \<Rightarrow> fiber_mutex \<Rightarrow> fiber_mutex \<times> lock_event list" where
  "Lock f s =
     (if fm_locked s then
        (case Park f (s\<lparr>fm_links := fresh_waiter f (fm_links s)\<rparr>) of
           Inl e \<Rightarrow> (fto f (FFault e) s, [])
         | Inr s' \<Rightarrow> (fto f FParked (s'\<lparr>fm_clearing := (fm_clearing s')(f := True)\<rparr>), [Announced f]))
      else (fto f FIn (s\<lparr>fm_locked := True\<rparr>), [Announced f, Acquired f]))"

definition Unlock :: "addr \<Rightarrow> fiber_mutex \<Rightarrow> fiber_mutex \<times> lock_event list" where
  "Unlock f s =
     (if IsEmpty (fm_waiters s) then (fto f FOut (s\<lparr>fm_locked := False\<rparr>), [Released f])
      else case Pop (fm_links s) (fm_waiters s) of
             Inl e \<Rightarrow> (fto f (FFault e) s, [])
           | Inr (l, None) \<Rightarrow> (fto f FOut (s\<lparr>fm_waiters := l\<rparr>), [Released f])
           | Inr (l, Some w) \<Rightarrow> (fto f (FUnlockSched w) (s\<lparr>fm_waiters := l\<rparr>), [Released f]))"

text \<open>The waiter's handle is valid while the fiber is parked and becomes invalid when it is scheduled.\<close>

definition waiter_Schedule :: "addr \<Rightarrow> addr \<Rightarrow> fiber_mutex \<Rightarrow> fiber_mutex" where
  "waiter_Schedule f w s =
     (if fm_pc s w = FParked then fto w FScheduled (fto f FOut s) else fto f (FFault AssertFailed) s)"

text \<open>The resumed fiber leaves \<open>Lock\<close> and destroys its guard.\<close>

definition fiber_resumes :: "addr \<Rightarrow> fiber_mutex \<Rightarrow> fiber_mutex \<times> lock_event list" where
  "fiber_resumes w s = (if fm_clearing s w then (fto w (FFault DoubleRelease) s, []) else (fto w FIn s, [Acquired w]))"

fun fm_step :: "(fm_choice, fiber_mutex, lock_event) stepper" where
  "fm_step (FmLock f) s = (if fm_pc s f = FOut \<and> int f < 2 ^ 62 then Some (Lock f s) else None)"
| "fm_step (FmClear f) s =
     (if fm_clearing s f then Some (s\<lparr>fm_clearing := (fm_clearing s)(f := False)\<rparr>, []) else None)"
| "fm_step (FmUnlock f) s = (if fm_pc s f = FIn then Some (Unlock f s) else None)"
| "fm_step (FmSchedule f) s =
     (case fm_pc s f of FUnlockSched w \<Rightarrow> Some (waiter_Schedule f w s, []) | _ \<Rightarrow> None)"
| "fm_step (FmResume w) s = (if fm_pc s w = FScheduled then Some (fiber_resumes w s) else None)"

text \<open>Who has the mutex: nobody, a fiber inside, a waiter about to be scheduled, a waiter scheduled.\<close>

datatype fm_holder = Free | Has addr | Giving addr addr | Given addr

fun giving_to :: "fm_holder \<Rightarrow> addr option" where
  "giving_to (Giving u w) = Some w"
| "giving_to _ = None"

fun chosen :: "fm_holder \<Rightarrow> addr option" where
  "chosen (Giving u w) = Some w"
| "chosen (Given w) = Some w"
| "chosen (Has f) = Some f"
| "chosen Free = None"

definition fm_items :: "fiber_mutex \<Rightarrow> addr list" where
  "fm_items s = items (fm_links s) (fm_waiters s)"

definition fm_inv :: "fm_holder \<Rightarrow> fiber_mutex \<Rightarrow> bool" where
  "fm_inv h s \<longleftrightarrow>
     (\<forall>f. fm_pc s f = FIn \<longleftrightarrow> h = Has f) \<and> (\<forall>u w. fm_pc s u = FUnlockSched w \<longleftrightarrow> h = Giving u w) \<and>
     (\<forall>f. fm_pc s f = FParked \<longleftrightarrow> f \<in> set (fm_items s) \<or> giving_to h = Some f) \<and>
     (\<forall>f. fm_pc s f = FScheduled \<or> fm_pc s f = FFault DoubleRelease \<longleftrightarrow> h = Given f) \<and>
     (\<forall>f e. fm_pc s f = FFault e \<longrightarrow> e = DoubleRelease) \<and>
     (\<forall>f. chosen h = Some f \<longrightarrow> f \<notin> set (fm_items s)) \<and> il_inv (fm_links s) (fm_waiters s) \<and>
     (fm_locked s \<longleftrightarrow> h \<noteq> Free) \<and> (h = Free \<longrightarrow> fm_items s = []) \<and> (\<forall>f \<in> set (fm_items s). f < 2 ^ 62)"

fun fm_abs :: "fm_holder \<Rightarrow> addr list \<Rightarrow> addr list \<times> bool" where
  "fm_abs Free ws = (ws, False)"
| "fm_abs (Has f) ws = (f # ws, True)"
| "fm_abs (Giving u w) ws = (w # ws, False)"
| "fm_abs (Given w) ws = (w # ws, False)"

definition fm_sim :: "addr list \<times> bool \<Rightarrow> fiber_mutex \<Rightarrow> bool" where
  "fm_sim a s \<longleftrightarrow> (\<exists>h. fm_inv h s \<and> a = fm_abs h (fm_items s))"

definition fm_keeps :: "addr list \<times> bool \<Rightarrow> lock_event list \<Rightarrow> fiber_mutex \<Rightarrow> bool" where
  "fm_keeps a e s' \<longleftrightarrow> (\<exists>a'. reach queue_lock_spec a e a' \<and> fm_sim a' s')"

lemma fm_keepsI: "fm_inv h s' \<Longrightarrow> reach queue_lock_spec a e (fm_abs h (fm_items s')) \<Longrightarrow> fm_keeps a e s'"
  unfolding fm_keeps_def fm_sim_def by blast

lemma fm_invD:
  assumes "fm_inv h s"
  shows "fm_pc s f = FIn \<longleftrightarrow> h = Has f" "fm_pc s f = FUnlockSched w \<longleftrightarrow> h = Giving f w"
    "fm_pc s f = FParked \<longleftrightarrow> f \<in> set (fm_items s) \<or> giving_to h = Some f"
    "fm_pc s f = FScheduled \<or> fm_pc s f = FFault DoubleRelease \<longleftrightarrow> h = Given f"
    "chosen h = Some f \<Longrightarrow> f \<notin> set (fm_items s)" "il_inv (fm_links s) (fm_waiters s)"
    "fm_locked s \<longleftrightarrow> h \<noteq> Free" "h = Free \<Longrightarrow> fm_items s = []" "f \<in> set (fm_items s) \<Longrightarrow> f < 2 ^ 62"
    "fm_pc s f = FFault e \<Longrightarrow> e = DoubleRelease"
  using assms unfolding fm_inv_def by blast+

lemma fm_room:
  assumes "fm_inv h s"
  shows "length (fm_items s) + 1 < 2 ^ 64"
proof -
  have "set (fm_items s) \<subseteq> {..<2 ^ 62}" using fm_invD(9) [OF assms] by auto
  then have "card (set (fm_items s)) \<le> card {..<(2::nat) ^ 62}" by (intro card_mono) auto
  moreover have "distinct (fm_items s)" using fm_invD(6) [OF assms] by (simp add: il_inv_def fm_items_def)
  ultimately have "length (fm_items s) \<le> 2 ^ 62" by (simp add: distinct_card)
  then show ?thesis by simp
qed

lemma fm_lock:
  assumes inv: "fm_inv h s" and pc: "fm_pc s f = FOut" "f < 2 ^ 62" and st: "Lock f s = (s', e)"
  shows "fm_keeps (fm_abs h (fm_items s)) e s'"
proof (cases "fm_locked s")
  case False
  note D = fm_invD [OF inv]
  have h: "h = Free" "fm_items s = []" using D(7,8) False by auto
  have out: "s' = fto f FIn (s\<lparr>fm_locked := True\<rparr>)" "e = [Announced f] @ [Acquired f]" using st False by (auto simp: Lock_def)
  have "fm_inv (Has f) s'" using inv h pc unfolding fm_inv_def out fto_def fm_items_def by auto
  moreover have "reach queue_lock_spec ([], False) e (fm_abs (Has f) (fm_items s'))"
    unfolding out(2)
  proof (rule reach.reach_step)
    show "reach queue_lock_spec ([], False) [Announced f] ([f], False)"
      by (rule reach_single [where c = "Announced f"]) simp
    show "queue_lock_spec (Acquired f) ([f], False) = Some (fm_abs (Has f) (fm_items s'), [Acquired f])"
      using h out(1) by (simp add: fto_def fm_items_def)
  qed
  ultimately show ?thesis using h by (intro fm_keepsI) auto
next
  case True
  note D = fm_invD [OF inv]
  have f: "f \<notin> set (fm_items s)" "chosen h \<noteq> Some f" "h \<noteq> Free"
    using D(1-5) [of f] D(7) True pc(1) by (cases h; auto)+
  have il: "il_inv (fresh_waiter f (fm_links s)) (fm_waiters s)" "items (fresh_waiter f (fm_links s)) (fm_waiters s) = fm_items s"
    using D(6) f(1) by (simp_all add: fresh_waiter_def fm_items_def il_inv_upd_notin items_upd_notin)
  obtain hp l where push: "Push (Some f) (fresh_waiter f (fm_links s), fm_waiters s) = Inr (hp, l)" "il_inv hp l"
    "items hp l = fm_items s @ [f]"
    using Push_ok [OF il(1), of f] f(1) fm_room [OF inv] il(2) by metis
  have out: "s' = fto f FParked (s\<lparr>fm_links := hp, fm_waiters := l, fm_clearing := (fm_clearing s)(f := True)\<rparr>)"
    "e = [Announced f]"
    using st True push(1) by (auto simp: Lock_def Park_def)
  have it: "fm_items s' = fm_items s @ [f]" using push(3) by (simp add: out fto_def fm_items_def)
  have "fm_inv h s'"
    using inv pc f push(2) D(1-4) [of f] unfolding fm_inv_def it by (auto simp: out fto_def)
  moreover have "reach queue_lock_spec (fm_abs h (fm_items s)) [Announced f] (fm_abs h (fm_items s @ [f]))"
    using f by (intro reach_single [where c = "Announced f"]) (cases h, auto)
  ultimately show ?thesis using it out(2) by (intro fm_keepsI) auto
qed

lemma fm_unlock:
  assumes inv: "fm_inv h s" and pc: "fm_pc s f = FIn" and st: "Unlock f s = (s', e)"
  shows "fm_keeps (fm_abs h (fm_items s)) e s'"
proof -
  note D = fm_invD [OF inv]
  have h: "h = Has f" using D(1) pc by blast
  show ?thesis
  proof (cases "fm_items s")
    case Nil
    then have out: "s' = fto f FOut (s\<lparr>fm_locked := False\<rparr>)" "e = [Released f]"
      using st D(6) by (auto simp: Unlock_def IsEmpty_iff fm_items_def)
    have "fm_inv Free s'" using inv h pc Nil unfolding fm_inv_def out fto_def fm_items_def by auto
    moreover have "reach queue_lock_spec ([f], True) [Released f] ([], False)"
      by (rule reach_single [where c = "Released f"]) simp
    moreover have "fm_items s' = []" using Nil by (simp add: out fto_def fm_items_def)
    ultimately show ?thesis using h Nil out(2) by (intro fm_keepsI [of Free]) auto
  next
    case (Cons w ws)
    obtain l where pop: "Pop (fm_links s) (fm_waiters s) = Inr (l, Some w)" "il_inv (fm_links s) l" "items (fm_links s) l = ws"
      using Pop_cons [OF D(6), of w ws] Cons unfolding fm_items_def by metis
    have ne: "\<not> IsEmpty (fm_waiters s)" using D(6) Cons by (simp add: IsEmpty_iff fm_items_def)
    have out: "s' = fto f (FUnlockSched w) (s\<lparr>fm_waiters := l\<rparr>)" "e = [Released f]"
      using st ne pop(1) by (auto simp: Unlock_def)
    have it: "fm_items s' = ws" using pop(3) by (simp add: out fto_def fm_items_def)
    have "distinct (w # ws)" using D(6) Cons by (simp add: il_inv_def fm_items_def)
    moreover have "w \<noteq> f" using D(3) [of w] Cons pc by auto
    ultimately have "fm_inv (Giving f w) s'"
      using inv h pc Cons pop(2) D(3) [of f] unfolding fm_inv_def it by (auto simp: out fto_def)
    moreover have "reach queue_lock_spec (f # w # ws, True) [Released f] (w # ws, False)"
      by (rule reach_single [where c = "Released f"]) simp
    ultimately show ?thesis using h Cons it out(2) by (intro fm_keepsI [of "Giving f w"]) auto
  qed
qed

lemma fm_schedule:
  assumes inv: "fm_inv h s" and pc: "fm_pc s f = FUnlockSched w"
  shows "fm_keeps (fm_abs h (fm_items s)) [] (waiter_Schedule f w s)"
proof -
  note D = fm_invD [OF inv]
  have h: "h = Giving f w" using D(2) pc by blast
  have w: "fm_pc s w = FParked" "w \<notin> set (fm_items s)" "w \<noteq> f" using D(3) [of w] D(5) [of w] h pc by auto
  have fn: "f \<notin> set (fm_items s)" using D(3) [of f] pc by auto
  have out: "waiter_Schedule f w s = fto w FScheduled (fto f FOut s)" using w by (simp add: waiter_Schedule_def)
  have it: "fm_items (waiter_Schedule f w s) = fm_items s" by (simp add: out fto_def fm_items_def)
  have "fm_inv (Given w) (waiter_Schedule f w s)"
    using inv h w fn unfolding fm_inv_def it by (auto simp: out fto_def)
  with h it show ?thesis by (intro fm_keepsI [of "Given w"]) (auto intro: reach.reach_init)
qed

lemma fm_resume:
  assumes inv: "fm_inv h s" and pc: "fm_pc s w = FScheduled" and st: "fiber_resumes w s = (s', e)"
  shows "fm_keeps (fm_abs h (fm_items s)) e s'"
proof -
  note D = fm_invD [OF inv]
  have h: "h = Given w" using D(4) pc by blast
  have w: "w \<notin> set (fm_items s)" using D(5) [of w] h by simp
  have it: "fm_items s' = fm_items s" using st by (auto simp: fiber_resumes_def fto_def fm_items_def split: if_splits)
  show ?thesis
  proof (cases "fm_clearing s w")
    case True
    then have out: "s' = fto w (FFault DoubleRelease) s" "e = []" using st by (auto simp: fiber_resumes_def)
    have "fm_inv (Given w) s'" using inv h pc w D(3) [of w] unfolding fm_inv_def it by (auto simp: out fto_def)
    with h it out(2) show ?thesis by (intro fm_keepsI [of "Given w"]) (auto intro: reach.reach_init)
  next
    case False
    then have out: "s' = fto w FIn s" "e = [Acquired w]" using st by (auto simp: fiber_resumes_def)
    have "fm_inv (Has w) s'" using inv h pc w D(3) [of w] unfolding fm_inv_def it by (auto simp: out fto_def)
    moreover have "reach queue_lock_spec (w # fm_items s, False) [Acquired w] (w # fm_items s, True)"
      by (rule reach_single [where c = "Acquired w"]) simp
    ultimately show ?thesis using h it out(2) by (intro fm_keepsI [of "Has w"]) auto
  qed
qed

lemma fm_sim_step:
  assumes "fm_sim a s" and st: "fm_step c s = Some (s', e)"
  shows "fm_keeps a e s'"
proof -
  obtain h where inv: "fm_inv h s" and a: "a = fm_abs h (fm_items s)" using assms(1) by (auto simp: fm_sim_def)
  show ?thesis
  proof (cases c)
    case (FmLock f)
    with st have "fm_pc s f = FOut" "f < 2 ^ 62" "Lock f s = (s', e)" by (auto split: if_splits)
    with fm_lock [OF inv] a show ?thesis by blast
  next
    case (FmClear f)
    with st have "s' = s\<lparr>fm_clearing := (fm_clearing s)(f := False)\<rparr>" "e = []" by (auto split: if_splits)
    moreover from this inv have "fm_inv h s'" by (simp add: fm_inv_def fm_items_def)
    ultimately show ?thesis using a by (intro fm_keepsI [of h]) (auto simp: fm_items_def intro: reach.reach_init)
  next
    case (FmUnlock f)
    with st have "fm_pc s f = FIn" "Unlock f s = (s', e)" by (auto split: if_splits)
    with fm_unlock [OF inv] a show ?thesis by blast
  next
    case (FmSchedule f)
    with st obtain w where "fm_pc s f = FUnlockSched w" "s' = waiter_Schedule f w s" "e = []"
      by (auto split: fm_pc.splits)
    with fm_schedule [OF inv] a show ?thesis by blast
  next
    case (FmResume w)
    with st have "fm_pc s w = FScheduled" "fiber_resumes w s = (s', e)" by (auto split: if_splits)
    with fm_resume [OF inv] a show ?thesis by blast
  qed
qed

lemma fm_sim_init: "fm_sim ([], False) (init_fiber_mutex h)"
proof -
  have "fm_inv Free (init_fiber_mutex h)"
    by (simp add: fm_inv_def init_fiber_mutex_def fm_items_def items_empty_list il_inv_empty_list)
  then show ?thesis unfolding fm_sim_def
    by (intro exI [of _ Free]) (simp add: init_fiber_mutex_def fm_items_def items_empty_list)
qed

interpretation fiber_mutex_refines:
  event_simulation fm_step "init_fiber_mutex h" queue_lock_spec "([], False)" fm_sim for h
  by unfold_locales (fact fm_sim_init, use fm_sim_step in \<open>simp add: fm_keeps_def\<close>)

definition fm_holds :: "fiber_mutex \<Rightarrow> addr \<Rightarrow> bool" where
  "fm_holds s f \<longleftrightarrow> fm_pc s f = FIn"

lemma fm_sim_exclusive: "fm_sim a s \<Longrightarrow> fm_holds s i \<Longrightarrow> fm_holds s j \<Longrightarrow> i = j"
  unfolding fm_sim_def fm_holds_def by (metis fm_invD(1) fm_holder.inject(1))

interpretation fiber_lock: lock_protocol fm_step "init_fiber_mutex h" "\<lambda>_ s. \<exists>a. fm_sim a s" fm_holds for h
proof
  show "\<exists>a. fm_sim a (init_fiber_mutex h)" using fm_sim_init by blast
next
  fix s c s' e
  assume "\<exists>a. fm_sim a s" and "fm_step c s = Some (s', e)"
  then show "\<exists>a. fm_sim a s'" using fm_sim_step unfolding fm_keeps_def by meson
next
  fix s i j
  assume "\<exists>a. fm_sim a s" "fm_holds s i" "fm_holds s j"
  then show "i = j" using fm_sim_exclusive by blast
qed

subsection \<open>Properties\<close>

lemma fm_waiting_after:
  assumes "fm_inv h s"
  shows "(case fm_abs h (fm_items s) of (q, inside) \<Rightarrow> if inside then tl q else q) =
    (case h of Giving u w \<Rightarrow> [w] | Given w \<Rightarrow> [w] | _ \<Rightarrow> []) @ fm_items s"
  using fm_invD(8) [OF assms] by (cases h) auto

text \<open>
  C7: In every interleaving of lock, unlock, scheduling, resumption and guard actions of any number of
  fibers, at most one fiber is inside \<open>AsyncMutex\<close>, acquisitions and releases alternate, the fibers
  enter in the order of their \<open>Lock\<close> calls with nobody lost (the announcements are the entries, then the
  at most one chosen waiter, then the list of parked waiters), and the only fault a fiber can run into is
  the double release in \<open>~Guard\<close>.\<close>
theorem fiber_mutex_correct:
  assumes "reach fm_step (init_fiber_mutex h) es s"
  shows "(\<forall>f g. fm_pc s f = FIn \<longrightarrow> fm_pc s g = FIn \<longrightarrow> f = g) \<and> alternates None es \<and>
    (\<exists>ws. announced es = acquired es @ ws @ fm_items s \<and> length ws \<le> 1) \<and>
    (\<forall>f e. fm_pc s f = FFault e \<longrightarrow> e = DoubleRelease)"
proof -
  obtain a where a: "reach queue_lock_spec ([], False) es a" "fm_sim a s"
    using fiber_mutex_refines.refines [OF assms] by blast
  then obtain k where k: "fm_inv k s" "a = fm_abs k (fm_items s)" by (auto simp: fm_sim_def)
  note q = queue_lock_fifo [OF a(1)]
  have "announced es = acquired es @ (case fm_abs k (fm_items s) of (q, inside) \<Rightarrow> if inside then tl q else q)"
    using q k(2) by (cases "fm_abs k (fm_items s)") simp
  then have "announced es = acquired es @ (case k of Giving u w \<Rightarrow> [w] | Given w \<Rightarrow> [w] | _ \<Rightarrow> []) @ fm_items s"
    by (simp only: fm_waiting_after [OF k(1)])
  moreover have "length (case k of Giving u w \<Rightarrow> [w] | Given w \<Rightarrow> [w] | _ \<Rightarrow> []) \<le> 1" by (cases k) auto
  moreover have "fm_pc s f = FIn \<Longrightarrow> fm_pc s g = FIn \<Longrightarrow> f = g" for f g
    using fm_sim_exclusive [OF a(2)] by (simp add: fm_holds_def)
  ultimately show ?thesis using q fm_invD(10) [OF k(1)] by blast
qed

theorem fiber_mutex_correct_witness:
  "\<exists>es s. reach fm_step (init_fiber_mutex (\<lambda>_. None)) es s \<and> announced es = [0, 1] \<and> acquired es = [0, 1] \<and>
     fm_pc s 1 = FIn \<and> (\<forall>f. fm_pc s f = FIn \<longrightarrow> f = 1)"
proof -
  have "run_ok fm_step [FmLock 0, FmLock 1, FmClear 1, FmUnlock 0, FmSchedule 0, FmResume 1] (init_fiber_mutex (\<lambda>_. None))
    (\<lambda>es s. announced es = [0, 1] \<and> acquired es = [0, 1] \<and> fm_pc s 1 = FIn)"
    by code_simp
  then obtain es s where "reach fm_step (init_fiber_mutex (\<lambda>_. None)) es s" "announced es = [0, 1]" "acquired es = [0, 1]"
    "fm_pc s 1 = FIn" by (elim run_okE) blast
  moreover note fiber_mutex_correct [OF this(1)]
  ultimately show ?thesis by blast
qed

end
