(* ===== verification/Fiber_Event.thy ===== *)
theory Fiber_Event
  imports Fiber_Sync
begin

text \<open>
  The event for fibers, \<^verbatim>\<open>src/fiber/sync/event.cpp\<close>, with its awaiter in \<^verbatim>\<open>src/fiber/awaiter/event_awaiter.h\<close>.

  \<open>Wait\<close> takes the spin lock and suspends; \<open>AwaitSuspend\<close> parks the waiter and unlocks, one step since the lock is held.
  \<open>Fire\<close> holds the spin lock (\<open>sys_lock\<close>) during its loop, each iteration of which is a step. The lock is a
  \<^verbatim>\<open>std::unique_lock\<close> that the waiter owns: its \<open>unlock\<close> first releases the spin lock and then notes that it does not own it any
  more (\<open>sys_clearing\<close> until then); a fiber that is resumed in between destroys the waiter and unlocks a second time, and the model
  ends there.

  The lemmas show that fibers are woken in the order they parked, only by a \<open>Fire\<close> that started after they parked, that \<open>Fire\<close> ends and
  wakes everybody, and that it is not remembered: a fiber that parks later stays parked until the next \<open>Fire\<close>.
\<close>

subsection \<open>The code\<close>

record fiber_event =
  ev_links :: links
  ev_waiters :: intrusive_list

datatype ev_pc = EvOut | EvParked | EvScheduled | EvFiring

record ev_system =
  sys_event :: fiber_event
  sys_lock :: ptr
  sys_clearing :: "addr \<Rightarrow> bool"
  sys_pc :: "addr \<Rightarrow> ev_pc"
  sys_fault :: "fault option"

datatype ev_event = EParks addr | EFires addr | EWakes addr | EFired addr | EPasses addr

datatype ev_choice = EvWait addr | EvFire addr | EvGo addr | EvClear addr | EvResume addr

definition init_ev_system :: "links \<Rightarrow> ev_system" where
  "init_ev_system h =
     \<lparr>sys_event = \<lparr>ev_links = h, ev_waiters = empty_list\<rparr>, sys_lock = None, sys_clearing = (\<lambda>_. False), sys_pc = (\<lambda>_. EvOut),
      sys_fault = None\<rparr>"

definition evto :: "addr \<Rightarrow> ev_pc \<Rightarrow> ev_system \<Rightarrow> ev_system" where
  "evto f p s = s\<lparr>sys_pc := (sys_pc s)(f := p)\<rparr>"

definition ev_Park :: "addr \<Rightarrow> fiber_event \<Rightarrow> fault + fiber_event" where
  "ev_Park f ev =
     bind_res (Push (Some f) (ev_links ev, ev_waiters ev)) (\<lambda>(h, l). Inr (ev\<lparr>ev_links := h, ev_waiters := l\<rparr>))"

definition ev_AwaitSuspend :: "addr \<Rightarrow> ev_system \<Rightarrow> ev_system \<times> ev_event list" where
  "ev_AwaitSuspend f s =
     (case ev_Park f (sys_event s) of
        Inl e \<Rightarrow> (s\<lparr>sys_fault := Some e\<rparr>, [])
      | Inr ev \<Rightarrow> (evto f EvParked (s\<lparr>sys_event := ev, sys_clearing := (sys_clearing s)(f := True)\<rparr>), [EParks f]))"

definition ev_Wait :: "addr \<Rightarrow> ev_system \<Rightarrow> ev_system \<times> ev_event list" where
  "ev_Wait f s =
     ev_AwaitSuspend f (s\<lparr>sys_event := (sys_event s)\<lparr>ev_links := fresh_waiter f (ev_links (sys_event s))\<rparr>\<rparr>)"

definition ev_Fire :: "addr \<Rightarrow> ev_system \<Rightarrow> ev_system \<times> ev_event list" where
  "ev_Fire d s = (evto d EvFiring (s\<lparr>sys_lock := Some d\<rparr>), [EFires d])"

definition waiter_scheduled :: "addr \<Rightarrow> ev_system \<Rightarrow> ev_system \<times> ev_event list" where
  "waiter_scheduled w s =
     (if sys_pc s w = EvParked then (evto w EvScheduled s, [EWakes w]) else (s\<lparr>sys_fault := Some AssertFailed\<rparr>, []))"

definition ev_Fire_next :: "addr \<Rightarrow> ev_system \<Rightarrow> ev_system \<times> ev_event list" where
  "ev_Fire_next d s =
     (if IsEmpty (ev_waiters (sys_event s)) then (evto d EvOut (s\<lparr>sys_lock := None\<rparr>), [EFired d])
      else case Pop (ev_links (sys_event s)) (ev_waiters (sys_event s)) of
             Inl e \<Rightarrow> (s\<lparr>sys_fault := Some e\<rparr>, [])
           | Inr (l, None) \<Rightarrow> (s\<lparr>sys_fault := Some NullDeref\<rparr>, [])
           | Inr (l, Some w) \<Rightarrow> waiter_scheduled w (s\<lparr>sys_event := (sys_event s)\<lparr>ev_waiters := l\<rparr>\<rparr>))"

definition ev_resumes :: "addr \<Rightarrow> ev_system \<Rightarrow> ev_system \<times> ev_event list" where
  "ev_resumes f s =
     (if sys_clearing s f then (s\<lparr>sys_fault := Some DoubleRelease\<rparr>, []) else (evto f EvOut s, [EPasses f]))"

definition ev_call :: "ev_choice \<Rightarrow> ev_system \<Rightarrow> (ev_system \<times> ev_event list) option" where
  "ev_call c s =
     (case c of
        EvWait f \<Rightarrow> if sys_pc s f = EvOut \<and> sys_lock s = None \<and> int f < 2 ^ 62 then Some (ev_Wait f s) else None
      | EvFire d \<Rightarrow> if sys_pc s d = EvOut \<and> sys_lock s = None then Some (ev_Fire d s) else None
      | EvGo d \<Rightarrow> if sys_pc s d = EvFiring then Some (ev_Fire_next d s) else None
      | EvClear f \<Rightarrow> if sys_clearing s f then Some (s\<lparr>sys_clearing := (sys_clearing s)(f := False)\<rparr>, []) else None
      | EvResume f \<Rightarrow> if sys_pc s f = EvScheduled then Some (ev_resumes f s) else None)"

definition ev_step :: "(ev_choice, ev_system, ev_event) stepper" where
  "ev_step c s = (if sys_fault s = None then ev_call c s else None)"

subsection \<open>Histories\<close>

fun ev_parked :: "ev_event list \<Rightarrow> addr list" where
  "ev_parked [] = []"
| "ev_parked (EParks f # es) = f # ev_parked es"
| "ev_parked (_ # es) = ev_parked es"

fun ev_woken :: "ev_event list \<Rightarrow> addr list" where
  "ev_woken [] = []"
| "ev_woken (EWakes f # es) = f # ev_woken es"
| "ev_woken (_ # es) = ev_woken es"

lemma ev_parked_append [simp]: "ev_parked (es @ fs) = ev_parked es @ ev_parked fs"
  by (induction es rule: ev_parked.induct) auto

lemma ev_woken_append [simp]: "ev_woken (es @ fs) = ev_woken es @ ev_woken fs"
  by (induction es rule: ev_woken.induct) auto

text \<open>A \<open>Fire\<close> started since a fiber parked for the last time.\<close>

definition fired_since :: "addr \<Rightarrow> ev_event list \<Rightarrow> bool" where
  "fired_since f es \<longleftrightarrow> (\<exists>xs d ys. es = xs @ EFires d # ys \<and> EParks f \<notin> set ys)"

definition woken_by_fire :: "ev_event list \<Rightarrow> bool" where
  "woken_by_fire es \<longleftrightarrow> (\<forall>xs f ys. es = xs @ EWakes f # ys \<longrightarrow> fired_since f xs)"

lemma fired_since_now: "fired_since f (es @ [EFires d])"
  unfolding fired_since_def by (intro exI [of _ es] exI [of _ d] exI [of _ "[]"]) simp

lemma fired_since_more: "fired_since f es \<Longrightarrow> EParks f \<notin> set e \<Longrightarrow> fired_since f (es @ e)"
  unfolding fired_since_def by fastforce

lemma fired_since_snoc:
  "fired_since f (es @ [e]) \<longleftrightarrow> (\<exists>d. e = EFires d) \<or> fired_since f es \<and> e \<noteq> EParks f"
proof
  assume "fired_since f (es @ [e])"
  then obtain xs d ys where eq: "es @ [e] = xs @ EFires d # ys" "EParks f \<notin> set ys" by (auto simp: fired_since_def)
  show "(\<exists>d. e = EFires d) \<or> fired_since f es \<and> e \<noteq> EParks f"
  proof (cases ys rule: rev_cases)
    case (snoc zs z)
    then show ?thesis using eq by (auto simp: fired_since_def)
  qed (use eq in auto)
next
  assume "(\<exists>d. e = EFires d) \<or> fired_since f es \<and> e \<noteq> EParks f"
  then show "fired_since f (es @ [e])" using fired_since_now fired_since_more [of f es "[e]"] by auto
qed

lemma woken_by_fire_snoc:
  assumes "woken_by_fire es" and "\<And>f. e = EWakes f \<Longrightarrow> fired_since f es"
  shows "woken_by_fire (es @ [e])"
  unfolding woken_by_fire_def
proof (intro allI impI)
  fix xs f ys
  assume eq: "es @ [e] = xs @ EWakes f # ys"
  show "fired_since f xs"
  proof (cases ys rule: rev_cases)
    case (snoc zs z)
    then show ?thesis using eq assms(1) by (auto simp: woken_by_fire_def)
  qed (use eq assms(2) in auto)
qed

subsection \<open>The invariant\<close>

definition ev_items :: "ev_system \<Rightarrow> addr list" where
  "ev_items s = items (ev_links (sys_event s)) (ev_waiters (sys_event s))"

definition ev_state_inv :: "ev_system \<Rightarrow> bool" where
  "ev_state_inv s \<longleftrightarrow> il_inv (ev_links (sys_event s)) (ev_waiters (sys_event s)) \<and> (\<forall>f \<in> set (ev_items s). f < 2 ^ 62) \<and>
     (\<forall>f. sys_pc s f = EvParked \<longleftrightarrow> f \<in> set (ev_items s)) \<and> (\<forall>d. sys_pc s d = EvFiring \<longleftrightarrow> sys_lock s = Some d) \<and>
     sys_fault s \<in> {None, Some DoubleRelease}"

definition ev_history_inv :: "ev_event list \<Rightarrow> ev_system \<Rightarrow> bool" where
  "ev_history_inv es s \<longleftrightarrow> ev_parked es = ev_woken es @ ev_items s \<and> woken_by_fire es \<and>
     (\<forall>f \<in> set (ev_items s). sys_lock s \<noteq> None \<longrightarrow> fired_since f es) \<and>
     (\<forall>f. EParks f \<in> set es \<and> \<not> fired_since f es \<longrightarrow> f \<in> set (ev_items s))"

definition ev_inv :: "ev_event list \<Rightarrow> ev_system \<Rightarrow> bool" where
  "ev_inv es s \<longleftrightarrow> ev_state_inv s \<and> ev_history_inv es s"

lemma ev_state_invD:
  assumes "ev_state_inv s"
  shows "il_inv (ev_links (sys_event s)) (ev_waiters (sys_event s))" "f \<in> set (ev_items s) \<Longrightarrow> f < 2 ^ 62"
    "sys_pc s f = EvParked \<longleftrightarrow> f \<in> set (ev_items s)" "sys_pc s d = EvFiring \<longleftrightarrow> sys_lock s = Some d"
    "sys_fault s \<in> {None, Some DoubleRelease}"
  using assms unfolding ev_state_inv_def by blast+

lemma ev_items_short:
  assumes "ev_state_inv s"
  shows "length (ev_items s) + 1 < 2 ^ 64"
proof -
  have "distinct (ev_items s)" using ev_state_invD(1) [OF assms] by (simp add: il_inv_def ev_items_def)
  then have "length (ev_items s) = card (set (ev_items s))" by (simp add: distinct_card)
  also have "\<dots> \<le> card {..<(2::nat) ^ 62}" using ev_state_invD(2) [OF assms] by (intro card_mono) auto
  finally show ?thesis by simp
qed

lemma ev_wait_ok:
  assumes inv: "ev_state_inv s" and f: "sys_pc s f = EvOut" "f < 2 ^ 62"
  obtains s' where "ev_Wait f s = (s', [EParks f])" "ev_state_inv s'" "ev_items s' = ev_items s @ [f]" "sys_lock s' = sys_lock s"
proof -
  let ?ev = "sys_event s"
  have nf: "f \<notin> set (items (ev_links ?ev) (ev_waiters ?ev))" using ev_state_invD(3) [OF inv, of f] f by (simp add: ev_items_def)
  have fr: "il_inv (fresh_waiter f (ev_links ?ev)) (ev_waiters ?ev)" "items (fresh_waiter f (ev_links ?ev)) (ev_waiters ?ev) = ev_items s"
    using ev_state_invD(1) [OF inv] nf by (simp_all add: fresh_waiter_def ev_items_def il_inv_upd_notin items_upd_notin)
  obtain h l where p: "Push (Some f) (fresh_waiter f (ev_links ?ev), ev_waiters ?ev) = Inr (h, l)" "il_inv h l" "items h l = ev_items s @ [f]"
    using Push_ok [OF fr(1), of f] nf fr(2) ev_items_short [OF inv] unfolding ev_items_def by metis
  let ?s = "evto f EvParked (s\<lparr>sys_event := ?ev\<lparr>ev_links := h, ev_waiters := l\<rparr>, sys_clearing := (sys_clearing s)(f := True)\<rparr>)"
  have "ev_Wait f s = (?s, [EParks f])" using p(1) by (simp add: ev_Wait_def ev_AwaitSuspend_def ev_Park_def)
  moreover have "ev_items ?s = ev_items s @ [f]" "sys_lock ?s = sys_lock s" using p(3) by (simp_all add: ev_items_def evto_def)
  moreover have "sys_lock s \<noteq> Some f" using ev_state_invD(4) [OF inv, of f] f by auto
  then have "ev_state_inv ?s"
    using inv p(2) f calculation(2) unfolding ev_state_inv_def by (auto simp: evto_def)
  ultimately show thesis using that by blast
qed

lemma ev_next_ok:
  assumes inv: "ev_state_inv s" and pc: "sys_pc s d = EvFiring"
  obtains
    (finish) s' where "ev_items s = []" "ev_Fire_next d s = (s', [EFired d])" "ev_state_inv s'" "ev_items s' = []" "sys_lock s' = None"
      "sys_pc s' = (sys_pc s)(d := EvOut)" "sys_fault s' = sys_fault s"
  | (wake) w ws s' where "ev_items s = w # ws" "ev_Fire_next d s = (s', [EWakes w])" "ev_state_inv s'" "ev_items s' = ws"
      "sys_lock s' = sys_lock s" "sys_pc s' = (sys_pc s)(w := EvScheduled)" "sys_fault s' = sys_fault s" "w \<noteq> d"
proof (cases "ev_items s")
  case Nil
  let ?s = "evto d EvOut (s\<lparr>sys_lock := None\<rparr>)"
  have "ev_Fire_next d s = (?s, [EFired d])"
    using Nil IsEmpty_iff [OF ev_state_invD(1) [OF inv]] by (simp add: ev_Fire_next_def ev_items_def)
  moreover have "sys_lock s = Some d" using ev_state_invD(4) [OF inv, of d] pc by simp
  then have "ev_state_inv ?s" using inv pc Nil unfolding ev_state_inv_def by (auto simp: evto_def ev_items_def)
  ultimately show thesis using finish Nil by (simp add: evto_def ev_items_def)
next
  case (Cons w ws)
  let ?ev = "sys_event s"
  note il = ev_state_invD(1) [OF inv]
  obtain l where l: "Pop (ev_links ?ev) (ev_waiters ?ev) = Inr (l, Some w)" "il_inv (ev_links ?ev) l" "items (ev_links ?ev) l = ws"
    using Pop_cons [OF il, of w ws] Cons unfolding ev_items_def by metis
  have w: "sys_pc s w = EvParked" using ev_state_invD(3) [OF inv, of w] Cons by simp
  let ?s = "evto w EvScheduled (s\<lparr>sys_event := ?ev\<lparr>ev_waiters := l\<rparr>\<rparr>)"
  have "\<not> IsEmpty (ev_waiters ?ev)" using Cons IsEmpty_iff [OF il] by (simp add: ev_items_def)
  then have "ev_Fire_next d s = (?s, [EWakes w])" using l(1) w by (simp add: ev_Fire_next_def waiter_scheduled_def)
  moreover have "sys_lock s \<noteq> Some w" using ev_state_invD(4) [OF inv, of w] w by auto
  moreover have "distinct (w # ws)" using il Cons by (simp add: il_inv_def ev_items_def)
  ultimately have "ev_Fire_next d s = (?s, [EWakes w])" "ev_state_inv ?s" using inv l w Cons unfolding ev_state_inv_def by (auto simp: evto_def ev_items_def)
  moreover have "w \<noteq> d" using w pc by auto
  ultimately show thesis using wake [of w ws ?s] Cons l(3) by (simp add: evto_def ev_items_def)
qed

text \<open>What an event does to the history part of the invariant.\<close>

lemma ev_history_events:
  assumes inv: "ev_history_inv es s"
  shows "ev_items s' = ev_items s @ [f] \<Longrightarrow> sys_lock s' = None \<Longrightarrow> ev_history_inv (es @ [EParks f]) s'"
    "ev_items s' = ev_items s \<Longrightarrow> ev_history_inv (es @ [EFires d]) s'"
    "ev_items s = w # ev_items s' \<Longrightarrow> sys_lock s \<noteq> None \<Longrightarrow> ev_history_inv (es @ [EWakes w]) s'"
    "ev_items s' = ev_items s \<Longrightarrow> sys_lock s' = None \<Longrightarrow> ev_history_inv (es @ [EFired d]) s'"
    "ev_items s' = ev_items s \<Longrightarrow> sys_lock s' = sys_lock s \<Longrightarrow> ev_history_inv (es @ [EPasses f]) s'"
    "ev_items s' = ev_items s \<Longrightarrow> sys_lock s' = sys_lock s \<Longrightarrow> ev_history_inv es s'"
  using inv woken_by_fire_snoc unfolding ev_history_inv_def by (auto simp: fired_since_snoc)

lemma ev_inv_step:
  assumes inv: "ev_inv es s" and "ev_step c s = Some (s', e)"
  shows "ev_inv (es @ e) s'"
proof -
  have st: "ev_call c s = Some (s', e)" using assms(2) by (auto simp: ev_step_def split: if_splits)
  have si: "ev_state_inv s" and hi: "ev_history_inv es s" using inv by (simp_all add: ev_inv_def)
  note h = ev_history_events [OF hi]
  show ?thesis
  proof (cases c)
    case (EvWait f)
    with st have f: "sys_pc s f = EvOut" "f < 2 ^ 62" "sys_lock s = None" "ev_Wait f s = (s', e)" by (auto simp: ev_call_def split: if_splits)
    obtain t where t: "ev_Wait f s = (t, [EParks f])" "ev_state_inv t" "ev_items t = ev_items s @ [f]" "sys_lock t = sys_lock s"
      using ev_wait_ok [OF si f(1,2)] by blast
    with f(3,4) h(1) [of t f] show ?thesis by (auto simp: ev_inv_def)
  next
    case (EvFire d)
    with st have d: "sys_pc s d = EvOut" "sys_lock s = None" "s' = evto d EvFiring (s\<lparr>sys_lock := Some d\<rparr>)" "e = [EFires d]"
      by (auto simp: ev_call_def ev_Fire_def split: if_splits)
    have it: "ev_items s' = ev_items s" by (simp add: d(3) ev_items_def evto_def)
    have "d \<notin> set (ev_items s)" using ev_state_invD(3) [OF si, of d] d(1) by simp
    then have "ev_state_inv s'" using si d(1,2) it unfolding ev_state_inv_def d(3) by (auto simp: evto_def)
    with h(2) [OF it] d(4) show ?thesis by (simp add: ev_inv_def)
  next
    case (EvGo d)
    with st have d: "sys_pc s d = EvFiring" "ev_Fire_next d s = (s', e)" by (auto simp: ev_call_def split: if_splits)
    then have "sys_lock s \<noteq> None" using ev_state_invD(4) [OF si, of d] by simp
    then show ?thesis using ev_next_ok [OF si d(1), of ?thesis] d(2) h(3) [of _ s'] h(4) [of s' d] unfolding ev_inv_def by auto
  next
    case (EvClear f)
    with st have s': "s' = s\<lparr>sys_clearing := (sys_clearing s)(f := False)\<rparr>" "e = []" by (auto simp: ev_call_def split: if_splits)
    have it: "ev_items s' = ev_items s" "sys_lock s' = sys_lock s" by (simp_all add: s' ev_items_def)
    have "ev_state_inv s'" using si it unfolding ev_state_inv_def s' by auto
    with h(6) [OF it] s'(2) show ?thesis by (simp add: ev_inv_def)
  next
    case (EvResume f)
    with st have f: "sys_pc s f = EvScheduled" "ev_resumes f s = (s', e)" by (auto simp: ev_call_def split: if_splits)
    then have it: "ev_items s' = ev_items s" "sys_lock s' = sys_lock s" by (auto simp: ev_resumes_def ev_items_def evto_def split: if_splits)
    have "sys_lock s \<noteq> Some f" using ev_state_invD(4) [OF si, of f] f(1) by auto
    moreover have "f \<notin> set (ev_items s)" using ev_state_invD(3) [OF si, of f] f(1) by simp
    ultimately have "ev_state_inv s'" using si it f unfolding ev_state_inv_def by (auto simp: ev_resumes_def evto_def split: if_splits)
    with h(5,6) [OF it] f show ?thesis by (auto simp: ev_inv_def ev_resumes_def split: if_splits)
  qed
qed

interpretation fiber_events: step_invariant ev_step "init_ev_system h" ev_inv for h
  by unfold_locales
    (simp add: ev_inv_def ev_state_inv_def ev_history_inv_def init_ev_system_def ev_items_def items_empty_list il_inv_empty_list woken_by_fire_def,
     erule (1) ev_inv_step)

subsection \<open>The loop of Fire ends\<close>

lemma ev_fire_runs:
  "ev_state_inv s \<Longrightarrow> sys_fault s = None \<Longrightarrow> sys_pc s d = EvFiring \<Longrightarrow> ev_items s = xs \<Longrightarrow>
   \<exists>s'. sched ev_step (replicate (length xs + 1) (EvGo d)) s = Some (s', map EWakes xs @ [EFired d]) \<and> sys_fault s' = None \<and>
     ev_items s' = [] \<and> sys_lock s' = None \<and> (\<forall>f. f \<noteq> d \<longrightarrow> sys_pc s' f = (if f \<in> set xs then EvScheduled else sys_pc s f))"
proof (induction xs arbitrary: s)
  case Nil
  from ev_next_ok [OF Nil.prems(1,3)] Nil.prems show ?case
    by cases (auto simp: ev_step_def ev_call_def)
next
  case (Cons w ws)
  from ev_next_ok [OF Cons.prems(1,3)] Cons.prems(4) obtain t where
    t: "ev_Fire_next d s = (t, [EWakes w])" "ev_state_inv t" "ev_items t = ws" "sys_pc t = (sys_pc s)(w := EvScheduled)"
      "sys_fault t = sys_fault s" "w \<noteq> d" by cases auto
  have "w \<notin> set ws" using ev_state_invD(1) [OF Cons.prems(1)] Cons.prems(4) by (simp add: il_inv_def ev_items_def)
  have "ev_step (EvGo d) s = Some (t, [EWakes w])" using t(1) Cons.prems by (simp add: ev_step_def ev_call_def)
  moreover have "sys_fault t = None" "sys_pc t d = EvFiring" using t Cons.prems by auto
  then obtain s' where "sched ev_step (replicate (length ws + 1) (EvGo d)) t = Some (s', map EWakes ws @ [EFired d])" "sys_fault s' = None"
     "ev_items s' = []" "sys_lock s' = None" "\<forall>f. f \<noteq> d \<longrightarrow> sys_pc s' f = (if f \<in> set ws then EvScheduled else sys_pc t f)"
    using Cons.IH [OF t(2) _ _ t(3)] by blast
  ultimately show ?case using t(4) by (intro exI [of _ s']) auto
qed

subsection \<open>Properties\<close>

text \<open>
  C35: In every interleaving of \<open>Wait\<close>, \<open>Fire\<close> and resumed fibers, an \<open>Event\<close> wakes fibers in the order they parked, each once, the
  ones still missing being exactly the parked ones of the list; each wake-up is due to a \<open>Fire\<close> that started after the fiber parked; a
  fiber that parked after the last \<open>Fire\<close> started stays parked, so the event does not remember that it was
  fired; at most one \<open>Fire\<close> runs its loop; and the only fault is the second unlock of a waiter's guard.\<close>
theorem event_correct:
  assumes "reach ev_step (init_ev_system h) es s"
  shows "ev_parked es = ev_woken es @ ev_items s \<and> (\<forall>f. sys_pc s f = EvParked \<longleftrightarrow> f \<in> set (ev_items s)) \<and> woken_by_fire es \<and>
    (\<forall>f. EParks f \<in> set es \<and> \<not> fired_since f es \<longrightarrow> sys_pc s f = EvParked) \<and>
    (\<forall>d e. sys_pc s d = EvFiring \<longrightarrow> sys_pc s e = EvFiring \<longrightarrow> d = e) \<and> sys_fault s \<in> {None, Some DoubleRelease}"
proof -
  have "ev_inv es s" by (rule fiber_events.reach_inv [OF assms])
  then have si: "ev_state_inv s" and hi: "ev_history_inv es s" by (simp_all add: ev_inv_def)
  show ?thesis using ev_state_invD(3-5) [OF si] hi unfolding ev_history_inv_def by auto
qed

theorem event_correct_witness:
  "\<exists>es s. reach ev_step (init_ev_system (\<lambda>_. None)) es s \<and>
     es = [EParks 3, EParks 5, EFires 7, EWakes 3, EWakes 5, EFired 7, EPasses 3, EParks 3] \<and> fired_since 5 [EParks 3, EParks 5, EFires 7, EWakes 3] \<and>
     sys_pc s 3 = EvParked \<and> ev_items s = [3]"
proof -
  have "run_ok ev_step [EvWait 3, EvWait 5, EvClear 3, EvFire 7, EvGo 7, EvGo 7, EvGo 7, EvResume 3, EvWait 3] (init_ev_system (\<lambda>_. None))
    (\<lambda>es s. es = [EParks 3, EParks 5, EFires 7, EWakes 3, EWakes 5, EFired 7, EPasses 3, EParks 3] \<and> ev_items s = [3])"
    by code_simp
  then obtain es s where r: "reach ev_step (init_ev_system (\<lambda>_. None)) es s"
    "es = [EParks 3, EParks 5, EFires 7, EWakes 3, EWakes 5, EFired 7, EPasses 3, EParks 3]" "ev_items s = [3]" by (elim run_okE) blast
  note e = event_correct [OF r(1)]
  have "es = [EParks 3, EParks 5, EFires 7, EWakes 3] @ EWakes 5 # [EFired 7, EPasses 3, EParks 3]" using r(2) by simp
  then have "fired_since 5 [EParks 3, EParks 5, EFires 7, EWakes 3]" using e unfolding woken_by_fire_def by blast
  moreover have "sys_pc s 3 = EvParked" using e r(3) by simp
  ultimately show ?thesis using r by blast
qed

text \<open>
  \<open>Fire\<close> returns: it takes one step to lock, one for each parked fiber and one to unlock, and has then scheduled every parked fiber,
  in the order of the list, which is empty.\<close>
lemma event_fire_wakes_all:
  assumes "reach ev_step (init_ev_system h) es s" and "sys_fault s = None" and "sys_pc s d = EvOut" and "sys_lock s = None"
  shows "\<exists>s'. sched ev_step (EvFire d # replicate (length (ev_items s) + 1) (EvGo d)) s =
      Some (s', EFires d # map EWakes (ev_items s) @ [EFired d]) \<and>
    sys_fault s' = None \<and> sys_lock s' = None \<and> ev_items s' = [] \<and> (\<forall>f \<in> set (ev_items s). sys_pc s' f = EvScheduled)"
proof -
  have inv: "ev_inv es s" by (rule fiber_events.reach_inv [OF assms(1)])
  let ?s = "evto d EvFiring (s\<lparr>sys_lock := Some d\<rparr>)"
  have st: "ev_step (EvFire d) s = Some (?s, [EFires d])" using assms(2-4) by (simp add: ev_step_def ev_call_def ev_Fire_def)
  have "ev_state_inv ?s" using ev_inv_step [OF inv st] by (simp add: ev_inv_def)
  moreover have "sys_fault ?s = None" "sys_pc ?s d = EvFiring" "ev_items ?s = ev_items s" using assms(2) by (simp_all add: evto_def ev_items_def)
  ultimately obtain s' where r: "sched ev_step (replicate (length (ev_items s) + 1) (EvGo d)) ?s = Some (s', map EWakes (ev_items s) @ [EFired d])"
    "sys_fault s' = None" "ev_items s' = []" "sys_lock s' = None" "\<forall>f. f \<noteq> d \<longrightarrow> sys_pc s' f = (if f \<in> set (ev_items s) then EvScheduled else sys_pc ?s f)"
    using ev_fire_runs [of ?s d] by blast
  have "f \<noteq> d" if "f \<in> set (ev_items s)" for f
    using that assms(3) inv ev_state_invD(3) [of s f] by (auto simp: ev_inv_def)
  then show ?thesis using st r by (intro exI [of _ s']) (auto simp del: replicate.simps)
qed

end
