(* ===== verification/Wait_Group.thy ===== *)
theory Wait_Group
  imports Fiber_Sync
begin

text \<open>
  The wait group for fibers, \<^verbatim>\<open>src/fiber/sync/wait_group.cpp\<close>, with its awaiter in
  \<^verbatim>\<open>src/fiber/awaiter/wait_group_awaiter.h\<close>.

  Fibers (and threads that only call \<open>Add\<close> and \<open>Done\<close>) are the actors. A critical section under the spin lock is one step, as in
  \<open>Fiber_Sync\<close>; the loop of \<open>Done\<close>, which runs after the lock is released, reads the link of a waiter and
  schedules it in two steps, so that several loops, new \<open>Wait\<close> calls and resumed fibers interleave with it. The nodes of the waiters
  are linked through one store: a loop follows the links of nodes that live on the stacks of parked fibers.
  As in \<open>Fiber_Sync\<close>, the flag of a parked guard is cleared after the lock was given up; a fiber resumed before that releases the lock
  a second time, and the model ends there.

  The client keeps the counter in range: \<open>Add\<close> does not overflow it and \<open>Done\<close> is not called at zero.

  \<open>wg_spec\<close> is the contract: a counter and, for every fiber, whether it waits for the counter to become zero, was freed by that, or was
  woken. The lemmas show that the code refines it, and that the last \<open>Done\<close> wakes every waiter.
\<close>

subsection \<open>Lists that end in a null link\<close>

fun links_to :: "links \<Rightarrow> ptr \<Rightarrow> addr list \<Rightarrow> bool" where
  "links_to h p [] \<longleftrightarrow> p = None"
| "links_to h p (x # xs) \<longleftrightarrow> p = Some x \<and> links_to h (h x) xs"

definition ended_list :: "links \<Rightarrow> intrusive_list \<Rightarrow> bool" where
  "ended_list h l \<longleftrightarrow> il_inv h l \<and> (items h l \<noteq> [] \<longrightarrow> h (last (items h l)) = None)"

lemma links_to_frame: "(\<And>x. x \<in> set xs \<Longrightarrow> h' x = h x) \<Longrightarrow> links_to h' p xs \<longleftrightarrow> links_to h p xs"
  by (induction xs arbitrary: p) auto

lemma chain_links_to:
  "chain h p n = xs \<Longrightarrow> length xs = n \<Longrightarrow> (xs = [] \<Longrightarrow> p = None) \<Longrightarrow> (xs \<noteq> [] \<Longrightarrow> h (last xs) = None) \<Longrightarrow> links_to h p xs"
proof (induction h p n arbitrary: xs rule: chain.induct)
  case (3 h a n)
  let ?ys = "chain h (h a) n"
  have xs: "xs = a # ?ys" "length ?ys = n" using "3.prems"(1,2) by auto
  have "h a = None" if "?ys = []" using "3.prems"(4) xs that by simp
  moreover have "h (last ?ys) = None" if "?ys \<noteq> []" using "3.prems"(4) xs that by simp
  ultimately have "links_to h (h a) ?ys" using "3.IH" xs(2) by blast
  then show ?case using xs(1) by simp
qed simp_all

lemma ended_list_links_to:
  assumes "ended_list h l"
  shows "links_to h (il_head l) (items h l)"
proof (rule chain_links_to)
  have inv: "il_inv h l" using assms by (simp add: ended_list_def)
  show "chain h (il_head l) (unat (il_size l)) = items h l" by (simp add: items_def)
  show "length (items h l) = unat (il_size l)" using inv by (simp add: il_inv_def)
  show "il_head l = None" if "items h l = []" using il_inv_head [OF inv] that by simp
  show "h (last (items h l)) = None" if "items h l \<noteq> []" using assms that by (simp add: ended_list_def)
qed

lemma ended_list_empty: "ended_list h empty_list" and ended_list_Clear: "ended_list h (Clear l)"
  using Clear_ok by (auto simp: ended_list_def il_inv_empty_list items_empty_list)

lemma ended_list_frame:
  assumes "ended_list h l" and "f \<notin> set (items h l)"
  shows "ended_list (h(f := q)) l" "items (h(f := q)) l = items h l"
  using assms last_in_set by (fastforce simp: ended_list_def il_inv_upd_notin items_upd_notin)+

lemma ended_list_Pop:
  assumes "ended_list h l" and "items h l = w # ws"
  obtains l' where "Pop h l = Inr (l', Some w)" "ended_list h l'" "items h l' = ws" "\<not> IsEmpty l"
proof -
  obtain l' where "Pop h l = Inr (l', Some w)" "il_inv h l'" "items h l' = ws"
    using assms Pop_cons unfolding ended_list_def by metis
  moreover have "ended_list h l'" using assms calculation by (auto simp: ended_list_def)
  moreover have "\<not> IsEmpty l" using assms IsEmpty_iff [of h l] by (auto simp: ended_list_def)
  ultimately show thesis using that by blast
qed

text \<open>Parking the waiter of a fiber that is not in the list.\<close>

lemma ended_list_park:
  assumes "ended_list h l" and "f \<notin> set (items h l)" and "length (items h l) + 1 < 2 ^ 64"
  obtains h' l' where "Push (Some f) (fresh_waiter f h, l) = Inr (h', l')" "ended_list h' l'" "items h' l' = items h l @ [f]"
    "\<And>x. x \<notin> set (items h l) \<Longrightarrow> x \<noteq> f \<Longrightarrow> h' x = h x"
proof -
  note fr = ended_list_frame [OF assms(1,2), of None]
  obtain h' l' where p: "Push (Some f) (h(f := None), l) = Inr (h', l')" "il_inv h' l'" "items h' l' = items h l @ [f]"
    "h' = h(f := None) \<or> (\<exists>a \<in> set (items h l). h' = (h(f := None))(a := Some f))"
    using Push_ok [of "h(f := None)" l f] fr assms(2,3) unfolding ended_list_def by metis
  have "h' f = None" using p(4) assms(2) by auto
  then have "ended_list h' l'" using p(2,3) by (simp add: ended_list_def)
  moreover have "h' x = h x" if "x \<notin> set (items h l)" "x \<noteq> f" for x using p(4) that by auto
  ultimately show thesis using that p(1,3) by (simp add: fresh_waiter_def)
qed

subsection \<open>The code\<close>

record wait_group =
  wg_counter :: size_t
  wg_links :: links
  wg_waiters :: intrusive_list

datatype wg_pc =
    WgOut
  | WgParked                \<comment> \<open>the handle in the waiter is valid\<close>
  | WgScheduled
  | WgLoop ptr              \<comment> \<open>\<open>Done\<close>: next is \<open>while (wg_waiter)\<close>\<close>
  | WgSched addr ptr        \<comment> \<open>\<open>Done\<close>: the waiter and its \<open>next\<close>; next is \<open>Schedule\<close>\<close>

record wg_system =
  ws_group :: wait_group
  ws_clearing :: "addr \<Rightarrow> bool"
  ws_pc :: "addr \<Rightarrow> wg_pc"
  ws_fault :: "fault option"

datatype wg_event = WAdded nat | WDone addr | WParks addr | WWakes addr | WPasses addr

datatype wg_choice = WgAdd size_t | WgDone addr | WgGo addr | WgWait addr | WgClear addr | WgResume addr

definition init_wait_group :: "links \<Rightarrow> wait_group" where
  "init_wait_group h = \<lparr>wg_counter = 0, wg_links = h, wg_waiters = empty_list\<rparr>"

definition init_wg_system :: "links \<Rightarrow> wg_system" where
  "init_wg_system h = \<lparr>ws_group = init_wait_group h, ws_clearing = (\<lambda>_. False), ws_pc = (\<lambda>_. WgOut), ws_fault = None\<rparr>"

definition wgto :: "addr \<Rightarrow> wg_pc \<Rightarrow> wg_system \<Rightarrow> wg_system" where
  "wgto f p s = s\<lparr>ws_pc := (ws_pc s)(f := p)\<rparr>"

definition wg_Add :: "size_t \<Rightarrow> wait_group \<Rightarrow> wait_group" where
  "wg_Add n g = g\<lparr>wg_counter := wg_counter g + n\<rparr>"

definition wg_Park :: "addr \<Rightarrow> wait_group \<Rightarrow> fault + wait_group" where
  "wg_Park f g =
     bind_res (Push (Some f) (wg_links g, wg_waiters g)) (\<lambda>(h, l). Inr (g\<lparr>wg_links := h, wg_waiters := l\<rparr>))"

text \<open>\<open>AwaitSuspend\<close> parks the waiter and gives the lock up; the flag of the guard is still to be cleared.\<close>

definition wg_AwaitSuspend :: "addr \<Rightarrow> wg_system \<Rightarrow> wg_system \<times> wg_event list" where
  "wg_AwaitSuspend f s =
     (case wg_Park f (ws_group s) of
        Inl e \<Rightarrow> (s\<lparr>ws_fault := Some e\<rparr>, [])
      | Inr g \<Rightarrow> (wgto f WgParked (s\<lparr>ws_group := g, ws_clearing := (ws_clearing s)(f := True)\<rparr>), [WParks f]))"

definition wg_Wait :: "addr \<Rightarrow> wg_system \<Rightarrow> wg_system \<times> wg_event list" where
  "wg_Wait f s =
     (let g = ws_group s in
      if wg_counter g > 0 then wg_AwaitSuspend f (s\<lparr>ws_group := g\<lparr>wg_links := fresh_waiter f (wg_links g)\<rparr>\<rparr>)
      else (s, [WPasses f]))"

text \<open>The critical section of \<open>Done\<close>.\<close>

definition wg_Done :: "addr \<Rightarrow> wg_system \<Rightarrow> wg_system \<times> wg_event list" where
  "wg_Done d s =
     (let g = (ws_group s)\<lparr>wg_counter := wg_counter (ws_group s) - 1\<rparr> in
      if 0 = wg_counter g then
        (case Pop (wg_links g) (wg_waiters g) of
           Inl e \<Rightarrow> (s\<lparr>ws_fault := Some e\<rparr>, [])
         | Inr (l, w) \<Rightarrow> (wgto d (WgLoop w) (s\<lparr>ws_group := g\<lparr>wg_waiters := Clear l\<rparr>\<rparr>), [WDone d]))
      else (s\<lparr>ws_group := g\<rparr>, [WDone d]))"

text \<open>The loop of \<open>Done\<close>: the test and the read of \<open>next\<close>, then \<open>Schedule\<close>, which asserts that the handle is valid and takes it.\<close>

definition wg_Done_next :: "addr \<Rightarrow> ptr \<Rightarrow> wg_system \<Rightarrow> wg_system" where
  "wg_Done_next d w s =
     (case w of None \<Rightarrow> wgto d WgOut s | Some a \<Rightarrow> wgto d (WgSched a (Next (wg_links (ws_group s)) a)) s)"

definition wg_Done_schedule :: "addr \<Rightarrow> addr \<Rightarrow> ptr \<Rightarrow> wg_system \<Rightarrow> wg_system \<times> wg_event list" where
  "wg_Done_schedule d a nx s =
     (if ws_pc s a = WgParked then (wgto a WgScheduled (wgto d (WgLoop nx) s), [WWakes a])
      else (s\<lparr>ws_fault := Some AssertFailed\<rparr>, []))"

definition wg_go :: "addr \<Rightarrow> wg_system \<Rightarrow> (wg_system \<times> wg_event list) option" where
  "wg_go d s =
     (case ws_pc s d of
        WgLoop w \<Rightarrow> Some (wg_Done_next d w s, [])
      | WgSched a nx \<Rightarrow> Some (wg_Done_schedule d a nx s)
      | _ \<Rightarrow> None)"

text \<open>The resumed fiber leaves \<open>Wait\<close> and destroys its guard.\<close>

definition wg_resumes :: "addr \<Rightarrow> wg_system \<Rightarrow> wg_system \<times> wg_event list" where
  "wg_resumes f s =
     (if ws_clearing s f then (s\<lparr>ws_fault := Some DoubleRelease\<rparr>, []) else (wgto f WgOut s, [WPasses f]))"

definition destroy_WaitGroup :: "wait_group \<Rightarrow> fault + unit" where
  "destroy_WaitGroup g = (if IsEmpty (wg_waiters g) then Inr () else Inl AssertFailed)"

definition wg_call :: "wg_choice \<Rightarrow> wg_system \<Rightarrow> (wg_system \<times> wg_event list) option" where
  "wg_call c s =
     (case c of
        WgAdd n \<Rightarrow>
          (if uint (wg_counter (ws_group s)) + uint n < 2 ^ 64
           then Some (s\<lparr>ws_group := wg_Add n (ws_group s)\<rparr>, [WAdded (unat n)]) else None)
      | WgDone d \<Rightarrow> if ws_pc s d = WgOut \<and> wg_counter (ws_group s) \<noteq> 0 then Some (wg_Done d s) else None
      | WgGo d \<Rightarrow> wg_go d s
      | WgWait f \<Rightarrow> if ws_pc s f = WgOut \<and> int f < 2 ^ 62 then Some (wg_Wait f s) else None
      | WgClear f \<Rightarrow> if ws_clearing s f then Some (s\<lparr>ws_clearing := (ws_clearing s)(f := False)\<rparr>, []) else None
      | WgResume f \<Rightarrow> if ws_pc s f = WgScheduled then Some (wg_resumes f s) else None)"

definition wg_step :: "(wg_choice, wg_system, wg_event) stepper" where
  "wg_step c s = (if ws_fault s = None then wg_call c s else None)"

lemmas wg_defs = wg_AwaitSuspend_def wg_Wait_def wg_Done_def wg_Done_next_def wg_Done_schedule_def wg_resumes_def wgto_def

subsection \<open>The contract\<close>

datatype wait_phase = Away | AwaitsZero | Freed | Woken

fun wg_spec :: "(wg_event, nat \<times> (addr \<Rightarrow> wait_phase), wg_event) stepper" where
  "wg_spec (WAdded n) (c, ph) = Some ((c + n, ph), [WAdded n])"
| "wg_spec (WDone d) (c, ph) =
     (if c = 0 then None
      else Some ((c - 1, if c = 1 then (\<lambda>f. if ph f = AwaitsZero then Freed else ph f) else ph), [WDone d]))"
| "wg_spec (WParks f) (c, ph) =
     (if c > 0 \<and> ph f = Away then Some ((c, ph(f := AwaitsZero)), [WParks f]) else None)"
| "wg_spec (WWakes f) (c, ph) = (if ph f = Freed then Some ((c, ph(f := Woken)), [WWakes f]) else None)"
| "wg_spec (WPasses f) (c, ph) =
     (if ph f = Woken \<or> ph f = Away \<and> c = 0 then Some ((c, ph(f := Away)), [WPasses f]) else None)"

text \<open>The counter after a history, and that it was zero at a moment since a fiber parked for the last time.\<close>

fun level :: "wg_event list \<Rightarrow> int" where
  "level [] = 0"
| "level (WAdded n # es) = int n + level es"
| "level (WDone d # es) = level es - 1"
| "level (_ # es) = level es"

lemma level_append [simp]: "level (es @ fs) = level es + level fs"
  by (induction es rule: level.induct) auto

definition zero_since :: "addr \<Rightarrow> wg_event list \<Rightarrow> bool" where
  "zero_since f es \<longleftrightarrow> (\<exists>xs ys. es = xs @ ys \<and> level xs = 0 \<and> WParks f \<notin> set ys)"

lemma zero_since_now: "level es = 0 \<Longrightarrow> zero_since f es"
  unfolding zero_since_def by (intro exI [of _ es] exI [of _ "[]"]) simp

lemma zero_since_more: "zero_since f es \<Longrightarrow> WParks f \<notin> set e \<Longrightarrow> zero_since f (es @ e)"
  unfolding zero_since_def by (metis Un_iff append.assoc set_append)

text \<open>Every return from \<open>Wait\<close> in a history comes after such a moment.\<close>

definition passes_after_zero :: "wg_event list \<Rightarrow> bool" where
  "passes_after_zero es \<longleftrightarrow> (\<forall>xs f ys. es = xs @ WPasses f # ys \<longrightarrow> zero_since f xs)"

lemma passes_after_zero_snoc:
  assumes "passes_after_zero es" and "\<And>f. e = WPasses f \<Longrightarrow> zero_since f es"
  shows "passes_after_zero (es @ [e])"
  unfolding passes_after_zero_def
proof (intro allI impI)
  fix xs f ys
  assume eq: "es @ [e] = xs @ WPasses f # ys"
  show "zero_since f xs"
  proof (cases ys rule: rev_cases)
    case Nil
    with eq assms(2) show ?thesis by simp
  next
    case (snoc zs z)
    with eq have "es = xs @ WPasses f # zs" by simp
    with assms(1) show ?thesis by (auto simp: passes_after_zero_def)
  qed
qed

definition spec_keeps :: "wg_event list \<Rightarrow> nat \<times> (addr \<Rightarrow> wait_phase) \<Rightarrow> bool" where
  "spec_keeps es x \<longleftrightarrow> level es = int (fst x) \<and> passes_after_zero es \<and>
     (\<forall>f. (snd x f = Freed \<or> snd x f = Woken \<longrightarrow> zero_since f es) \<and> (snd x f = AwaitsZero \<longrightarrow> fst x > 0))"

lemma spec_keeps_step:
  assumes inv: "spec_keeps es x" and st: "wg_spec c x = Some (x', e)"
  shows "spec_keeps (es @ e) x'"
proof -
  obtain n ph where x: "x = (n, ph)" by (cases x)
  have lv: "level es = int n" and p: "passes_after_zero es" and w: "\<And>f. ph f = AwaitsZero \<Longrightarrow> n > 0"
    and z: "\<And>f. ph f = Freed \<or> ph f = Woken \<Longrightarrow> zero_since f es"
    using inv by (auto simp: spec_keeps_def x)
  have e: "e = [c]" using st by (cases c) (auto simp: x split: if_splits)
  have "zero_since f es" if "c = WPasses f" for f
    using that st z [of f] zero_since_now [of es f] lv by (auto simp: x split: if_splits)
  then have "passes_after_zero (es @ [c])" by (rule passes_after_zero_snoc [OF p])
  moreover have "level (es @ [c]) = int (fst x')"
    using st lv by (cases c) (auto simp: x split: if_splits)
  moreover have "zero_since f (es @ [c])" if f: "snd x' f = Freed \<or> snd x' f = Woken" for f
  proof (cases "level (es @ [c]) = 0")
    case True
    then show ?thesis by (rule zero_since_now)
  next
    case False
    then have "ph f = Freed \<or> ph f = Woken" "c \<noteq> WParks f"
      using f st lv by (cases c; auto simp: x split: if_splits)+
    then show ?thesis using z zero_since_more by simp
  qed
  moreover have "fst x' > 0" if "snd x' f = AwaitsZero" for f
    using that st w [of f] by (cases c) (auto simp: x split: if_splits)
  ultimately show ?thesis by (simp add: spec_keeps_def e)
qed

interpretation wg_contract: step_invariant wg_spec "(0, \<lambda>_. Away)" spec_keeps
  by unfold_locales (simp add: spec_keeps_def passes_after_zero_def, erule (1) spec_keeps_step)

subsection \<open>The invariant\<close>

text \<open>Where the waiter of a fiber is: nowhere, in the list, or in the loop of a \<open>Done\<close> call.\<close>

datatype waiter_place = NoWaiter | Listed | InLoop addr

definition wg_items :: "wait_group \<Rightarrow> addr list" where
  "wg_items g = items (wg_links g) (wg_waiters g)"

fun loop_ok :: "links \<Rightarrow> wg_pc \<Rightarrow> addr list \<Rightarrow> bool" where
  "loop_ok h (WgLoop p) xs \<longleftrightarrow> links_to h p xs"
| "loop_ok h (WgSched a p) xs \<longleftrightarrow> xs \<noteq> [] \<and> hd xs = a \<and> links_to h p (tl xs)"
| "loop_ok h _ xs \<longleftrightarrow> xs = []"

lemma links_to_unique: "links_to h p xs \<Longrightarrow> links_to h p ys \<Longrightarrow> xs = ys"
proof (induction xs arbitrary: p ys)
  case Nil
  then show ?case by (cases ys) auto
next
  case (Cons x xs)
  then show ?case by (cases ys) auto
qed

lemma loop_ok_unique: "loop_ok h pc xs \<Longrightarrow> loop_ok h pc ys \<Longrightarrow> xs = ys"
  by (cases pc) (auto dest: links_to_unique intro: list.expand)

definition wg_inv :: "(addr \<Rightarrow> waiter_place) \<Rightarrow> (addr \<Rightarrow> addr list) \<Rightarrow> wg_system \<Rightarrow> bool" where
  "wg_inv at pend s \<longleftrightarrow>
     ended_list (wg_links (ws_group s)) (wg_waiters (ws_group s)) \<and>
     (\<forall>f. f \<in> set (wg_items (ws_group s)) \<longleftrightarrow> at f = Listed) \<and>
     (\<forall>d f. f \<in> set (pend d) \<longleftrightarrow> at f = InLoop d) \<and>
     (\<forall>d. distinct (pend d) \<and> loop_ok (wg_links (ws_group s)) (ws_pc s d) (pend d)) \<and>
     (\<forall>f. ws_pc s f = WgParked \<longleftrightarrow> at f \<noteq> NoWaiter) \<and>
     (wg_items (ws_group s) \<noteq> [] \<longrightarrow> wg_counter (ws_group s) \<noteq> 0) \<and>
     (\<forall>f \<in> set (wg_items (ws_group s)). f < 2 ^ 62) \<and> ws_fault s \<in> {None, Some DoubleRelease}"

definition phase :: "waiter_place \<Rightarrow> wg_pc \<Rightarrow> wait_phase" where
  "phase p pc =
     (case pc of WgParked \<Rightarrow> if p = Listed then AwaitsZero else Freed | WgScheduled \<Rightarrow> Woken | _ \<Rightarrow> Away)"

definition wg_abs :: "(addr \<Rightarrow> waiter_place) \<Rightarrow> wg_system \<Rightarrow> nat \<times> (addr \<Rightarrow> wait_phase)" where
  "wg_abs at s = (unat (wg_counter (ws_group s)), \<lambda>f. phase (at f) (ws_pc s f))"

definition wg_sim :: "nat \<times> (addr \<Rightarrow> wait_phase) \<Rightarrow> wg_system \<Rightarrow> bool" where
  "wg_sim x s \<longleftrightarrow> (\<exists>at pend. wg_inv at pend s \<and> x = wg_abs at s)"

definition wg_follows :: "nat \<times> (addr \<Rightarrow> wait_phase) \<Rightarrow> wg_event list \<Rightarrow> wg_system \<Rightarrow> bool" where
  "wg_follows x e s \<longleftrightarrow> (\<exists>x'. reach wg_spec x e x' \<and> wg_sim x' s)"

lemma wg_invD:
  assumes "wg_inv at pend s"
  shows "ended_list (wg_links (ws_group s)) (wg_waiters (ws_group s))"
    "f \<in> set (wg_items (ws_group s)) \<longleftrightarrow> at f = Listed" "f \<in> set (pend d) \<longleftrightarrow> at f = InLoop d" "distinct (pend d)"
    "loop_ok (wg_links (ws_group s)) (ws_pc s d) (pend d)" "ws_pc s f = WgParked \<longleftrightarrow> at f \<noteq> NoWaiter"
    "wg_items (ws_group s) \<noteq> [] \<Longrightarrow> wg_counter (ws_group s) \<noteq> 0" "f \<in> set (wg_items (ws_group s)) \<Longrightarrow> f < 2 ^ 62"
    "ws_fault s \<in> {None, Some DoubleRelease}"
  using assms unfolding wg_inv_def by blast+

lemma wg_followsI: "wg_inv at' pend' s' \<Longrightarrow> reach wg_spec x e (wg_abs at' s') \<Longrightarrow> wg_follows x e s'"
  unfolding wg_follows_def wg_sim_def by blast

lemma wg_followsI1: "wg_inv at' pend' s' \<Longrightarrow> wg_spec c x = Some (wg_abs at' s', e) \<Longrightarrow> wg_follows x e s'"
  using wg_followsI reach_single [of wg_spec] by metis

text \<open>A fiber that is not parked changes its program point between points where it has nothing to wake.\<close>

lemma wg_inv_moves:
  assumes inv: "wg_inv at pend s" and g: "ws_group s' = ws_group s" "ws_fault s' = ws_fault s" "ws_pc s' = (ws_pc s)(f := p)"
    and f: "ws_pc s f \<noteq> WgParked" "p \<noteq> WgParked" "loop_ok (wg_links (ws_group s)) p (pend f)"
  shows "wg_inv at pend s'"
  using inv f unfolding wg_inv_def g by auto

lemma wg_add_follows:
  assumes inv: "wg_inv at pend s" and b: "uint (wg_counter (ws_group s)) + uint n < 2 ^ 64"
  shows "wg_follows (wg_abs at s) [WAdded (unat n)] (s\<lparr>ws_group := wg_Add n (ws_group s)\<rparr>)"
proof (rule wg_followsI1)
  have u: "unat (wg_counter (ws_group s) + n) = unat (wg_counter (ws_group s)) + unat n" using b by (intro unat_plus_no_wrap)
  then have "wg_counter (ws_group s) + n \<noteq> 0" if "wg_counter (ws_group s) \<noteq> 0"
    using that by (metis add_is_0 unat_0 unat_eq_0)
  then show "wg_inv at pend (s\<lparr>ws_group := wg_Add n (ws_group s)\<rparr>)"
    using inv unfolding wg_inv_def by (auto simp: wg_Add_def wg_items_def)
  show "wg_spec (WAdded (unat n)) (wg_abs at s) =
    Some (wg_abs at (s\<lparr>ws_group := wg_Add n (ws_group s)\<rparr>), [WAdded (unat n)])"
    using u by (simp add: wg_abs_def wg_Add_def)
qed

lemma wg_items_short:
  assumes "wg_inv at pend s"
  shows "length (wg_items (ws_group s)) + 1 < 2 ^ 64"
proof -
  have "distinct (wg_items (ws_group s))" using wg_invD(1) [OF assms] by (simp add: ended_list_def il_inv_def wg_items_def)
  then have "length (wg_items (ws_group s)) = card (set (wg_items (ws_group s)))" by (simp add: distinct_card)
  also have "\<dots> \<le> card {..<(2::nat) ^ 62}" using wg_invD(8) [OF assms] by (intro card_mono) auto
  finally show ?thesis by simp
qed

lemma wg_park_follows:
  assumes inv: "wg_inv at pend s" and pc: "ws_pc s f = WgOut" and c: "wg_counter (ws_group s) \<noteq> 0" and f: "f < 2 ^ 62"
    and w: "wg_Wait f s = (s', e)"
  shows "wg_follows (wg_abs at s) e s'"
proof -
  let ?g = "ws_group s"
  have at: "at f = NoWaiter" using wg_invD(6) [OF inv, of f] pc by simp
  have "f \<notin> set (items (wg_links ?g) (wg_waiters ?g))" "length (items (wg_links ?g) (wg_waiters ?g)) + 1 < 2 ^ 64"
    using wg_invD(2) [OF inv, of f] at wg_items_short [OF inv] unfolding wg_items_def by simp_all
  from ended_list_park [OF wg_invD(1) [OF inv] this] obtain h l where
    p: "Push (Some f) (fresh_waiter f (wg_links ?g), wg_waiters ?g) = Inr (h, l)" "ended_list h l" "items h l = wg_items ?g @ [f]"
      "\<And>x. x \<notin> set (wg_items ?g) \<Longrightarrow> x \<noteq> f \<Longrightarrow> h x = wg_links ?g x" unfolding wg_items_def by blast
  let ?s = "wgto f WgParked (s\<lparr>ws_group := ?g\<lparr>wg_links := h, wg_waiters := l\<rparr>, ws_clearing := (ws_clearing s)(f := True)\<rparr>)"
  have s': "s' = ?s" "e = [WParks f]"
    using w c p(1) by (simp_all add: wg_Wait_def wg_AwaitSuspend_def wg_Park_def Let_def word_gt_0)
  have "loop_ok h (ws_pc s d) (pend d) = loop_ok (wg_links ?g) (ws_pc s d) (pend d)" for d
  proof -
    have eq: "h x = wg_links ?g x" if "x \<in> set (pend d)" for x
      using that p(4) [of x] wg_invD(2,3) [OF inv] at by fastforce
    then have "links_to h q (pend d) = links_to (wg_links ?g) q (pend d)" "links_to h q (tl (pend d)) = links_to (wg_links ?g) q (tl (pend d))" for q
      by (auto intro!: links_to_frame dest: tl_memD)
    then show ?thesis by (cases "ws_pc s d") auto
  qed
  moreover have "pend f = []" using wg_invD(5) [OF inv, of f] pc by simp
  ultimately have "wg_inv (at(f := Listed)) pend ?s"
    using inv p(2,3) c f pc at unfolding wg_inv_def by (auto simp: wgto_def wg_items_def)
  moreover have "wg_spec (WParks f) (wg_abs at s) = Some (wg_abs (at(f := Listed)) ?s, [WParks f])"
    using pc c by (auto simp: wg_abs_def wgto_def phase_def unat_gt_0)
  ultimately show ?thesis using s' wg_followsI1 by metis
qed

lemma wg_pass_follows:
  assumes inv: "wg_inv at pend s" and pc: "ws_pc s f = WgOut" and c: "wg_counter (ws_group s) = 0"
  shows "wg_follows (wg_abs at s) [WPasses f] s"
  using pc c by (intro wg_followsI1 [OF inv, of "WPasses f"]) (auto simp: wg_abs_def phase_def)

text \<open>\<open>Pop\<close> returns the head of the list.\<close>

lemma ended_list_Pop_head:
  assumes "ended_list h l"
  obtains l' where "Pop h l = Inr (l', il_head l)"
proof (cases "items h l")
  case Nil
  then show thesis using that Pop_empty [of h l] assms il_inv_head [of h l] by (auto simp: ended_list_def)
next
  case (Cons w ws)
  obtain l' where "Pop h l = Inr (l', Some w)" using ended_list_Pop [OF assms Cons] by blast
  moreover have "il_head l = Some w" using Cons assms il_inv_head [of h l] by (simp add: ended_list_def)
  ultimately show thesis using that by simp
qed

lemma wg_done_follows:
  assumes inv: "wg_inv at pend s" and pc: "ws_pc s d = WgOut" and c: "wg_counter (ws_group s) \<noteq> 0" and w: "wg_Done d s = (s', e)"
  shows "wg_follows (wg_abs at s) e s'"
proof (cases "wg_counter (ws_group s) = 1")
  case True
  let ?g = "ws_group s" and ?at = "\<lambda>f. if at f = Listed then InLoop d else at f"
  note el = wg_invD(1) [OF inv]
  obtain l where l: "Pop (wg_links ?g) (wg_waiters ?g) = Inr (l, il_head (wg_waiters ?g))" using ended_list_Pop_head [OF el] .
  let ?s = "wgto d (WgLoop (il_head (wg_waiters ?g))) (s\<lparr>ws_group := ?g\<lparr>wg_counter := 0, wg_waiters := Clear l\<rparr>\<rparr>)"
  have s': "s' = ?s" "e = [WDone d]" using w True l by (simp_all add: wg_Done_def Let_def)
  have "pend d = []" using wg_invD(5) [OF inv, of d] pc by simp
  then have no: "at f \<noteq> InLoop d" for f using wg_invD(3) [OF inv, of f d] by simp
  have d: "at d = NoWaiter" using wg_invD(6) [OF inv, of d] pc by simp
  have "links_to (wg_links ?g) (il_head (wg_waiters ?g)) (wg_items ?g)"
    using ended_list_links_to [OF el] by (simp add: wg_items_def)
  moreover have "distinct (wg_items ?g)" using el by (simp add: ended_list_def il_inv_def wg_items_def)
  ultimately have "wg_inv ?at (pend(d := wg_items ?g)) ?s"
    using inv no pc d ended_list_Clear Clear_ok [of "wg_links ?g" l] unfolding wg_inv_def
    by (auto simp: wgto_def wg_items_def)
  moreover have "ws_pc s f = WgParked" if "at f = Listed" for f using wg_invD(6) [OF inv, of f] that by simp
  then have "wg_spec (WDone d) (wg_abs at s) = Some (wg_abs ?at ?s, [WDone d])"
    using True pc by (auto simp: wg_abs_def wgto_def phase_def fun_eq_iff split: wg_pc.splits)
  ultimately show ?thesis using s' wg_followsI1 by metis
next
  case False
  let ?s = "s\<lparr>ws_group := (ws_group s)\<lparr>wg_counter := wg_counter (ws_group s) - 1\<rparr>\<rparr>"
  have s': "s' = ?s" "e = [WDone d]" using w False by (auto simp: wg_Done_def Let_def)
  have "wg_inv at pend ?s" using inv False unfolding wg_inv_def by (auto simp: wg_items_def)
  moreover have "unat (wg_counter (ws_group s)) \<noteq> 1" using False by (simp add: word_unat_eq_iff)
  then have "wg_spec (WDone d) (wg_abs at s) = Some (wg_abs at ?s, [WDone d])"
    using c by (simp add: wg_abs_def unat_size_t_dec unat_eq_0)
  ultimately show ?thesis using s' wg_followsI1 by metis
qed

lemma wg_quiet:
  assumes inv: "wg_inv at pend s" and g: "ws_group s' = ws_group s" "ws_fault s' = ws_fault s" "ws_pc s' = (ws_pc s)(f := p)"
    and f: "ws_pc s f \<noteq> WgParked" "p \<noteq> WgParked" "loop_ok (wg_links (ws_group s)) p (pend f)"
    and ph: "phase (at f) p = phase (at f) (ws_pc s f)"
  shows "wg_follows (wg_abs at s) [] s'"
proof (rule wg_followsI)
  show "wg_inv at pend s'" by (rule wg_inv_moves [OF inv g f])
  have "wg_abs at s' = wg_abs at s" using ph by (auto simp: wg_abs_def g)
  then show "reach wg_spec (wg_abs at s) [] (wg_abs at s')" by (simp add: reach.reach_init)
qed

lemma wg_next_follows:
  assumes inv: "wg_inv at pend s" and pc: "ws_pc s d = WgLoop w"
  shows "wg_follows (wg_abs at s) [] (wg_Done_next d w s)"
proof -
  have l: "links_to (wg_links (ws_group s)) w (pend d)" using wg_invD(5) [OF inv, of d] pc by simp
  show ?thesis
  proof (cases w)
    case None
    with l have "pend d = []" by (cases "pend d") auto
    with None pc show ?thesis by (intro wg_quiet [OF inv, of _ d WgOut]) (auto simp: wg_Done_next_def wgto_def phase_def)
  next
    case (Some a)
    with l obtain xs where "pend d = a # xs" "links_to (wg_links (ws_group s)) (wg_links (ws_group s) a) xs"
      by (cases "pend d") auto
    with Some pc show ?thesis
      by (intro wg_quiet [OF inv, of _ d "WgSched a (Next (wg_links (ws_group s)) a)"])
        (auto simp: wg_Done_next_def wgto_def phase_def Next_def)
  qed
qed

lemma wg_schedule_follows:
  assumes inv: "wg_inv at pend s" and pc: "ws_pc s d = WgSched a nx" and w: "wg_Done_schedule d a nx s = (s', e)"
  shows "wg_follows (wg_abs at s) e s'"
proof -
  obtain xs where xs: "pend d = a # xs" "links_to (wg_links (ws_group s)) nx xs"
    using wg_invD(5) [OF inv, of d] pc by (cases "pend d") auto
  have at: "at a = InLoop d" using wg_invD(3) [OF inv, of a d] xs by simp
  then have pa: "ws_pc s a = WgParked" using wg_invD(6) [OF inv, of a] by simp
  let ?s = "wgto a WgScheduled (wgto d (WgLoop nx) s)"
  have s': "s' = ?s" "e = [WWakes a]" using w pa by (simp_all add: wg_Done_schedule_def)
  have ad: "a \<noteq> d" using pa pc by auto
  have pd: "pend a = []" using wg_invD(5) [OF inv, of a] pa by simp
  have mem: "f \<in> set xs \<longleftrightarrow> at f = InLoop d \<and> f \<noteq> a" for f
    using wg_invD(3) [OF inv, of f d] wg_invD(4) [OF inv, of d] xs(1) by auto
  have "at d = NoWaiter" using wg_invD(6) [OF inv, of d] pc by simp
  then have "wg_inv (at(a := NoWaiter)) (pend(d := xs)) ?s"
    using inv xs mem at pa ad pd wg_invD(4) [OF inv, of d] unfolding wg_inv_def by (auto simp: wgto_def)
  moreover have "wg_spec (WWakes a) (wg_abs at s) = Some (wg_abs (at(a := NoWaiter)) ?s, [WWakes a])"
    using pa at ad pc by (auto simp: wg_abs_def wgto_def phase_def)
  ultimately show ?thesis using s' wg_followsI1 by metis
qed

lemma wg_resume_follows:
  assumes inv: "wg_inv at pend s" and pc: "ws_pc s f = WgScheduled" and w: "wg_resumes f s = (s', e)"
  shows "wg_follows (wg_abs at s) e s'"
proof (cases "ws_clearing s f")
  case True
  then have s': "s' = s\<lparr>ws_fault := Some DoubleRelease\<rparr>" "e = []" using w by (simp_all add: wg_resumes_def)
  have "wg_inv at pend s'" using inv unfolding wg_inv_def s' by simp
  moreover have "wg_abs at s' = wg_abs at s" by (simp add: wg_abs_def s')
  ultimately show ?thesis using wg_followsI [of at pend s' "wg_abs at s" "[]"] s'(2) by (simp add: reach.reach_init)
next
  case False
  then have s': "s' = wgto f WgOut s" "e = [WPasses f]" using w by (simp_all add: wg_resumes_def)
  have "wg_inv at pend s'" using wg_invD(5) [OF inv, of f] pc s' by (intro wg_inv_moves [OF inv, of _ f WgOut]) (simp_all add: wgto_def)
  moreover have "wg_spec (WPasses f) (wg_abs at s) = Some (wg_abs at s', [WPasses f])"
    using pc s' by (auto simp: wg_abs_def wgto_def phase_def)
  ultimately show ?thesis using s'(2) wg_followsI1 by metis
qed

lemma wg_clear_follows:
  assumes inv: "wg_inv at pend s"
  shows "wg_follows (wg_abs at s) [] (s\<lparr>ws_clearing := c\<rparr>)"
proof (rule wg_followsI)
  show "wg_inv at pend (s\<lparr>ws_clearing := c\<rparr>)" using inv unfolding wg_inv_def by simp
  show "reach wg_spec (wg_abs at s) [] (wg_abs at (s\<lparr>ws_clearing := c\<rparr>))" by (simp add: wg_abs_def reach.reach_init)
qed

lemma wg_sim_step:
  assumes "wg_sim x s" and "wg_step c s = Some (s', e)"
  shows "wg_follows x e s'"
proof -
  obtain at pend where inv: "wg_inv at pend s" and x: "x = wg_abs at s" using assms(1) by (auto simp: wg_sim_def)
  have st: "wg_call c s = Some (s', e)" using assms(2) by (auto simp: wg_step_def split: if_splits)
  show ?thesis unfolding x
  proof (cases c)
    case (WgWait f)
    then show "wg_follows (wg_abs at s) e s'"
      using st wg_park_follows [OF inv, of f s' e] wg_pass_follows [OF inv, of f]
      by (cases "wg_counter (ws_group s) = 0") (auto simp: wg_call_def wg_Wait_def Let_def split: if_splits)
  next
    case (WgGo d)
    then show "wg_follows (wg_abs at s) e s'"
      using st wg_next_follows [OF inv, of d] wg_schedule_follows [OF inv, of d] by (auto simp: wg_call_def wg_go_def split: wg_pc.splits)
  qed (use st in \<open>auto simp: wg_call_def split: if_splits
         intro: wg_add_follows [OF inv] wg_done_follows [OF inv] wg_clear_follows [OF inv] wg_resume_follows [OF inv]\<close>)
qed

interpretation wait_groups: event_simulation wg_step "init_wg_system h" wg_spec "(0, \<lambda>_. Away)" wg_sim for h
proof
  have "wg_inv (\<lambda>_. NoWaiter) (\<lambda>_. []) (init_wg_system h)"
    by (simp add: wg_inv_def init_wg_system_def init_wait_group_def ended_list_empty wg_items_def items_empty_list)
  moreover have "wg_abs (\<lambda>_. NoWaiter) (init_wg_system h) = (0, \<lambda>_. Away)"
    by (simp add: wg_abs_def init_wg_system_def init_wait_group_def phase_def)
  ultimately show "wg_sim (0, \<lambda>_. Away) (init_wg_system h)" unfolding wg_sim_def by metis
qed (use wg_sim_step in \<open>simp add: wg_follows_def\<close>)

subsection \<open>The loop of Done ends\<close>

lemma wg_loop_runs:
  "ws_fault s = None \<Longrightarrow> ws_pc s d = WgLoop w \<Longrightarrow> links_to (wg_links (ws_group s)) w xs \<Longrightarrow> distinct xs \<Longrightarrow>
   \<forall>f \<in> set xs. ws_pc s f = WgParked \<Longrightarrow>
   \<exists>s'. sched wg_step (replicate (2 * length xs + 1) (WgGo d)) s = Some (s', map WWakes xs) \<and> ws_pc s' d = WgOut \<and>
     ws_fault s' = None \<and> ws_group s' = ws_group s \<and> (\<forall>f. f \<noteq> d \<longrightarrow> ws_pc s' f = (if f \<in> set xs then WgScheduled else ws_pc s f))"
proof (induction xs arbitrary: s w)
  case Nil
  then show ?case by (auto simp: wg_step_def wg_call_def wg_go_def wg_Done_next_def wgto_def)
next
  case (Cons a xs)
  let ?nx = "wg_links (ws_group s) a"
  let ?s = "wgto a WgScheduled (wgto d (WgLoop ?nx) s)"
  have ad: "a \<noteq> d" "d \<notin> set xs" using Cons.prems(2,5) by auto
  have two: "sched wg_step (replicate 2 (WgGo d)) s = Some (?s, [WWakes a])"
    using Cons.prems ad by (auto simp: numeral_2_eq_2 wg_step_def wg_call_def wg_go_def wg_Done_next_def wg_Done_schedule_def wgto_def Next_def)
  have "ws_fault ?s = None" "ws_pc ?s d = WgLoop ?nx" "links_to (wg_links (ws_group ?s)) ?nx xs" "distinct xs" "\<forall>f \<in> set xs. ws_pc ?s f = WgParked"
    using Cons.prems ad by (auto simp: wgto_def)
  from Cons.IH [OF this] obtain s' where
    r: "sched wg_step (replicate (2 * length xs + 1) (WgGo d)) ?s = Some (s', map WWakes xs)" "ws_pc s' d = WgOut" "ws_fault s' = None"
      "ws_group s' = ws_group ?s" "\<forall>f. f \<noteq> d \<longrightarrow> ws_pc s' f = (if f \<in> set xs then WgScheduled else ws_pc ?s f)" by blast
  have n: "replicate (2 * length (a # xs) + 1) (WgGo d) = replicate 2 (WgGo d) @ replicate (2 * length xs + 1) (WgGo d)"
    by (simp add: numeral_2_eq_2)
  have "sched wg_step (replicate (2 * length (a # xs) + 1) (WgGo d)) s = Some (s', map WWakes (a # xs))"
    unfolding n sched_append two using r(1) by simp
  then show ?case using r(2-5) ad by (intro exI [of _ s']) (auto simp: wgto_def)
qed

lemma wg_inv_destroy: "wg_inv at pend s \<Longrightarrow> wg_items (ws_group s) = [] \<Longrightarrow> destroy_WaitGroup (ws_group s) = Inr ()"
  using IsEmpty_iff wg_invD(1) by (fastforce simp: destroy_WaitGroup_def ended_list_def wg_items_def)

text \<open>What the contract says of a history.\<close>

lemma wg_history:
  assumes "reach wg_step (init_wg_system h) es s"
  shows "level es = int (unat (wg_counter (ws_group s)))" "passes_after_zero es"
proof -
  obtain x where x: "reach wg_spec (0, \<lambda>_. Away) es x" "wg_sim x s" using wait_groups.refines [OF assms] by blast
  have "spec_keeps es x" by (rule wg_contract.reach_inv [OF x(1)])
  then show "level es = int (unat (wg_counter (ws_group s)))" "passes_after_zero es"
    using x(2) by (auto simp: spec_keeps_def wg_sim_def wg_abs_def)
qed

text \<open>The links a \<open>Done\<close> call has still to follow lead to the waiter of \<open>f\<close>.\<close>

definition loop_reaches :: "addr \<Rightarrow> addr \<Rightarrow> wg_system \<Rightarrow> bool" where
  "loop_reaches d f s \<longleftrightarrow> (\<exists>xs. f \<in> set xs \<and> loop_ok (wg_links (ws_group s)) (ws_pc s d) xs)"

subsection \<open>Properties\<close>

text \<open>
  C11: In every interleaving of \<open>Add\<close>, \<open>Done\<close>, \<open>Wait\<close>, the wake-up loops and resumed fibers, \<open>WaitGroup\<close> follows its contract: the
  counter is the sum of the additions less the number of \<open>Done\<close> calls; \<open>Wait\<close> returns only if the counter was zero at a moment
  since the fiber parked; every parked fiber is in the list, which is empty when the counter is zero, or will be reached by the loop
  of a \<open>Done\<close> call; a group at zero may be destroyed; and no assertion fails, the only fault being the second release of a guard.\<close>
theorem wait_group_correct:
  assumes "reach wg_step (init_wg_system h) es s"
  shows "(\<exists>x. reach wg_spec (0, \<lambda>_. Away) es x) \<and> level es = int (unat (wg_counter (ws_group s))) \<and> passes_after_zero es \<and>
    (\<forall>f. ws_pc s f = WgParked \<longleftrightarrow> f \<in> set (wg_items (ws_group s)) \<or> (\<exists>d. loop_reaches d f s)) \<and>
    (wg_counter (ws_group s) = 0 \<longrightarrow> wg_items (ws_group s) = [] \<and> destroy_WaitGroup (ws_group s) = Inr ()) \<and>
    ws_fault s \<in> {None, Some DoubleRelease}"
proof -
  obtain x where x: "reach wg_spec (0, \<lambda>_. Away) es x" "wg_sim x s" using wait_groups.refines [OF assms] by blast
  then obtain at pend where inv: "wg_inv at pend s" by (auto simp: wg_sim_def)
  have un: "xs = pend d" if "loop_ok (wg_links (ws_group s)) (ws_pc s d) xs" for d xs
    using that wg_invD(5) [OF inv, of d] loop_ok_unique by blast
  have "loop_reaches d f s \<longleftrightarrow> at f = InLoop d" for d f
    using un wg_invD(3) [OF inv, of f d] wg_invD(5) [OF inv, of d] unfolding loop_reaches_def by metis
  then have "ws_pc s f = WgParked \<longleftrightarrow> f \<in> set (wg_items (ws_group s)) \<or> (\<exists>d. loop_reaches d f s)" for f
    using wg_invD(2,6) [OF inv, of f] by (cases "at f") auto
  moreover have "wg_items (ws_group s) = []" if "wg_counter (ws_group s) = 0" using wg_invD(7) [OF inv] that by blast
  moreover note wg_inv_destroy [OF inv] wg_invD(9) [OF inv]
  moreover note wg_history [OF assms]
  ultimately show ?thesis using x(1) by blast
qed

theorem wait_group_correct_witness:
  "\<exists>es s. reach wg_step (init_wg_system (\<lambda>_. None)) es s \<and> es = [WAdded 1, WParks 3, WParks 5, WDone 7, WWakes 3, WPasses 3] \<and>
     zero_since 3 [WAdded 1, WParks 3, WParks 5, WDone 7, WWakes 3] \<and> wg_items (ws_group s) = [] \<and> (\<exists>d. loop_reaches d 5 s)"
proof -
  have "run_ok wg_step [WgAdd 1, WgWait 3, WgWait 5, WgClear 3, WgDone 7, WgGo 7, WgGo 7, WgResume 3] (init_wg_system (\<lambda>_. None))
    (\<lambda>es s. es = [WAdded 1, WParks 3, WParks 5, WDone 7, WWakes 3, WPasses 3] \<and> ws_pc s 5 = WgParked \<and> wg_counter (ws_group s) = 0)"
    by code_simp
  then obtain es s where r: "reach wg_step (init_wg_system (\<lambda>_. None)) es s"
    "es = [WAdded 1, WParks 3, WParks 5, WDone 7, WWakes 3, WPasses 3]" "ws_pc s 5 = WgParked" "wg_counter (ws_group s) = 0"
    by (elim run_okE) blast
  note w = wait_group_correct [OF r(1)]
  have "es = [WAdded 1, WParks 3, WParks 5, WDone 7, WWakes 3] @ WPasses 3 # []" using r(2) by simp
  then have "zero_since 3 [WAdded 1, WParks 3, WParks 5, WDone 7, WWakes 3]" using w unfolding passes_after_zero_def by blast
  moreover have "wg_items (ws_group s) = []" using w r(4) by blast
  moreover have "\<exists>d. loop_reaches d 5 s" using w r(3) calculation(2) by auto
  ultimately show ?thesis using r(1,2) by blast
qed

text \<open>
  C34: The \<open>Done\<close> that brings the counter to zero returns after two steps for each waiter and one more, and has scheduled every parked fiber
  of the list, once and in the order they arrived.\<close>
theorem wait_group_done_wakes:
  assumes "reach wg_step (init_wg_system h) es s" and "ws_fault s = None" and "ws_pc s d = WgOut" and "wg_counter (ws_group s) = 1"
  shows "\<exists>s'. sched wg_step (WgDone d # replicate (2 * length (wg_items (ws_group s)) + 1) (WgGo d)) s =
      Some (s', WDone d # map WWakes (wg_items (ws_group s))) \<and>
    ws_pc s' d = WgOut \<and> ws_fault s' = None \<and> wg_items (ws_group s') = [] \<and> (\<forall>f \<in> set (wg_items (ws_group s)). ws_pc s' f = WgScheduled)"
proof -
  obtain x where "wg_sim x s" using wait_groups.refines [OF assms(1)] by blast
  then obtain at pend where inv: "wg_inv at pend s" by (auto simp: wg_sim_def)
  let ?g = "ws_group s" and ?xs = "wg_items (ws_group s)"
  note el = wg_invD(1) [OF inv]
  obtain l where l: "Pop (wg_links ?g) (wg_waiters ?g) = Inr (l, il_head (wg_waiters ?g))" using ended_list_Pop_head [OF el] .
  let ?s = "wgto d (WgLoop (il_head (wg_waiters ?g))) (s\<lparr>ws_group := ?g\<lparr>wg_counter := 0, wg_waiters := Clear l\<rparr>\<rparr>)"
  have first: "wg_step (WgDone d) s = Some (?s, [WDone d])"
    using assms(2-4) l by (simp add: wg_step_def wg_call_def wg_Done_def Let_def)
  have parked: "\<forall>f \<in> set ?xs. ws_pc s f = WgParked" using wg_invD(2,6) [OF inv] by simp
  then have d: "d \<notin> set ?xs" using assms(3) by auto
  have "links_to (wg_links (ws_group ?s)) (il_head (wg_waiters ?g)) ?xs"
    using ended_list_links_to [OF el] by (simp add: wgto_def wg_items_def)
  moreover have "distinct ?xs" using el by (simp add: ended_list_def il_inv_def wg_items_def)
  moreover have "\<forall>f \<in> set ?xs. ws_pc ?s f = WgParked" using parked d by (auto simp: wgto_def)
  moreover have "ws_fault ?s = None" "ws_pc ?s d = WgLoop (il_head (wg_waiters ?g))" using assms(2) by (simp_all add: wgto_def)
  ultimately obtain s' where r: "sched wg_step (replicate (2 * length ?xs + 1) (WgGo d)) ?s = Some (s', map WWakes ?xs)"
    "ws_pc s' d = WgOut" "ws_fault s' = None" "ws_group s' = ws_group ?s" "\<forall>f. f \<noteq> d \<longrightarrow> ws_pc s' f = (if f \<in> set ?xs then WgScheduled else ws_pc ?s f)"
    using wg_loop_runs [of ?s d] by blast
  have "wg_items (ws_group s') = []" using r(4) Clear_ok by (simp add: wgto_def wg_items_def)
  moreover have "\<forall>f \<in> set ?xs. ws_pc s' f = WgScheduled" using r(5) d by auto
  ultimately show ?thesis using first r(1-3) by (intro exI [of _ s']) (simp del: replicate.simps)
qed

theorem wait_group_done_wakes_witness:
  "\<exists>es s s'. reach wg_step (init_wg_system (\<lambda>_. None)) es s \<and>
     sched wg_step (WgDone 7 # replicate 5 (WgGo 7)) s = Some (s', [WDone 7, WWakes 3, WWakes 5])"
proof -
  have "run_ok wg_step [WgAdd 1, WgWait 3, WgWait 5] (init_wg_system (\<lambda>_. None))
    (\<lambda>es s. ws_fault s = None \<and> ws_pc s 7 = WgOut \<and> wg_counter (ws_group s) = 1 \<and> wg_items (ws_group s) = [3, 5])"
    by code_simp
  then obtain es s where r: "reach wg_step (init_wg_system (\<lambda>_. None)) es s" "ws_fault s = None" "ws_pc s 7 = WgOut" "wg_counter (ws_group s) = 1"
    "wg_items (ws_group s) = [3, 5]" by (elim run_okE) blast
  from wait_group_done_wakes [OF r(1-4)] obtain s' where
    "sched wg_step (WgDone 7 # replicate (2 * length [3, 5 :: addr] + 1) (WgGo 7)) s = Some (s', WDone 7 # map WWakes [3, 5])"
    unfolding r(5) by blast
  moreover have "2 * length [3, 5 :: addr] + 1 = 5" by simp
  ultimately show ?thesis using r(1) by (metis list.simps(8,9))
qed

end
