(* ===== verification/Mutex_Fibers.thy ===== *)
theory Mutex_Fibers
  imports Fiber_Sync
begin

text \<open>
  Fibers that use a mutex on the manual executor: the composition of \<open>AwaiterFiber::Run\<close>, \<open>AsyncMutex\<close> with its awaiter, and
  \<open>IntrusiveManualExecutor::Drain\<close>.

  The routine of a fiber is a list of actions: lock, unlock, yield. Running a fiber resumes its coroutine, which executes actions until the
  fiber has to wait, yields or ends. One thread runs everything, so that \<open>AwaitSuspend\<close> of a parked fiber (parking, release of the
  guard and its mark) is over before another fiber runs. The mutex is the one of \<open>Fiber_Sync\<close>, moved by its own steps.

  The lemmas show that fibers whose actions are well bracketed all run to their end in one \<open>Drain\<close>: no deadlock, no fault, mutual exclusion
  and service in the order of the calls.
\<close>

subsection \<open>Programs\<close>

datatype mutex_action = MLock | MUnlock | MYield

record mutex_world =
  mw_prog :: "addr \<Rightarrow> mutex_action list option"     \<comment> \<open>what a live fiber has still to do\<close>
  mw_mutex :: fiber_mutex
  mw_log :: "lock_event list"
  mw_stuck :: bool                                  \<comment> \<open>a call outside the contract of the mutex\<close>

definition on_mutex :: "fm_choice \<Rightarrow> mutex_world \<Rightarrow> mutex_world" where
  "on_mutex c w =
     (case fm_step c (mw_mutex w) of
        None \<Rightarrow> w\<lparr>mw_stuck := True\<rparr>
      | Some (m, e) \<Rightarrow> w\<lparr>mw_mutex := m, mw_log := mw_log w @ e\<rparr>)"

definition set_prog :: "addr \<Rightarrow> mutex_action list option \<Rightarrow> mutex_world \<Rightarrow> mutex_world" where
  "set_prog f p w = w\<lparr>mw_prog := (mw_prog w)(f := p)\<rparr>"

text \<open>The coroutine of \<open>f\<close> runs until it suspends or ends; \<open>subs\<close> are the fibers submitted so far.\<close>

fun run_actions :: "addr \<Rightarrow> mutex_action list \<Rightarrow> addr list \<Rightarrow> mutex_world \<Rightarrow> mutex_world \<times> addr list" where
  "run_actions f [] subs w = (set_prog f None w, subs)"
| "run_actions f (MYield # as) subs w = (set_prog f (Some as) w, subs @ [f])"
| "run_actions f (MLock # as) subs w =
     (let w' = on_mutex (FmLock f) w in
      if fm_pc (mw_mutex w') f = FParked then (set_prog f (Some as) (on_mutex (FmClear f) w'), subs)
      else run_actions f as subs w')"
| "run_actions f (MUnlock # as) subs w =
     (let w' = on_mutex (FmUnlock f) w in
      case fm_pc (mw_mutex w') f of
        FUnlockSched v \<Rightarrow> run_actions f as (subs @ [v]) (on_mutex (FmSchedule f) w')
      | _ \<Rightarrow> run_actions f as subs w')"

definition program_body :: "mutex_world task_body" where
  "program_body f w =
     (case mw_prog w f of
        None \<Rightarrow> (w\<lparr>mw_stuck := True\<rparr>, [])
      | Some as \<Rightarrow> run_actions f as [] (if fm_pc (mw_mutex w) f = FScheduled then on_mutex (FmResume f) w else w))"

definition start_world :: "links \<Rightarrow> addr list \<Rightarrow> (addr \<Rightarrow> mutex_action list) \<Rightarrow> mutex_world" where
  "start_world h fs progs =
     \<lparr>mw_prog = (\<lambda>f. if f \<in> set fs then Some (progs f) else None), mw_mutex = init_fiber_mutex h, mw_log = [], mw_stuck = False\<rparr>"

text \<open>Well-bracketed programs; the flag says whether the fiber is inside.\<close>

fun bracketed :: "bool \<Rightarrow> mutex_action list \<Rightarrow> bool" where
  "bracketed inside [] \<longleftrightarrow> \<not> inside"
| "bracketed inside (MYield # as) \<longleftrightarrow> bracketed inside as"
| "bracketed inside (MLock # as) \<longleftrightarrow> \<not> inside \<and> bracketed True as"
| "bracketed inside (MUnlock # as) \<longleftrightarrow> inside \<and> bracketed False as"

subsection \<open>The mutex between two runs\<close>

text \<open>On one thread every guard is marked before another fiber runs, and no hand-over is half done.\<close>

definition calm :: "fiber_mutex \<Rightarrow> bool" where
  "calm m \<longleftrightarrow> (\<exists>h. fm_inv h m) \<and> (\<forall>f. \<not> fm_clearing m f) \<and> (\<forall>u v. fm_pc m u \<noteq> FUnlockSched v) \<and> (\<forall>f e. fm_pc m f \<noteq> FFault e)"

lemma fm_inv_step:
  assumes "\<exists>h. fm_inv h m" and "fm_step c m = Some (m', e)"
  shows "\<exists>h. fm_inv h m'"
proof -
  obtain h where "fm_inv h m" using assms(1) by blast
  then have "fm_sim (fm_abs h (fm_items m)) m" unfolding fm_sim_def by blast
  from fm_sim_step [OF this assms(2)] show ?thesis by (auto simp: fm_keeps_def fm_sim_def)
qed

lemma calm_lock:
  assumes "calm m" and "fm_pc m f = FOut" and "f < 2 ^ 62"
  obtains
    (enters) m' e where "fm_step (FmLock f) m = Some (m', e)" "calm m'" "fm_pc m' = (fm_pc m)(f := FIn)"
  | (parks) m1 e1 m' e where "fm_step (FmLock f) m = Some (m1, e1)" "fm_pc m1 f = FParked" "fm_step (FmClear f) m1 = Some (m', e)" "calm m'"
      "fm_pc m' = (fm_pc m)(f := FParked)"
proof (cases "fm_locked m")
  case False
  let ?m = "fto f FIn (m\<lparr>fm_locked := True\<rparr>)"
  have st: "fm_step (FmLock f) m = Some (?m, [Announced f, Acquired f])" using assms(2,3) False by (simp add: Lock_def)
  moreover have "calm ?m" using assms(1) fm_inv_step [OF _ st] by (auto simp: calm_def fto_def)
  ultimately show thesis using enters by (simp add: fto_def)
next
  case True
  obtain h where inv: "fm_inv h m" using assms(1) by (auto simp: calm_def)
  note D = fm_invD [OF inv]
  have f: "f \<notin> set (fm_items m)" using D(3) [of f] assms(2) by simp
  have il: "il_inv (fresh_waiter f (fm_links m)) (fm_waiters m)" "items (fresh_waiter f (fm_links m)) (fm_waiters m) = fm_items m"
    using D(6) f by (simp_all add: fresh_waiter_def fm_items_def il_inv_upd_notin items_upd_notin)
  obtain hp l where push: "Push (Some f) (fresh_waiter f (fm_links m), fm_waiters m) = Inr (hp, l)"
    using Push_ok [OF il(1), of f] f fm_room [OF inv] il(2) by metis
  let ?m1 = "fto f FParked (m\<lparr>fm_links := hp, fm_waiters := l, fm_clearing := (fm_clearing m)(f := True)\<rparr>)"
  let ?m = "?m1\<lparr>fm_clearing := (fm_clearing ?m1)(f := False)\<rparr>"
  have st: "fm_step (FmLock f) m = Some (?m1, [Announced f])" using assms(2,3) True push by (simp add: Lock_def Park_def)
  have st2: "fm_step (FmClear f) ?m1 = Some (?m, [])" by (simp add: fto_def)
  have "calm ?m" using assms(1) fm_inv_step [OF fm_inv_step [OF _ st] st2] by (auto simp: calm_def fto_def)
  with parks [OF st _ st2] show thesis by (simp add: fto_def)
qed

lemma calm_unlock:
  assumes "calm m" and "fm_pc m f = FIn"
  obtains
    (free) m' e where "fm_step (FmUnlock f) m = Some (m', e)" "calm m'" "fm_pc m' = (fm_pc m)(f := FOut)"
  | (hands) m1 e1 m' e v where "fm_step (FmUnlock f) m = Some (m1, e1)" "fm_pc m1 f = FUnlockSched v" "fm_step (FmSchedule f) m1 = Some (m', e)"
      "calm m'" "fm_pc m v = FParked" "v \<noteq> f" "fm_pc m' = (fm_pc m)(f := FOut, v := FScheduled)"
proof -
  obtain h where inv: "fm_inv h m" using assms(1) by (auto simp: calm_def)
  note D = fm_invD [OF inv]
  show thesis
  proof (cases "fm_items m")
    case Nil
    let ?m = "fto f FOut (m\<lparr>fm_locked := False\<rparr>)"
    have st: "fm_step (FmUnlock f) m = Some (?m, [Released f])" using assms(2) Nil D(6) by (simp add: Unlock_def IsEmpty_iff fm_items_def)
    moreover have "calm ?m" using assms(1) fm_inv_step [OF _ st] by (auto simp: calm_def fto_def)
    ultimately show thesis using free by (simp add: fto_def)
  next
    case (Cons v vs)
    obtain l where pop: "Pop (fm_links m) (fm_waiters m) = Inr (l, Some v)" using Pop_cons [OF D(6), of v vs] Cons unfolding fm_items_def by metis
    have ne: "\<not> IsEmpty (fm_waiters m)" using D(6) Cons by (simp add: IsEmpty_iff fm_items_def)
    have v: "fm_pc m v = FParked" "v \<noteq> f" using D(3) [of v] Cons assms(2) by auto
    let ?m1 = "fto f (FUnlockSched v) (m\<lparr>fm_waiters := l\<rparr>)"
    let ?m = "fto v FScheduled (fto f FOut ?m1)"
    have st: "fm_step (FmUnlock f) m = Some (?m1, [Released f])" using assms(2) ne pop by (simp add: Unlock_def)
    have st2: "fm_step (FmSchedule f) ?m1 = Some (?m, [])" using v by (simp add: waiter_Schedule_def fto_def)
    have "calm ?m" using assms(1) fm_inv_step [OF fm_inv_step [OF _ st] st2] by (auto simp: calm_def fto_def)
    moreover have "fm_pc ?m = (fm_pc m)(f := FOut, v := FScheduled)" by (simp add: fto_def)
    ultimately show thesis using hands [OF st _ st2] v by (simp add: fto_def)
  qed
qed

lemma calm_resume:
  assumes "calm m" and "fm_pc m f = FScheduled"
  obtains m' e where "fm_step (FmResume f) m = Some (m', e)" "calm m'" "fm_pc m' = (fm_pc m)(f := FIn)"
proof -
  let ?m = "fto f FIn m"
  have st: "fm_step (FmResume f) m = Some (?m, [Acquired f])" using assms by (simp add: fiber_resumes_def calm_def)
  moreover have "calm ?m" using assms(1) fm_inv_step [OF _ st] by (auto simp: calm_def fto_def)
  ultimately show thesis using that by (simp add: fto_def)
qed

subsection \<open>The invariant\<close>

text \<open>
  The queue of the executor holds the live fibers that are neither parked nor running (\<open>me\<close> is the running one), and every fiber is at a place
  that fits what it has still to do.
\<close>

definition programs_inv :: "links \<Rightarrow> ptr \<Rightarrow> addr list \<Rightarrow> mutex_world \<Rightarrow> bool" where
  "programs_inv h me q w \<longleftrightarrow>
     reach fm_step (init_fiber_mutex h) (mw_log w) (mw_mutex w) \<and> calm (mw_mutex w) \<and> \<not> mw_stuck w \<and> distinct q \<and>
     (\<forall>f. f \<in> set q \<longleftrightarrow> mw_prog w f \<noteq> None \<and> fm_pc (mw_mutex w) f \<noteq> FParked \<and> me \<noteq> Some f) \<and>
     (\<forall>f. mw_prog w f = None \<longrightarrow> fm_pc (mw_mutex w) f = FOut) \<and>
     (\<forall>f as. mw_prog w f = Some as \<longrightarrow> f < 2 ^ 62 \<and> (me \<noteq> Some f \<longrightarrow> bracketed (fm_pc (mw_mutex w) f \<noteq> FOut) as))"

lemma programs_invD:
  assumes "programs_inv h me q w"
  shows "reach fm_step (init_fiber_mutex h) (mw_log w) (mw_mutex w)" "calm (mw_mutex w)" "\<not> mw_stuck w" "distinct q"
    "f \<in> set q \<longleftrightarrow> mw_prog w f \<noteq> None \<and> fm_pc (mw_mutex w) f \<noteq> FParked \<and> me \<noteq> Some f"
    "mw_prog w f = None \<Longrightarrow> fm_pc (mw_mutex w) f = FOut" "mw_prog w f = Some as \<Longrightarrow> f < 2 ^ 62"
    "mw_prog w f = Some as \<Longrightarrow> me \<noteq> Some f \<Longrightarrow> bracketed (fm_pc (mw_mutex w) f \<noteq> FOut) as"
  using assms unfolding programs_inv_def by blast+

text \<open>A step of the mutex made by the running fiber.\<close>

lemma programs_move:
  assumes inv: "programs_inv h (Some f) q w" and st: "fm_step c (mw_mutex w) = Some (m, e)" and "calm m"
    and pc: "fm_pc m = (fm_pc (mw_mutex w))(f := p)" and f: "mw_prog w f \<noteq> None"
  shows "on_mutex c w = w\<lparr>mw_mutex := m, mw_log := mw_log w @ e\<rparr>" "programs_inv h (Some f) q (on_mutex c w)"
proof -
  show o: "on_mutex c w = w\<lparr>mw_mutex := m, mw_log := mw_log w @ e\<rparr>" using st by (simp add: on_mutex_def)
  have "reach fm_step (init_fiber_mutex h) (mw_log w @ e) m" using reach.reach_step [OF programs_invD(1) [OF inv] st] .
  then show "programs_inv h (Some f) q (on_mutex c w)"
    using inv assms(3) f unfolding o programs_inv_def by (auto simp: pc)
qed

text \<open>The running fiber stops, at a place that fits the rest of its program.\<close>

lemma program_stops:
  assumes inv: "programs_inv h (Some f) q w" and f: "mw_prog w f \<noteq> None"
  shows "fm_pc (mw_mutex w) f = FOut \<Longrightarrow> programs_inv h None q (set_prog f None w)"
    "bracketed (fm_pc (mw_mutex w) f \<noteq> FOut) as \<Longrightarrow> fm_pc (mw_mutex w) f \<noteq> FParked \<Longrightarrow> programs_inv h None (q @ [f]) (set_prog f (Some as) w)"
    "bracketed (fm_pc (mw_mutex w) f \<noteq> FOut) as \<Longrightarrow> fm_pc (mw_mutex w) f = FParked \<Longrightarrow> programs_inv h None q (set_prog f (Some as) w)"
  using inv f unfolding programs_inv_def by (auto simp: set_prog_def)

lemma run_actions_ok:
  "programs_inv h (Some f) (q @ subs) w \<Longrightarrow> mw_prog w f \<noteq> None \<Longrightarrow> fm_pc (mw_mutex w) f \<in> {FOut, FIn} \<Longrightarrow>
   bracketed (fm_pc (mw_mutex w) f \<noteq> FOut) as \<Longrightarrow>
   \<exists>w' subs'. run_actions f as subs w = (w', subs') \<and> programs_inv h None (q @ subs') w' \<and> (\<forall>g. g \<noteq> f \<longrightarrow> mw_prog w' g = mw_prog w g) \<and>
     (\<forall>bs. mw_prog w' f = Some bs \<longrightarrow> length bs < length as)"
proof (induction as arbitrary: subs w)
  case Nil
  then show ?case using program_stops(1) [OF Nil.prems(1,2)] by (auto simp: set_prog_def)
next
  case (Cons a as)
  let ?m = "mw_mutex w"
  note inv = Cons.prems(1) and live = Cons.prems(2)
  have c: "calm ?m" by (rule programs_invD(2) [OF inv])
  have lt: "f < 2 ^ 62" using programs_invD(7) [OF inv] live by auto
  show ?case
  proof (cases a)
    case MYield
    then have "programs_inv h None ((q @ subs) @ [f]) (set_prog f (Some as) w)"
      using Cons.prems(3,4) by (intro program_stops(2) [OF inv live]) auto
    with MYield show ?thesis by (simp add: set_prog_def)
  next
    case MLock
    then have out: "fm_pc ?m f = FOut" and b: "bracketed True as" using Cons.prems(4) by auto
    show ?thesis
    proof (cases rule: calm_lock [OF c out lt])
      case (1 m' e)
      note mv = programs_move [OF inv 1 live]
      let ?w = "on_mutex (FmLock f) w"
      have "mw_prog ?w f \<noteq> None" "fm_pc (mw_mutex ?w) f = FIn" using live 1(3) by (simp_all add: mv(1))
      then obtain w' subs' where r: "run_actions f as subs ?w = (w', subs')" "programs_inv h None (q @ subs') w'"
        "\<forall>g. g \<noteq> f \<longrightarrow> mw_prog w' g = mw_prog ?w g" "\<forall>bs. mw_prog w' f = Some bs \<longrightarrow> length bs < length as"
        using Cons.IH [OF mv(2)] b by auto
      have "run_actions f (a # as) subs w = (w', subs')" using MLock r(1) \<open>fm_pc (mw_mutex ?w) f = FIn\<close> by (simp add: Let_def)
      then show ?thesis using r(2-4) mv(1) by fastforce
    next
      case (2 m1 e1 m' e)
      have two: "on_mutex (FmClear f) (on_mutex (FmLock f) w) = w\<lparr>mw_mutex := m', mw_log := mw_log w @ e1 @ e\<rparr>"
        using 2(1,3) by (simp add: on_mutex_def)
      have "reach fm_step (init_fiber_mutex h) (mw_log w @ e1 @ e) m'"
        using reach.reach_step [OF reach.reach_step [OF programs_invD(1) [OF inv] 2(1)] 2(3)] by simp
      then have "programs_inv h (Some f) (q @ subs) (on_mutex (FmClear f) (on_mutex (FmLock f) w))"
        using inv 2(4,5) live unfolding two programs_inv_def by auto
      from program_stops(3) [OF this, of as] have "programs_inv h None (q @ subs) (set_prog f (Some as) (on_mutex (FmClear f) (on_mutex (FmLock f) w)))"
        using live b 2(5) by (simp add: two)
      moreover have "fm_pc (mw_mutex (on_mutex (FmLock f) w)) f = FParked" using 2(1,2) by (simp add: on_mutex_def)
      ultimately show ?thesis using MLock two by (auto simp: Let_def set_prog_def)
    qed
  next
    case MUnlock
    then have inn: "fm_pc ?m f = FIn" and b: "bracketed False as" using Cons.prems(3,4) by auto
    show ?thesis
    proof (cases rule: calm_unlock [OF c inn])
      case (1 m' e)
      note mv = programs_move [OF inv 1 live]
      let ?w = "on_mutex (FmUnlock f) w"
      have pc: "mw_prog ?w f \<noteq> None" "fm_pc (mw_mutex ?w) f = FOut" using live 1(3) by (simp_all add: mv(1))
      then obtain w' subs' where r: "run_actions f as subs ?w = (w', subs')" "programs_inv h None (q @ subs') w'"
        "\<forall>g. g \<noteq> f \<longrightarrow> mw_prog w' g = mw_prog ?w g" "\<forall>bs. mw_prog w' f = Some bs \<longrightarrow> length bs < length as"
        using Cons.IH [OF mv(2)] b by auto
      have "run_actions f (a # as) subs w = (w', subs')" using MUnlock r(1) pc(2) by (simp add: Let_def)
      then show ?thesis using r(2-4) mv(1) by fastforce
    next
      case (2 m1 e1 m' e v)
      let ?w = "on_mutex (FmSchedule f) (on_mutex (FmUnlock f) w)"
      have two: "?w = w\<lparr>mw_mutex := m', mw_log := mw_log w @ e1 @ e\<rparr>" using 2(1,3) by (simp add: on_mutex_def)
      have "reach fm_step (init_fiber_mutex h) (mw_log w @ e1 @ e) m'"
        using reach.reach_step [OF reach.reach_step [OF programs_invD(1) [OF inv] 2(1)] 2(3)] by simp
      moreover have v: "v \<notin> set (q @ subs)" "mw_prog w v \<noteq> None" using programs_invD(5,6) [OF inv, of v] 2(5) by auto
      then have "bracketed True (the (mw_prog w v))" using programs_invD(8) [OF inv, of v] 2(5,6) by auto
      ultimately have "programs_inv h (Some f) ((q @ subs) @ [v]) ?w"
        using inv 2(4-7) live v unfolding two programs_inv_def by auto
      then have "programs_inv h (Some f) (q @ (subs @ [v])) ?w" by simp
      moreover have "mw_prog ?w f \<noteq> None" "fm_pc (mw_mutex ?w) f = FOut" using live 2(6,7) by (simp_all add: two)
      ultimately obtain w' subs' where r: "run_actions f as (subs @ [v]) ?w = (w', subs')" "programs_inv h None (q @ subs') w'"
        "\<forall>g. g \<noteq> f \<longrightarrow> mw_prog w' g = mw_prog ?w g" "\<forall>bs. mw_prog w' f = Some bs \<longrightarrow> length bs < length as"
        using Cons.IH [of "subs @ [v]" ?w] b by auto
      have "fm_pc (mw_mutex (on_mutex (FmUnlock f) w)) f = FUnlockSched v" using 2(1,2) by (simp add: on_mutex_def)
      then have "run_actions f (a # as) subs w = (w', subs')" using MUnlock r(1) by (simp add: Let_def)
      then show ?thesis using r(2-4) two by fastforce
    qed
  qed
qed

lemma program_body_ok:
  assumes inv: "programs_inv h None (f # q) w"
  obtains as w' subs where "mw_prog w f = Some as" "program_body f w = (w', subs)" "programs_inv h None (q @ subs) w'"
    "\<And>g. g \<noteq> f \<Longrightarrow> mw_prog w' g = mw_prog w g" "\<And>bs. mw_prog w' f = Some bs \<Longrightarrow> length bs < length as"
proof -
  let ?m = "mw_mutex w"
  obtain as where as: "mw_prog w f = Some as" and np: "fm_pc ?m f \<noteq> FParked" using programs_invD(5) [OF inv, of f] by auto
  have b: "bracketed (fm_pc ?m f \<noteq> FOut) as" using programs_invD(8) [OF inv as] by simp
  have c: "calm ?m" by (rule programs_invD(2) [OF inv])
  have run: "programs_inv h (Some f) (q @ []) w" using inv unfolding programs_inv_def by auto
  define v where "v = (if fm_pc ?m f = FScheduled then on_mutex (FmResume f) w else w)"
  have "programs_inv h (Some f) (q @ []) v \<and> mw_prog v = mw_prog w \<and> fm_pc (mw_mutex v) f \<in> {FOut, FIn} \<and>
    (fm_pc (mw_mutex v) f = FOut \<longleftrightarrow> fm_pc ?m f = FOut)"
  proof (cases "fm_pc ?m f = FScheduled")
    case True
    obtain m' e where m': "fm_step (FmResume f) ?m = Some (m', e)" "calm m'" "fm_pc m' = (fm_pc ?m)(f := FIn)" using calm_resume [OF c True] .
    note mv = programs_move [OF run m']
    show ?thesis using mv as m'(3) True by (simp add: v_def)
  next
    case False
    then have "fm_pc ?m f \<in> {FOut, FIn}" using c np by (cases "fm_pc ?m f") (auto simp: calm_def)
    with False run show ?thesis by (simp add: v_def)
  qed
  then obtain w' subs where r: "run_actions f as [] v = (w', subs)" "programs_inv h None (q @ subs) w'" "\<forall>g. g \<noteq> f \<longrightarrow> mw_prog w' g = mw_prog w g"
    "\<forall>bs. mw_prog w' f = Some bs \<longrightarrow> length bs < length as"
    using run_actions_ok [of h f q "[]" v as] as b by auto
  have "program_body f w = (w', subs)" using as r(1) by (simp add: program_body_def v_def)
  with that as r(2-4) show thesis by blast
qed

subsection \<open>Draining the executor\<close>

definition work :: "addr list \<Rightarrow> mutex_world \<Rightarrow> nat" where
  "work fs w = (\<Sum>f \<leftarrow> fs. case mw_prog w f of None \<Rightarrow> 0 | Some as \<Rightarrow> Suc (length as))"

lemma work_decreases:
  assumes "f \<in> set fs" and "distinct fs" and "mw_prog w f = Some as" and "\<And>g. g \<noteq> f \<Longrightarrow> mw_prog w' g = mw_prog w g"
    and "\<And>bs. mw_prog w' f = Some bs \<Longrightarrow> length bs < length as"
  shows "work fs w' < work fs w"
proof -
  let ?n = "\<lambda>w f. case mw_prog w f of None \<Rightarrow> 0 | Some as \<Rightarrow> Suc (length as)"
  obtain xs ys where fs: "fs = xs @ f # ys" using assms(1) by (meson split_list)
  then have "f \<notin> set xs" "f \<notin> set ys" using assms(2) by auto
  then have "\<forall>g \<in> set xs \<union> set ys. mw_prog w' g = mw_prog w g" using assms(4) by (metis Un_iff)
  then have "sum_list (map (?n w') xs) = sum_list (map (?n w) xs)" "sum_list (map (?n w') ys) = sum_list (map (?n w) ys)"
    by (metis (no_types, lifting) UnI1 UnI2 map_cong)+
  moreover have "?n w' f < ?n w f" using assms(3,5) by (cases "mw_prog w' f") auto
  ultimately show ?thesis by (simp add: work_def fs)
qed

lemma can_submit_fresh: "distinct (q @ subs) \<Longrightarrow> length (q @ subs) < 2 ^ 64 \<Longrightarrow> can_submit subs q"
  by (induction subs arbitrary: q) (auto simp: list_room_def)

lemma world_queue_short:
  assumes "programs_inv h me q w"
  shows "length q < 2 ^ 64"
proof -
  have "set q \<subseteq> {..<2 ^ 62}" using programs_invD(5,7) [OF assms] by blast
  then have "card (set q) \<le> card {..<(2::nat) ^ 62}" by (intro card_mono) auto
  then show ?thesis using programs_invD(4) [OF assms] by (simp add: distinct_card)
qed

lemma programs_finish:
  "programs_inv h None q w \<Longrightarrow> \<forall>f. mw_prog w f \<noteq> None \<longrightarrow> f \<in> set fs \<Longrightarrow> distinct fs \<Longrightarrow> work fs w \<le> n \<Longrightarrow>
   \<exists>k w'. fifo_run program_body n w q = Some (k, w', []) \<and> programs_inv h None [] w'"
proof (induction n arbitrary: q w)
  case 0
  then have "q = []"
  proof (cases q)
    case (Cons f q')
    then obtain as where as: "mw_prog w f = Some as" "f \<in> set fs" using programs_invD(5) [OF "0.prems"(1), of f] "0.prems"(2) by auto
    have "work fs (set_prog f None w) < work fs w" using as "0.prems"(3) by (intro work_decreases) (auto simp: set_prog_def)
    with "0.prems"(4) show ?thesis by simp
  qed
  with 0 show ?case by simp
next
  case (Suc n)
  show ?case
  proof (cases q)
    case Nil
    with Suc.prems(1) show ?thesis by auto
  next
    case (Cons f q')
    obtain as w1 subs where s: "mw_prog w f = Some as" "program_body f w = (w1, subs)" "programs_inv h None (q' @ subs) w1"
      "\<And>g. g \<noteq> f \<Longrightarrow> mw_prog w1 g = mw_prog w g" "\<And>bs. mw_prog w1 f = Some bs \<Longrightarrow> length bs < length as"
      using program_body_ok Suc.prems(1) unfolding Cons by blast
    have "work fs w1 < work fs w" using s(1,4,5) Suc.prems(2,3) by (intro work_decreases) auto
    then have "work fs w1 \<le> n" using Suc.prems(4) by simp
    moreover have "\<forall>g. mw_prog w1 g \<noteq> None \<longrightarrow> g \<in> set fs" using s(1,4) Suc.prems(2) by (metis option.distinct(1))
    ultimately obtain k w' where r: "fifo_run program_body n w1 (q' @ subs) = Some (k, w', [])" "programs_inv h None [] w'"
      using Suc.IH [OF s(3) _ Suc.prems(3)] by blast
    have "can_submit subs q'" using can_submit_fresh programs_invD(4) [OF s(3)] world_queue_short [OF s(3)] by blast
    then have "fifo_run program_body (Suc n) w q = Some (Suc k, w', [])" using s(2) r(1) by (simp add: Cons)
    with r(2) show ?thesis by blast
  qed
qed

text \<open>With an empty queue nobody is parked: the holder of the mutex would be in the queue.\<close>

lemma world_finished:
  assumes inv: "programs_inv h None [] w"
  shows "mw_prog w f = None"
proof (rule ccontr)
  assume "mw_prog w f \<noteq> None"
  let ?m = "mw_mutex w"
  have q: "fm_pc ?m g = FParked" if "mw_prog w g \<noteq> None" for g using programs_invD(5) [OF inv, of g] that by simp
  have out: "fm_pc ?m g \<in> {FOut, FParked}" for g using q [of g] programs_invD(6) [OF inv, of g] by auto
  obtain k where k: "fm_inv k ?m" using programs_invD(2) [OF inv] by (auto simp: calm_def)
  note D = fm_invD [OF k]
  have "k = Free" using out D(1,2,4) by (cases k) (metis empty_iff fm_pc.distinct insert_iff)+
  then have "fm_pc ?m f \<noteq> FParked" using D(3) [of f] D(8) by simp
  with q \<open>mw_prog w f \<noteq> None\<close> show False by blast
qed

lemma start_programs_inv:
  assumes "\<forall>f \<in> set fs. f < 2 ^ 62 \<and> bracketed False (progs f)" and "distinct fs"
  shows "programs_inv h None fs (start_world h fs progs)"
proof -
  have "\<exists>k. fm_inv k (init_fiber_mutex h)" using fm_sim_init by (auto simp: fm_sim_def)
  then have "calm (init_fiber_mutex h)" by (simp add: calm_def init_fiber_mutex_def)
  then show ?thesis using assms
    by (auto simp: programs_inv_def start_world_def init_fiber_mutex_def intro: reach.reach_init)
qed

lemma calm_free_history:
  assumes "reach fm_step (init_fiber_mutex h) es m" and "\<And>f. fm_pc m f = FOut"
  shows "alternates None es" "announced es = acquired es"
proof -
  obtain a where a: "reach queue_lock_spec ([], False) es a" "fm_sim a m" using fiber_mutex_refines.refines [OF assms(1)] by blast
  then obtain k where k: "fm_inv k m" "a = fm_abs k (fm_items m)" by (auto simp: fm_sim_def)
  note D = fm_invD [OF k(1)]
  have free: "k = Free" using D(1,2,4) assms(2) by (cases k) (metis fm_pc.distinct)+
  then have "a = ([], False)" using k(2) D(8) by simp
  then show "alternates None es" "announced es = acquired es" using queue_lock_fifo [OF a(1)] by simp_all
qed

subsection \<open>Properties\<close>

text \<open>
  C12: Fibers with well-bracketed programs of lock, unlock and yield, submitted to the manual executor, all complete in one \<open>Drain\<close>,
  whatever their number and however their critical sections contain yields: \<open>Drain\<close> returns, the executor is empty, every fiber has run to its
  end and is outside the mutex, no call was refused and nothing faulted (on one thread the race of the guards cannot happen), the
  history of the mutex alternates acquisitions and releases, and the fibers entered in the order in which they called \<open>Lock\<close>.\<close>
theorem mutex_fibers_drain:
  assumes "me_inv e" and "\<forall>f \<in> set (me_queue e). int f < 2 ^ 62 \<and> bracketed False (progs f)"
  shows "\<exists>n w e'. Drain program_body (start_world h (me_queue e) progs) e = Some (Inr (n, w, e')) \<and> me_queue e' = [] \<and>
    (\<forall>f. mw_prog w f = None \<and> fm_pc (mw_mutex w) f = FOut) \<and> \<not> mw_stuck w \<and>
    reach fm_step (init_fiber_mutex h) (mw_log w) (mw_mutex w) \<and> alternates None (mw_log w) \<and> announced (mw_log w) = acquired (mw_log w)"
proof -
  let ?w = "start_world h (me_queue e) progs"
  have d: "distinct (me_queue e)" using assms(1) by (simp add: me_inv_def me_queue_def il_inv_def)
  have "\<forall>f \<in> set (me_queue e). f < 2 ^ 62 \<and> bracketed False (progs f)" using assms(2) by auto
  from start_programs_inv [OF this d] have inv: "programs_inv h None (me_queue e) ?w" .
  have "\<forall>f. mw_prog ?w f \<noteq> None \<longrightarrow> f \<in> set (me_queue e)" by (simp add: start_world_def)
  from programs_finish [OF inv this d order_refl] obtain k w where
    r: "fifo_run program_body (work (me_queue e) ?w) ?w (me_queue e) = Some (k, w, [])" "programs_inv h None [] w" by blast
  obtain e' where "Drain program_body ?w e = Some (Inr (of_nat k, w, e'))" "me_queue e' = []"
    using Drain_loop_ok [OF assms(1) r(1), of 0] by (auto simp: Drain_def)
  moreover have p: "mw_prog w f = None" for f by (rule world_finished [OF r(2)])
  then have "fm_pc (mw_mutex w) f = FOut" for f using programs_invD(6) [OF r(2)] by blast
  moreover note calm_free_history [OF programs_invD(1) [OF r(2)] this] programs_invD(1,3) [OF r(2)]
  ultimately show ?thesis using p by blast
qed

theorem mutex_fibers_drain_witness:
  "\<exists>n w e'. Drain program_body (start_world (\<lambda>_. None) [1, 2] (\<lambda>f. [MLock, MYield, MUnlock])) sample_executor = Some (Inr (n, w, e')) \<and>
     me_queue e' = [] \<and> mw_prog w 1 = None \<and> mw_prog w 2 = None \<and> announced (mw_log w) = acquired (mw_log w)"
proof -
  have "\<forall>f \<in> set (me_queue sample_executor). int f < 2 ^ 62 \<and> bracketed False [MLock, MYield, MUnlock]" by (simp add: sample_inv(2))
  from mutex_fibers_drain [OF sample_inv(1) this, of "\<lambda>_. None"] show ?thesis unfolding sample_inv(2) by blast
qed

end
