(* ===== verification/Contexts.thy ===== *)
theory Contexts
  imports Prelude
begin

text \<open>
  The context switch of \<^verbatim>\<open>src/context/buffer/prepare_context.s\<close>, instruction by instruction, and the
  classes \<open>Buffer\<close>, \<open>BufferContext\<close> and \<open>Context\<close> around it.

  The machine has the registers the two routines use and a memory of 64-bit words at byte addresses; every access of
  the routines is 8-byte aligned when the stack pointers are, so words at different addresses do not overlap. A routine
  is the list of its instructions; \<open>retq\<close> pops the instruction pointer.

  The lemmas show that the prepared frame lies inside the buffer, enters \<open>CallRunner\<close> with the alignment of the calling
  convention and the runner as the seventh argument, and that a context that is switched away from and back to continues
  at its return address with its stack pointer and its callee-saved registers.
\<close>

unbundle bit_operations_syntax

type_synonym qword = "64 word"

datatype reg = RAX | RBX | RCX | RDX | RSI | RDI | RBP | RSP | R8 | R9 | R10 | R11 | R12 | R13 | R14 | R15

record cpu =
  regs :: "reg \<Rightarrow> qword"
  mem :: "qword \<Rightarrow> qword"
  rip :: qword

datatype instr =
    MovReg reg reg          \<comment> \<open>\<open>movq %src, %dst\<close>\<close>
  | MovStore reg qword reg  \<comment> \<open>\<open>movq %src, disp(%base)\<close>\<close>
  | MovLoad qword reg reg   \<comment> \<open>\<open>movq disp(%base), %dst\<close>\<close>
  | SubImm qword reg
  | AddImm qword reg
  | AndImm qword reg
  | PushReg reg
  | PushImm qword
  | PopReg reg
  | Ret

definition set_reg :: "reg \<Rightarrow> qword \<Rightarrow> cpu \<Rightarrow> cpu" where
  "set_reg r v s = s\<lparr>regs := (regs s)(r := v)\<rparr>"

definition push :: "qword \<Rightarrow> cpu \<Rightarrow> cpu" where
  "push v s = (let p = regs s RSP - 8 in set_reg RSP p (s\<lparr>mem := (mem s)(p := v)\<rparr>))"

fun exec_instr :: "instr \<Rightarrow> cpu \<Rightarrow> cpu" where
  "exec_instr (MovReg a b) s = set_reg b (regs s a) s"
| "exec_instr (MovStore a d b) s = s\<lparr>mem := (mem s)(regs s b + d := regs s a)\<rparr>"
| "exec_instr (MovLoad d a b) s = set_reg b (mem s (regs s a + d)) s"
| "exec_instr (SubImm n r) s = set_reg r (regs s r - n) s"
| "exec_instr (AddImm n r) s = set_reg r (regs s r + n) s"
| "exec_instr (AndImm n r) s = set_reg r (regs s r AND n) s"
| "exec_instr (PushReg r) s = push (regs s r) s"
| "exec_instr (PushImm n) s = push n s"
| "exec_instr (PopReg r) s = set_reg r (mem s (regs s RSP)) (set_reg RSP (regs s RSP + 8) s)"
| "exec_instr Ret s = set_reg RSP (regs s RSP + 8) (s\<lparr>rip := mem s (regs s RSP)\<rparr>)"

fun exec :: "instr list \<Rightarrow> cpu \<Rightarrow> cpu" where
  "exec [] s = s"
| "exec (i # is) s = exec is (exec_instr i s)"

definition PrepareContextInBuffer :: "instr list" where
  "PrepareContextInBuffer =
    [MovReg RSP R11,
     MovReg RDI RSP,
     SubImm 64 RSP,
     AndImm (- 16) RSP,
     AddImm 8 RSP,
     MovStore RDX 8 RSP,
     PushReg RSI,
     PushImm 0,
     PushImm 0,
     PushImm 0,
     PushImm 0,
     PushImm 0,
     PushImm 0,
     MovReg RSP RAX,
     MovReg R11 RSP,
     Ret]"

definition SwitchBufferContext :: "instr list" where
  "SwitchBufferContext =
    [PushReg R15,
     PushReg R14,
     PushReg R13,
     PushReg R12,
     PushReg RBX,
     PushReg RBP,
     MovStore RSP 0 RDI,
     MovLoad 0 RSI RSP,
     PopReg RBP,
     PopReg RBX,
     PopReg R12,
     PopReg R13,
     PopReg R14,
     PopReg R15,
     Ret]"

text \<open>The stack pointer at the entry of \<open>CallRunner\<close>.\<close>

definition entry_rsp :: "qword \<Rightarrow> qword" where
  "entry_rsp b = ((b - 64) AND - 16) + 8"

definition prepared_words :: "qword \<Rightarrow> qword set" where
  "prepared_words b = (\<lambda>k. entry_rsp b - 8 * k) ` {1, 2, 3, 4, 5, 6, 7} \<union> {entry_rsp b + 8}"

definition callee_saved :: "reg list" where
  "callee_saved = [RBX, RBP, R12, R13, R14, R15]"

lemma prepare_exec:
  assumes "s' = exec PrepareContextInBuffer s" and sep: "regs s RSP \<notin> prepared_words (regs s RDI)"
  defines "q \<equiv> entry_rsp (regs s RDI)"
  shows "regs s' RAX = q - 56" "regs s' RSP = regs s RSP + 8" "rip s' = mem s (regs s RSP)"
    "mem s' (q + 8) = regs s RDX" "mem s' (q - 8) = regs s RSI"
    "\<forall>k \<in> {2, 3, 4, 5, 6, 7}. mem s' (q - 8 * k) = 0"
    "\<forall>a. a \<notin> prepared_words (regs s RDI) \<longrightarrow> mem s' a = mem s a"
    "\<forall>r \<in> set callee_saved. regs s' r = regs s r"
proof -
  have s': "s' = exec PrepareContextInBuffer s" by (rule assms)
  have q: "((regs s RDI - 64) AND - 16) + 8 = q" by (simp add: q_def entry_rsp_def)
  note e = s' PrepareContextInBuffer_def push_def set_reg_def Let_def q
  show "regs s' RAX = q - 56" by (simp add: e)
  show "regs s' RSP = regs s RSP + 8" by (simp add: e)
  show "rip s' = mem s (regs s RSP)" using sep by (simp add: e prepared_words_def flip: q_def)
  show "mem s' (q + 8) = regs s RDX" by (simp add: e)
  show "mem s' (q - 8) = regs s RSI" by (simp add: e)
  show "\<forall>k \<in> {2, 3, 4, 5, 6, 7}. mem s' (q - 8 * k) = 0" by (simp add: e)
  show "\<forall>a. a \<notin> prepared_words (regs s RDI) \<longrightarrow> mem s' a = mem s a"
    by (simp add: e prepared_words_def flip: q_def)
  show "\<forall>r \<in> set callee_saved. regs s' r = regs s r" by (simp add: e callee_saved_def)
qed

definition saved_words :: "qword \<Rightarrow> qword set" where
  "saved_words sp = {sp - 48, sp - 40, sp - 32, sp - 24, sp - 16, sp - 8}"

lemma switch_exec:
  assumes s': "s' = exec SwitchBufferContext s"
    and sep: "regs s RDI \<notin> saved_words (regs s RSP)"
      "regs s RSI \<noteq> regs s RDI" "regs s RSI \<notin> saved_words (regs s RSP)"
      "mem s (regs s RSI) = p"
      "\<forall>k \<in> {0, 1, 2, 3, 4, 5, 6}. p + 8 * k \<notin> saved_words (regs s RSP) \<and> p + 8 * k \<noteq> regs s RDI"
  shows "mem s' (regs s RDI) = regs s RSP - 48" "regs s' RSP = p + 56" "rip s' = mem s (p + 48)"
    "regs s' RBP = mem s p" "regs s' RBX = mem s (p + 8)" "regs s' R12 = mem s (p + 16)"
    "regs s' R13 = mem s (p + 24)" "regs s' R14 = mem s (p + 32)" "regs s' R15 = mem s (p + 40)"
    "mem s' (regs s RSP - 48) = regs s RBP" "mem s' (regs s RSP - 40) = regs s RBX" "mem s' (regs s RSP - 32) = regs s R12"
    "mem s' (regs s RSP - 24) = regs s R13" "mem s' (regs s RSP - 16) = regs s R14" "mem s' (regs s RSP - 8) = regs s R15"
    "\<forall>a. a \<notin> saved_words (regs s RSP) \<union> {regs s RDI} \<longrightarrow> mem s' a = mem s a"
proof -
  note e = s' SwitchBufferContext_def push_def set_reg_def Let_def saved_words_def
  show "mem s' (regs s RDI) = regs s RSP - 48" using sep(1) by (simp add: e)
  have l: "mem (exec (take 7 SwitchBufferContext) s) a = mem s a" if "a \<notin> saved_words (regs s RSP)" "a \<noteq> regs s RDI" for a
    using that by (simp add: e)
  let ?s1 = "exec (take 7 SwitchBufferContext) s"
  have s1: "s' = exec (drop 7 SwitchBufferContext) ?s1" by (simp add: s' SwitchBufferContext_def)
  have si: "regs ?s1 RSI = regs s RSI" "mem ?s1 (regs s RSI) = p" using sep l by (simp_all add: e)
  have m: "mem s' = mem ?s1" by (simp add: s1 SwitchBufferContext_def set_reg_def)
  show "\<forall>a. a \<notin> saved_words (regs s RSP) \<union> {regs s RDI} \<longrightarrow> mem s' a = mem s a" using l m by simp
  show "mem s' (regs s RSP - 48) = regs s RBP" "mem s' (regs s RSP - 40) = regs s RBX" "mem s' (regs s RSP - 32) = regs s R12"
    "mem s' (regs s RSP - 24) = regs s R13" "mem s' (regs s RSP - 16) = regs s R14" "mem s' (regs s RSP - 8) = regs s R15"
    using sep(1) by (auto simp add: e)
  have k: "mem ?s1 (p + 8 * k) = mem s (p + 8 * k)" if "k \<in> {0, 1, 2, 3, 4, 5, 6}" for k using l sep(5) that by blast
  have f: "exec (drop 7 SwitchBufferContext) t = 
    t\<lparr>regs := (regs t)(RSP := q + 56, RBP := mem t q, RBX := mem t (q + 8), R12 := mem t (q + 16),
        R13 := mem t (q + 24), R14 := mem t (q + 32), R15 := mem t (q + 40)), rip := mem t (q + 48)\<rparr>"
    if "mem t (regs t RSI) = q" for t q
    using that by (cases t) (simp add: SwitchBufferContext_def set_reg_def fun_upd_twist add.commute)
  have "s' = ?s1\<lparr>regs := (regs ?s1)(RSP := p + 56, RBP := mem ?s1 p, RBX := mem ?s1 (p + 8), R12 := mem ?s1 (p + 16),
        R13 := mem ?s1 (p + 24), R14 := mem ?s1 (p + 32), R15 := mem ?s1 (p + 40)), rip := mem ?s1 (p + 48)\<rparr>"
    unfolding s1 by (rule f) (simp add: si)
  then show "regs s' RSP = p + 56" "rip s' = mem s (p + 48)"
    "regs s' RBP = mem s p" "regs s' RBX = mem s (p + 8)" "regs s' R12 = mem s (p + 16)"
    "regs s' R13 = mem s (p + 24)" "regs s' R14 = mem s (p + 32)" "regs s' R15 = mem s (p + 40)"
    using k [of 0] k [of 1] k [of 2] k [of 3] k [of 4] k [of 5] k [of 6] by simp_all
qed

text \<open>Rounding down to a multiple of sixteen.\<close>

lemma and_minus_16:
  fixes w :: qword
  shows "unat (w AND - 16) = unat w - unat w mod 16"
proof -
  have "(- 16 :: qword) = NOT (mask 4)" by (simp add: mask_eq_exp_minus_1 not_eq_complement)
  moreover have "w AND NOT (mask 4) = push_bit 4 (drop_bit 4 w)" by (rule bit_eqI) (auto simp: bit_simps)
  ultimately have "w AND - 16 = w - take_bit 4 w" using bits_ident [of 4 w] by (simp add: eq_diff_eq)
  moreover have "unat (take_bit 4 w) = unat w mod 16" by (simp add: take_bit_eq_mod unat_mod)
  ultimately show ?thesis by (simp add: unat_sub word_le_nat_alt)
qed

lemma entry_rsp_unat:
  assumes "127 \<le> unat b"
  shows "unat (entry_rsp b) = (unat b - 64) - (unat b - 64) mod 16 + 8"
proof -
  have b: "unat (b - 64) = unat b - 64" using assms by (simp add: unat_sub word_le_nat_alt)
  have "unat b < 2 ^ 64" using unsigned_less [of b] by simp
  with assms have "(unat b - 64) - (unat b - 64) mod 16 + 8 < 2 ^ 64" by linarith
  then show ?thesis unfolding entry_rsp_def by (simp add: unat_word_ariths and_minus_16 b)
qed

lemma entry_rsp_range:
  assumes "127 \<le> unat b"
  shows "unat (entry_rsp b) mod 16 = 8" "unat b - 71 \<le> unat (entry_rsp b)" "unat (entry_rsp b) + 56 \<le> unat b"
proof -
  let ?n = "unat b - 64"
  have n: "unat (entry_rsp b) = (?n - ?n mod 16) + 8" by (rule entry_rsp_unat [OF assms])
  have "?n - ?n mod 16 = 16 * (?n div 16)" by (rule minus_mod_eq_mult_div)
  then show "unat (entry_rsp b) mod 16 = 8" unfolding n by simp
  have "?n mod 16 < 16" "?n mod 16 \<le> ?n" by simp_all
  then show "unat b - 71 \<le> unat (entry_rsp b)" "unat (entry_rsp b) + 56 \<le> unat b" using assms unfolding n by linarith+
qed

lemma prepared_words_inside:
  assumes "127 \<le> unat b" and "a \<in> prepared_words b"
  shows "unat b - 127 \<le> unat a" "unat a + 7 \<le> unat b" "unat a mod 8 = 0"
proof -
  let ?q = "entry_rsp b"
  note r = entry_rsp_range [OF assms(1)]
  have lt: "unat b < 2 ^ 64" using unsigned_less [of b] by simp
  have q: "unat (?q - c) = unat ?q - unat c" if "unat c \<le> 56" for c
    using r(2) assms(1) that by (simp add: unat_sub word_le_nat_alt)
  have q8: "unat (?q + 8) = unat ?q + 8" using r(3) lt by (simp add: unat_word_ariths)
  have "a \<in> {?q - 8, ?q - 16, ?q - 24, ?q - 32, ?q - 40, ?q - 48, ?q - 56, ?q + 8}"
    using assms(2) by (auto simp: prepared_words_def)
  then have m: "unat a \<in> {unat ?q - 8, unat ?q - 16, unat ?q - 24, unat ?q - 32, unat ?q - 40, unat ?q - 48, unat ?q - 56, unat ?q + 8}"
    using q [of 8] q [of 16] q [of 24] q [of 32] q [of 40] q [of 48] q [of 56] q8 by auto
  from m r(2,3) assms(1) show "unat b - 127 \<le> unat a" "unat a + 7 \<le> unat b" by auto
  have "8 dvd unat ?q" using r(1) by presburger
  with m show "unat a mod 8 = 0" by (auto simp: mod_eq_0_iff_dvd dvd_diff_nat)
qed

subsection \<open>Buffer\<close>

record buffer =
  buf_data :: qword
  buf_size :: size_t

text \<open>The allocator is represented by the address it returns and by the set of live allocations.\<close>

definition AllocBytes :: "qword \<Rightarrow> size_t \<Rightarrow> qword set \<Rightarrow> buffer \<times> qword set" where
  "AllocBytes a bytes live = (\<lparr>buf_data = a, buf_size = bytes\<rparr>, insert a live)"

definition GetSpan :: "buffer \<Rightarrow> qword \<times> size_t" where
  "GetSpan b = (buf_data b, buf_size b)"

text \<open>The moving constructor returns the new buffer and what is left of the old one.\<close>

definition move_Buffer :: "buffer \<Rightarrow> buffer \<times> buffer" where
  "move_Buffer b = (b, \<lparr>buf_data = 0, buf_size = 0\<rparr>)"

definition destroy_Buffer :: "buffer \<Rightarrow> qword set \<Rightarrow> fault + qword set" where
  "destroy_Buffer b live =
     (if buf_data b = 0 then Inr live else if buf_data b \<in> live then Inr (live - {buf_data b}) else Inl UseAfterFree)"

lemma buffer_freed_once:
  assumes "a \<noteq> 0" and "a \<notin> live" and "AllocBytes a n live = (b, live')" and "move_Buffer b = (new, old)"
  shows "destroy_Buffer old live' = Inr live'" "destroy_Buffer new live' = Inr live" "GetSpan new = (a, n)"
  using assms by (auto simp: AllocBytes_def move_Buffer_def destroy_Buffer_def GetSpan_def)

subsection \<open>BufferContext\<close>

text \<open>
  A \<open>BufferContext\<close> is the address of its only field \<^verbatim>\<open>rsp_\<close>. A call loads the argument registers and pushes
  its return address \<open>ret\<close>. \<open>call_runner\<close> is the address of \<open>CallRunner\<close>.
\<close>

definition call :: "qword \<Rightarrow> instr list \<Rightarrow> qword \<Rightarrow> qword \<Rightarrow> qword \<Rightarrow> cpu \<Rightarrow> cpu" where
  "call ret code a1 a2 a3 s = exec code (push ret (set_reg RDX a3 (set_reg RSI a2 (set_reg RDI a1 s))))"

definition BufferContext_Setup :: "qword \<Rightarrow> qword \<Rightarrow> qword \<Rightarrow> qword \<times> size_t \<Rightarrow> qword \<Rightarrow> cpu \<Rightarrow> cpu" where
  "BufferContext_Setup call_runner ret this span runner s =
     (let s1 = call ret PrepareContextInBuffer (fst span + snd span - 1) call_runner runner s
      in s1\<lparr>mem := (mem s1)(this := regs s1 RAX)\<rparr>)"

text \<open>\<open>SwitchBufferContext\<close> has two parameters; the third register keeps what it holds.\<close>

definition BufferContext_SwitchTo :: "qword \<Rightarrow> qword \<Rightarrow> qword \<Rightarrow> cpu \<Rightarrow> cpu" where
  "BufferContext_SwitchTo ret this target s = call ret SwitchBufferContext this target (regs s RDX) s"

text \<open>The words a switch pushes on the stack it leaves, and the words it pops from the one it enters.\<close>

definition pushed :: "cpu \<Rightarrow> qword set" where
  "pushed s = insert (regs s RSP - 8) (saved_words (regs s RSP - 8))"

definition popped :: "qword \<Rightarrow> qword set" where
  "popped p = (\<lambda>k. p + 8 * k) ` {0, 1, 2, 3, 4, 5, 6}"

definition apart :: "qword \<Rightarrow> qword \<Rightarrow> qword \<Rightarrow> cpu \<Rightarrow> bool" where
  "apart this target p s \<longleftrightarrow> this \<notin> pushed s \<and> target \<notin> pushed s \<and> target \<noteq> this \<and> this \<notin> popped p \<and> popped p \<inter> pushed s = {}"

lemma popped_pushed: "popped (regs s RSP - 56) = pushed s"
  by (auto simp: popped_def pushed_def saved_words_def)

lemma switch_to_exec:
  assumes s': "s' = BufferContext_SwitchTo ret this target s" and p: "mem s target = p" and ap: "apart this target p s"
  shows "mem s' this = regs s RSP - 56" "regs s' RSP = p + 56" "rip s' = mem s (p + 48)"
    "map (regs s') [RBP, RBX, R12, R13, R14, R15] = map (mem s) [p, p + 8, p + 16, p + 24, p + 32, p + 40]"
    "map (mem s') (map (\<lambda>k. regs s RSP - 56 + 8 * k) [0, 1, 2, 3, 4, 5, 6]) =
       map (regs s) [RBP, RBX, R12, R13, R14, R15] @ [ret]"
    "\<forall>a. a \<notin> pushed s \<union> {this} \<longrightarrow> mem s' a = mem s a"
proof -
  let ?t = "push ret (set_reg RDX (regs s RDX) (set_reg RSI target (set_reg RDI this s)))"
  have t: "regs ?t RSP = regs s RSP - 8" "regs ?t RDI = this" "regs ?t RSI = target"
    "mem ?t = (mem s)(regs s RSP - 8 := ret)" "\<forall>r \<in> set [RBP, RBX, R12, R13, R14, R15]. regs ?t r = regs s r"
    by (simp_all add: push_def set_reg_def Let_def)
  note d = ap [unfolded apart_def pushed_def]
  have pop: "p + 8 * k \<in> popped p" if "k \<in> {0, 1, 2, 3, 4, 5, 6}" for k using that by (auto simp: popped_def)
  have eq: "s' = exec SwitchBufferContext ?t" using s' by (simp add: BufferContext_SwitchTo_def call_def)
  have m: "mem ?t (p + 8 * k) = mem s (p + 8 * k)" if "k \<in> {0, 1, 2, 3, 4, 5, 6}" for k using pop [OF that] d t(4) by auto
  note sw = switch_exec [OF eq, of p, unfolded t(1-3)]
  have h: "this \<notin> saved_words (regs s RSP - 8)" "target \<noteq> this" "target \<notin> saved_words (regs s RSP - 8)" "mem ?t target = p"
    using d p t(4) by auto
  have "p + 8 * k \<notin> saved_words (regs s RSP - 8) \<and> p + 8 * k \<noteq> this" if "k \<in> {0, 1, 2, 3, 4, 5, 6}" for k
    using pop [OF that] d by blast
  then have "\<forall>k \<in> {0, 1, 2, 3, 4, 5, 6}. p + 8 * k \<notin> saved_words (regs s RSP - 8) \<and> p + 8 * k \<noteq> this" by (rule ballI)
  note sw = sw [OF h this]
  show "mem s' this = regs s RSP - 56" using sw(1) by simp
  show "regs s' RSP = p + 56" by (rule sw(2))
  show "rip s' = mem s (p + 48)" using sw(3) m [of 6] by simp
  show "map (regs s') [RBP, RBX, R12, R13, R14, R15] = map (mem s) [p, p + 8, p + 16, p + 24, p + 32, p + 40]"
    using sw(4-9) m [of 0] m [of 1] m [of 2] m [of 3] m [of 4] m [of 5] by simp
  have "regs s RSP - 8 \<notin> saved_words (regs s RSP - 8)" by (simp add: saved_words_def)
  moreover have "regs s RSP - 8 \<noteq> this" using d by auto
  ultimately have "mem s' (regs s RSP - 8) = ret" using sw(16) t(4) by (metis Un_iff fun_upd_same singletonD)
  then show "map (mem s') (map (\<lambda>k. regs s RSP - 56 + 8 * k) [0, 1, 2, 3, 4, 5, 6]) =
       map (regs s) [RBP, RBX, R12, R13, R14, R15] @ [ret]"
    using sw(10-15) t(4,5) by simp
  show "\<forall>a. a \<notin> pushed s \<union> {this} \<longrightarrow> mem s' a = mem s a" using sw(16) t(4) by (auto simp: pushed_def)
qed

subsection \<open>Context\<close>

text \<open>
  The frame of a context names the \<open>Context\<close> itself as the runner of \<open>CallRunner\<close>; \<open>Context::Run\<close> runs the runner
  stored in \<^verbatim>\<open>runner_\<close>. The sanitizer contexts of the normal build are empty.
\<close>

type_synonym runners = "qword \<Rightarrow> qword"

definition Context_Setup ::
  "qword \<Rightarrow> qword \<Rightarrow> qword \<Rightarrow> qword \<Rightarrow> qword \<times> size_t \<Rightarrow> qword \<Rightarrow> cpu \<times> runners \<Rightarrow> fault + (cpu \<times> runners)" where
  "Context_Setup call_runner ret this buffer_ctx target_buffer runner st =
     (if runner = 0 then Inl AssertFailed
      else Inr (BufferContext_Setup call_runner ret buffer_ctx target_buffer this (fst st), (snd st)(this := runner)))"

definition Context_SwitchTo :: "qword \<Rightarrow> qword \<Rightarrow> qword \<Rightarrow> cpu \<Rightarrow> cpu" where
  "Context_SwitchTo ret this target s = BufferContext_SwitchTo ret this target s"

text \<open>\<open>ExitTo\<close> switches with a return address at which the process aborts.\<close>

definition Context_ExitTo :: "qword \<Rightarrow> qword \<Rightarrow> qword \<Rightarrow> cpu \<Rightarrow> cpu" where
  "Context_ExitTo abort this target s = BufferContext_SwitchTo abort this target s"

definition CallRunner :: "cpu \<Rightarrow> qword" where
  "CallRunner s = mem s (regs s RSP + 8)"

definition Context_Run :: "runners \<Rightarrow> qword \<Rightarrow> fault + qword" where
  "Context_Run rs this = (if rs this = 0 then Inl AssertFailed else Inr (rs this))"

text \<open>The words of a buffer, and what a buffer has to provide.\<close>

definition words_of :: "qword \<times> size_t \<Rightarrow> qword set" where
  "words_of span = {a. unat (fst span) \<le> unat a \<and> unat a + 8 \<le> unat (fst span) + unat (snd span)}"

definition roomy :: "qword \<times> size_t \<Rightarrow> bool" where
  "roomy span \<longleftrightarrow> 128 \<le> uint (snd span) \<and> uint (fst span) + uint (snd span) < 2 ^ 64"

lemma roomy_top:
  assumes "roomy (d, n)"
  shows "unat (d + n - 1) = unat d + unat n - 1" "128 \<le> unat n"
proof -
  have r: "128 \<le> uint n" "uint d + uint n < 2 ^ 64" using assms unfolding roomy_def by simp_all
  show n: "128 \<le> unat n" using r(1) unfolding unat_eq_nat_uint by linarith
  have "unat (d + n) = unat d + unat n" by (rule unat_plus_no_wrap [OF r(2)])
  with n show "unat (d + n - 1) = unat d + unat n - 1" by (metis add_is_0 not_numeral_le_zero unat_0 unat_minus_one)
qed

lemma prepared_words_in_buffer:
  assumes "roomy (d, n)"
  shows "prepared_words (d + n - 1) \<subseteq> words_of (d, n)"
proof
  fix a
  assume a: "a \<in> prepared_words (d + n - 1)"
  note r = roomy_top [OF assms]
  have "127 \<le> unat (d + n - 1)" using r by simp
  note i = prepared_words_inside(1,2) [OF this a]
  have "unat d \<le> unat a" "unat a + 8 \<le> unat d + unat n" using i r by linarith+
  then show "a \<in> words_of (d, n)" by (simp add: words_of_def)
qed

lemma setup_exec:
  assumes s': "s' = BufferContext_Setup call_runner ret this span runner s"
    and sep: "regs s RSP - 8 \<notin> prepared_words (fst span + snd span - 1)" "this \<notin> prepared_words (fst span + snd span - 1)"
      "this \<noteq> regs s RSP - 8"
  shows "regs s' RSP = regs s RSP" "rip s' = ret" "\<forall>r \<in> set callee_saved. regs s' r = regs s r"
    "mem s' this = entry_rsp (fst span + snd span - 1) - 56"
    "mem s' (entry_rsp (fst span + snd span - 1) + 8) = runner"
    "mem s' (entry_rsp (fst span + snd span - 1) - 8) = call_runner"
    "\<forall>k \<in> {2, 3, 4, 5, 6, 7}. mem s' (entry_rsp (fst span + snd span - 1) - 8 * k) = 0"
    "\<forall>a. a \<notin> prepared_words (fst span + snd span - 1) \<union> {this, regs s RSP - 8} \<longrightarrow> mem s' a = mem s a"
proof -
  define b where "b = fst span + snd span - 1"
  let ?t = "push ret (set_reg RDX runner (set_reg RSI call_runner (set_reg RDI b s)))"
  have t: "regs ?t RSP = regs s RSP - 8" "regs ?t RDI = b" "regs ?t RSI = call_runner" "regs ?t RDX = runner"
    "mem ?t = (mem s)(regs s RSP - 8 := ret)" "\<forall>r \<in> set callee_saved. regs ?t r = regs s r"
    by (simp_all add: push_def set_reg_def Let_def callee_saved_def)
  define u where "u = exec PrepareContextInBuffer ?t"
  have eq: "s' = u\<lparr>mem := (mem u)(this := regs u RAX)\<rparr>"
    by (simp add: s' BufferContext_Setup_def call_def Let_def u_def b_def)
  note sep = sep [folded b_def]
  have p: "entry_rsp b + 8 \<in> prepared_words b" "entry_rsp b - 8 \<in> prepared_words b" by (auto simp: prepared_words_def)
  have pk: "entry_rsp b - 8 * k \<in> prepared_words b" if "k \<in> {2, 3, 4, 5, 6, 7}" for k
    unfolding prepared_words_def by (rule UnI1) (rule imageI, use that in blast)
  note pr = prepare_exec [OF u_def, unfolded t(1-4), OF sep(1)]
  show "regs s' RSP = regs s RSP" "rip s' = ret" using pr(2,3) t(5) by (simp_all add: eq)
  show "\<forall>r \<in> set callee_saved. regs s' r = regs s r" using pr(8) t(6) by (simp add: eq)
  show "mem s' this = entry_rsp (fst span + snd span - 1) - 56" using pr(1) by (simp add: eq b_def)
  show "mem s' (entry_rsp (fst span + snd span - 1) + 8) = runner" using pr(4) p sep(2) unfolding eq b_def [symmetric] by auto
  show "mem s' (entry_rsp (fst span + snd span - 1) - 8) = call_runner" using pr(5) p sep(2) unfolding eq b_def [symmetric] by auto
  have "mem s' (entry_rsp b - 8 * k) = 0" if "k \<in> {2, 3, 4, 5, 6, 7}" for k
  proof -
    have "mem u (entry_rsp b - 8 * k) = 0" using pr(6) that by blast
    moreover have "entry_rsp b - 8 * k \<noteq> this" using pk [OF that] sep(2) by blast
    ultimately show ?thesis by (simp add: eq)
  qed
  then show "\<forall>k \<in> {2, 3, 4, 5, 6, 7}. mem s' (entry_rsp (fst span + snd span - 1) - 8 * k) = 0" unfolding b_def by (rule ballI)
  show "\<forall>a. a \<notin> prepared_words (fst span + snd span - 1) \<union> {this, regs s RSP - 8} \<longrightarrow> mem s' a = mem s a"
    using pr(7) t(5) unfolding b_def [symmetric] by (simp add: eq)
qed

lemma entry_frame_popped: "popped (entry_rsp b - 56) \<subseteq> prepared_words b"
proof -
  have "popped (entry_rsp b - 56) = (\<lambda>k. entry_rsp b - 8 * k) ` {1, 2, 3, 4, 5, 6, 7}" by (auto simp: popped_def)
  then show ?thesis by (auto simp: prepared_words_def)
qed

subsection \<open>Properties\<close>

text \<open>
  C29: Setting up a context in a buffer of at least 128 bytes returns to its caller with the stack pointer and the callee-saved
  registers unchanged and writes only into the buffer, the context and the pushed return address. The first switch to the
  context, from any state that has left the buffer alone, enters \<open>CallRunner\<close> with the stack pointer inside the buffer and
  congruent to 8 modulo 16, as the calling convention asks at a function's entry, with all callee-saved registers zero, and with a
  seventh argument whose \<open>Run\<close> runs the given runner.\<close>
theorem context_starts_runner:
  assumes room: "roomy span"
    and up: "Context_Setup call_runner ret this buffer_ctx span runner (s, rs) = Inr (s1, rs1)"
    and out: "regs s RSP - 8 \<notin> words_of span" "buffer_ctx \<notin> words_of span" "buffer_ctx \<noteq> regs s RSP - 8"
    and keep: "\<forall>a \<in> insert buffer_ctx (words_of span). mem t a = mem s1 a"
    and sw: "pushed t \<inter> words_of span = {}" "src \<notin> pushed t" "buffer_ctx \<notin> pushed t" "src \<noteq> buffer_ctx" "src \<notin> words_of span"
    and t': "t' = Context_SwitchTo ret' src buffer_ctx t"
  shows "(regs s1 RSP = regs s RSP \<and> rip s1 = ret \<and> (\<forall>r \<in> set callee_saved. regs s1 r = regs s r)) \<and>
    (\<forall>a. a \<notin> words_of span \<union> {buffer_ctx, regs s RSP - 8} \<longrightarrow> mem s1 a = mem s a) \<and>
    rip t' = call_runner \<and> unat (regs t' RSP) mod 16 = 8 \<and> regs t' RSP + 8 \<in> words_of span \<and>
    (\<forall>r \<in> set callee_saved. regs t' r = 0) \<and> Context_Run rs1 (CallRunner t') = Inr runner"
proof -
  obtain d n where span: "span = (d, n)" by (cases span)
  define q where "q = entry_rsp (d + n - 1)"
  have rn: "runner \<noteq> 0" "s1 = BufferContext_Setup call_runner ret buffer_ctx span this s" "rs1 = rs(this := runner)"
    using up by (auto simp: Context_Setup_def split: if_splits)
  have sub: "prepared_words (d + n - 1) \<subseteq> words_of span" using prepared_words_in_buffer room span by simp
  note st = setup_exec [OF rn(2), unfolded span fst_conv snd_conv]
  have o: "regs s RSP - 8 \<notin> prepared_words (d + n - 1)" "buffer_ctx \<notin> prepared_words (d + n - 1)" using out sub by auto
  note st = st [OF o out(3), folded q_def]
  have pw: "popped (q - 56) \<subseteq> words_of span" using entry_frame_popped sub unfolding q_def by blast
  have q8: "q + 8 \<in> words_of span" using sub unfolding q_def prepared_words_def by auto
  have mt: "mem t a = mem s1 a" if "a \<in> words_of span" for a using keep that by simp
  have p: "mem t buffer_ctx = q - 56" using keep st(4) by simp
  have "apart src buffer_ctx (q - 56) t" using sw pw unfolding apart_def by blast
  note x = switch_to_exec [OF t' [unfolded Context_SwitchTo_def] p this]
  have k: "mem t (q - 8 * k) = mem s1 (q - 8 * k)" if "k \<in> {1, 2, 3, 4, 5, 6, 7}" for k
  proof -
    have "q - 8 * k \<in> prepared_words (d + n - 1)" unfolding q_def prepared_words_def by (rule UnI1) (rule imageI [OF that])
    then show ?thesis using mt sub by blast
  qed
  have z: "mem t (q - 8 * k) = 0" if "k \<in> {2, 3, 4, 5, 6, 7}" for k using k [of k] st(7) that by auto
  have "rip t' = call_runner" using x(3) k [of 1] st(6) by simp
  moreover have rsp: "regs t' RSP = q" using x(2) by simp
  moreover have "127 \<le> unat (d + n - 1)" using roomy_top [of d n] room span by simp
  then have "unat q mod 16 = 8" unfolding q_def by (rule entry_rsp_range(1))
  moreover have "\<forall>r \<in> set callee_saved. regs t' r = 0"
    using x(4) z [of 2] z [of 3] z [of 4] z [of 5] z [of 6] z [of 7] by (simp add: callee_saved_def)
  moreover have "mem t' (q + 8) = mem t (q + 8)" using x(6) q8 sw(1,5) by blast
  then have "CallRunner t' = this" using mt [OF q8] st(5) rsp by (simp add: CallRunner_def)
  then have "Context_Run rs1 (CallRunner t') = Inr runner" using rn by (simp add: Context_Run_def)
  moreover have "mem s1 a = mem s a" if "a \<notin> words_of span \<union> {buffer_ctx, regs s RSP - 8}" for a
    using st(8) that sub by blast
  ultimately show ?thesis using st(1-3) q8 by blast
qed

theorem context_starts_runner_witness:
  "\<exists>s :: cpu. \<exists>s1 rs1 t'. Context_Setup 77 88 5 200000 (4096, 1024) 9 (s, \<lambda>_. 0) = Inr (s1, rs1) \<and>
     t' = Context_SwitchTo 99 300000 200000 (s\<lparr>mem := mem s1\<rparr>) \<and> rip t' = 77 \<and> Context_Run rs1 (CallRunner t') = Inr 9"
proof -
  let ?s = "\<lparr>regs = (\<lambda>_. 7)(RSP := 32768), mem = (\<lambda>_. 0), rip = 0\<rparr> :: cpu"
  let ?s1 = "BufferContext_Setup 77 88 200000 (4096, 1024) 5 ?s"
  have up: "Context_Setup 77 88 5 200000 (4096, 1024) 9 (?s, \<lambda>_. 0) = Inr (?s1, (\<lambda>_. 0)(5 := 9))"
    by (simp add: Context_Setup_def)
  have "pushed (?s\<lparr>mem := mem ?s1\<rparr>) = {32760, 32752, 32744, 32736, 32728, 32720, 32712}"
    by (auto simp: pushed_def saved_words_def)
  then have "rip (Context_SwitchTo 99 300000 200000 (?s\<lparr>mem := mem ?s1\<rparr>)) = 77 \<and>
    Context_Run ((\<lambda>_. 0)(5 := 9)) (CallRunner (Context_SwitchTo 99 300000 200000 (?s\<lparr>mem := mem ?s1\<rparr>))) = Inr 9"
    by (intro context_starts_runner [OF _ up _ _ _ _ _ _ _ _ _ refl, THEN conjunct2, THEN conjunct2, THEN conjunct1]
      context_starts_runner [OF _ up _ _ _ _ _ _ _ _ _ refl, THEN conjunct2, THEN conjunct2, THEN conjunct2, THEN conjunct2, THEN conjunct2, THEN conjunct2] conjI)
      (simp_all add: roomy_def words_of_def)
  with up show ?thesis by blast
qed

text \<open>
  C10: A context that switches away and is switched back to later, from any state in which its saved frame is intact and on any other
  stack, continues at its return address with the stack pointer and the six callee-saved registers it had: the pair of
  switches looks to it like a call that returns.\<close>
theorem context_switch_round_trip:
  assumes away: "s1 = Context_SwitchTo ret this target s" "apart this target (mem s target) s"
    and keep: "\<forall>a \<in> insert this (pushed s). mem t a = mem s1 a"
    and sep: "pushed t \<inter> pushed s = {}" "src \<notin> pushed t" "this \<notin> pushed t" "src \<noteq> this" "src \<notin> pushed s"
    and t': "t' = Context_SwitchTo ret' src this t"
  shows "rip t' = ret \<and> regs t' RSP = regs s RSP \<and> (\<forall>r \<in> set callee_saved. regs t' r = regs s r)"
proof -
  note a = switch_to_exec [OF away(1) [unfolded Context_SwitchTo_def] refl away(2)]
  let ?p = "regs s RSP - 56"
  have p: "mem t this = ?p" using keep a(1) by simp
  have "apart src this ?p t" using sep unfolding apart_def popped_pushed by blast
  note b = switch_to_exec [OF t' [unfolded Context_SwitchTo_def] p this]
  have m: "mem t (?p + 8 * k) = mem s1 (?p + 8 * k)" if "k \<in> {0, 1, 2, 3, 4, 5, 6}" for k
  proof -
    have "?p + 8 * k \<in> pushed s" unfolding popped_pushed [symmetric] popped_def by (rule imageI [OF that])
    with keep show ?thesis by simp
  qed
  have "rip t' = ret" using b(3) m [of 6] a(5) by simp
  moreover have "\<forall>r \<in> set callee_saved. regs t' r = regs s r"
    using b(4) a(5) m [of 0] m [of 1] m [of 2] m [of 3] m [of 4] m [of 5] by (simp add: callee_saved_def)
  ultimately show ?thesis using b(2) by simp
qed

theorem context_switch_round_trip_witness:
  "\<exists>s s1 t :: cpu. s1 = Context_SwitchTo 11 1000 2000 s \<and> regs s RBX = 3 \<and> regs t RBX = 0 \<and>
     rip (Context_SwitchTo 22 3000 1000 t) = 11 \<and> regs (Context_SwitchTo 22 3000 1000 t) RBX = 3"
proof -
  let ?s = "\<lparr>regs = (\<lambda>_. 7)(RSP := 32768, RBX := 3), mem = (\<lambda>_. 0)(2000 := 65536), rip = 0\<rparr> :: cpu"
  let ?s1 = "Context_SwitchTo 11 1000 2000 ?s"
  let ?t = "\<lparr>regs = (\<lambda>_. 0)(RSP := 65592), mem = mem ?s1, rip = 0\<rparr> :: cpu"
  have "pushed ?s = {32760, 32752, 32744, 32736, 32728, 32720, 32712}"
    "pushed ?t = {65584, 65576, 65568, 65560, 65552, 65544, 65536}"
    by (auto simp: pushed_def saved_words_def)
  then have "rip (Context_SwitchTo 22 3000 1000 ?t) = 11 \<and> regs (Context_SwitchTo 22 3000 1000 ?t) RSP = regs ?s RSP \<and>
    (\<forall>r \<in> set callee_saved. regs (Context_SwitchTo 22 3000 1000 ?t) r = regs ?s r)"
    by (intro context_switch_round_trip [OF refl _ _ _ _ _ _ _ refl]) (simp_all add: apart_def popped_def)
  then have "rip (Context_SwitchTo 22 3000 1000 ?t) = 11" "regs (Context_SwitchTo 22 3000 1000 ?t) RBX = 3"
    by (simp_all add: callee_saved_def)
  then show ?thesis by (intro exI [of _ ?s] exI [of _ ?s1] exI [of _ ?t]) simp
qed

end
