(* ===== verification/Coroutines.thy ===== *)
theory Coroutines
  imports Contexts
begin

text \<open>
  The stackful coroutines, \<^verbatim>\<open>src/coro\<close>, on one thread.

  A coroutine \<open>c\<close> owns a stack and two contexts, \<^verbatim>\<open>coro_ctx_\<close> and \<^verbatim>\<open>caller_ctx_\<close>. A context holds a continuation: the stack
  that was left, and the place in the code where it was left (with the value of the local variable \<open>caller_coro\<close> of
  \<open>Resume\<close>). By \<open>context_switch_round_trip\<close> and \<open>context_starts_runner\<close> of \<open>Contexts\<close>, switching to a
  context whose frame is intact continues there; the frame is consumed, and a context that has been switched to
  names a frame that no longer exists (\<open>None\<close>), so switching to it again is undefined.

  \<open>Coroutine\<close> tracks the running coroutine in the thread-local \<open>current_coro\<close>, \<open>StackfullCoroutine\<close> does not; a run
  uses one of the two classes. The lemmas show that the coroutines form a stack: \<open>Resume\<close> returns when the resumed coroutine
  suspends or ends, wherever the resumptions are nested, and \<open>current_coro\<close> is always the running coroutine.
\<close>

datatype coro_class = TrackedCoroutine | StackfullCoroutine

datatype stack = ThreadStack | CoroStack addr

datatype place =
    Entry                     \<comment> \<open>\<open>CallRunner\<close>, then \<open>Run\<close>\<close>
  | AfterResume ptr           \<comment> \<open>\<open>Coroutine::Resume\<close>, with its local \<open>caller_coro\<close>\<close>
  | AfterStackfullResume
  | AfterSuspend
  | AfterExit                 \<comment> \<open>\<open>ExitTo\<close>: next is \<open>std::abort\<close>\<close>

datatype context_id = CoroCtx addr | CallerCtx addr

record coro_world =
  cw_running :: stack
  cw_current :: ptr                                  \<comment> \<open>\<open>current_coro\<close>\<close>
  cw_saved :: "context_id \<Rightarrow> (stack \<times> place) option"
  cw_completed :: "addr \<Rightarrow> bool"
  cw_created :: "addr \<Rightarrow> bool"
  cw_fault :: "fault option"

definition init_world :: coro_world where
  "init_world = \<lparr>cw_running = ThreadStack, cw_current = None, cw_saved = (\<lambda>_. None), cw_completed = (\<lambda>_. False),
     cw_created = (\<lambda>_. False), cw_fault = None\<rparr>"

text \<open>The constructor sets the context up to run this coroutine.\<close>

definition new_coroutine :: "addr \<Rightarrow> coro_world \<Rightarrow> coro_world" where
  "new_coroutine c w =
     w\<lparr>cw_created := (cw_created w)(c := True), cw_completed := (cw_completed w)(c := False),
       cw_saved := (cw_saved w)(CoroCtx c := Some (CoroStack c, Entry))\<rparr>"

text \<open>What happens at the place where a continuation goes on, up to the return into the user's code.\<close>

fun goes_on :: "place \<Rightarrow> coro_world \<Rightarrow> coro_world" where
  "goes_on Entry w = w"
| "goes_on (AfterResume caller_coro) w = w\<lparr>cw_current := caller_coro\<rparr>"
| "goes_on AfterStackfullResume w = w"
| "goes_on AfterSuspend w = w"
| "goes_on AfterExit w = w\<lparr>cw_fault := Some Abort\<rparr>"

definition SwitchTo :: "context_id \<Rightarrow> place \<Rightarrow> context_id \<Rightarrow> coro_world \<Rightarrow> coro_world" where
  "SwitchTo this here target w =
     (case cw_saved w target of
        None \<Rightarrow> w\<lparr>cw_fault := Some UseAfterFree\<rparr>
      | Some (st, p) \<Rightarrow>
          goes_on p (w\<lparr>cw_saved := (cw_saved w)(target := None, this := Some (cw_running w, here)), cw_running := st\<rparr>))"

definition Coroutine_Resume :: "addr \<Rightarrow> coro_world \<Rightarrow> coro_world" where
  "Coroutine_Resume c w =
     (let caller_coro = cw_current w in
      SwitchTo (CallerCtx c) (AfterResume caller_coro) (CoroCtx c) (w\<lparr>cw_current := Some c\<rparr>))"

definition Coroutine_Suspend :: "coro_world \<Rightarrow> coro_world" where
  "Coroutine_Suspend w =
     (case cw_current w of
        None \<Rightarrow> w\<lparr>cw_fault := Some AssertFailed\<rparr>
      | Some c \<Rightarrow> SwitchTo (CoroCtx c) AfterSuspend (CallerCtx c) w)"

definition Stackfull_Resume :: "addr \<Rightarrow> coro_world \<Rightarrow> coro_world" where
  "Stackfull_Resume c w = SwitchTo (CallerCtx c) AfterStackfullResume (CoroCtx c) w"

definition Stackfull_Suspend :: "addr \<Rightarrow> coro_world \<Rightarrow> coro_world" where
  "Stackfull_Suspend c w = SwitchTo (CoroCtx c) AfterSuspend (CallerCtx c) w"

text \<open>The end of \<open>Run\<close>, which is the same whether the routine returned or threw.\<close>

definition Run_exit :: "addr \<Rightarrow> coro_world \<Rightarrow> coro_world" where
  "Run_exit c w = SwitchTo (CoroCtx c) AfterExit (CallerCtx c) (w\<lparr>cw_completed := (cw_completed w)(c := True)\<rparr>)"

definition coro_IsCompleted :: "addr \<Rightarrow> coro_world \<Rightarrow> bool" where
  "coro_IsCompleted c w = cw_completed w c"

subsection \<open>Runs\<close>

text \<open>The running code may create, resume, suspend or end; a \<open>StackfullCoroutine\<close> suspends itself.\<close>

datatype coro_act = NewCoro addr | ResumeCoro addr | SuspendCoro | EndCoro bool

datatype coro_event = Resumed addr | Suspended addr | Ended addr

definition running_coro :: "coro_world \<Rightarrow> ptr" where
  "running_coro w = (case cw_running w of ThreadStack \<Rightarrow> None | CoroStack c \<Rightarrow> Some c)"

fun world_step :: "coro_class \<Rightarrow> (coro_act, coro_world, coro_event) stepper" where
  "world_step k (NewCoro c) w =
     (if cw_fault w = None \<and> \<not> cw_created w c then Some (new_coroutine c w, []) else None)"
| "world_step k (ResumeCoro c) w =
     (if cw_fault w \<noteq> None \<or> \<not> cw_created w c then None
      else let w' = (case k of TrackedCoroutine \<Rightarrow> Coroutine_Resume c w | StackfullCoroutine \<Rightarrow> Stackfull_Resume c w)
           in Some (w', if cw_fault w' = None then [Resumed c] else []))"
| "world_step k SuspendCoro w =
     (if cw_fault w \<noteq> None then None
      else case k of
             TrackedCoroutine \<Rightarrow>
               (let w' = Coroutine_Suspend w
                in Some (w', case running_coro w of Some c \<Rightarrow> [Suspended c] | None \<Rightarrow> []))
           | StackfullCoroutine \<Rightarrow>
               (case running_coro w of None \<Rightarrow> None | Some c \<Rightarrow> Some (Stackfull_Suspend c w, [Suspended c])))"
| "world_step k (EndCoro threw) w =
     (if cw_fault w \<noteq> None then None
      else case running_coro w of None \<Rightarrow> None | Some c \<Rightarrow> Some (Run_exit c w, [Ended c]))"

subsection \<open>The stack of active coroutines\<close>

text \<open>The specification: a stack of the active coroutines, innermost first, and the ones that have ended.\<close>

fun coro_spec :: "(coro_event, addr list \<times> addr set, coro_event) stepper" where
  "coro_spec (Resumed c) (as, ended) =
     (if c \<notin> set as \<and> c \<notin> ended then Some ((c # as, ended), [Resumed c]) else None)"
| "coro_spec (Suspended c) (as, ended) =
     (if as \<noteq> [] \<and> hd as = c then Some ((tl as, ended), [Suspended c]) else None)"
| "coro_spec (Ended c) (as, ended) =
     (if as \<noteq> [] \<and> hd as = c then Some ((tl as, insert c ended), [Ended c]) else None)"

definition stack_of :: "addr list \<Rightarrow> stack" where
  "stack_of as = (case as of [] \<Rightarrow> ThreadStack | c # _ \<Rightarrow> CoroStack c)"

definition current_of :: "coro_class \<Rightarrow> addr list \<Rightarrow> ptr" where
  "current_of k as = (case k of StackfullCoroutine \<Rightarrow> None | TrackedCoroutine \<Rightarrow> (case as of [] \<Rightarrow> None | c # _ \<Rightarrow> Some c))"

definition after_resume :: "coro_class \<Rightarrow> addr list \<Rightarrow> place" where
  "after_resume k as = (case k of TrackedCoroutine \<Rightarrow> AfterResume (current_of k as) | StackfullCoroutine \<Rightarrow> AfterStackfullResume)"

text \<open>Each active coroutine was resumed by the code below it on the stack.\<close>

fun callers :: "coro_class \<Rightarrow> (context_id \<Rightarrow> (stack \<times> place) option) \<Rightarrow> addr list \<Rightarrow> bool" where
  "callers k saved [] \<longleftrightarrow> True"
| "callers k saved (c # as) \<longleftrightarrow> saved (CallerCtx c) = Some (stack_of as, after_resume k as) \<and> callers k saved as"

definition parked_ok :: "addr list \<Rightarrow> addr set \<Rightarrow> coro_world \<Rightarrow> bool" where
  "parked_ok as ended w \<longleftrightarrow>
     (\<forall>c. cw_created w c \<and> c \<notin> set as \<longrightarrow>
        (if c \<in> ended then cw_saved w (CoroCtx c) = Some (CoroStack c, AfterExit)
         else cw_saved w (CoroCtx c) = Some (CoroStack c, Entry) \<or> cw_saved w (CoroCtx c) = Some (CoroStack c, AfterSuspend))) \<and>
     (\<forall>c \<in> set as. cw_saved w (CoroCtx c) = None)"

definition world_inv :: "coro_class \<Rightarrow> addr list \<Rightarrow> addr set \<Rightarrow> coro_world \<Rightarrow> bool" where
  "world_inv k as ended w \<longleftrightarrow>
     distinct as \<and> set as \<inter> ended = {} \<and> set as \<union> ended \<subseteq> {c. cw_created w c} \<and>
     cw_running w = stack_of as \<and> cw_current w = current_of k as \<and> callers k (cw_saved w) as \<and> parked_ok as ended w \<and>
     (\<forall>c. cw_completed w c \<longleftrightarrow> c \<in> ended)"

definition world_sim :: "coro_class \<Rightarrow> addr list \<times> addr set \<Rightarrow> coro_world \<Rightarrow> bool" where
  "world_sim k a w \<longleftrightarrow> (cw_fault w = None \<longrightarrow> world_inv k (fst a) (snd a) w)"

lemma callers_upd [simp]: "c \<notin> set as \<Longrightarrow> callers k (f(CallerCtx c := x)) as \<longleftrightarrow> callers k f as"
  "callers k (f(CoroCtx c := x)) as \<longleftrightarrow> callers k f as"
  by (induction as) auto

lemma running_coro_of: "cw_running w = stack_of as \<Longrightarrow> running_coro w = (case as of [] \<Rightarrow> None | c # _ \<Rightarrow> Some c)"
  by (simp add: running_coro_def stack_of_def split: list.splits)

lemma world_invD:
  assumes "world_inv k as ended w"
  shows "distinct as" "set as \<inter> ended = {}" "set as \<union> ended \<subseteq> {c. cw_created w c}" "cw_running w = stack_of as"
    "cw_current w = current_of k as" "callers k (cw_saved w) as" "parked_ok as ended w" "cw_completed w c \<longleftrightarrow> c \<in> ended"
  using assms unfolding world_inv_def by blast+

lemma parked_okD:
  assumes "parked_ok as ended w" and "cw_created w c" and "set as \<inter> ended = {}"
  shows "c \<in> set as \<Longrightarrow> cw_saved w (CoroCtx c) = None" "c \<in> ended \<Longrightarrow> cw_saved w (CoroCtx c) = Some (CoroStack c, AfterExit)"
    "c \<notin> set as \<Longrightarrow> c \<notin> ended \<Longrightarrow>
       cw_saved w (CoroCtx c) = Some (CoroStack c, Entry) \<or> cw_saved w (CoroCtx c) = Some (CoroStack c, AfterSuspend)"
  using assms unfolding parked_ok_def by (blast, metis disjoint_iff, metis)

definition resume_class :: "coro_class \<Rightarrow> addr \<Rightarrow> coro_world \<Rightarrow> coro_world" where
  "resume_class k c w = (case k of TrackedCoroutine \<Rightarrow> Coroutine_Resume c w | StackfullCoroutine \<Rightarrow> Stackfull_Resume c w)"

lemma resume_faults:
  assumes "world_inv k as ended w" and "cw_fault w = None" and "cw_created w c"
  shows "cw_fault (resume_class k c w) =
    (if c \<in> ended then Some Abort else if c \<in> set as then Some UseAfterFree else None)"
proof -
  note D = world_invD [OF assms(1)]
  note P = parked_okD [OF D(7) assms(3) D(2)]
  note d = resume_class_def Coroutine_Resume_def Stackfull_Resume_def SwitchTo_def Let_def
  consider "c \<in> ended" "c \<notin> set as" | "c \<in> set as" "c \<notin> ended" | "c \<notin> set as" "c \<notin> ended" using D(2) by auto
  then show ?thesis
  proof cases
    case 1
    then show ?thesis using P(2) by (cases k) (simp_all add: d)
  next
    case 2
    then show ?thesis using P(1) by (cases k) (simp_all add: d)
  next
    case 3
    then show ?thesis using P(3) assms(2) by (cases k) (auto simp: d)
  qed
qed

lemma resume_inv:
  assumes inv: "world_inv k as ended w" and "cw_created w c" and c: "c \<notin> set as" "c \<notin> ended"
  shows "world_inv k (c # as) ended (resume_class k c w)"
proof -
  note D = world_invD [OF inv]
  have "cw_saved w (CoroCtx c) = Some (CoroStack c, Entry) \<or> cw_saved w (CoroCtx c) = Some (CoroStack c, AfterSuspend)"
    by (rule parked_okD(3) [OF D(7) assms(2) D(2) c])
  then have r: "resume_class k c w =
    w\<lparr>cw_saved := (cw_saved w)(CoroCtx c := None, CallerCtx c := Some (stack_of as, after_resume k as)),
      cw_running := CoroStack c, cw_current := current_of k (c # as)\<rparr>"
    using D(4,5) by (cases k) (auto simp: resume_class_def Coroutine_Resume_def Stackfull_Resume_def SwitchTo_def
        after_resume_def current_of_def Let_def)
  show ?thesis using inv c assms(2) unfolding r world_inv_def
    by (auto simp: stack_of_def parked_ok_def)
qed

lemma leave_inv:
  assumes inv: "world_inv k (c # as) ended w" and f: "cw_fault w = None"
  shows "world_inv k as ended (SwitchTo (CoroCtx c) AfterSuspend (CallerCtx c) w)"
    "cw_fault (SwitchTo (CoroCtx c) AfterSuspend (CallerCtx c) w) = None"
    "world_inv k as (insert c ended) (Run_exit c w)" "cw_fault (Run_exit c w) = None"
proof -
  note D = world_invD [OF inv]
  have cs: "cw_saved w (CallerCtx c) = Some (stack_of as, after_resume k as)" "cw_running w = CoroStack c"
    using D(4,6) by (simp_all add: stack_of_def)
  have g: "goes_on (after_resume k as) v = v\<lparr>cw_current := current_of k as\<rparr>" if "cw_current v = current_of k (c # as)" for v
    using that by (cases k; cases v) (simp_all add: after_resume_def current_of_def)
  have s: "SwitchTo (CoroCtx c) here (CallerCtx c) v =
    v\<lparr>cw_saved := (cw_saved w)(CallerCtx c := None, CoroCtx c := Some (CoroStack c, here)), cw_running := stack_of as,
      cw_current := current_of k as\<rparr>" if "cw_saved v = cw_saved w" "cw_running v = cw_running w" "cw_current v = cw_current w" for here v
    using cs that D(5) by (simp add: SwitchTo_def g)
  have c: "c \<notin> set as" using D(1) by simp
  show "cw_fault (SwitchTo (CoroCtx c) AfterSuspend (CallerCtx c) w) = None" "cw_fault (Run_exit c w) = None"
    using f by (simp_all add: s Run_exit_def)
  show "world_inv k as ended (SwitchTo (CoroCtx c) AfterSuspend (CallerCtx c) w)"
    using inv c unfolding s [OF refl refl refl] world_inv_def by (auto simp: parked_ok_def)
  show "world_inv k as (insert c ended) (Run_exit c w)"
    using inv c unfolding world_inv_def by (auto simp: Run_exit_def s parked_ok_def)
qed

lemma init_world_inv: "world_inv k [] {} init_world"
  by (cases k) (simp_all add: world_inv_def init_world_def stack_of_def current_of_def parked_ok_def)

definition follows :: "coro_class \<Rightarrow> addr list \<times> addr set \<Rightarrow> coro_event list \<Rightarrow> coro_world \<Rightarrow> bool" where
  "follows k a e w \<longleftrightarrow> (\<exists>a'. reach coro_spec a e a' \<and> world_sim k a' w)"

lemma followsI: "reach coro_spec a e (as, ended) \<Longrightarrow> (cw_fault w = None \<Longrightarrow> world_inv k as ended w) \<Longrightarrow> follows k a e w"
  unfolding follows_def world_sim_def by (intro exI [of _ "(as, ended)"]) simp

lemma leave_follows:
  assumes "world_inv k (c # as) ended w" and "cw_fault w = None"
  shows "follows k (c # as, ended) [Suspended c] (SwitchTo (CoroCtx c) AfterSuspend (CallerCtx c) w)"
    "follows k (c # as, ended) [Ended c] (Run_exit c w)"
proof -
  have "reach coro_spec (c # as, ended) [Suspended c] (as, ended)" by (rule reach_single [where c = "Suspended c"]) simp
  then show "follows k (c # as, ended) [Suspended c] (SwitchTo (CoroCtx c) AfterSuspend (CallerCtx c) w)"
    by (rule followsI) (rule leave_inv(1) [OF assms])
  have "reach coro_spec (c # as, ended) [Ended c] (as, insert c ended)" by (rule reach_single [where c = "Ended c"]) simp
  then show "follows k (c # as, ended) [Ended c] (Run_exit c w)" by (rule followsI) (rule leave_inv(3) [OF assms])
qed

lemma world_sim_step:
  assumes sim: "world_sim k a w" and st: "world_step k act w = Some (w', e)"
  shows "follows k a e w'"
proof -
  obtain as ended where a: "a = (as, ended)" by (cases a)
  have f: "cw_fault w = None" using st by (cases act) (auto split: if_splits)
  then have inv: "world_inv k as ended w" using sim a by (simp add: world_sim_def)
  note D = world_invD [OF inv]
  have run: "running_coro w = (case as of [] \<Rightarrow> None | c # _ \<Rightarrow> Some c)" by (rule running_coro_of [OF D(4)])
  show ?thesis
  proof (cases act)
    case (NewCoro c)
    with st have w': "w' = new_coroutine c w" "e = []" "\<not> cw_created w c" by (auto split: if_splits)
    then have "c \<notin> set as" "c \<notin> ended" using D(3) by auto
    then have "world_inv k as ended w'" using inv unfolding w' world_inv_def by (auto simp: new_coroutine_def parked_ok_def)
    then show ?thesis unfolding a w'(2) by (intro followsI) (auto intro: reach.reach_init)
  next
    case (ResumeCoro c)
    with st have w': "w' = resume_class k c w" "e = (if cw_fault w' = None then [Resumed c] else [])" "cw_created w c"
      by (auto simp: resume_class_def Let_def split: if_splits)
    note rf = resume_faults [OF inv f w'(3)]
    show ?thesis
    proof (cases "c \<in> ended \<or> c \<in> set as")
      case True
      then have "cw_fault w' \<noteq> None" "e = []" using rf w' by auto
      then show ?thesis unfolding a by (intro followsI) (auto intro: reach.reach_init)
    next
      case False
      then have "e = [Resumed c]" using rf w' by auto
      moreover have "reach coro_spec (as, ended) [Resumed c] (c # as, ended)"
        using False by (intro reach_single [where c = "Resumed c"]) simp
      moreover have "world_inv k (c # as) ended w'" using resume_inv [OF inv w'(3)] False w'(1) by auto
      ultimately show ?thesis unfolding a by (auto intro: followsI)
    qed
  next
    case SuspendCoro
    show ?thesis
    proof (cases as)
      case Nil
      with SuspendCoro st f run D(5) have "cw_fault w' \<noteq> None" "e = []"
        by (auto simp: Coroutine_Suspend_def current_of_def Let_def split: coro_class.splits)
      then show ?thesis unfolding a by (intro followsI) (auto intro: reach.reach_init)
    next
      case (Cons c bs)
      with SuspendCoro st f run D(5) have "w' = SwitchTo (CoroCtx c) AfterSuspend (CallerCtx c) w" "e = [Suspended c]"
        by (auto simp: Coroutine_Suspend_def Stackfull_Suspend_def current_of_def Let_def split: coro_class.splits)
      then show ?thesis using leave_follows(1) inv f a Cons by blast
    qed
  next
    case (EndCoro b)
    with st f run obtain c bs where "as = c # bs" "w' = Run_exit c w" "e = [Ended c]" by (auto split: list.splits)
    then show ?thesis using leave_follows(2) inv f a by blast
  qed
qed

interpretation coroutines: event_simulation "world_step k" init_world coro_spec "([], {})" "world_sim k" for k
  by unfold_locales (simp add: world_sim_def init_world_inv, use world_sim_step in \<open>simp add: follows_def\<close>)

subsection \<open>Properties\<close>

lemma world_step_resume:
  "cw_fault w = None \<Longrightarrow> cw_created w c \<Longrightarrow>
     world_step k (ResumeCoro c) w = Some (resume_class k c w, if cw_fault (resume_class k c w) = None then [Resumed c] else [])"
  by (cases k) (simp_all add: resume_class_def Let_def)

text \<open>
  C30: In every run of either coroutine class that has not met a fault, the coroutines behave as a stack: the history is one of
  the stack specification, the code that runs is that of the innermost active coroutine, which is also what
  \<open>current_coro\<close> names in the tracking class, and exactly the ended coroutines are completed, however the routine ended.
  Resuming a coroutine then runs it if it is inactive, reaches \<open>std::abort\<close> if it has ended, and is undefined if it is active.\<close>
theorem coroutines_nest:
  assumes "reach (world_step k) init_world es w" and "cw_fault w = None"
  shows "\<exists>as ended. reach coro_spec ([], {}) es (as, ended) \<and> distinct as \<and> cw_running w = stack_of as \<and>
    (k = TrackedCoroutine \<longrightarrow> cw_current w = running_coro w) \<and> (\<forall>c. coro_IsCompleted c w \<longleftrightarrow> c \<in> ended) \<and>
    (\<forall>c. cw_created w c \<longrightarrow> (\<exists>w' e. world_step k (ResumeCoro c) w = Some (w', e) \<and>
       (if c \<in> ended then cw_fault w' = Some Abort
        else if c \<in> set as then cw_fault w' = Some UseAfterFree
        else cw_fault w' = None \<and> cw_running w' = CoroStack c)))"
proof -
  obtain a where a: "reach coro_spec ([], {}) es a" "world_sim k a w" using coroutines.refines [OF assms(1)] by blast
  obtain as ended where eq: "a = (as, ended)" by (cases a)
  have inv: "world_inv k as ended w" using a(2) assms(2) eq by (simp add: world_sim_def)
  note D = world_invD [OF inv]
  have res: "\<exists>w' e. world_step k (ResumeCoro c) w = Some (w', e) \<and>
       (if c \<in> ended then cw_fault w' = Some Abort
        else if c \<in> set as then cw_fault w' = Some UseAfterFree
        else cw_fault w' = None \<and> cw_running w' = CoroStack c)" if c: "cw_created w c" for c
  proof (cases "c \<in> ended \<or> c \<in> set as")
    case True
    then show ?thesis using world_step_resume [OF assms(2) c] resume_faults [OF inv assms(2) c] by auto
  next
    case False
    then have "cw_running (resume_class k c w) = CoroStack c"
      using world_invD(4) [OF resume_inv [OF inv c]] by (simp add: stack_of_def)
    then show ?thesis using world_step_resume [OF assms(2) c] resume_faults [OF inv assms(2) c] False by auto
  qed
  have "cw_current w = running_coro w" if "k = TrackedCoroutine"
    using D(5) running_coro_of [OF D(4)] that by (simp add: current_of_def)
  then show ?thesis using a(1) eq D(1,4,8) res by (intro exI [of _ as] exI [of _ ended]) (simp add: coro_IsCompleted_def)
qed

theorem coroutines_nest_witness:
  "\<exists>es w. reach (world_step TrackedCoroutine) init_world es w \<and> es = [Resumed 1, Resumed 2, Suspended 2, Resumed 2, Ended 2] \<and>
     cw_running w = CoroStack 1 \<and> cw_current w = Some 1 \<and> coro_IsCompleted 2 w \<and>
     (\<exists>as. distinct as \<and> cw_running w = stack_of as)"
proof -
  have "run_ok (world_step TrackedCoroutine)
    [NewCoro 1, NewCoro 2, ResumeCoro 1, ResumeCoro 2, SuspendCoro, ResumeCoro 2, EndCoro True] init_world
    (\<lambda>es w. es = [Resumed 1, Resumed 2, Suspended 2, Resumed 2, Ended 2] \<and> cw_running w = CoroStack 1 \<and>
       cw_current w = Some 1 \<and> coro_IsCompleted 2 w \<and> cw_fault w = None)"
    by code_simp
  then obtain es w where w: "reach (world_step TrackedCoroutine) init_world es w" "cw_fault w = None"
    "es = [Resumed 1, Resumed 2, Suspended 2, Resumed 2, Ended 2]" "cw_running w = CoroStack 1" "cw_current w = Some 1"
    "coro_IsCompleted 2 w"
    by (elim run_okE) blast
  with coroutines_nest [OF w(1,2)] show ?thesis by metis
qed

text \<open>
  Round trip: wherever a run stands, resuming an inactive coroutine that then suspends brings back the code that
  resumed it, with \<open>current_coro\<close> as it was, and leaves the coroutine ready to be resumed again.\<close>
lemma resume_suspend_round_trip:
  assumes "reach (world_step k) init_world es w" and "cw_fault w = None"
    and "world_step k (ResumeCoro c) w = Some (w1, [Resumed c])" and "world_step k SuspendCoro w1 = Some (w2, e2)"
  shows "e2 = [Suspended c] \<and> cw_running w2 = cw_running w \<and> cw_current w2 = cw_current w \<and> cw_completed w2 = cw_completed w \<and>
    cw_fault w2 = None \<and> cw_saved w2 (CoroCtx c) = Some (CoroStack c, AfterSuspend)"
proof -
  obtain as ended where inv: "world_inv k as ended w"
    using coroutines.refines [OF assms(1)] assms(2) by (auto simp: world_sim_def)
  have cr: "cw_created w c" and w1: "w1 = resume_class k c w" "cw_fault w1 = None"
    using assms(2,3) by (auto simp: resume_class_def Let_def split: if_splits)
  then have c: "c \<notin> set as" "c \<notin> ended" using resume_faults [OF inv assms(2) cr] by (auto split: if_splits)
  have inv1: "world_inv k (c # as) ended w1" using resume_inv [OF inv cr c] w1(1) by simp
  note D1 = world_invD [OF inv1]
  have r: "running_coro w1 = Some c" using running_coro_of [OF D1(4)] by simp
  have w2: "w2 = SwitchTo (CoroCtx c) AfterSuspend (CallerCtx c) w1" "e2 = [Suspended c]"
    using assms(4) w1(2) r D1(5)
    by (auto simp: Coroutine_Suspend_def Stackfull_Suspend_def current_of_def Let_def split: coro_class.splits)
  have inv2: "world_inv k as ended w2" "cw_fault w2 = None" using leave_inv(1,2) [OF inv1 w1(2)] w2(1) by simp_all
  note D = world_invD [OF inv] and D2 = world_invD [OF inv2(1)]
  have "cw_completed w2 = cw_completed w" using D(8) D2(8) by blast
  moreover have "cw_saved w2 (CoroCtx c) = Some (CoroStack c, AfterSuspend)"
    using D1(4,6) by (cases k) (simp_all add: w2(1) SwitchTo_def after_resume_def stack_of_def)
  ultimately show ?thesis using w2(2) inv2(2) D(4,5) D2(4,5) by simp
qed

end
