(* ===== verification/Sanitizers.thy ===== *)
theory Sanitizers
  imports Coroutines
begin

text \<open>
  The annotations for the sanitizers, \<^verbatim>\<open>src/context/sanitizer\<close>, and their place in \<open>Context::Setup\<close>, \<open>SwitchTo\<close>, \<open>ExitTo\<close> and \<open>Run\<close>
  (\<^verbatim>\<open>src/context/context.cpp\<close>).

  A \<open>SanitizerContext\<close> has five methods, here the fields of \<open>hooks\<close>; the build chooses one of three classes. The machine \<open>hooked_step\<close> runs the coroutines
  of \<open>Coroutines\<close> and calls the methods where the code does: \<open>BeforeSwitch\<close> or \<open>BeforeExit\<close> on the context that is left, and, once the target
  goes on, \<open>AfterStart\<close> or \<open>AfterSwitch\<close> on the target.

  The runtimes of the sanitizers are parameters: what \<^verbatim>\<open>__tsan_get_current_fiber\<close> and \<^verbatim>\<open>__tsan_create_fiber\<close> return after a history of calls, and what
  \<^verbatim>\<open>__sanitizer_start_switch_fiber\<close> and \<^verbatim>\<open>__sanitizer_finish_switch_fiber\<close> store. \<open>tsan_documented\<close> and \<open>asan_documented\<close> state what their
  documentation says of legal histories.

  The lemmas show that the hooks never change what the coroutines do, and that the calls are legal: the thread sanitizer is told to switch only to
  fibers that exist, which are those of the unfinished coroutines, and a fiber is destroyed when its coroutine has ended and not before; the
  address sanitizer is told the bounds of the stack that is entered, and gets back the fake stack that it gave out for it.
\<close>

subsection \<open>Where the hooks are called\<close>

record ('x, 'e) hooks =
  hk_setup :: "addr \<Rightarrow> 'x \<Rightarrow> 'x \<times> 'e list"
  hk_after_start :: "context_id \<Rightarrow> 'x \<Rightarrow> 'x \<times> 'e list"
  hk_before_switch :: "context_id \<Rightarrow> context_id \<Rightarrow> 'x \<Rightarrow> 'x \<times> 'e list"
  hk_after_switch :: "context_id \<Rightarrow> 'x \<Rightarrow> 'x \<times> 'e list"
  hk_before_exit :: "context_id \<Rightarrow> context_id \<Rightarrow> 'x \<Rightarrow> 'x \<times> 'e list"

definition then_hook :: "('x \<Rightarrow> 'x \<times> 'e list) \<Rightarrow> ('x \<Rightarrow> 'x \<times> 'e list) \<Rightarrow> 'x \<Rightarrow> 'x \<times> 'e list" where
  "then_hook f g x = (let (y, e) = f x; (z, e') = g y in (z, e @ e'))"

definition no_hook :: "'x \<Rightarrow> 'x \<times> 'e list" where
  "no_hook x = (x, [])"

text \<open>The class of \<^verbatim>\<open>sanitizer/empty\<close>.\<close>

definition empty_hooks :: "('x, 'e) hooks" where
  "empty_hooks = \<lparr>hk_setup = (\<lambda>_. no_hook), hk_after_start = (\<lambda>_. no_hook), hk_before_switch = (\<lambda>_ _. no_hook),
     hk_after_switch = (\<lambda>_. no_hook), hk_before_exit = (\<lambda>_ _. no_hook)\<rparr>"

text \<open>What the target calls when it goes on.\<close>

definition goes_on_hook :: "('x, 'e) hooks \<Rightarrow> context_id \<Rightarrow> coro_world \<Rightarrow> 'x \<Rightarrow> 'x \<times> 'e list" where
  "goes_on_hook hk target w =
     (case cw_saved w target of
        Some (_, Entry) \<Rightarrow> hk_after_start hk target
      | Some (_, AfterExit) \<Rightarrow> no_hook
      | Some _ \<Rightarrow> hk_after_switch hk target
      | None \<Rightarrow> no_hook)"

definition switch_hooks :: "('x, 'e) hooks \<Rightarrow> context_id \<Rightarrow> context_id \<Rightarrow> coro_world \<Rightarrow> 'x \<Rightarrow> 'x \<times> 'e list" where
  "switch_hooks hk this target w = then_hook (hk_before_switch hk this target) (goes_on_hook hk target w)"

definition exit_hooks :: "('x, 'e) hooks \<Rightarrow> context_id \<Rightarrow> context_id \<Rightarrow> coro_world \<Rightarrow> 'x \<Rightarrow> 'x \<times> 'e list" where
  "exit_hooks hk this target w = then_hook (hk_before_exit hk this target) (goes_on_hook hk target w)"

definition suspending :: "coro_class \<Rightarrow> coro_world \<Rightarrow> ptr" where
  "suspending k w = (case k of TrackedCoroutine \<Rightarrow> cw_current w | StackfullCoroutine \<Rightarrow> running_coro w)"

definition act_hooks :: "('x, 'e) hooks \<Rightarrow> coro_class \<Rightarrow> coro_act \<Rightarrow> coro_world \<Rightarrow> 'x \<Rightarrow> 'x \<times> 'e list" where
  "act_hooks hk k act w =
     (case act of
        NewCoro c \<Rightarrow> hk_setup hk c
      | ResumeCoro c \<Rightarrow> switch_hooks hk (CallerCtx c) (CoroCtx c) w
      | SuspendCoro \<Rightarrow> (case suspending k w of None \<Rightarrow> no_hook | Some c \<Rightarrow> switch_hooks hk (CoroCtx c) (CallerCtx c) w)
      | EndCoro b \<Rightarrow> (case running_coro w of None \<Rightarrow> no_hook | Some c \<Rightarrow> exit_hooks hk (CoroCtx c) (CallerCtx c) w))"

definition hooked_step :: "('x, 'e) hooks \<Rightarrow> coro_class \<Rightarrow> (coro_act, coro_world \<times> 'x, 'e) stepper" where
  "hooked_step hk k act s =
     (case world_step k act (fst s) of
        None \<Rightarrow> None
      | Some (w, _) \<Rightarrow> (case act_hooks hk k act (fst s) (snd s) of (x, e) \<Rightarrow> Some ((w, x), e)))"

lemma hooked_stepE:
  assumes "hooked_step hk k act s = Some (s', e)"
  obtains ev where "world_step k act (fst s) = Some (fst s', ev)" "act_hooks hk k act (fst s) (snd s) = (snd s', e)"
  using assms by (auto simp: hooked_step_def split: option.splits prod.splits)

text \<open>The hooks do not change the run of the coroutines.\<close>

lemma hooked_world:
  "reach (hooked_step hk k) (init_world, x0) es s \<Longrightarrow> \<exists>evs. reach (world_step k) init_world evs (fst s)"
proof (induction rule: reach.induct)
  case reach_init
  then show ?case using reach.reach_init [of "world_step k"] by auto
next
  case (reach_step es s act s' e)
  then show ?case using reach.reach_step [of "world_step k"] by (metis hooked_stepE)
qed

text \<open>The stack of active coroutines in a state without a fault.\<close>

lemma hooked_inv:
  assumes "reach (hooked_step hk k) (init_world, x0) es s" and "cw_fault (fst s) = None"
  obtains as ended where "world_inv k as ended (fst s)"
proof -
  obtain evs where "reach (world_step k) init_world evs (fst s)" using hooked_world [OF assms(1)] by blast
  then obtain a where "world_sim k a (fst s)" using coroutines.refines by blast
  then show thesis using that assms(2) by (auto simp: world_sim_def)
qed

lemma hooked_no_fault: "hooked_step hk k act s = Some (s', e) \<Longrightarrow> cw_fault (fst s) = None"
  by (cases act) (auto simp: hooked_step_def split: option.splits if_splits)

lemma SwitchTo_created: "cw_created (SwitchTo x p y w) = cw_created w"
proof -
  have "cw_created (goes_on q v) = cw_created v" for q v by (cases q) simp_all
  then show ?thesis by (auto simp: SwitchTo_def split: option.splits)
qed

lemma hooked_created: "hooked_step hk k act s = Some (s', e) \<Longrightarrow> cw_created (fst s) c \<Longrightarrow> cw_created (fst s') c"
  by (cases act) (auto simp: hooked_step_def new_coroutine_def Coroutine_Resume_def Stackfull_Resume_def Coroutine_Suspend_def Stackfull_Suspend_def
      Run_exit_def SwitchTo_created Let_def split: option.splits if_splits coro_class.splits prod.splits)

text \<open>A step without a fault, seen on the stack of active coroutines.\<close>

lemma hooked_cases:
  assumes inv: "world_inv k as ended (fst s)" and st: "hooked_step hk k act s = Some (s', e)" and f: "cw_fault (fst s') = None"
  obtains (made) c where "\<not> cw_created (fst s) c" "c \<notin> set as" "c \<notin> ended" "world_inv k as ended (fst s')"
      "cw_created (fst s') = (cw_created (fst s))(c := True)" "hk_setup hk c (snd s) = (snd s', e)"
      "cw_saved (fst s') = (cw_saved (fst s))(CoroCtx c := Some (CoroStack c, Entry))"
    | (resume) c where "cw_created (fst s) c" "c \<notin> set as" "c \<notin> ended" "world_inv k (c # as) ended (fst s')" "cw_created (fst s') = cw_created (fst s)"
      "then_hook (hk_before_switch hk (CallerCtx c) (CoroCtx c))
        (if cw_saved (fst s) (CoroCtx c) = Some (CoroStack c, Entry) then hk_after_start hk (CoroCtx c) else hk_after_switch hk (CoroCtx c)) (snd s) = (snd s', e)"
      "cw_saved (fst s) (CoroCtx c) = Some (CoroStack c, Entry) \<or> cw_saved (fst s) (CoroCtx c) = Some (CoroStack c, AfterSuspend)"
      "\<And>d. d \<noteq> c \<Longrightarrow> cw_saved (fst s') (CoroCtx d) = cw_saved (fst s) (CoroCtx d)"
    | (suspend) c bs where "as = c # bs" "world_inv k bs ended (fst s')" "cw_created (fst s') = cw_created (fst s)"
      "then_hook (hk_before_switch hk (CoroCtx c) (CallerCtx c)) (hk_after_switch hk (CallerCtx c)) (snd s) = (snd s', e)"
      "cw_saved (fst s') (CoroCtx c) = Some (CoroStack c, AfterSuspend)" "\<And>d. d \<noteq> c \<Longrightarrow> cw_saved (fst s') (CoroCtx d) = cw_saved (fst s) (CoroCtx d)"
    | (leaves) c bs where "as = c # bs" "world_inv k bs (insert c ended) (fst s')" "cw_created (fst s') = cw_created (fst s)"
      "then_hook (hk_before_exit hk (CoroCtx c) (CallerCtx c)) (hk_after_switch hk (CallerCtx c)) (snd s) = (snd s', e)"
      "\<And>d. d \<noteq> c \<Longrightarrow> cw_saved (fst s') (CoroCtx d) = cw_saved (fst s) (CoroCtx d)"
proof -
  note D = world_invD [OF inv]
  obtain ev where ws: "world_step k act (fst s) = Some (fst s', ev)" and hk: "act_hooks hk k act (fst s) (snd s) = (snd s', e)"
    using hooked_stepE [OF st] .
  have f0: "cw_fault (fst s) = None" by (rule hooked_no_fault [OF st])
  have run: "running_coro (fst s) = (case as of [] \<Rightarrow> None | c # _ \<Rightarrow> Some c)" by (rule running_coro_of [OF D(4)])
  have sus: "suspending k (fst s) = (case as of [] \<Rightarrow> None | c # _ \<Rightarrow> Some c)"
    using run D(5) by (cases k) (auto simp: suspending_def current_of_def)
  have ret: "goes_on_hook hk (CallerCtx c) (fst s) = hk_after_switch hk (CallerCtx c)" if "as = c # bs" for c bs
    using D(6) that by (cases k) (simp_all add: goes_on_hook_def after_resume_def)
  show thesis
  proof (cases act)
    case (NewCoro c)
    with ws have w': "fst s' = new_coroutine c (fst s)" "\<not> cw_created (fst s) c" by (auto split: if_splits)
    then have c: "c \<notin> set as" "c \<notin> ended" using D(3) by auto
    then have "world_inv k as ended (fst s')" using inv unfolding w' world_inv_def by (auto simp: new_coroutine_def parked_ok_def)
    then show thesis using made [of c] w' c hk NewCoro by (simp add: new_coroutine_def act_hooks_def)
  next
    case (ResumeCoro c)
    with ws have w': "fst s' = resume_class k c (fst s)" "cw_created (fst s) c" by (auto simp: resume_class_def Let_def split: if_splits)
    have c: "c \<notin> set as" "c \<notin> ended" using resume_faults [OF inv f0 w'(2)] f w'(1) by (auto split: if_splits)
    note p = parked_okD(3) [OF D(7) w'(2) D(2) c]
    have "cw_created (fst s') = cw_created (fst s) \<and> (\<forall>d. d \<noteq> c \<longrightarrow> cw_saved (fst s') (CoroCtx d) = cw_saved (fst s) (CoroCtx d))"
      unfolding w'(1) using p by (cases k) (auto simp: resume_class_def Coroutine_Resume_def Stackfull_Resume_def SwitchTo_def Let_def)
    moreover have "goes_on_hook hk (CoroCtx c) (fst s) =
      (if cw_saved (fst s) (CoroCtx c) = Some (CoroStack c, Entry) then hk_after_start hk (CoroCtx c) else hk_after_switch hk (CoroCtx c))"
      using p by (auto simp: goes_on_hook_def)
    ultimately show thesis using resume [of c] w' c p resume_inv [OF inv w'(2) c] hk ResumeCoro by (simp add: act_hooks_def switch_hooks_def)
  next
    case SuspendCoro
    show thesis
    proof (cases as)
      case Nil
      then have "cw_fault (fst s') \<noteq> None" using SuspendCoro ws f0 run D(5)
        by (cases k) (auto simp: Coroutine_Suspend_def current_of_def Let_def eq_commute [of "Some AssertFailed"] dest!: arg_cong [of _ _ cw_fault])
      then show thesis using f by simp
    next
      case (Cons c bs)
      have w': "fst s' = SwitchTo (CoroCtx c) AfterSuspend (CallerCtx c) (fst s)"
        using SuspendCoro ws f0 run D(5) Cons by (auto simp: Coroutine_Suspend_def Stackfull_Suspend_def current_of_def Let_def split: coro_class.splits)
      have "cw_created (fst s') = cw_created (fst s) \<and> cw_saved (fst s') (CoroCtx c) = Some (CoroStack c, AfterSuspend) \<and>
        (\<forall>d. d \<noteq> c \<longrightarrow> cw_saved (fst s') (CoroCtx d) = cw_saved (fst s) (CoroCtx d))"
        using D(4,6) Cons by (cases k) (simp_all add: w' SwitchTo_def after_resume_def stack_of_def)
      then show thesis using suspend [OF Cons] leave_inv(1) [of k c bs ended "fst s"] inv f0 Cons w' hk SuspendCoro sus ret [OF Cons]
        by (simp add: act_hooks_def switch_hooks_def)
    qed
  next
    case (EndCoro b)
    with ws f0 run obtain c bs where Cons: "as = c # bs" and w': "fst s' = Run_exit c (fst s)" by (auto split: list.splits)
    have "cw_created (fst s') = cw_created (fst s) \<and> (\<forall>d. d \<noteq> c \<longrightarrow> cw_saved (fst s') (CoroCtx d) = cw_saved (fst s) (CoroCtx d))"
      using D(6) Cons by (cases k) (simp_all add: w' Run_exit_def SwitchTo_def after_resume_def)
    then show thesis using leaves [OF Cons] leave_inv(3) [of k c bs ended "fst s"] inv f0 Cons w' hk EndCoro run ret [OF Cons]
      by (simp add: act_hooks_def exit_hooks_def)
  qed
qed

subsection \<open>The thread sanitizer\<close>

datatype tsan_call = TsanCreate nat | TsanSwitch nat | TsanDestroy nat

text \<open>Legal calls: the fibers that exist and the current one; the fiber of the thread is \<open>0\<close>.\<close>

fun tsan_spec :: "(tsan_call, nat set \<times> nat, tsan_call) stepper" where
  "tsan_spec (TsanCreate f) (live, cur) = (if f \<notin> live then Some ((insert f live, cur), [TsanCreate f]) else None)"
| "tsan_spec (TsanSwitch f) (live, cur) = (if f \<in> live then Some ((live, f), [TsanSwitch f]) else None)"
| "tsan_spec (TsanDestroy f) (live, cur) = (if f \<in> live \<and> f \<noteq> cur then Some ((live - {f}, cur), [TsanDestroy f]) else None)"

text \<open>The runtime, by what it returns after a history of calls.\<close>

record tsan_api =
  ts_current :: "tsan_call list \<Rightarrow> nat"
  ts_create :: "tsan_call list \<Rightarrow> nat"

definition tsan_documented :: "tsan_api \<Rightarrow> bool" where
  "tsan_documented api \<longleftrightarrow>
     (\<forall>h live cur. reach tsan_spec ({0}, 0) h (live, cur) \<longrightarrow> ts_current api h = cur \<and> ts_create api h \<notin> live)"

record tsan_ctx =
  tc_fiber :: nat
  tc_exit_from :: "context_id option"

record tsan_state =
  ts_ctx :: "context_id \<Rightarrow> tsan_ctx"
  ts_calls :: "tsan_call list"

definition init_tsan :: tsan_state where
  "init_tsan = \<lparr>ts_ctx = (\<lambda>_. \<lparr>tc_fiber = 0, tc_exit_from = None\<rparr>), ts_calls = []\<rparr>"

definition tsan_put :: "context_id \<Rightarrow> tsan_ctx \<Rightarrow> tsan_state \<Rightarrow> tsan_state" where
  "tsan_put x c s = s\<lparr>ts_ctx := (ts_ctx s)(x := c)\<rparr>"

definition tsan_do :: "tsan_call \<Rightarrow> tsan_state \<Rightarrow> tsan_state \<times> tsan_call list" where
  "tsan_do c s = (s\<lparr>ts_calls := ts_calls s @ [c]\<rparr>, [c])"

definition tsan_Setup :: "tsan_api \<Rightarrow> addr \<Rightarrow> tsan_state \<Rightarrow> tsan_state \<times> tsan_call list" where
  "tsan_Setup api c s =
     (let f = ts_create api (ts_calls s) in tsan_do (TsanCreate f) (tsan_put (CoroCtx c) \<lparr>tc_fiber = f, tc_exit_from = None\<rparr> s))"

definition tsan_After :: "context_id \<Rightarrow> tsan_state \<Rightarrow> tsan_state \<times> tsan_call list" where
  "tsan_After x s =
     (case tc_exit_from (ts_ctx s x) of
        None \<Rightarrow> (s, [])
      | Some y \<Rightarrow> tsan_do (TsanDestroy (tc_fiber (ts_ctx s y))) (tsan_put x ((ts_ctx s x)\<lparr>tc_exit_from := None\<rparr>) s))"

definition tsan_BeforeSwitch :: "tsan_api \<Rightarrow> context_id \<Rightarrow> context_id \<Rightarrow> tsan_state \<Rightarrow> tsan_state \<times> tsan_call list" where
  "tsan_BeforeSwitch api this target s =
     (let s1 = tsan_put this ((ts_ctx s this)\<lparr>tc_fiber := ts_current api (ts_calls s)\<rparr>) s
      in tsan_do (TsanSwitch (tc_fiber (ts_ctx s1 target))) s1)"

definition tsan_BeforeExit :: "context_id \<Rightarrow> context_id \<Rightarrow> tsan_state \<Rightarrow> tsan_state \<times> tsan_call list" where
  "tsan_BeforeExit this target s =
     (let s1 = tsan_put target ((ts_ctx s target)\<lparr>tc_exit_from := Some this\<rparr>) s
      in tsan_do (TsanSwitch (tc_fiber (ts_ctx s1 target))) s1)"

definition tsan_hooks :: "tsan_api \<Rightarrow> (tsan_state, tsan_call) hooks" where
  "tsan_hooks api = \<lparr>hk_setup = tsan_Setup api, hk_after_start = tsan_After, hk_before_switch = tsan_BeforeSwitch api,
     hk_after_switch = tsan_After, hk_before_exit = tsan_BeforeExit\<rparr>"

subsection \<open>The fibers of the coroutines\<close>

text \<open>The fiber of the innermost active coroutine; \<open>fib\<close> names the fiber of each coroutine.\<close>

definition fiber_on_top :: "(addr \<Rightarrow> nat) \<Rightarrow> addr list \<Rightarrow> nat" where
  "fiber_on_top fib as = (case as of [] \<Rightarrow> 0 | c # _ \<Rightarrow> fib c)"

fun fibers_below :: "(addr \<Rightarrow> nat) \<Rightarrow> (context_id \<Rightarrow> tsan_ctx) \<Rightarrow> addr list \<Rightarrow> bool" where
  "fibers_below fib ctx [] \<longleftrightarrow> True"
| "fibers_below fib ctx (c # as) \<longleftrightarrow> tc_fiber (ctx (CallerCtx c)) = fiber_on_top fib as \<and> fibers_below fib ctx as"

lemma fiber_on_top_upd [simp]: "c \<notin> set as \<Longrightarrow> fiber_on_top (fib(c := f)) as = fiber_on_top fib as"
  by (cases as) (auto simp: fiber_on_top_def)

lemma fibers_below_upd [simp]:
  "fibers_below fib (ctx(CoroCtx c := x)) as \<longleftrightarrow> fibers_below fib ctx as"
  "c \<notin> set as \<Longrightarrow> fibers_below fib (ctx(CallerCtx c := x)) as \<longleftrightarrow> fibers_below fib ctx as"
  "c \<notin> set as \<Longrightarrow> fibers_below (fib(c := f)) ctx as \<longleftrightarrow> fibers_below fib ctx as"
  by (induction as) simp_all

text \<open>The coroutines that have not ended, and the fibers that exist.\<close>

definition open_coros :: "coro_world \<Rightarrow> addr set" where
  "open_coros w = {c. cw_created w c \<and> \<not> cw_completed w c}"

definition tsan_inv :: "coro_class \<Rightarrow> (addr \<Rightarrow> nat) \<Rightarrow> addr list \<Rightarrow> tsan_call list \<Rightarrow> coro_world \<times> tsan_state \<Rightarrow> bool" where
  "tsan_inv k fib as es s \<longleftrightarrow>
     ts_calls (snd s) = es \<and> reach tsan_spec ({0}, 0) es (insert 0 (fib ` open_coros (fst s)), fiber_on_top fib as) \<and>
     inj_on fib (open_coros (fst s)) \<and> 0 \<notin> fib ` open_coros (fst s) \<and>
     (\<forall>c \<in> open_coros (fst s). tc_fiber (ts_ctx (snd s) (CoroCtx c)) = fib c) \<and> (\<forall>x. tc_exit_from (ts_ctx (snd s) x) = None) \<and>
     fibers_below fib (ts_ctx (snd s)) as"

lemma tsan_invD:
  assumes "tsan_inv k fib as es s"
  shows "ts_calls (snd s) = es" "reach tsan_spec ({0}, 0) es (insert 0 (fib ` open_coros (fst s)), fiber_on_top fib as)"
    "inj_on fib (open_coros (fst s))" "0 \<notin> fib ` open_coros (fst s)" "c \<in> open_coros (fst s) \<Longrightarrow> tc_fiber (ts_ctx (snd s) (CoroCtx c)) = fib c"
    "tc_exit_from (ts_ctx (snd s) x) = None" "fibers_below fib (ts_ctx (snd s)) as"
  using assms unfolding tsan_inv_def by blast+

lemmas tsan_defs = tsan_hooks_def then_hook_def tsan_Setup_def tsan_After_def tsan_BeforeSwitch_def tsan_BeforeExit_def tsan_do_def tsan_put_def Let_def

lemma tsan_call_legal: "reach tsan_spec a0 es a \<Longrightarrow> tsan_spec c a = Some (a', [c]) \<Longrightarrow> reach tsan_spec a0 (es @ [c]) a'"
  by (rule reach.reach_step)

lemma open_coros_inv: "world_inv k as ended w \<Longrightarrow> open_coros w = {c. cw_created w c} - ended"
  by (auto simp: open_coros_def world_inv_def)

lemma tsan_new:
  assumes api: "tsan_documented api" and t: "tsan_inv k fib as es s" and inv: "world_inv k as ended (fst s)"
    and c: "\<not> cw_created (fst s) c" "c \<notin> set as" "c \<notin> ended" and inv': "world_inv k as ended (fst s')"
    and cr: "cw_created (fst s') = (cw_created (fst s))(c := True)" and hk: "tsan_Setup api c (snd s) = (snd s', e)"
  shows "\<exists>f. tsan_inv k (fib(c := f)) as (es @ e) s'"
proof -
  note D = tsan_invD [OF t]
  let ?f = "ts_create api es"
  have f: "?f \<notin> insert 0 (fib ` open_coros (fst s))" using api D(2) unfolding tsan_documented_def by blast
  have op: "open_coros (fst s') = insert c (open_coros (fst s))" "c \<notin> open_coros (fst s)"
    using open_coros_inv [OF inv] open_coros_inv [OF inv'] cr c by auto
  have same: "(fib(c := ?f)) d = fib d" if "d \<in> open_coros (fst s)" for d using op(2) that by auto
  then have "(fib(c := ?f)) ` open_coros (fst s) = fib ` open_coros (fst s)" by (intro image_cong) simp_all
  then have im: "(fib(c := ?f)) ` open_coros (fst s') = insert ?f (fib ` open_coros (fst s))" unfolding op(1) by (simp only: image_insert fun_upd_same)
  have out: "e = [TsanCreate ?f]" "ts_calls (snd s') = es @ e" "ts_ctx (snd s') = (ts_ctx (snd s))(CoroCtx c := \<lparr>tc_fiber = ?f, tc_exit_from = None\<rparr>)"
    using hk [symmetric] D(1) by (auto simp: tsan_defs)
  have "fiber_on_top (fib(c := ?f)) as = fiber_on_top fib as" using c(2) by simp
  moreover have "reach tsan_spec ({0}, 0) (es @ e) (insert 0 (insert ?f (fib ` open_coros (fst s))), fiber_on_top fib as)"
    unfolding out(1) by (rule tsan_call_legal [OF D(2)]) (use f in \<open>simp add: insert_commute\<close>)
  moreover have "inj_on (fib(c := ?f)) (open_coros (fst s'))"
    unfolding op(1) using D(3) f op(2) by (intro inj_on_insert [THEN iffD2] conjI) (auto simp: inj_on_def image_iff)
  moreover have "tc_fiber (ts_ctx (snd s') (CoroCtx d)) = (fib(c := ?f)) d" if "d \<in> open_coros (fst s')" for d
    using that op D(5) [of d] by (auto simp: out(3))
  moreover have "0 \<notin> insert ?f (fib ` open_coros (fst s))" using f D(4) by auto
  moreover have "tc_exit_from (ts_ctx (snd s') x) = None" for x using D(6) [of x] by (simp add: out(3))
  moreover have "fibers_below (fib(c := ?f)) (ts_ctx (snd s')) as" using D(7) c(2) by (simp add: out(3))
  ultimately have "tsan_inv k (fib(c := ?f)) as (es @ e) s'"
    using out(2) unfolding tsan_inv_def im by simp
  then show ?thesis by blast
qed

lemma tsan_resume:
  assumes api: "tsan_documented api" and t: "tsan_inv k fib as es s" and inv: "world_inv k as ended (fst s)"
    and c: "cw_created (fst s) c" "c \<notin> set as" "c \<notin> ended" and inv': "world_inv k (c # as) ended (fst s')"
    and cr: "cw_created (fst s') = cw_created (fst s)"
    and hk: "then_hook (tsan_BeforeSwitch api (CallerCtx c) (CoroCtx c)) (tsan_After (CoroCtx c)) (snd s) = (snd s', e)"
  shows "tsan_inv k fib (c # as) (es @ e) s'"
proof -
  note D = tsan_invD [OF t]
  have cur: "ts_current api es = fiber_on_top fib as" using api D(2) unfolding tsan_documented_def by blast
  have op: "open_coros (fst s') = open_coros (fst s)" "c \<in> open_coros (fst s)"
    using open_coros_inv [OF inv] open_coros_inv [OF inv'] cr c by auto
  have out: "e = [TsanSwitch (fib c)]" "ts_calls (snd s') = es @ e"
    "ts_ctx (snd s') = (ts_ctx (snd s))(CallerCtx c := (ts_ctx (snd s) (CallerCtx c))\<lparr>tc_fiber := fiber_on_top fib as\<rparr>)"
    using hk [symmetric] D(1,6) D(5) [OF op(2)] cur by (auto simp: tsan_defs)
  have "reach tsan_spec ({0}, 0) (es @ e) (insert 0 (fib ` open_coros (fst s)), fib c)"
    unfolding out(1) by (rule tsan_call_legal [OF D(2)]) (use op in simp)
  then show ?thesis using D c(2) unfolding tsan_inv_def out(2,3) op(1) by (auto simp: fiber_on_top_def)
qed

lemma top_live: "world_inv k as ended w \<Longrightarrow> fiber_on_top fib as \<in> insert 0 (fib ` open_coros w)"
  using open_coros_inv [of k as ended w] by (cases as) (auto simp: fiber_on_top_def world_inv_def)

lemma tsan_suspend:
  assumes api: "tsan_documented api" and t: "tsan_inv k fib (c # bs) es s" and inv: "world_inv k (c # bs) ended (fst s)"
    and inv': "world_inv k bs ended (fst s')" and cr: "cw_created (fst s') = cw_created (fst s)"
    and hk: "then_hook (tsan_BeforeSwitch api (CoroCtx c) (CallerCtx c)) (tsan_After (CallerCtx c)) (snd s) = (snd s', e)"
  shows "tsan_inv k fib bs (es @ e) s'"
proof -
  note D = tsan_invD [OF t]
  have cur: "ts_current api es = fib c" using api D(2) unfolding tsan_documented_def fiber_on_top_def by force
  have op: "open_coros (fst s') = open_coros (fst s)" using open_coros_inv [OF inv] open_coros_inv [OF inv'] cr by auto
  have out: "e = [TsanSwitch (fiber_on_top fib bs)]" "ts_calls (snd s') = es @ e"
    "ts_ctx (snd s') = (ts_ctx (snd s))(CoroCtx c := (ts_ctx (snd s) (CoroCtx c))\<lparr>tc_fiber := fib c\<rparr>)"
    using hk [symmetric] D(1,6,7) cur by (auto simp: tsan_defs)
  have "reach tsan_spec ({0}, 0) (es @ e) (insert 0 (fib ` open_coros (fst s)), fiber_on_top fib bs)"
    unfolding out(1) by (rule tsan_call_legal [OF D(2)]) (use top_live [OF inv', of fib] op in simp)
  then show ?thesis using D unfolding tsan_inv_def out(2,3) op by auto
qed

lemma tsan_exit:
  assumes t: "tsan_inv k fib (c # bs) es s" and inv: "world_inv k (c # bs) ended (fst s)"
    and inv': "world_inv k bs (insert c ended) (fst s')" and cr: "cw_created (fst s') = cw_created (fst s)"
    and hk: "then_hook (tsan_BeforeExit (CoroCtx c) (CallerCtx c)) (tsan_After (CallerCtx c)) (snd s) = (snd s', e)"
  shows "tsan_inv k fib bs (es @ e) s'"
proof -
  note D = tsan_invD [OF t]
  have op: "open_coros (fst s') = open_coros (fst s) - {c}" "c \<in> open_coros (fst s)"
    using open_coros_inv [OF inv] open_coros_inv [OF inv'] cr world_invD(2,3) [OF inv] by auto
  have out: "e = [TsanSwitch (fiber_on_top fib bs)] @ [TsanDestroy (fib c)]" "ts_calls (snd s') = es @ e"
    "ts_ctx (snd s') = ts_ctx (snd s)"
    using hk [symmetric] D(1,7) D(6) [of "CallerCtx c"] D(5) [OF op(2)] by (auto simp: tsan_defs)
  have top: "fiber_on_top fib bs \<in> insert 0 (fib ` (open_coros (fst s) - {c}))" using top_live [OF inv', of fib] op(1) by simp
  have im: "fib ` (open_coros (fst s) - {c}) = fib ` open_coros (fst s) - {fib c}"
    using inj_on_image_set_diff [OF D(3), of "open_coros (fst s)" "{c}"] op(2) by auto
  have c0: "fib c \<noteq> 0" using D(4) op(2) by (metis imageI)
  have "reach tsan_spec ({0}, 0) (es @ [TsanSwitch (fiber_on_top fib bs)]) (insert 0 (fib ` open_coros (fst s)), fiber_on_top fib bs)"
    by (rule tsan_call_legal [OF D(2)]) (use top im in auto)
  then have "reach tsan_spec ({0}, 0) ((es @ [TsanSwitch (fiber_on_top fib bs)]) @ [TsanDestroy (fib c)])
    (insert 0 (fib ` (open_coros (fst s) - {c})), fiber_on_top fib bs)"
    by (rule tsan_call_legal) (use top im op(2) c0 in auto)
  then have "reach tsan_spec ({0}, 0) (es @ e) (insert 0 (fib ` open_coros (fst s')), fiber_on_top fib bs)" using op(1) out(1) by simp
  moreover have "inj_on fib (open_coros (fst s'))" using D(3) op(1) by (auto intro: inj_on_subset)
  ultimately show ?thesis using D op unfolding tsan_inv_def out(2,3) by auto
qed

lemma tsan_step_inv:
  assumes api: "tsan_documented api" and t: "tsan_inv k fib as es s" and inv: "world_inv k as ended (fst s)"
    and st: "hooked_step (tsan_hooks api) k act s = Some (s', e)" and f: "cw_fault (fst s') = None"
  shows "\<exists>fib' as' ended'. tsan_inv k fib' as' (es @ e) s' \<and> world_inv k as' ended' (fst s')"
  using inv st f
proof (cases rule: hooked_cases)
  case (made c)
  then show ?thesis using tsan_new [OF api t inv, of c s' e] by (auto simp: tsan_hooks_def)
next
  case (resume c)
  then have "tsan_inv k fib (c # as) (es @ e) s'" using tsan_resume [OF api t inv, of c s' e]
    by (cases "cw_saved (fst s) (CoroCtx c) = Some (CoroStack c, Entry)") (simp_all add: tsan_hooks_def)
  then show ?thesis using resume(4) by blast
next
  case (suspend c bs)
  then show ?thesis using tsan_suspend [OF api, of k fib c bs es s ended s' e] t inv by (auto simp: tsan_hooks_def)
next
  case (leaves c bs)
  then show ?thesis using tsan_exit [of k fib c bs es s ended s' e] t inv by (auto simp: tsan_hooks_def)
qed

lemma tsan_reach:
  assumes "tsan_documented api" and "reach (hooked_step (tsan_hooks api) k) (init_world, init_tsan) es s"
  shows "cw_fault (fst s) = None \<longrightarrow> (\<exists>fib as ended. tsan_inv k fib as es s \<and> world_inv k as ended (fst s))"
  using assms(2)
proof (induction rule: reach.induct)
  case reach_init
  have "tsan_inv k (\<lambda>_. 0) [] [] (init_world, init_tsan)"
    by (auto simp: tsan_inv_def init_tsan_def open_coros_def init_world_def fiber_on_top_def intro: reach.reach_init)
  then show ?case using init_world_inv by auto
next
  case (reach_step es s act s' e)
  then show ?case using tsan_step_inv [OF assms(1)] hooked_no_fault by metis
qed

text \<open>A runtime with the documented behaviour: the last fiber switched to, and a handle above all that were given out.\<close>

fun created_fiber :: "tsan_call \<Rightarrow> nat" where
  "created_fiber (TsanCreate f) = f"
| "created_fiber _ = 0"

fun now_current :: "tsan_call \<Rightarrow> nat \<Rightarrow> nat" where
  "now_current (TsanSwitch f) cur = f"
| "now_current _ cur = cur"

definition tsan_counting :: tsan_api where
  "tsan_counting = \<lparr>ts_current = (\<lambda>h. fold now_current h 0), ts_create = (\<lambda>h. Suc (sum_list (map created_fiber h)))\<rparr>"

lemma tsan_counting_documented: "tsan_documented tsan_counting"
proof -
  have "fold now_current h 0 = snd a \<and> (\<forall>f \<in> fst a. f \<le> sum_list (map created_fiber h))" if "reach tsan_spec ({0}, 0) h a" for h a
    using that
  proof (induction rule: reach.induct)
    case (reach_step es s c s' e)
    then show ?case by (cases s; cases c) (fastforce split: if_splits)+
  qed simp
  then show ?thesis unfolding tsan_documented_def by (force simp: tsan_counting_def)
qed

subsection \<open>The address sanitizer\<close>

type_synonym bounds = "qword \<times> size_t"

text \<open>\<open>AsanStart\<close> carries what the runtime stored as the fake stack (\<open>None\<close> when it was told to drop it) and the announced bounds,
  \<open>AsanFinish\<close> the fake stack that is given back.\<close>

datatype asan_call = AsanStart "nat option" bounds | AsanFinish "nat option"

text \<open>Legal calls: the stack in use, the announced one, and the fake stacks of the stacks that were left.\<close>

fun asan_spec :: "(asan_call, bounds \<times> bounds option \<times> (bounds \<Rightarrow> nat option), asan_call) stepper" where
  "asan_spec (AsanStart f b) (now, pending, kept) =
     (if pending = None then Some ((now, Some b, kept(now := f)), [AsanStart f b]) else None)"
| "asan_spec (AsanFinish f) (now, pending, kept) =
     (case pending of
        None \<Rightarrow> None
      | Some b \<Rightarrow> if kept b = f then Some ((b, None, kept(b := None)), [AsanFinish f]) else None)"

record asan_api =
  as_fake :: "asan_call list \<Rightarrow> nat"             \<comment> \<open>stored by \<open>start\<close>\<close>
  as_old :: "asan_call list \<Rightarrow> bounds"           \<comment> \<open>stored by \<open>finish\<close>: the bounds of the stack that was left\<close>

definition asan_documented :: "bounds \<Rightarrow> asan_api \<Rightarrow> bool" where
  "asan_documented th api \<longleftrightarrow>
     (\<forall>h now pending kept. reach asan_spec (th, None, \<lambda>_. None) h (now, Some pending, kept) \<longrightarrow> as_old api h = now)"

record asan_ctx =
  ac_stack :: bounds
  ac_fake :: nat
  ac_from :: "context_id option"

record asan_state =
  as_ctx :: "context_id \<Rightarrow> asan_ctx"
  as_calls :: "asan_call list"
  as_fault :: "fault option"

definition init_asan :: asan_state where
  "init_asan = \<lparr>as_ctx = (\<lambda>_. \<lparr>ac_stack = (0, 0), ac_fake = 0, ac_from = None\<rparr>), as_calls = [], as_fault = None\<rparr>"

definition asan_put :: "context_id \<Rightarrow> asan_ctx \<Rightarrow> asan_state \<Rightarrow> asan_state" where
  "asan_put x c s = s\<lparr>as_ctx := (as_ctx s)(x := c)\<rparr>"

definition asan_do :: "asan_call \<Rightarrow> asan_state \<Rightarrow> asan_state \<times> asan_call list" where
  "asan_do c s = (s\<lparr>as_calls := as_calls s @ [c]\<rparr>, [c])"

definition asan_Setup :: "(addr \<Rightarrow> bounds) \<Rightarrow> addr \<Rightarrow> asan_state \<Rightarrow> asan_state \<times> asan_call list" where
  "asan_Setup stk c s = (asan_put (CoroCtx c) ((as_ctx s (CoroCtx c))\<lparr>ac_stack := stk c\<rparr>) s, [])"

text \<open>\<open>finish\<close> writes the bounds of the stack that was left into \<open>*from_\<close>.\<close>

definition asan_finish :: "asan_api \<Rightarrow> nat option \<Rightarrow> context_id \<Rightarrow> asan_state \<Rightarrow> asan_state \<times> asan_call list" where
  "asan_finish api fake x s =
     (case ac_from (as_ctx s x) of
        None \<Rightarrow> (s\<lparr>as_fault := Some NullDeref\<rparr>, [])
      | Some y \<Rightarrow> asan_do (AsanFinish fake) (asan_put y ((as_ctx s y)\<lparr>ac_stack := as_old api (as_calls s)\<rparr>) s))"

definition asan_AfterStart :: "asan_api \<Rightarrow> context_id \<Rightarrow> asan_state \<Rightarrow> asan_state \<times> asan_call list" where
  "asan_AfterStart api x s = asan_finish api None x s"

definition asan_AfterSwitch :: "asan_api \<Rightarrow> context_id \<Rightarrow> asan_state \<Rightarrow> asan_state \<times> asan_call list" where
  "asan_AfterSwitch api x s = asan_finish api (Some (ac_fake (as_ctx s x))) x s"

definition asan_BeforeSwitch :: "asan_api \<Rightarrow> context_id \<Rightarrow> context_id \<Rightarrow> asan_state \<Rightarrow> asan_state \<times> asan_call list" where
  "asan_BeforeSwitch api this target s =
     (let s1 = asan_put target ((as_ctx s target)\<lparr>ac_from := Some this\<rparr>) s;
          s2 = asan_put this ((as_ctx s1 this)\<lparr>ac_fake := as_fake api (as_calls s1)\<rparr>) s1
      in asan_do (AsanStart (Some (as_fake api (as_calls s1))) (ac_stack (as_ctx s1 target))) s2)"

definition asan_BeforeExit :: "context_id \<Rightarrow> context_id \<Rightarrow> asan_state \<Rightarrow> asan_state \<times> asan_call list" where
  "asan_BeforeExit this target s =
     (let s1 = asan_put target ((as_ctx s target)\<lparr>ac_from := Some this\<rparr>) s
      in asan_do (AsanStart None (ac_stack (as_ctx s1 target))) s1)"

definition asan_hooks :: "(addr \<Rightarrow> bounds) \<Rightarrow> asan_api \<Rightarrow> (asan_state, asan_call) hooks" where
  "asan_hooks stk api = \<lparr>hk_setup = asan_Setup stk, hk_after_start = asan_AfterStart api, hk_before_switch = asan_BeforeSwitch api,
     hk_after_switch = asan_AfterSwitch api, hk_before_exit = asan_BeforeExit\<rparr>"

lemmas asan_defs = asan_hooks_def then_hook_def asan_Setup_def asan_finish_def asan_AfterStart_def asan_AfterSwitch_def asan_BeforeSwitch_def
  asan_BeforeExit_def asan_do_def asan_put_def Let_def

subsection \<open>The stacks of the coroutines\<close>

definition stack_on_top :: "bounds \<Rightarrow> (addr \<Rightarrow> bounds) \<Rightarrow> addr list \<Rightarrow> bounds" where
  "stack_on_top th stk as = (case as of [] \<Rightarrow> th | c # _ \<Rightarrow> stk c)"

definition stacks_apart :: "bounds \<Rightarrow> (addr \<Rightarrow> bounds) \<Rightarrow> addr set \<Rightarrow> bool" where
  "stacks_apart th stk C \<longleftrightarrow> inj_on stk C \<and> th \<notin> stk ` C"

lemma stacks_apartD:
  assumes "stacks_apart th stk C" and "c \<in> C"
  shows "d \<in> C \<Longrightarrow> stk c = stk d \<longleftrightarrow> c = d" "th \<noteq> stk c" "stk c \<noteq> th" "set as \<subseteq> C \<Longrightarrow> c \<notin> set as \<Longrightarrow> stack_on_top th stk as \<noteq> stk c"
  using assms unfolding stacks_apart_def by (auto simp: stack_on_top_def inj_on_def split: list.splits)

text \<open>For each active coroutine, its caller's context knows the stack below and the fake stack kept for it.\<close>

fun stacks_below :: "bounds \<Rightarrow> (addr \<Rightarrow> bounds) \<Rightarrow> (bounds \<Rightarrow> nat option) \<Rightarrow> (context_id \<Rightarrow> asan_ctx) \<Rightarrow> addr list \<Rightarrow> bool" where
  "stacks_below th stk kept ctx [] \<longleftrightarrow> True"
| "stacks_below th stk kept ctx (c # as) \<longleftrightarrow>
     ac_stack (ctx (CallerCtx c)) = stack_on_top th stk as \<and> kept (stack_on_top th stk as) = Some (ac_fake (ctx (CallerCtx c))) \<and>
     stacks_below th stk kept ctx as"

lemma stacks_below_frame:
  assumes "stacks_apart th stk C" and "distinct as" and "set as \<subseteq> C" and "\<forall>c \<in> set as. ac_stack (ctx' (CallerCtx c)) = ac_stack (ctx (CallerCtx c)) \<and> ac_fake (ctx' (CallerCtx c)) = ac_fake (ctx (CallerCtx c))"
    and "\<forall>b. b \<noteq> stack_on_top th stk as \<longrightarrow> b \<in> insert th (stk ` set as) \<longrightarrow> kept' b = kept b"
  shows "stacks_below th stk kept ctx as \<Longrightarrow> stacks_below th stk kept' ctx' as"
  using assms(2-)
proof (induction as)
  case (Cons c as)
  have c: "c \<in> C" "set as \<subseteq> C" using Cons.prems(3) by auto
  have ne: "stack_on_top th stk as \<noteq> stk c" using stacks_apartD(4) [OF assms(1) c(1) c(2)] Cons.prems(2) by simp
  have key: "kept' b = kept b" if "b \<noteq> stk c" "b \<in> insert th (stk ` set as)" for b
  proof -
    have "b \<noteq> stack_on_top th stk (c # as)" "b \<in> insert th (stk ` set (c # as))" using that by (auto simp: stack_on_top_def)
    then show ?thesis using Cons.prems(5) by blast
  qed
  have "stack_on_top th stk as \<in> insert th (stk ` set as)" by (cases as) (auto simp: stack_on_top_def)
  then have "kept' (stack_on_top th stk as) = kept (stack_on_top th stk as)" using key ne by blast
  moreover have "stk c \<notin> insert th (stk ` set as)" using Cons.prems(2) c stacks_apartD(1,3) [OF assms(1) c(1)] by auto
  then have "\<forall>b. b \<noteq> stack_on_top th stk as \<longrightarrow> b \<in> insert th (stk ` set as) \<longrightarrow> kept' b = kept b" using key by metis
  ultimately show ?case using Cons by simp
qed simp

definition asan_inv ::
  "bounds \<Rightarrow> (addr \<Rightarrow> bounds) \<Rightarrow> addr set \<Rightarrow> addr list \<Rightarrow> asan_call list \<Rightarrow> (bounds \<Rightarrow> nat option) \<Rightarrow> coro_world \<times> asan_state \<Rightarrow> bool" where
  "asan_inv th stk C as es kept s \<longleftrightarrow>
     as_calls (snd s) = es \<and> as_fault (snd s) = None \<and> reach asan_spec (th, None, \<lambda>_. None) es (stack_on_top th stk as, None, kept) \<and>
     (\<forall>c \<in> open_coros (fst s). ac_stack (as_ctx (snd s) (CoroCtx c)) = stk c) \<and> (\<forall>c \<in> C. \<not> cw_created (fst s) c \<longrightarrow> kept (stk c) = None) \<and>
     (\<forall>c \<in> open_coros (fst s) - set as. kept (stk c) =
        (if cw_saved (fst s) (CoroCtx c) = Some (CoroStack c, Entry) then None else Some (ac_fake (as_ctx (snd s) (CoroCtx c))))) \<and>
     stacks_below th stk kept (as_ctx (snd s)) as"

lemma asan_invD:
  assumes "asan_inv th stk C as es kept s"
  shows "as_calls (snd s) = es" "as_fault (snd s) = None" "reach asan_spec (th, None, \<lambda>_. None) es (stack_on_top th stk as, None, kept)"
    "c \<in> open_coros (fst s) \<Longrightarrow> ac_stack (as_ctx (snd s) (CoroCtx c)) = stk c" "c \<in> C \<Longrightarrow> \<not> cw_created (fst s) c \<Longrightarrow> kept (stk c) = None"
    "c \<in> open_coros (fst s) \<Longrightarrow> c \<notin> set as \<Longrightarrow> kept (stk c) =
       (if cw_saved (fst s) (CoroCtx c) = Some (CoroStack c, Entry) then None else Some (ac_fake (as_ctx (snd s) (CoroCtx c))))"
    "stacks_below th stk kept (as_ctx (snd s)) as"
  using assms unfolding asan_inv_def by blast+

text \<open>A switch makes two legal calls.\<close>

lemma asan_calls_legal:
  assumes "reach asan_spec a0 es (now, None, kept)" and "(kept(now := f)) b = f'"
  shows "reach asan_spec a0 (es @ [AsanStart f b]) (now, Some b, kept(now := f))"
    "reach asan_spec a0 (es @ [AsanStart f b, AsanFinish f']) (b, None, (kept(now := f))(b := None))"
proof -
  show one: "reach asan_spec a0 (es @ [AsanStart f b]) (now, Some b, kept(now := f))"
    by (rule reach.reach_step [OF assms(1), where c = "AsanStart f b"]) simp
  have "reach asan_spec a0 ((es @ [AsanStart f b]) @ [AsanFinish f']) (b, None, (kept(now := f))(b := None))"
    by (rule reach.reach_step [OF one, where c = "AsanFinish f'"]) (use assms(2) in simp)
  then show "reach asan_spec a0 (es @ [AsanStart f b, AsanFinish f']) (b, None, (kept(now := f))(b := None))" by simp
qed

lemma asan_resume:
  assumes api: "asan_documented th api" and ap: "stacks_apart th stk C" and t: "asan_inv th stk C as es kept s" and inv: "world_inv k as ended (fst s)"
    and c: "cw_created (fst s) c" "c \<notin> set as" "c \<notin> ended" and inv': "world_inv k (c # as) ended (fst s')"
    and cr: "cw_created (fst s') = cw_created (fst s)"
    and hk: "then_hook (asan_BeforeSwitch api (CallerCtx c) (CoroCtx c))
      (asan_finish api fk (CoroCtx c)) (snd s) = (snd s', e)"
    and fk: "fk = kept (stk c)" and sv: "\<And>d. d \<noteq> c \<Longrightarrow> cw_saved (fst s') (CoroCtx d) = cw_saved (fst s) (CoroCtx d)"
    and C: "{d. cw_created (fst s') d} \<subseteq> C"
  shows "\<exists>kept'. asan_inv th stk C (c # as) (es @ e) kept' s'"
proof -
  note D = asan_invD [OF t]
  let ?top = "stack_on_top th stk as" and ?f = "as_fake api es"
  let ?kept = "(kept(?top := Some ?f))(stk c := None)"
  have op: "open_coros (fst s') = open_coros (fst s)" "c \<in> open_coros (fst s)"
    using open_coros_inv [OF inv] open_coros_inv [OF inv'] cr c by auto
  have inC: "c \<in> C" "set as \<subseteq> C" "open_coros (fst s) \<subseteq> C" using C c(1) cr world_invD(3) [OF inv] by (auto simp: open_coros_def)
  have ne: "?top \<noteq> stk c" by (rule stacks_apartD(4) [OF ap inC(1,2) c(2)])
  have k: "(kept(?top := Some ?f)) (stk c) = fk" using ne fk by simp
  note legal = asan_calls_legal [OF D(3) k]
  have old: "as_old api (es @ [AsanStart (Some ?f) (stk c)]) = ?top" using api legal(1) unfolding asan_documented_def by blast
  have out: "e = [AsanStart (Some ?f) (stk c), AsanFinish fk]" "as_calls (snd s') = es @ e" "as_fault (snd s') = None"
    "as_ctx (snd s') = (as_ctx (snd s))(CoroCtx c := (as_ctx (snd s) (CoroCtx c))\<lparr>ac_from := Some (CallerCtx c)\<rparr>,
       CallerCtx c := (as_ctx (snd s) (CallerCtx c))\<lparr>ac_fake := ?f, ac_stack := ?top\<rparr>)"
    using hk [symmetric] D(1,2) D(4) [OF op(2)] old by (auto simp: asan_defs)
  have dist: "distinct as" using world_invD(1) [OF inv] .
  have "stacks_below th stk ?kept (as_ctx (snd s')) as"
    by (rule stacks_below_frame [OF ap dist inC(2) _ _ D(7)]) (use c(2) inC stacks_apartD(1-3) [OF ap] in \<open>auto simp: out(4)\<close>)
  then have below: "stacks_below th stk ?kept (as_ctx (snd s')) (c # as)" using ne by (simp add: out(4))
  have same: "?kept (stk d) = kept (stk d)" if "d \<noteq> c" "d \<notin> set as" "d \<in> C" for d
    using stacks_apartD(1) [OF ap that(3) inC(1)] stacks_apartD(4) [OF ap that(3) inC(2) that(2)] that by auto
  then have "?kept (stk d) = (if cw_saved (fst s') (CoroCtx d) = Some (CoroStack d, Entry) then None else Some (ac_fake (as_ctx (snd s') (CoroCtx d))))"
    if "d \<in> open_coros (fst s) - set (c # as)" for d using D(6) [of d] sv [of d] that inC(3) by (simp add: out(4) subset_iff)
  moreover have "?kept (stk d) = None" if "d \<in> C" "\<not> cw_created (fst s) d" for d
  proof -
    have "d \<noteq> c" "d \<notin> set as" using that c(1) world_invD(3) [OF inv] by auto
    then show ?thesis using same that(1) D(5) [OF that] by simp
  qed
  moreover have "ac_stack (as_ctx (snd s') (CoroCtx d)) = stk d" if "d \<in> open_coros (fst s)" for d using D(4) [OF that] by (auto simp: out(4))
  ultimately have "asan_inv th stk C (c # as) (es @ e) ?kept s'"
    using legal(2) below out(2,3) unfolding asan_inv_def op(1) cr by (auto simp: out(1) stack_on_top_def)
  then show ?thesis by blast
qed

text \<open>Leaving the innermost coroutine, by \<open>Suspend\<close> (with a fake stack to keep) or by \<open>ExitTo\<close>.\<close>

lemma asan_leave:
  assumes api: "asan_documented th api" and ap: "stacks_apart th stk C" and t: "asan_inv th stk C (c # bs) es kept s" and inv: "world_inv k (c # bs) ended (fst s)"
    and inv': "world_inv k bs ended' (fst s')" and cr: "cw_created (fst s') = cw_created (fst s)"
    and C: "{d. cw_created (fst s') d} \<subseteq> C" and hk: "then_hook before (asan_AfterSwitch api (CallerCtx c)) (snd s) = (snd s', e)"
    and sv: "\<And>d. d \<noteq> c \<Longrightarrow> cw_saved (fst s') (CoroCtx d) = cw_saved (fst s) (CoroCtx d)"
    and how: "before = asan_BeforeSwitch api (CoroCtx c) (CallerCtx c) \<and> f = Some (as_fake api es) \<and> ended' = ended \<and>
        cw_saved (fst s') (CoroCtx c) = Some (CoroStack c, AfterSuspend) \<or>
      before = asan_BeforeExit (CoroCtx c) (CallerCtx c) \<and> f = None \<and> ended' = insert c ended"
  shows "\<exists>kept'. asan_inv th stk C bs (es @ e) kept' s'"
proof -
  note D = asan_invD [OF t]
  let ?top = "stack_on_top th stk bs"
  let ?kept = "(kept(stk c := f))(?top := None)"
  have c: "c \<notin> set bs" "distinct bs" "c \<in> open_coros (fst s)"
    using world_invD(1,2,3) [OF inv] open_coros_inv [OF inv] by auto
  have op: "open_coros (fst s') = {c. cw_created (fst s) c} - ended'" using open_coros_inv [OF inv'] cr by simp
  have sub: "open_coros (fst s') \<subseteq> open_coros (fst s)" using op open_coros_inv [OF inv] how by auto
  have inC: "c \<in> C" "set bs \<subseteq> C" "open_coros (fst s') \<subseteq> C" using C cr world_invD(3) [OF inv] by (auto simp: open_coros_def)
  have ne: "?top \<noteq> stk c" by (rule stacks_apartD(4) [OF ap inC(1,2) c(1)])
  have now: "stack_on_top th stk (c # bs) = stk c" by (simp add: stack_on_top_def)
  have below: "ac_stack (as_ctx (snd s) (CallerCtx c)) = ?top" "kept ?top = Some (ac_fake (as_ctx (snd s) (CallerCtx c)))"
    "stacks_below th stk kept (as_ctx (snd s)) bs" using D(7) by simp_all
  have k: "(kept(stk c := f)) ?top = Some (ac_fake (as_ctx (snd s) (CallerCtx c)))" using ne below(2) by simp
  note legal = asan_calls_legal [OF D(3) [unfolded now] k]
  have old: "as_old api (es @ [AsanStart f ?top]) = stk c" using api legal(1) unfolding asan_documented_def by blast
  have out: "e = [AsanStart f ?top, AsanFinish (Some (ac_fake (as_ctx (snd s) (CallerCtx c))))]" "as_calls (snd s') = es @ e" "as_fault (snd s') = None"
    "\<And>d. d \<noteq> c \<Longrightarrow> as_ctx (snd s') (CoroCtx d) = as_ctx (snd s) (CoroCtx d)" "ac_stack (as_ctx (snd s') (CoroCtx c)) = stk c"
    "\<And>d. ac_stack (as_ctx (snd s') (CallerCtx d)) = ac_stack (as_ctx (snd s) (CallerCtx d)) \<and> ac_fake (as_ctx (snd s') (CallerCtx d)) = ac_fake (as_ctx (snd s) (CallerCtx d))"
    "f \<noteq> None \<Longrightarrow> f = Some (ac_fake (as_ctx (snd s') (CoroCtx c)))"
    using hk [symmetric] how D(1,2) below(1) old by (auto simp: asan_defs)
  have "stacks_below th stk ?kept (as_ctx (snd s')) bs"
    by (rule stacks_below_frame [OF ap c(2) inC(2) _ _ below(3)]) (use c(1) inC out(6) stacks_apartD(1-3) [OF ap] in auto)
  moreover have same: "?kept (stk d) = kept (stk d)" if "d \<noteq> c" "d \<notin> set bs" "d \<in> C" for d
    using stacks_apartD(1) [OF ap that(3) inC(1)] stacks_apartD(4) [OF ap that(3) inC(2) that(2)] that by auto
  have "?kept (stk d) = (if cw_saved (fst s') (CoroCtx d) = Some (CoroStack d, Entry) then None else Some (ac_fake (as_ctx (snd s') (CoroCtx d))))"
    if d: "d \<in> open_coros (fst s') - set bs" for d
  proof (cases "d = c")
    case True
    then have "f \<noteq> None" "cw_saved (fst s') (CoroCtx c) = Some (CoroStack c, AfterSuspend)" using d how op by auto
    then show ?thesis using True ne out(7) by simp
  next
    case False
    have m: "d \<in> open_coros (fst s)" "d \<in> C" "d \<notin> set bs" "d \<notin> set (c # bs)" using d sub inC(3) False by auto
    have "kept (stk d) = (if cw_saved (fst s') (CoroCtx d) = Some (CoroStack d, Entry) then None else Some (ac_fake (as_ctx (snd s') (CoroCtx d))))"
      using D(6) [OF m(1,4)] sv [OF False] out(4) [OF False] by simp
    then show ?thesis using same [OF False m(3,2)] by metis
  qed
  moreover have "?kept (stk d) = None" if "d \<in> C" "\<not> cw_created (fst s') d" for d
  proof -
    have "d \<noteq> c" "d \<notin> set bs" "\<not> cw_created (fst s) d" using that cr world_invD(3) [OF inv] by auto
    then show ?thesis using same that(1) D(5) by simp
  qed
  moreover have "ac_stack (as_ctx (snd s') (CoroCtx d)) = stk d" if "d \<in> open_coros (fst s')" for d
    using D(4) [of d] sub that out(4,5) by (cases "d = c") auto
  ultimately have "asan_inv th stk C bs (es @ e) ?kept s'"
    using legal(2) out(2,3) unfolding asan_inv_def by (auto simp: out(1))
  then show ?thesis by blast
qed

lemma asan_new:
  assumes ap: "stacks_apart th stk C" and t: "asan_inv th stk C as es kept s" and inv: "world_inv k as ended (fst s)"
    and c: "\<not> cw_created (fst s) c" "c \<notin> set as" "c \<notin> ended" and inv': "world_inv k as ended (fst s')"
    and cr: "cw_created (fst s') = (cw_created (fst s))(c := True)" and hk: "asan_Setup stk c (snd s) = (snd s', e)"
    and sv: "cw_saved (fst s') = (cw_saved (fst s))(CoroCtx c := Some (CoroStack c, Entry))" and C: "{d. cw_created (fst s') d} \<subseteq> C"
  shows "asan_inv th stk C as (es @ e) kept s'"
proof -
  note D = asan_invD [OF t]
  have op: "open_coros (fst s') = insert c (open_coros (fst s))" "c \<notin> open_coros (fst s)"
    using open_coros_inv [OF inv] open_coros_inv [OF inv'] cr c by auto
  have out: "e = []" "as_calls (snd s') = es" "as_fault (snd s') = None"
    "as_ctx (snd s') = (as_ctx (snd s))(CoroCtx c := (as_ctx (snd s) (CoroCtx c))\<lparr>ac_stack := stk c\<rparr>)"
    using hk [symmetric] D(1,2) by (auto simp: asan_defs)
  have below: "stacks_below th stk kept (as_ctx (snd s')) as"
    by (rule stacks_below_frame [OF ap world_invD(1) [OF inv] _ _ _ D(7)]) (use C world_invD(3) [OF inv'] in \<open>auto simp: out(4)\<close>)
  have "ac_stack (as_ctx (snd s') (CoroCtx d)) = stk d" if "d \<in> open_coros (fst s')" for d
    using D(4) [of d] that op by (auto simp: out(4))
  moreover have "kept (stk d) = (if cw_saved (fst s') (CoroCtx d) = Some (CoroStack d, Entry) then None else Some (ac_fake (as_ctx (snd s') (CoroCtx d))))"
    if "d \<in> open_coros (fst s') - set as" for d
    using D(5) [OF _ c(1)] C cr D(6) [of d] that op by (cases "d = c") (auto simp: out(4) sv)
  ultimately show ?thesis using D(3,5) below out(1-3) unfolding asan_inv_def by (auto simp: cr)
qed

lemma asan_step_inv:
  assumes api: "asan_documented th api" and ap: "stacks_apart th stk C" and t: "asan_inv th stk C as es kept s" and inv: "world_inv k as ended (fst s)"
    and st: "hooked_step (asan_hooks stk api) k act s = Some (s', e)" and f: "cw_fault (fst s') = None" and C: "{d. cw_created (fst s') d} \<subseteq> C"
  shows "\<exists>kept' as' ended'. asan_inv th stk C as' (es @ e) kept' s' \<and> world_inv k as' ended' (fst s')"
  using inv st f
proof (cases rule: hooked_cases)
  case (made c)
  then have "asan_inv th stk C as (es @ e) kept s'" using asan_new [OF ap t inv, of c s' e] C by (simp add: asan_hooks_def)
  then show ?thesis using made(4) by blast
next
  case (resume c)
  have "c \<in> open_coros (fst s)" using open_coros_inv [OF inv] resume(1,3) by simp
  note kp = asan_invD(6) [OF t this resume(2)]
  let ?fk = "kept (stk c)"
  have "asan_AfterStart api (CoroCtx c) = asan_finish api None (CoroCtx c)" by (simp add: fun_eq_iff asan_AfterStart_def)
  moreover have "then_hook (asan_BeforeSwitch api (CallerCtx c) (CoroCtx c)) (asan_AfterSwitch api (CoroCtx c)) (snd s) =
    then_hook (asan_BeforeSwitch api (CallerCtx c) (CoroCtx c)) (asan_finish api (Some (ac_fake (as_ctx (snd s) (CoroCtx c)))) (CoroCtx c)) (snd s)"
    by (simp add: asan_defs)
  ultimately have "then_hook (asan_BeforeSwitch api (CallerCtx c) (CoroCtx c)) (asan_finish api ?fk (CoroCtx c)) (snd s) = (snd s', e)"
    using resume(6) kp by (cases "cw_saved (fst s) (CoroCtx c) = Some (CoroStack c, Entry)") (simp_all add: asan_hooks_def)
  from asan_resume [OF api ap t inv resume(1-5) this refl resume(8) C] show ?thesis using resume(4) by blast
next
  case (suspend c bs)
  then have "\<exists>kept'. asan_inv th stk C bs (es @ e) kept' s'"
    using asan_leave [OF api ap, of c bs es kept s k ended ended s' "asan_BeforeSwitch api (CoroCtx c) (CallerCtx c)" e "Some (as_fake api es)"] t inv C
    by (simp add: asan_hooks_def)
  then show ?thesis using suspend(2) by blast
next
  case (leaves c bs)
  then have "\<exists>kept'. asan_inv th stk C bs (es @ e) kept' s'"
    using asan_leave [OF api ap, of c bs es kept s k ended "insert c ended" s' "asan_BeforeExit (CoroCtx c) (CallerCtx c)" e None] t inv C
    by (simp add: asan_hooks_def)
  then show ?thesis using leaves(2) by blast
qed

lemma asan_reach:
  assumes "asan_documented th api" and "stacks_apart th stk C" and "reach (hooked_step (asan_hooks stk api) k) (init_world, init_asan) es s"
  shows "cw_fault (fst s) = None \<and> {d. cw_created (fst s) d} \<subseteq> C \<longrightarrow> (\<exists>kept as ended. asan_inv th stk C as es kept s \<and> world_inv k as ended (fst s))"
  using assms(3)
proof (induction rule: reach.induct)
  case reach_init
  have "asan_inv th stk C [] [] (\<lambda>_. None) (init_world, init_asan)"
    by (auto simp: asan_inv_def init_asan_def open_coros_def init_world_def stack_on_top_def intro: reach.reach_init)
  then show ?case using init_world_inv by auto
next
  case (reach_step es s act s' e)
  show ?case
  proof (intro impI, elim conjE)
    assume f: "cw_fault (fst s') = None" and C: "{d. cw_created (fst s') d} \<subseteq> C"
    then have "{d. cw_created (fst s) d} \<subseteq> C" using hooked_created [OF reach_step.hyps(2)] by auto
    then obtain kept as ended where "asan_inv th stk C as es kept s" "world_inv k as ended (fst s)"
      using reach_step.IH hooked_no_fault [OF reach_step.hyps(2)] by blast
    from asan_step_inv [OF assms(1,2) this reach_step.hyps(2) f C]
    show "\<exists>kept as ended. asan_inv th stk C as (es @ e) kept s' \<and> world_inv k as ended (fst s')" .
  qed
qed

text \<open>A runtime with the documented behaviour.\<close>

definition asan_counting :: "bounds \<Rightarrow> asan_api" where
  "asan_counting th =
     \<lparr>as_fake = length, as_old = (\<lambda>h. fst (fold (\<lambda>c (now, p). case c of AsanStart f b \<Rightarrow> (now, b) | AsanFinish f \<Rightarrow> (p, p)) h (th, th)))\<rparr>"

lemma asan_counting_documented: "asan_documented th (asan_counting th)"
proof -
  have "fold (\<lambda>c (now, p). case c of AsanStart f b \<Rightarrow> (now, b) | AsanFinish f \<Rightarrow> (p, p)) h (th, th) =
      (fst a, case fst (snd a) of None \<Rightarrow> fst a | Some b \<Rightarrow> b)" if "reach asan_spec (th, None, \<lambda>_. None) h a" for h a
    using that
  proof (induction rule: reach.induct)
    case (reach_step es s c s' e)
    then show ?case by (cases s; cases c) (auto split: if_splits option.splits)
  qed simp
  then show ?thesis unfolding asan_documented_def by (force simp: asan_counting_def)
qed

subsection \<open>Properties\<close>

text \<open>
  C38: Under the thread sanitizer, in every run of either coroutine class that has not met a fault, the calls into the runtime are legal: fibers are
  created fresh, the switches go to fibers that exist, and a fiber is destroyed once, when it is not the current one. The fibers that exist are the one
  of the thread and one for each coroutine that has not ended, all different; the current one is that of the running coroutine.\<close>
theorem thread_sanitizer_calls:
  assumes "tsan_documented api" and "reach (hooked_step (tsan_hooks api) k) (init_world, init_tsan) es s" and "cw_fault (fst s) = None"
  shows "\<exists>fib. reach tsan_spec ({0}, 0) es (insert 0 (fib ` open_coros (fst s)), case running_coro (fst s) of None \<Rightarrow> 0 | Some c \<Rightarrow> fib c) \<and>
    inj_on fib (open_coros (fst s)) \<and> 0 \<notin> fib ` open_coros (fst s)"
proof -
  obtain fib as ended where t: "tsan_inv k fib as es s" "world_inv k as ended (fst s)" using tsan_reach [OF assms(1,2)] assms(3) by blast
  have "fiber_on_top fib as = (case running_coro (fst s) of None \<Rightarrow> 0 | Some c \<Rightarrow> fib c)"
    using running_coro_of [OF world_invD(4) [OF t(2)]] by (simp add: fiber_on_top_def split: list.splits)
  then show ?thesis using tsan_invD(2-4) [OF t(1)] by auto
qed

theorem thread_sanitizer_calls_witness:
  "\<exists>es s. reach (hooked_step (tsan_hooks tsan_counting) TrackedCoroutine) (init_world, init_tsan) es s \<and>
     es = [TsanCreate 1, TsanCreate 2, TsanSwitch 1, TsanSwitch 2, TsanSwitch 1, TsanDestroy 2] \<and> (\<exists>a. reach tsan_spec ({0}, 0) es a)"
proof -
  have "run_ok (hooked_step (tsan_hooks tsan_counting) TrackedCoroutine) [NewCoro 7, NewCoro 8, ResumeCoro 7, ResumeCoro 8, EndCoro False]
    (init_world, init_tsan)
    (\<lambda>es s. es = [TsanCreate 1, TsanCreate 2, TsanSwitch 1, TsanSwitch 2, TsanSwitch 1, TsanDestroy 2] \<and> cw_fault (fst s) = None)" by code_simp
  then obtain es s where r: "reach (hooked_step (tsan_hooks tsan_counting) TrackedCoroutine) (init_world, init_tsan) es s"
    "es = [TsanCreate 1, TsanCreate 2, TsanSwitch 1, TsanSwitch 2, TsanSwitch 1, TsanDestroy 2]" "cw_fault (fst s) = None" by (elim run_okE) blast
  show ?thesis using thread_sanitizer_calls [OF tsan_counting_documented r(1,3)] r(1,2) by blast
qed

text \<open>
  C39: Under the address sanitizer, when the coroutines have stacks of their own, the calls are legal in every such run: each
  \<open>start\<close> is followed by one \<open>finish\<close>, the fake stack given back is the one that was stored when the stack was left (none for a stack that is entered
  for the first time), the stack in use according to the runtime is the one of the running coroutine, and no context is used
  before it knows where it was entered from.\<close>
theorem address_sanitizer_calls:
  assumes "asan_documented th api" and "stacks_apart th stk {c. cw_created (fst s) c}"
    and "reach (hooked_step (asan_hooks stk api) k) (init_world, init_asan) es s" and "cw_fault (fst s) = None"
  shows "as_fault (snd s) = None \<and>
    (\<exists>kept. reach asan_spec (th, None, \<lambda>_. None) es (case running_coro (fst s) of None \<Rightarrow> th | Some c \<Rightarrow> stk c, None, kept))"
proof -
  obtain kept as ended where t: "asan_inv th stk {c. cw_created (fst s) c} as es kept s" "world_inv k as ended (fst s)" using asan_reach [OF assms(1-3)] assms(4) by blast
  have "stack_on_top th stk as = (case running_coro (fst s) of None \<Rightarrow> th | Some c \<Rightarrow> stk c)"
    using running_coro_of [OF world_invD(4) [OF t(2)]] by (simp add: stack_on_top_def split: list.splits)
  then show ?thesis using asan_invD(2,3) [OF t(1)] by auto
qed

theorem address_sanitizer_calls_witness:
  "\<exists>es s. reach (hooked_step (asan_hooks (\<lambda>c. (of_nat c, 1)) (asan_counting (0, 0))) StackfullCoroutine) (init_world, init_asan) es s \<and>
     es = [AsanStart (Some 0) (7, 1), AsanFinish None, AsanStart (Some 2) (0, 0), AsanFinish (Some 0), AsanStart (Some 4) (7, 1), AsanFinish (Some 2)] \<and>
     as_fault (snd s) = None"
proof -
  let ?step = "hooked_step (asan_hooks (\<lambda>c. (of_nat c, 1)) (asan_counting (0, 0))) StackfullCoroutine"
  let ?es = "[AsanStart (Some 0) (7, 1), AsanFinish None, AsanStart (Some 2) (0, 0), AsanFinish (Some 0), AsanStart (Some 4) (7, 1), AsanFinish (Some 2)]"
  have "run_ok ?step [NewCoro 7, ResumeCoro 7, SuspendCoro, ResumeCoro 7] (init_world, init_asan) (\<lambda>es s. es = ?es \<and> cw_fault (fst s) = None)"
    by code_simp
  then obtain es s where r: "reach ?step (init_world, init_asan) es s" "es = ?es" "cw_fault (fst s) = None"
    "sched ?step [NewCoro 7, ResumeCoro 7, SuspendCoro, ResumeCoro 7] (init_world, init_asan) = Some (s, es)" by (elim run_okE) blast
  have "cw_created (fst s) = (\<lambda>_. False)(7 := True)"
    using r(4) by (auto simp: hooked_step_def new_coroutine_def Stackfull_Resume_def Stackfull_Suspend_def SwitchTo_created init_world_def Let_def
        split: option.splits if_splits prod.splits)
  then have "stacks_apart (0, 0) (\<lambda>c. (of_nat c, 1)) {c. cw_created (fst s) c}" by (auto simp: stacks_apart_def)
  from address_sanitizer_calls [OF asan_counting_documented this r(1,3)] show ?thesis using r(1,2) by blast
qed

end
