(* ===== verification/Distributed_Pool.thy ===== *)
theory Distributed_Pool
  imports Tasks
begin

text \<open>
  The distributed thread pool and its workers, \<^verbatim>\<open>src/executor/pool/distributed_pool.cpp\<close> and
  \<^verbatim>\<open>src/executor/pool/internal/worker.cpp\<close>.

  Workers \<open>0 \<dots> n - 1\<close> are threads of the same numbers; every other thread is a client. A thread is at a place in a call of
  \<open>Submit\<close> or \<open>Push\<close> (\<open>dp_call\<close>), a worker moreover at a place in \<open>Loop\<close> and \<open>Process\<close> (\<open>dp_loop\<close>), and one thread shuts the pool
  down and destroys it (\<open>dp_ctl\<close>). Each atomic access, each queue operation and each semaphore operation is a step; the two
  loads of \<open>CanCloseWorker\<close> are two steps. The queues are atomic first-in first-out queues, which is what
  \<open>Simple_MS_Queue\<close> shows of them. The coroutine of a worker is at one of its two ends: \<open>Process\<close> runs until it suspends
  or returns, after which \<open>Loop\<close> goes on; resuming the coroutine after \<open>Process\<close> has returned aborts (\<open>Coroutines\<close>).
  The semaphore counts as \<^verbatim>\<open>std::counting_semaphore\<close> of the GNU library does, without a test against its maximum.

  \<open>dp_life\<close> is the client's side of a task: it is submitted when it is fresh or when it has stopped (a suspended fiber), and
  may stop or complete while a worker runs it.

  The lemmas show that the pool never loses or duplicates a task, that a task is run by one worker only, during its whole
  life, that \<^verbatim>\<open>count_tasks\<close> counts the unfinished tasks, and that a count of zero means that the pool is empty; and that
  a submission during the shutdown can abort the process.
\<close>

datatype task_life = Fresh | Inside | Stopped | Gone

datatype submit_pc =
    NoCall
  | SubAdd addr             \<comment> \<open>\<open>Submit\<close>, the task was \<open>PLANNED\<close>: next is \<open>AddTask\<close>\<close>
  | SubProgress addr
  | SubRoute addr           \<comment> \<open>next is \<open>GetWorker\<close>\<close>
  | SubGlobal addr
  | PushLocal nat addr      \<comment> \<open>\<open>Worker::Push\<close>: next is \<open>local_tasks.Push\<close>\<close>
  | PushStore nat
  | PushWake nat
  | PushRelease nat
  | SubFault fault

datatype loop_pc =
    WNew
  | WLocal                  \<comment> \<open>next is \<open>local_tasks.TryPop\<close>\<close>
  | WRun addr               \<comment> \<open>inside \<open>task->Run()\<close>\<close>
  | WReturn                 \<comment> \<open>inside \<open>task->Run()\<close>, after the task has stopped\<close>
  | WRemove
  | WGlobal
  | WClose1
  | WClose2
  | WDec
  | WCmp
  | WShut
  | WAddSuspended
  | WNotify
  | LClose1 bool            \<comment> \<open>\<open>Loop\<close> after \<open>Resume\<close>; whether \<open>Process\<close> has returned\<close>
  | LClose2 bool
  | LShut bool
  | LSleep bool
  | LResume bool
  | WExit
  | WFault fault

datatype ctl_pc =
    CtlIdle
  | CtlWake nat
  | CtlJoin nat
  | KillStore nat
  | KillRelease nat
  | KillJoin nat
  | KillAssert nat
  | CtlDone
  | CtlFault fault

record dpool =
  dp_sd :: shutdowner
  dp_workers :: nat
  dp_global :: "addr list"
  dp_local :: "nat \<Rightarrow> addr list"
  dp_empty :: "nat \<Rightarrow> size_t"          \<comment> \<open>\<open>counter_empty_tasks\<close>\<close>
  dp_smph :: "nat \<Rightarrow> nat"
  dp_wshut :: "nat \<Rightarrow> bool"
  dp_task :: "addr \<Rightarrow> task_base"
  dp_life :: "addr \<Rightarrow> task_life"
  dp_call :: "tid \<Rightarrow> submit_pc"
  dp_loop :: "nat \<Rightarrow> loop_pc"
  dp_ctl :: ctl_pc

datatype dp_event =
    Submitted addr
  | Started nat addr
  | HasStopped nat addr
  | HasCompleted nat addr

datatype dp_choice =
    StartWorker nat
  | CallSubmit tid addr
  | CallGo tid
  | TaskStops nat
  | TaskCompletes nat
  | LoopGo nat bool         \<comment> \<open>whether a sleep ends with the semaphore\<close>
  | CtlGo

definition MaxEmptyTasksInLoop :: size_t where
  "MaxEmptyTasksInLoop = 1"

definition init_dpool :: "nat \<Rightarrow> dpool" where
  "init_dpool n =
     \<lparr>dp_sd = init_shutdowner, dp_workers = n, dp_global = [], dp_local = (\<lambda>_. []), dp_empty = (\<lambda>_. 0), dp_smph = (\<lambda>_. 0),
      dp_wshut = (\<lambda>_. False), dp_task = (\<lambda>_. new_task), dp_life = (\<lambda>_. Fresh), dp_call = (\<lambda>_. NoCall), dp_loop = (\<lambda>_. WNew),
      dp_ctl = CtlIdle\<rparr>"

definition cgo :: "tid \<Rightarrow> submit_pc \<Rightarrow> dpool \<Rightarrow> dpool" where
  "cgo t p s = s\<lparr>dp_call := (dp_call s)(t := p)\<rparr>"

definition lgo :: "nat \<Rightarrow> loop_pc \<Rightarrow> dpool \<Rightarrow> dpool" where
  "lgo w p s = s\<lparr>dp_loop := (dp_loop s)(w := p)\<rparr>"

subsection \<open>Submit and Push\<close>

definition Submit_state :: "tid \<Rightarrow> addr \<Rightarrow> dpool \<Rightarrow> dpool" where
  "Submit_state t a s =
     cgo t (if GetState (dp_task s a) = PLANNED then SubAdd a else SubRoute a) (s\<lparr>dp_life := (dp_life s)(a := Inside)\<rparr>)"

definition Submit_add :: "tid \<Rightarrow> addr \<Rightarrow> dpool \<Rightarrow> dpool" where
  "Submit_add t a s = cgo t (SubProgress a) (s\<lparr>dp_sd := AddTask (dp_sd s)\<rparr>)"

definition Submit_progress :: "tid \<Rightarrow> addr \<Rightarrow> dpool \<Rightarrow> dpool" where
  "Submit_progress t a s =
     (case ProgressState (dp_task s a) of
        Inl e \<Rightarrow> cgo t (SubFault e) s
      | Inr tb \<Rightarrow> cgo t (SubRoute a) (s\<lparr>dp_task := (dp_task s)(a := tb)\<rparr>))"

definition Submit_route :: "tid \<Rightarrow> addr \<Rightarrow> dpool \<Rightarrow> dpool" where
  "Submit_route t a s =
     cgo t (case GetWorker (dp_task s a) of Some w \<Rightarrow> PushLocal w a | None \<Rightarrow> SubGlobal a) s"

definition Submit_global :: "tid \<Rightarrow> addr \<Rightarrow> dpool \<Rightarrow> dpool" where
  "Submit_global t a s = cgo t NoCall (s\<lparr>dp_global := dp_global s @ [a]\<rparr>)"

definition Push_local :: "tid \<Rightarrow> nat \<Rightarrow> addr \<Rightarrow> dpool \<Rightarrow> dpool" where
  "Push_local t w a s = cgo t (PushStore w) (s\<lparr>dp_local := (dp_local s)(w := dp_local s w @ [a])\<rparr>)"

definition Push_store :: "tid \<Rightarrow> nat \<Rightarrow> dpool \<Rightarrow> dpool" where
  "Push_store t w s = cgo t (PushWake w) (s\<lparr>dp_empty := (dp_empty s)(w := 0)\<rparr>)"

definition Push_wake :: "tid \<Rightarrow> nat \<Rightarrow> dpool \<Rightarrow> dpool" where
  "Push_wake t w s = cgo t (PushRelease w) (s\<lparr>dp_sd := WakeUpSuspendedWorker (dp_sd s)\<rparr>)"

definition smph_release :: "nat \<Rightarrow> dpool \<Rightarrow> dpool" where
  "smph_release w s = s\<lparr>dp_smph := (dp_smph s)(w := dp_smph s w + 1)\<rparr>"

definition call_go :: "tid \<Rightarrow> dpool \<Rightarrow> dpool option" where
  "call_go t s =
     (case dp_call s t of
        SubAdd a \<Rightarrow> Some (Submit_add t a s)
      | SubProgress a \<Rightarrow> Some (Submit_progress t a s)
      | SubRoute a \<Rightarrow> Some (Submit_route t a s)
      | SubGlobal a \<Rightarrow> Some (Submit_global t a s)
      | PushLocal w a \<Rightarrow> Some (Push_local t w a s)
      | PushStore w \<Rightarrow> Some (Push_store t w s)
      | PushWake w \<Rightarrow> Some (Push_wake t w s)
      | PushRelease w \<Rightarrow> Some (cgo t NoCall (smph_release w s))
      | _ \<Rightarrow> None)"

subsection \<open>Process and Loop\<close>

definition Process_local :: "nat \<Rightarrow> dpool \<Rightarrow> dpool \<times> dp_event list" where
  "Process_local w s =
     (case dp_local s w of
        [] \<Rightarrow> (lgo w WGlobal s, [])
      | a # as \<Rightarrow>
          (lgo w (WRun a) (s\<lparr>dp_local := (dp_local s)(w := as), dp_task := (dp_task s)(a := SetWorker (Some w) (dp_task s a))\<rparr>),
           [Started w a]))"

definition Process_global :: "nat \<Rightarrow> dpool \<Rightarrow> dpool" where
  "Process_global w s =
     (case dp_global s of
        [] \<Rightarrow> lgo w WClose1 s
      | a # as \<Rightarrow> lgo w WNotify (cgo w (PushLocal w a) (s\<lparr>dp_global := as\<rparr>)))"

definition Process_decrease :: "nat \<Rightarrow> dpool \<Rightarrow> dpool" where
  "Process_decrease w s = lgo w WCmp (s\<lparr>dp_empty := (dp_empty s)(w := dp_empty s w - 1)\<rparr>)"

definition Loop_sleep :: "nat \<Rightarrow> bool \<Rightarrow> bool \<Rightarrow> dpool \<Rightarrow> dpool" where
  "Loop_sleep w returned acquired s =
     lgo w (LResume returned)
       (if acquired \<and> dp_smph s w > 0 then s\<lparr>dp_smph := (dp_smph s)(w := dp_smph s w - 1)\<rparr> else s)"

definition loop_go :: "nat \<Rightarrow> bool \<Rightarrow> dpool \<Rightarrow> (dpool \<times> dp_event list) option" where
  "loop_go w acquired s =
     (case dp_loop s w of
        WLocal \<Rightarrow> Some (Process_local w s)
      | WReturn \<Rightarrow> Some (lgo w WNotify s, [])
      | WRemove \<Rightarrow> Some (lgo w WNotify (s\<lparr>dp_sd := RemoveTask (dp_sd s)\<rparr>), [])
      | WGlobal \<Rightarrow> Some (Process_global w s, [])
      | WClose1 \<Rightarrow> Some (lgo w (if IsShutdown (dp_sd s) then WClose2 else WDec) s, [])
      | WClose2 \<Rightarrow> Some (lgo w (if GetTasks (dp_sd s) = 0 then LClose1 True else WDec) s, [])
      | WDec \<Rightarrow> Some (Process_decrease w s, [])
      | WCmp \<Rightarrow> Some (lgo w (if dp_empty s w \<ge> MaxEmptyTasksInLoop then WShut else WNotify) s, [])
      | WShut \<Rightarrow> Some (lgo w (if dp_wshut s w then WNotify else WAddSuspended) s, [])
      | WAddSuspended \<Rightarrow> Some (lgo w (LClose1 False) (s\<lparr>dp_sd := AddSuspendedWorker (dp_sd s)\<rparr>), [])
      | WNotify \<Rightarrow> Some (lgo w WLocal s, [])
      | LClose1 r \<Rightarrow> Some (lgo w (if IsShutdown (dp_sd s) then LClose2 r else LShut r) s, [])
      | LClose2 r \<Rightarrow> Some (lgo w (if GetTasks (dp_sd s) = 0 then WExit else LShut r) s, [])
      | LShut r \<Rightarrow> Some (lgo w (if dp_wshut s w then LResume r else LSleep r) s, [])
      | LSleep r \<Rightarrow> Some (Loop_sleep w r acquired s, [])
      | LResume r \<Rightarrow> Some (lgo w (if r then WFault Abort else WNotify) s, [])
      | _ \<Rightarrow> None)"

subsection \<open>Shutdown and destruction\<close>

definition joined :: "nat \<Rightarrow> dpool \<Rightarrow> bool" where
  "joined w s \<longleftrightarrow> dp_loop s w = WNew \<or> dp_loop s w = WExit"

definition ctl_go :: "dpool \<Rightarrow> dpool option" where
  "ctl_go s =
     (case dp_ctl s of
        CtlIdle \<Rightarrow> Some (s\<lparr>dp_sd := StartShutdown (dp_sd s), dp_ctl := CtlWake 0\<rparr>)
      | CtlWake i \<Rightarrow>
          Some (if i < dp_workers s then (smph_release i s)\<lparr>dp_ctl := CtlJoin i\<rparr> else s\<lparr>dp_ctl := KillStore 0\<rparr>)
      | CtlJoin i \<Rightarrow> if joined i s then Some (s\<lparr>dp_ctl := CtlWake (i + 1)\<rparr>) else None
      | KillStore i \<Rightarrow>
          Some (if i < dp_workers s then s\<lparr>dp_wshut := (dp_wshut s)(i := True), dp_ctl := KillRelease i\<rparr>
                else s\<lparr>dp_ctl := CtlDone\<rparr>)
      | KillRelease i \<Rightarrow> Some ((smph_release i s)\<lparr>dp_ctl := KillJoin i\<rparr>)
      | KillJoin i \<Rightarrow> if joined i s then Some (s\<lparr>dp_ctl := KillAssert i\<rparr>) else None
      | KillAssert i \<Rightarrow>
          Some (s\<lparr>dp_ctl := (if GetTasks (dp_sd s) = 0 then KillStore (i + 1) else CtlFault AssertFailed)\<rparr>)
      | _ \<Rightarrow> None)"

subsection \<open>The pool as a machine\<close>

definition may_call :: "tid \<Rightarrow> dpool \<Rightarrow> bool" where
  "may_call t s \<longleftrightarrow> dp_call s t = NoCall \<and>
     (t < dp_workers s \<longrightarrow> (case dp_loop s t of WRun _ \<Rightarrow> True | WReturn \<Rightarrow> True | _ \<Rightarrow> False))"

fun dp_step :: "(dp_choice, dpool, dp_event) stepper" where
  "dp_step (StartWorker w) s =
     (if w < dp_workers s \<and> dp_loop s w = WNew \<and> dp_ctl s = CtlIdle then Some (lgo w WLocal s, []) else None)"
| "dp_step (CallSubmit t a) s =
     (if may_call t s \<and> dp_life s a \<in> {Fresh, Stopped} \<and> int a < 2 ^ 62 then Some (Submit_state t a s, [Submitted a]) else None)"
| "dp_step (CallGo t) s = map_option (\<lambda>s'. (s', [])) (call_go t s)"
| "dp_step (TaskStops w) s =
     (case dp_loop s w of
        WRun a \<Rightarrow>
          (if dp_call s w = NoCall then Some (lgo w WReturn (s\<lparr>dp_life := (dp_life s)(a := Stopped)\<rparr>), [HasStopped w a]) else None)
      | _ \<Rightarrow> None)"
| "dp_step (TaskCompletes w) s =
     (case dp_loop s w of
        WRun a \<Rightarrow>
          (if dp_call s w = NoCall then Some (lgo w WRemove (s\<lparr>dp_life := (dp_life s)(a := Gone)\<rparr>), [HasCompleted w a]) else None)
      | _ \<Rightarrow> None)"
| "dp_step (LoopGo w acquired) s = (if dp_call s w = NoCall then loop_go w acquired s else None)"
| "dp_step CtlGo s = map_option (\<lambda>s'. (s', [])) (ctl_go s)"

subsection \<open>The life of a task\<close>

text \<open>The specification: where each task is, with the worker it is bound to, and which task each worker runs.\<close>

datatype life_phase = Outside | Waiting ptr | Active nat | Parked ptr | Ended

fun life_spec :: "(dp_event, (addr \<Rightarrow> life_phase) \<times> (nat \<Rightarrow> ptr), dp_event) stepper" where
  "life_spec (Submitted a) (ph, run) =
     (case ph a of
        Outside \<Rightarrow> Some ((ph(a := Waiting None), run), [Submitted a])
      | Parked b \<Rightarrow> Some ((ph(a := Waiting b), run), [Submitted a])
      | _ \<Rightarrow> None)"
| "life_spec (Started w a) (ph, run) =
     (if (ph a = Waiting None \<or> ph a = Waiting (Some w)) \<and> run w = None
      then Some ((ph(a := Active w), run(w := Some a)), [Started w a]) else None)"
| "life_spec (HasStopped w a) (ph, run) =
     (if ph a = Active w \<and> run w = Some a then Some ((ph(a := Parked (Some w)), run(w := None)), [HasStopped w a]) else None)"
| "life_spec (HasCompleted w a) (ph, run) =
     (if ph a = Active w \<and> run w = Some a then Some ((ph(a := Ended), run(w := None)), [HasCompleted w a]) else None)"

definition started_on :: "addr \<Rightarrow> dp_event list \<Rightarrow> nat list" where
  "started_on a es = List.map_filter (\<lambda>e. case e of Started w b \<Rightarrow> if b = a then Some w else None | _ \<Rightarrow> None) es"

lemma started_on_simps [simp]:
  "started_on a [] = []" "started_on a (es @ fs) = started_on a es @ started_on a fs"
  "started_on a (Started w b # es) = (if b = a then w # started_on a es else started_on a es)"
  "started_on a (Submitted b # es) = started_on a es" "started_on a (HasStopped w b # es) = started_on a es"
  "started_on a (HasCompleted w b # es) = started_on a es"
  by (simp_all add: started_on_def List.map_filter_def)

definition bound_to :: "life_phase \<Rightarrow> nat list \<Rightarrow> bool" where
  "bound_to p ws =
     (case p of Outside \<Rightarrow> ws = [] | Waiting None \<Rightarrow> ws = [] | Waiting (Some w) \<Rightarrow> set ws \<subseteq> {w} | Active w \<Rightarrow> set ws \<subseteq> {w}
      | Parked None \<Rightarrow> ws = [] | Parked (Some w) \<Rightarrow> set ws \<subseteq> {w} | Ended \<Rightarrow> \<exists>w. set ws \<subseteq> {w})"

lemma life_spec_bound:
  "reach life_spec (\<lambda>_. Outside, \<lambda>_. None) es s \<Longrightarrow> \<forall>a. bound_to (fst s a) (started_on a es)"
proof (induction rule: reach.induct)
  case reach_init
  show ?case by (simp add: bound_to_def)
next
  case (reach_step es s c s' e)
  obtain ph run where s: "s = (ph, run)" by (cases s)
  have IH: "bound_to (ph a) (started_on a es)" for a using reach_step.IH s by simp
  show ?case
  proof
    fix a
    show "bound_to (fst s' a) (started_on a (es @ e))"
      using reach_step.hyps(2) IH [of a] unfolding s
      by (cases c) (auto simp: bound_to_def split: if_splits life_phase.splits option.splits)
  qed
qed

subsection \<open>The invariant\<close>

text \<open>Where a task is: with its client, in the hands of a call, in a queue, or run by a worker.\<close>

datatype task_place = AtClient | InCall tid | InGlobal | InLocal nat | RunBy nat

fun held :: "submit_pc \<Rightarrow> ptr" where
  "held (SubAdd a) = Some a"
| "held (SubProgress a) = Some a"
| "held (SubRoute a) = Some a"
| "held (SubGlobal a) = Some a"
| "held (PushLocal w a) = Some a"
| "held _ = None"

text \<open>What a call in progress knows of its task.\<close>

fun call_knows :: "submit_pc \<Rightarrow> (addr \<Rightarrow> task_base) \<Rightarrow> bool" where
  "call_knows (SubAdd a) tb \<longleftrightarrow> tb a = new_task"
| "call_knows (SubProgress a) tb \<longleftrightarrow> tb a = new_task"
| "call_knows (SubRoute a) tb \<longleftrightarrow> tb_state (tb a) = RUNNING"
| "call_knows (SubGlobal a) tb \<longleftrightarrow> tb_state (tb a) = RUNNING \<and> tb_worker (tb a) = None"
| "call_knows (PushLocal w a) tb \<longleftrightarrow> tb_state (tb a) = RUNNING \<and> (tb_worker (tb a) = None \<or> tb_worker (tb a) = Some w)"
| "call_knows (SubFault e) tb \<longleftrightarrow> False"
| "call_knows _ tb \<longleftrightarrow> True"

definition run_of :: "dpool \<Rightarrow> nat \<Rightarrow> ptr" where
  "run_of s w = (case dp_loop s w of WRun a \<Rightarrow> Some a | _ \<Rightarrow> None)"

text \<open>What is known of a task at a place.\<close>

fun place_knows :: "task_place \<Rightarrow> task_life \<Rightarrow> task_base \<Rightarrow> bool" where
  "place_knows AtClient l tb \<longleftrightarrow> l \<noteq> Inside \<and> (l = Fresh \<longrightarrow> tb = new_task) \<and> (l = Stopped \<longrightarrow> tb_state tb = RUNNING \<and> tb_worker tb \<noteq> None)"
| "place_knows (InCall t) l tb \<longleftrightarrow> l = Inside"
| "place_knows InGlobal l tb \<longleftrightarrow> l = Inside \<and> tb_state tb = RUNNING \<and> tb_worker tb = None"
| "place_knows (InLocal w) l tb \<longleftrightarrow> l = Inside \<and> tb_state tb = RUNNING \<and> (tb_worker tb = None \<or> tb_worker tb = Some w)"
| "place_knows (RunBy w) l tb \<longleftrightarrow> l = Inside \<and> tb_state tb = RUNNING \<and> tb_worker tb = Some w"

definition dp_inv :: "(addr \<Rightarrow> task_place) \<Rightarrow> dpool \<Rightarrow> bool" where
  "dp_inv at s \<longleftrightarrow>
     (\<forall>t a. held (dp_call s t) = Some a \<longleftrightarrow> at a = InCall t) \<and>
     (\<forall>a. a \<in> set (dp_global s) \<longleftrightarrow> at a = InGlobal) \<and> distinct (dp_global s) \<and>
     (\<forall>w a. a \<in> set (dp_local s w) \<longleftrightarrow> at a = InLocal w) \<and> (\<forall>w. distinct (dp_local s w)) \<and>
     (\<forall>w a. run_of s w = Some a \<longleftrightarrow> at a = RunBy w) \<and>
     (\<forall>a. place_knows (at a) (dp_life s a) (dp_task s a)) \<and> (\<forall>t. call_knows (dp_call s t) (dp_task s))"

definition phase_of :: "task_life \<Rightarrow> task_place \<Rightarrow> task_base \<Rightarrow> life_phase" where
  "phase_of l p tb =
     (case l of Fresh \<Rightarrow> Outside | Stopped \<Rightarrow> Parked (tb_worker tb) | Gone \<Rightarrow> Ended
      | Inside \<Rightarrow> (case p of RunBy w \<Rightarrow> Active w | _ \<Rightarrow> Waiting (tb_worker tb)))"

definition dp_abs :: "(addr \<Rightarrow> task_place) \<Rightarrow> dpool \<Rightarrow> (addr \<Rightarrow> life_phase) \<times> (nat \<Rightarrow> ptr)" where
  "dp_abs at s = (\<lambda>a. phase_of (dp_life s a) (at a) (dp_task s a), run_of s)"

definition dp_sim :: "(addr \<Rightarrow> life_phase) \<times> (nat \<Rightarrow> ptr) \<Rightarrow> dpool \<Rightarrow> bool" where
  "dp_sim x s \<longleftrightarrow> (\<exists>at. dp_inv at s \<and> x = dp_abs at s)"

definition dp_follows :: "(addr \<Rightarrow> life_phase) \<times> (nat \<Rightarrow> ptr) \<Rightarrow> dp_event list \<Rightarrow> dpool \<Rightarrow> bool" where
  "dp_follows x e s \<longleftrightarrow> (\<exists>x'. reach life_spec x e x' \<and> dp_sim x' s)"

lemma dp_invD:
  assumes "dp_inv at s"
  shows "held (dp_call s t) = Some a \<longleftrightarrow> at a = InCall t" "a \<in> set (dp_global s) \<longleftrightarrow> at a = InGlobal" "distinct (dp_global s)"
    "a \<in> set (dp_local s w) \<longleftrightarrow> at a = InLocal w" "distinct (dp_local s w)" "run_of s w = Some a \<longleftrightarrow> at a = RunBy w"
    "place_knows (at a) (dp_life s a) (dp_task s a)" "call_knows (dp_call s t) (dp_task s)"
  using assms unfolding dp_inv_def by blast+

lemma dp_stutter:
  assumes "dp_inv at' s'" and "dp_abs at' s' = dp_abs at s"
  shows "dp_follows (dp_abs at s) [] s'"
  unfolding dp_follows_def dp_sim_def using assms reach.reach_init by metis

lemma dp_event_step:
  assumes "dp_inv at' s'" and "life_spec e (dp_abs at s) = Some (dp_abs at' s', [e])"
  shows "dp_follows (dp_abs at s) [e] s'"
  unfolding dp_follows_def dp_sim_def using assms reach_single by metis

text \<open>A step that moves no task.\<close>

lemma dp_quiet:
  assumes inv: "dp_inv at s" and same: "dp_global s' = dp_global s" "dp_local s' = dp_local s" "dp_task s' = dp_task s"
      "dp_life s' = dp_life s" "run_of s' = run_of s"
    and call: "\<And>t. dp_call s' t = dp_call s t \<or>
        held (dp_call s' t) = held (dp_call s t) \<and> call_knows (dp_call s' t) (dp_task s)"
  shows "dp_follows (dp_abs at s) [] s'"
proof (rule dp_stutter)
  have h: "held (dp_call s' t) = held (dp_call s t)" "call_knows (dp_call s' t) (dp_task s)" for t
    using call [of t] dp_invD(8) [OF inv, of t] by auto
  show "dp_inv at s'" using inv h unfolding dp_inv_def same by simp
  show "dp_abs at s' = dp_abs at s" by (simp add: dp_abs_def same)
qed

lemma run_of_lgo [simp]: "run_of (lgo w p s) v = (if v = w then (case p of WRun a \<Rightarrow> Some a | _ \<Rightarrow> None) else run_of s v)"
  by (simp add: run_of_def lgo_def)

lemma run_of_cong [simp]: "run_of (cgo t p s) = run_of s" "run_of (s\<lparr>dp_sd := x\<rparr>) = run_of s" "run_of (s\<lparr>dp_empty := y\<rparr>) = run_of s"
  "run_of (s\<lparr>dp_smph := z\<rparr>) = run_of s" "run_of (s\<lparr>dp_life := l\<rparr>) = run_of s" "run_of (s\<lparr>dp_task := tb\<rparr>) = run_of s"
  "run_of (s\<lparr>dp_global := g\<rparr>) = run_of s" "run_of (s\<lparr>dp_local := lo\<rparr>) = run_of s" "run_of (s\<lparr>dp_ctl := cc\<rparr>) = run_of s"
  "run_of (s\<lparr>dp_wshut := ws\<rparr>) = run_of s"
  by (simp_all add: run_of_def cgo_def fun_eq_iff)

lemma lgo_sel [simp]: "dp_global (lgo w p s) = dp_global s" "dp_local (lgo w p s) = dp_local s" "dp_task (lgo w p s) = dp_task s"
  "dp_life (lgo w p s) = dp_life s" "dp_call (lgo w p s) = dp_call s" "dp_sd (lgo w p s) = dp_sd s"
  "dp_loop (lgo w p s) = (dp_loop s)(w := p)" "dp_workers (lgo w p s) = dp_workers s"
  by (simp_all add: lgo_def)

lemma cgo_sel [simp]: "dp_global (cgo t p s) = dp_global s" "dp_local (cgo t p s) = dp_local s" "dp_task (cgo t p s) = dp_task s"
  "dp_life (cgo t p s) = dp_life s" "dp_call (cgo t p s) = (dp_call s)(t := p)" "dp_loop (cgo t p s) = dp_loop s" "dp_sd (cgo t p s) = dp_sd s"
  "dp_workers (cgo t p s) = dp_workers s"
  by (simp_all add: cgo_def)

lemma no_call: "dp_inv at s \<Longrightarrow> held (dp_call s t) = None \<Longrightarrow> at b \<noteq> InCall t"
  by (metis dp_invD(1) option.distinct(1))

lemma no_run: "dp_inv at s \<Longrightarrow> run_of s w = None \<Longrightarrow> at b \<noteq> RunBy w"
  by (metis dp_invD(6) option.distinct(1))

lemma held_call: "dp_inv at s \<Longrightarrow> held (dp_call s t) = Some a \<Longrightarrow> b \<noteq> a \<Longrightarrow> at b \<noteq> InCall t"
  by (metis dp_invD(1) option.inject)

lemma run_task: "dp_inv at s \<Longrightarrow> run_of s w = Some a \<Longrightarrow> b \<noteq> a \<Longrightarrow> at b \<noteq> RunBy w"
  by (metis dp_invD(6) option.inject)

text \<open>Moving one task from place to place.\<close>

lemma dp_inv_move:
  assumes inv: "dp_inv at s"
    and call: "\<And>t b. held (dp_call s' t) = Some b \<longleftrightarrow> (if b = a then p = InCall t else at b = InCall t)"
    and glob: "set (dp_global s') = {b. if b = a then p = InGlobal else at b = InGlobal}" "distinct (dp_global s')"
    and loc: "\<And>w. set (dp_local s' w) = {b. if b = a then p = InLocal w else at b = InLocal w}" "\<And>w. distinct (dp_local s' w)"
    and run: "\<And>w b. run_of s' w = Some b \<longleftrightarrow> (if b = a then p = RunBy w else at b = RunBy w)"
    and other: "\<And>b. b \<noteq> a \<Longrightarrow> dp_life s' b = dp_life s b" "\<And>b. b \<noteq> a \<Longrightarrow> dp_task s' b = dp_task s b"
    and here: "place_knows p (dp_life s' a) (dp_task s' a)"
    and calls: "\<And>t. call_knows (dp_call s' t) (dp_task s')"
  shows "dp_inv (at(a := p)) s'"
  using call glob loc run here calls other dp_invD(7) [OF inv] unfolding dp_inv_def by auto

lemma call_knows_upd:
  "held c \<noteq> Some a \<Longrightarrow> call_knows c (tb(a := x)) \<longleftrightarrow> call_knows c tb"
  by (cases c) auto

lemma submit_follows:
  assumes inv: "dp_inv at s" and call: "dp_call s t = NoCall" and life: "dp_life s a \<in> {Fresh, Stopped}"
  shows "dp_follows (dp_abs at s) [Submitted a] (Submit_state t a s)"
proof (rule dp_event_step)
  note D = dp_invD [OF inv]
  have at: "at a = AtClient" using D(7) [of a] life by (cases "at a") auto
  have kn: "dp_life s a = Fresh \<Longrightarrow> dp_task s a = new_task" "dp_life s a = Stopped \<Longrightarrow> tb_state (dp_task s a) = RUNNING"
    using D(7) [of a] at by auto
  let ?c = "if GetState (dp_task s a) = PLANNED then SubAdd a else SubRoute a"
  have c: "held ?c = Some a" "call_knows ?c (dp_task s)" using kn life by (auto simp: GetState_def new_task_def)
  show "dp_inv (at(a := InCall t)) (Submit_state t a s)"
    by (rule dp_inv_move [OF inv]) (use D at c no_call [OF inv, of t] call in \<open>auto simp: Submit_state_def\<close>)
  show "life_spec (Submitted a) (dp_abs at s) = Some (dp_abs (at(a := InCall t)) (Submit_state t a s), [Submitted a])"
    using life kn at by (auto simp: dp_abs_def Submit_state_def phase_of_def fun_eq_iff new_task_def)
qed

lemma progress_follows:
  assumes inv: "dp_inv at s" and call: "dp_call s t = SubProgress a"
  shows "dp_follows (dp_abs at s) [] (Submit_progress t a s)"
proof (rule dp_stutter)
  note D = dp_invD [OF inv]
  have at: "at a = InCall t" using D(1) [of t a] call by simp
  have tb: "dp_task s a = new_task" using D(8) [of t] call by simp
  let ?tb = "\<lparr>tb_state = RUNNING, tb_worker = None\<rparr>"
  have s': "Submit_progress t a s = cgo t (SubRoute a) (s\<lparr>dp_task := (dp_task s)(a := ?tb)\<rparr>)"
    using tb by (simp add: Submit_progress_def ProgressState_def new_task_def)
  have o: "held (dp_call s u) \<noteq> Some a" if "u \<noteq> t" for u using D(1) at that by simp
  show "dp_inv (at(a := InCall t)) (Submit_progress t a s)"
    unfolding s' by (rule dp_inv_move [OF inv])
      (use D(2-6) D(1) D(8) D(7) [of a] at held_call [OF inv, of t a] call o in \<open>auto simp: call_knows_upd\<close>)
  show "dp_abs (at(a := InCall t)) (Submit_progress t a s) = dp_abs at s"
    unfolding s' using at tb D(7) [of a] by (simp add: dp_abs_def fun_eq_iff phase_of_def new_task_def)
qed

lemma enqueue_follows:
  assumes inv: "dp_inv at s"
  shows "dp_call s t = SubGlobal a \<Longrightarrow> dp_follows (dp_abs at s) [] (Submit_global t a s)"
    "dp_call s t = PushLocal w a \<Longrightarrow> dp_follows (dp_abs at s) [] (Push_local t w a s)"
proof -
  note D = dp_invD [OF inv]
  assume call: "dp_call s t = SubGlobal a"
  have at: "at a = InCall t" using D(1) [of t a] call by simp
  have tb: "tb_state (dp_task s a) = RUNNING" "tb_worker (dp_task s a) = None" using D(8) [of t] call by simp_all
  show "dp_follows (dp_abs at s) [] (Submit_global t a s)"
  proof (rule dp_stutter)
    show "dp_inv (at(a := InGlobal)) (Submit_global t a s)"
      by (rule dp_inv_move [OF inv])
        (use D(2-6) D(1) D(8) D(7) [of a] at held_call [OF inv, of t a] call tb in \<open>auto simp: Submit_global_def\<close>)
    show "dp_abs (at(a := InGlobal)) (Submit_global t a s) = dp_abs at s"
      using at D(7) [of a] by (simp add: dp_abs_def fun_eq_iff phase_of_def Submit_global_def)
  qed
next
  note D = dp_invD [OF inv]
  assume call: "dp_call s t = PushLocal w a"
  have at: "at a = InCall t" using D(1) [of t a] call by simp
  have tb: "tb_state (dp_task s a) = RUNNING" "tb_worker (dp_task s a) = None \<or> tb_worker (dp_task s a) = Some w"
    using D(8) [of t] call by simp_all
  show "dp_follows (dp_abs at s) [] (Push_local t w a s)"
  proof (rule dp_stutter)
    show "dp_inv (at(a := InLocal w)) (Push_local t w a s)"
      by (rule dp_inv_move [OF inv])
        (use D(2-6) D(1) D(8) D(7) [of a] at held_call [OF inv, of t a] call tb in \<open>auto simp: Push_local_def\<close>)
    show "dp_abs (at(a := InLocal w)) (Push_local t w a s) = dp_abs at s"
      using at D(7) [of a] by (simp add: dp_abs_def fun_eq_iff phase_of_def Push_local_def)
  qed
qed

lemma start_follows:
  assumes inv: "dp_inv at s" and loc: "dp_local s w = a # as" and run: "run_of s w = None"
  shows "dp_follows (dp_abs at s) [Started w a]
    (lgo w (WRun a) (s\<lparr>dp_local := (dp_local s)(w := as), dp_task := (dp_task s)(a := SetWorker (Some w) (dp_task s a))\<rparr>))"
    (is "dp_follows _ _ ?s")
proof (rule dp_event_step)
  note D = dp_invD [OF inv]
  have at: "at a = InLocal w" using D(4) [of a w] loc by simp
  have tb: "dp_life s a = Inside" "tb_state (dp_task s a) = RUNNING" "tb_worker (dp_task s a) = None \<or> tb_worker (dp_task s a) = Some w"
    using D(7) [of a] at by simp_all
  have sw: "tb_worker (SetWorker (Some w) (dp_task s a)) = Some w" "tb_state (SetWorker (Some w) (dp_task s a)) = RUNNING"
    using tb by (auto simp: SetWorker_def)
  have as: "set as = {b. b \<noteq> a \<and> at b = InLocal w}" "distinct as" using D(4) [of _ w] D(5) [of w] loc by auto
  have h: "held (dp_call s u) \<noteq> Some a" for u using D(1) at by simp
  show "dp_inv (at(a := RunBy w)) ?s"
    by (rule dp_inv_move [OF inv])
      (use D(2-6) D(1) D(8) at no_run [OF inv run] run tb sw as h in \<open>auto simp: call_knows_upd\<close>)
  show "life_spec (Started w a) (dp_abs at s) = Some (dp_abs (at(a := RunBy w)) ?s, [Started w a])"
    using tb at run sw by (auto simp: dp_abs_def phase_of_def fun_eq_iff)
qed

lemma fetch_follows:
  assumes inv: "dp_inv at s" and glob: "dp_global s = a # as" and call: "dp_call s w = NoCall" and run: "run_of s w = None"
  shows "dp_follows (dp_abs at s) [] (lgo w WNotify (cgo w (PushLocal w a) (s\<lparr>dp_global := as\<rparr>)))" (is "dp_follows _ _ ?s")
proof (rule dp_stutter)
  note D = dp_invD [OF inv]
  have at: "at a = InGlobal" using D(2) [of a] glob by simp
  have tb: "dp_life s a = Inside" "tb_state (dp_task s a) = RUNNING" "tb_worker (dp_task s a) = None" using D(7) [of a] at by simp_all
  have as: "set as = {b. b \<noteq> a \<and> at b = InGlobal}" "distinct as" using D(2) D(3) glob by auto
  show "dp_inv (at(a := InCall w)) ?s"
    by (rule dp_inv_move [OF inv])
      (use D(2-6) D(1) D(8) at no_call [OF inv, of w] no_run [OF inv run] call run tb as in \<open>auto\<close>)
  show "dp_abs (at(a := InCall w)) ?s = dp_abs at s"
    using at tb run by (auto simp add: dp_abs_def fun_eq_iff phase_of_def)
qed

lemma task_leaves_follows:
  assumes inv: "dp_inv at s" and run: "run_of s w = Some a" and p: "\<forall>b. p \<noteq> WRun b"
  shows "dp_follows (dp_abs at s) [HasStopped w a] (lgo w p (s\<lparr>dp_life := (dp_life s)(a := Stopped)\<rparr>))"
    "dp_follows (dp_abs at s) [HasCompleted w a] (lgo w p (s\<lparr>dp_life := (dp_life s)(a := Gone)\<rparr>))"
proof -
  note D = dp_invD [OF inv]
  have at: "at a = RunBy w" using D(6) run by simp
  have tb: "dp_life s a = Inside" "tb_state (dp_task s a) = RUNNING" "tb_worker (dp_task s a) = Some w" using D(7) [of a] at by simp_all
  have n: "(case p of WRun a \<Rightarrow> Some a | _ \<Rightarrow> None) = None" using p by (cases p) auto
  have i: "dp_inv (at(a := AtClient)) (lgo w p (s\<lparr>dp_life := (dp_life s)(a := l)\<rparr>))" if "l = Stopped \<or> l = Gone" for l
    by (rule dp_inv_move [OF inv]) (use D(2-6) D(1) D(8) at run_task [OF inv run] tb n that in auto)
  show "dp_follows (dp_abs at s) [HasStopped w a] (lgo w p (s\<lparr>dp_life := (dp_life s)(a := Stopped)\<rparr>))"
    by (rule dp_event_step [OF i]) (use tb at run n in \<open>auto simp: dp_abs_def phase_of_def fun_eq_iff\<close>)
  show "dp_follows (dp_abs at s) [HasCompleted w a] (lgo w p (s\<lparr>dp_life := (dp_life s)(a := Gone)\<rparr>))"
    by (rule dp_event_step [OF i]) (use tb at run n in \<open>auto simp: dp_abs_def phase_of_def fun_eq_iff\<close>)
qed

lemma run_of_None: "run_of s w = None \<longleftrightarrow> (\<forall>a. dp_loop s w \<noteq> WRun a)"
  by (simp add: run_of_def split: loop_pc.splits)

lemma run_of_same_loop:
  "(\<forall>a. dp_loop s w \<noteq> WRun a) \<Longrightarrow> (\<forall>a. p \<noteq> WRun a) \<Longrightarrow> run_of (lgo w p s) = run_of s"
proof
  fix v
  assume "\<forall>a. dp_loop s w \<noteq> WRun a" "\<forall>a. p \<noteq> WRun a"
  then have "run_of s w = None" "(case p of WRun a \<Rightarrow> Some a | _ \<Rightarrow> None) = None" by (simp_all add: run_of_None split: loop_pc.splits)
  then show "run_of (lgo w p s) v = run_of s v" by simp
qed

lemma call_follows:
  assumes inv: "dp_inv at s" and st: "call_go t s = Some s'"
  shows "dp_follows (dp_abs at s) [] s'"
proof -
  note K = dp_invD(8) [OF inv, of t]
  show ?thesis
  proof (cases "dp_call s t")
    case (SubAdd a)
    with st K show ?thesis by (intro dp_quiet [OF inv]) (auto simp: call_go_def Submit_add_def)
  next
    case (SubProgress a)
    with st have "s' = Submit_progress t a s" by (simp add: call_go_def)
    then show ?thesis using progress_follows [OF inv SubProgress] by (simp only:)
  next
    case (SubRoute a)
    with st K show ?thesis
      by (intro dp_quiet [OF inv]) (auto simp: call_go_def Submit_route_def GetWorker_def split: option.splits)
  next
    case (SubGlobal a)
    with st have "s' = Submit_global t a s" by (simp add: call_go_def)
    then show ?thesis using enqueue_follows(1) [OF inv SubGlobal] by (simp only:)
  next
    case (PushLocal w a)
    with st have "s' = Push_local t w a s" by (simp add: call_go_def)
    then show ?thesis using enqueue_follows(2) [OF inv PushLocal] by (simp only:)
  next
    case (PushStore w)
    with st show ?thesis by (intro dp_quiet [OF inv]) (auto simp: call_go_def Push_store_def)
  next
    case (PushWake w)
    with st show ?thesis by (intro dp_quiet [OF inv]) (auto simp: call_go_def Push_wake_def)
  next
    case (PushRelease w)
    with st show ?thesis by (intro dp_quiet [OF inv]) (auto simp: call_go_def smph_release_def)
  qed (use st in \<open>simp_all add: call_go_def\<close>)
qed

text \<open>The steps of a worker that move no task.\<close>

lemma loop_quiet:
  assumes "dp_inv at s" and "\<forall>a. dp_loop s w \<noteq> WRun a" and "\<forall>a. p \<noteq> WRun a"
    and "dp_global s' = dp_global s" "dp_local s' = dp_local s" "dp_task s' = dp_task s" "dp_life s' = dp_life s"
      "dp_call s' = dp_call s" "dp_loop s' = dp_loop s"
  shows "dp_follows (dp_abs at s) [] (lgo w p s')"
proof (rule dp_quiet [OF assms(1)])
  have "run_of s' = run_of s" using assms(9) by (simp add: run_of_def fun_eq_iff)
  then show "run_of (lgo w p s') = run_of s" using run_of_same_loop [of s' w p] assms by simp
qed (use assms in simp_all)

lemma loop_follows:
  assumes inv: "dp_inv at s" and call: "dp_call s w = NoCall" and st: "loop_go w b s = Some (s', e)"
  shows "dp_follows (dp_abs at s) e s'"
proof (cases "dp_loop s w")
  case WLocal
  then have r: "run_of s w = None" by (simp add: run_of_None)
  show ?thesis
  proof (cases "dp_local s w")
    case Nil
    with WLocal st have "s' = lgo w WGlobal s" "e = []" by (simp_all add: loop_go_def Process_local_def)
    with WLocal show ?thesis using loop_quiet [OF inv, of w WGlobal s] by simp
  next
    case (Cons a as)
    with WLocal st have "s' = lgo w (WRun a) (s\<lparr>dp_local := (dp_local s)(w := as), dp_task := (dp_task s)(a := SetWorker (Some w) (dp_task s a))\<rparr>)"
      "e = [Started w a]" by (simp_all add: loop_go_def Process_local_def)
    with start_follows [OF inv Cons r] show ?thesis by simp
  qed
next
  case WGlobal
  then have r: "run_of s w = None" by (simp add: run_of_None)
  show ?thesis
  proof (cases "dp_global s")
    case Nil
    with WGlobal st have "s' = lgo w WClose1 s" "e = []" by (simp_all add: loop_go_def Process_global_def)
    with WGlobal show ?thesis using loop_quiet [OF inv, of w WClose1 s] by simp
  next
    case (Cons a as)
    with WGlobal st have "s' = lgo w WNotify (cgo w (PushLocal w a) (s\<lparr>dp_global := as\<rparr>))" "e = []"
      by (simp_all add: loop_go_def Process_global_def)
    with fetch_follows [OF inv Cons call r] show ?thesis by simp
  qed
qed (use st in \<open>auto simp: loop_go_def Process_decrease_def Loop_sleep_def intro!: loop_quiet [OF inv] split: if_splits\<close>)

lemma dp_sim_step:
  assumes "dp_sim x s" and st: "dp_step c s = Some (s', e)"
  shows "dp_follows x e s'"
proof -
  obtain at where inv: "dp_inv at s" and x: "x = dp_abs at s" using assms(1) by (auto simp: dp_sim_def)
  show ?thesis unfolding x
  proof (cases c)
    case (StartWorker w)
    with st show "dp_follows (dp_abs at s) e s'" using loop_quiet [OF inv, of w WLocal s] by (auto split: if_splits)
  next
    case (CallSubmit t a)
    with st show "dp_follows (dp_abs at s) e s'" using submit_follows [OF inv, of t a] by (auto simp: may_call_def split: if_splits)
  next
    case (CallGo t)
    with st show "dp_follows (dp_abs at s) e s'" using call_follows [OF inv, of t] by auto
  next
    case (TaskStops w)
    with st obtain a where "dp_loop s w = WRun a" "s' = lgo w WReturn (s\<lparr>dp_life := (dp_life s)(a := Stopped)\<rparr>)" "e = [HasStopped w a]"
      by (auto split: loop_pc.splits if_splits)
    then show "dp_follows (dp_abs at s) e s'" using task_leaves_follows(1) [OF inv, of w a WReturn] by (simp add: run_of_def)
  next
    case (TaskCompletes w)
    with st obtain a where "dp_loop s w = WRun a" "s' = lgo w WRemove (s\<lparr>dp_life := (dp_life s)(a := Gone)\<rparr>)" "e = [HasCompleted w a]"
      by (auto split: loop_pc.splits if_splits)
    then show "dp_follows (dp_abs at s) e s'" using task_leaves_follows(2) [OF inv, of w a WRemove] by (simp add: run_of_def)
  next
    case (LoopGo w b)
    with st show "dp_follows (dp_abs at s) e s'" using loop_follows [OF inv, of w b] by (auto split: if_splits)
  next
    case CtlGo
    then have ctl: "ctl_go s = Some s'" "e = []" using st by auto
    have "dp_follows (dp_abs at s) [] s'"
      using ctl(1) by (intro dp_quiet [OF inv]) (auto simp: ctl_go_def smph_release_def split: ctl_pc.splits if_splits)
    then show "dp_follows (dp_abs at s) e s'" using ctl(2) by simp
  qed
qed

lemma dp_sim_init: "dp_sim (\<lambda>_. Outside, \<lambda>_. None) (init_dpool n)"
proof -
  have r: "run_of (init_dpool n) = (\<lambda>_. None)" by (simp add: run_of_def init_dpool_def fun_eq_iff)
  then have "dp_inv (\<lambda>_. AtClient) (init_dpool n)" unfolding dp_inv_def by (simp add: init_dpool_def)
  moreover have "dp_abs (\<lambda>_. AtClient) (init_dpool n) = (\<lambda>_. Outside, \<lambda>_. None)"
    by (simp add: dp_abs_def r) (simp add: init_dpool_def phase_of_def)
  ultimately show ?thesis unfolding dp_sim_def by metis
qed

interpretation distributed_pool: event_simulation dp_step "init_dpool n" life_spec "(\<lambda>_. Outside, \<lambda>_. None)" dp_sim for n
  by unfold_locales (rule dp_sim_init, use dp_sim_step in \<open>simp add: dp_follows_def\<close>)

subsection \<open>Counting\<close>

text \<open>The unfinished tasks, the submissions before their \<open>AddTask\<close> and the completions before their \<open>RemoveTask\<close>.\<close>

definition unfinished :: "dpool \<Rightarrow> addr set" where
  "unfinished s = {a. dp_life s a = Inside \<or> dp_life s a = Stopped}"

definition adding :: "dpool \<Rightarrow> addr set" where
  "adding s = {a. \<exists>t. dp_call s t = SubAdd a}"

definition removing :: "dpool \<Rightarrow> nat set" where
  "removing s = {w. dp_loop s w = WRemove}"

definition dp_count :: "nat \<Rightarrow> dpool \<Rightarrow> bool" where
  "dp_count n s \<longleftrightarrow> dp_workers s = n \<and> (\<forall>w. dp_loop s w \<noteq> WNew \<longrightarrow> w < n) \<and> unfinished s \<subseteq> {..<2 ^ 62} \<and>
     of_nat (card (unfinished s)) + of_nat (card (removing s)) = GetTasks (dp_sd s) + of_nat (card (adding s))"

lemma dp_count_same:
  assumes "dp_count n s" "dp_workers s' = dp_workers s" "\<And>w. dp_loop s' w \<noteq> WNew \<Longrightarrow> dp_loop s w = WNew \<Longrightarrow> w < n"
    "unfinished s' = unfinished s" "adding s' = adding s" "removing s' = removing s" "GetTasks (dp_sd s') = GetTasks (dp_sd s)"
  shows "dp_count n s'"
proof -
  have "w < n" if "dp_loop s' w \<noteq> WNew" for w using assms(1,3) that unfolding dp_count_def by blast
  then show ?thesis using assms(1) unfolding dp_count_def assms(2,4-7) by blast
qed

lemma removing_finite:
  assumes "dp_count n s"
  shows "finite (removing s)" "removing s \<subseteq> {..<n}"
proof -
  show "removing s \<subseteq> {..<n}" using assms by (auto simp: dp_count_def removing_def)
  then show "finite (removing s)" by (rule finite_subset) simp
qed

lemma unfinished_finite: "dp_count n s \<Longrightarrow> finite (unfinished s)"
  unfolding dp_count_def by (meson finite_lessThan finite_subset)

lemma adding_unfinished: "dp_inv at s \<Longrightarrow> adding s \<subseteq> unfinished s"
proof
  fix a
  assume inv: "dp_inv at s" and "a \<in> adding s"
  then obtain t where "dp_call s t = SubAdd a" by (auto simp: adding_def)
  then have "at a = InCall t" using dp_invD(1) [OF inv, of t a] by simp
  then show "a \<in> unfinished s" using dp_invD(7) [OF inv, of a] by (simp add: unfinished_def)
qed

lemma adding_upd:
  assumes "dp_call s' = (dp_call s)(t := p)" and "\<forall>b. dp_call s t \<noteq> SubAdd b"
  shows "adding s' = {b. p = SubAdd b} \<union> adding s"
proof (rule set_eqI)
  fix x
  have "(\<exists>u. dp_call s' u = SubAdd x) \<longleftrightarrow> p = SubAdd x \<or> (\<exists>u. dp_call s u = SubAdd x)" using assms by (metis fun_upd_apply)
  then show "x \<in> adding s' \<longleftrightarrow> x \<in> {b. p = SubAdd b} \<union> adding s" by (simp add: adding_def)
qed

lemma count_submit:
  assumes inv: "dp_inv at s" and cnt: "dp_count n s" and call: "dp_call s t = NoCall"
    and life: "dp_life s a \<in> {Fresh, Stopped}" and a: "a < 2 ^ 62"
  shows "dp_count n (Submit_state t a s)"
proof -
  have at: "at a = AtClient" using dp_invD(7) [OF inv, of a] life by (cases "at a") auto
  let ?s = "Submit_state t a s"
  have base: "dp_workers ?s = dp_workers s" "dp_loop ?s = dp_loop s" "removing ?s = removing s" "dp_sd ?s = dp_sd s"
    by (simp_all add: Submit_state_def removing_def cgo_def)
  have na: "dp_call s u \<noteq> SubAdd a" for u using dp_invD(1) [OF inv, of u a] at by auto
  show ?thesis
  proof (cases "dp_life s a")
    case Fresh
    then have tb: "GetState (dp_task s a) = PLANNED" using dp_invD(7) [OF inv, of a] at by (simp add: GetState_def new_task_def)
    have u: "unfinished ?s = insert a (unfinished s)" "a \<notin> unfinished s"
      using Fresh by (auto simp: unfinished_def Submit_state_def)
    have d: "adding ?s = insert a (adding s)" "a \<notin> adding s"
      using call na tb adding_upd [of ?s s t "SubAdd a"] by (auto simp: Submit_state_def) (simp add: adding_def)
    have fa: "finite (adding s)" using adding_unfinished [OF inv] unfinished_finite [OF cnt] by (rule finite_subset)
    show ?thesis using cnt u d fa unfinished_finite [OF cnt] a unfolding dp_count_def base by simp
  next
    case Stopped
    then have tb: "GetState (dp_task s a) \<noteq> PLANNED" using dp_invD(7) [OF inv, of a] at by (simp add: GetState_def)
    have "unfinished ?s = unfinished s" using Stopped by (auto simp: unfinished_def Submit_state_def)
    moreover have "adding ?s = adding s" using call tb adding_upd [of ?s s t "SubRoute a"] by (simp add: Submit_state_def)
    ultimately show ?thesis using cnt unfolding dp_count_def base by simp
  qed (use life in simp_all)
qed

lemma count_call:
  assumes inv: "dp_inv at s" and cnt: "dp_count n s" and st: "call_go t s = Some s'"
  shows "dp_count n s'"
proof (cases "\<exists>a. dp_call s t = SubAdd a")
  case True
  then obtain a where a: "dp_call s t = SubAdd a" by blast
  then have s': "s' = cgo t (SubProgress a) (s\<lparr>dp_sd := AddTask (dp_sd s)\<rparr>)" using st by (simp add: call_go_def Submit_add_def)
  have "at a = InCall t" using dp_invD(1) [OF inv, of t a] a by simp
  then have "\<forall>u. u = t \<or> dp_call s u \<noteq> SubAdd a" using dp_invD(1) [OF inv] by (metis held.simps(1) task_place.inject(1))
  then have "\<forall>u. dp_call s' u \<noteq> SubAdd a" by (auto simp: s')
  then have d: "a \<notin> adding s'" by (simp add: adding_def)
  have c: "dp_call s = (dp_call s')(t := SubAdd a)" using a by (auto simp: s' fun_eq_iff)
  have "adding s = {b. SubAdd a = SubAdd b} \<union> adding s'" by (rule adding_upd [OF c]) (simp add: s')
  note d = this d
  have "finite (adding s)" using adding_unfinished [OF inv] unfinished_finite [OF cnt] by (rule finite_subset)
  then have "card (adding s) = card (adding s') + 1" using d by simp
  moreover have "unfinished s' = unfinished s" "removing s' = removing s" "GetTasks (dp_sd s') = GetTasks (dp_sd s) + 1"
    by (simp_all add: s' unfinished_def removing_def GetTasks_def AddTask_def)
  ultimately show ?thesis using cnt unfolding dp_count_def by (simp add: s' algebra_simps)
next
  case False
  have c: "\<exists>p. dp_call s' = (dp_call s)(t := p) \<and> (\<forall>a. p \<noteq> SubAdd a)" "dp_workers s' = dp_workers s" "dp_loop s' = dp_loop s"
      "dp_life s' = dp_life s" "GetTasks (dp_sd s') = GetTasks (dp_sd s)"
    using st False by (auto simp: call_go_def Submit_progress_def Submit_route_def Submit_global_def Push_local_def
        Push_store_def Push_wake_def smph_release_def cgo_def GetTasks_def WakeUpSuspendedWorker_def split: submit_pc.splits sum.splits option.splits)
  then have "adding s' = adding s" using False adding_upd [of s' s t] by auto
  then show ?thesis using c by (intro dp_count_same [OF cnt]) (simp_all add: unfinished_def removing_def)
qed

lemma removing_lgo: "removing (lgo w p s) = (if p = WRemove then insert w (removing s) else removing s - {w})"
  by (auto simp: removing_def)

lemma count_leave:
  assumes cnt: "dp_count n s" and run: "dp_loop s w = WRun a" and life: "dp_life s a = Inside"
  shows "dp_count n (lgo w WReturn (s\<lparr>dp_life := (dp_life s)(a := Stopped)\<rparr>))"
    "dp_count n (lgo w WRemove (s\<lparr>dp_life := (dp_life s)(a := Gone)\<rparr>))"
proof -
  have nr: "w \<notin> removing s" using run by (simp add: removing_def)
  show "dp_count n (lgo w WReturn (s\<lparr>dp_life := (dp_life s)(a := Stopped)\<rparr>))"
    by (rule dp_count_same [OF cnt]) (use run life nr in \<open>auto simp: unfinished_def adding_def removing_def split: if_splits\<close>)
  let ?s = "lgo w WRemove (s\<lparr>dp_life := (dp_life s)(a := Gone)\<rparr>)"
  have u: "unfinished s = insert a (unfinished ?s)" "a \<notin> unfinished ?s" using life by (auto simp: unfinished_def)
  then have "card (unfinished s) = card (unfinished ?s) + 1" using unfinished_finite [OF cnt] by simp
  moreover have "removing ?s = insert w (removing s)" by (auto simp: removing_def)
  then have "card (removing ?s) = card (removing s) + 1" using nr removing_finite [OF cnt] by simp
  moreover have "adding ?s = adding s" by (simp add: adding_def)
  moreover have "unfinished ?s \<subseteq> {..<2 ^ 62}" using cnt u(1) unfolding dp_count_def by blast
  moreover have "w < n" using cnt run unfolding dp_count_def by (metis loop_pc.distinct(3))
  then have "\<forall>v. dp_loop ?s v \<noteq> WNew \<longrightarrow> v < n" using cnt unfolding dp_count_def by simp
  ultimately show "dp_count n ?s" using cnt unfolding dp_count_def by (simp add: algebra_simps)
qed

lemma count_quiet_loop:
  assumes cnt: "dp_count n s" and w: "dp_loop s w \<noteq> WNew" "dp_loop s w \<noteq> WRemove" and p: "p \<noteq> WRemove"
    and same: "dp_workers s' = dp_workers s" "dp_loop s' = dp_loop s" "dp_life s' = dp_life s" "adding s' = adding s"
      "GetTasks (dp_sd s') = GetTasks (dp_sd s)"
  shows "dp_count n (lgo w p s')"
proof -
  have "w \<notin> removing s" using w by (simp add: removing_def)
  moreover have "removing s' = removing s" using same by (simp add: removing_def)
  moreover have "adding (lgo w p s') = adding s" using same by (simp add: adding_def)
  ultimately show ?thesis using w p same
    by (intro dp_count_same [OF cnt]) (auto simp: removing_lgo unfinished_def split: if_splits)
qed

lemma size_t_take_one:
  fixes u r g a :: size_t
  assumes "u + (r + 1) = g + a"
  shows "u + r = g - 1 + a"
proof -
  have "u + r = u + (r + 1) - 1" by simp
  then show ?thesis unfolding assms by simp
qed

lemma count_loop:
  assumes cnt: "dp_count n s" and call: "dp_call s w = NoCall" and st: "loop_go w b s = Some (s', e)"
  shows "dp_count n s'"
proof (cases "dp_loop s w = WRemove")
  case True
  then have s': "s' = lgo w WNotify (s\<lparr>dp_sd := RemoveTask (dp_sd s)\<rparr>)" using st by (simp add: loop_go_def)
  have "removing s = insert w (removing s')" "w \<notin> removing s'" using True by (auto simp: s' removing_def)
  then have "card (removing s) = card (removing s') + 1" using removing_finite [OF cnt] by simp
  moreover have "unfinished s' = unfinished s" "adding s' = adding s" "GetTasks (dp_sd s') = GetTasks (dp_sd s) - 1"
    by (simp_all add: s' unfinished_def adding_def GetTasks_def RemoveTask_def)
  moreover have "\<forall>v. dp_loop s' v \<noteq> WNew \<longrightarrow> v < n" "dp_workers s' = n" using cnt True unfolding dp_count_def by (auto simp: s')
  moreover have "of_nat (card (unfinished s)) + of_nat (card (removing s)) = GetTasks (dp_sd s) + of_nat (card (adding s))"
    "unfinished s \<subseteq> {..<2 ^ 62}" using cnt unfolding dp_count_def by simp_all
  ultimately show ?thesis unfolding dp_count_def
    using size_t_take_one [of "of_nat (card (unfinished s))" "of_nat (card (removing s'))"] by (simp add: add.commute)
next
  case False
  note d = loop_go_def Process_local_def Process_global_def Process_decrease_def Loop_sleep_def
  have same: "dp_workers s' = dp_workers s" "dp_life s' = dp_life s"
    using st by (auto simp: d split: loop_pc.splits list.splits)
  have tasks: "GetTasks (dp_sd s') = GetTasks (dp_sd s)"
    using st False by (auto simp: d GetTasks_def AddSuspendedWorker_def split: loop_pc.splits list.splits)
  have "(\<forall>v. v \<noteq> w \<longrightarrow> dp_loop s' v = dp_loop s v) \<and> dp_loop s' w \<noteq> WRemove"
    using st False by (auto simp: d split: loop_pc.splits list.splits if_splits)
  then have rem: "removing s' = removing s" "\<And>v. v \<noteq> w \<Longrightarrow> dp_loop s' v = dp_loop s v"
    using False by (auto simp: removing_def)
  have w: "dp_loop s w \<noteq> WNew" using st by (auto simp: loop_go_def)
  have c: "dp_call s' = (dp_call s)(w := dp_call s' w)" "\<forall>a. dp_call s' w \<noteq> SubAdd a"
    using st call by (auto simp: d fun_eq_iff split: loop_pc.splits list.splits if_splits)
  have "adding s' = adding s" using adding_upd [OF c(1)] call c(2) by simp
  then show ?thesis
    by (intro dp_count_same [OF cnt]) (use same tasks rem w in \<open>auto simp: unfinished_def\<close>, metis)
qed

lemma count_ctl:
  assumes cnt: "dp_count n s" and st: "ctl_go s = Some s'"
  shows "dp_count n s'"
proof -
  have "dp_workers s' = dp_workers s" "dp_loop s' = dp_loop s" "dp_life s' = dp_life s" "dp_call s' = dp_call s"
    "GetTasks (dp_sd s') = GetTasks (dp_sd s)"
    using st by (auto simp: ctl_go_def smph_release_def GetTasks_def StartShutdown_def split: ctl_pc.splits if_splits)
  then show ?thesis by (intro dp_count_same [OF cnt]) (simp_all add: unfinished_def adding_def removing_def)
qed

lemma dp_count_step:
  assumes inv: "dp_inv at s" and cnt: "dp_count n s" and st: "dp_step c s = Some (s', e)"
  shows "dp_count n s'"
proof (cases c)
  case (StartWorker w)
  with st have "s' = lgo w WLocal s" "dp_loop s w = WNew" "w < n" using cnt by (auto simp: dp_count_def split: if_splits)
  then show ?thesis
    by (intro dp_count_same [OF cnt]) (auto simp: unfinished_def adding_def removing_def split: if_splits)
next
  case (CallSubmit t a)
  with st have "s' = Submit_state t a s" "dp_call s t = NoCall" "dp_life s a \<in> {Fresh, Stopped}" "a < 2 ^ 62"
    by (auto simp: may_call_def split: if_splits)
  then show ?thesis using count_submit [OF inv cnt] by blast
next
  case (CallGo t)
  with st show ?thesis using count_call [OF inv cnt] by auto
next
  case (TaskStops w)
  with st obtain a where a: "dp_loop s w = WRun a" "s' = lgo w WReturn (s\<lparr>dp_life := (dp_life s)(a := Stopped)\<rparr>)"
    by (auto split: loop_pc.splits if_splits)
  have "at a = RunBy w" using dp_invD(6) [OF inv, of w a] a(1) by (simp add: run_of_def)
  then have "dp_life s a = Inside" using dp_invD(7) [OF inv, of a] by simp
  then show ?thesis using count_leave(1) [OF cnt a(1)] a(2) by blast
next
  case (TaskCompletes w)
  with st obtain a where a: "dp_loop s w = WRun a" "s' = lgo w WRemove (s\<lparr>dp_life := (dp_life s)(a := Gone)\<rparr>)"
    by (auto split: loop_pc.splits if_splits)
  have "at a = RunBy w" using dp_invD(6) [OF inv, of w a] a(1) by (simp add: run_of_def)
  then have "dp_life s a = Inside" using dp_invD(7) [OF inv, of a] by simp
  then show ?thesis using count_leave(2) [OF cnt a(1)] a(2) by blast
next
  case (LoopGo w b)
  with st show ?thesis using count_loop [OF cnt] by (auto split: if_splits)
next
  case CtlGo
  with st show ?thesis using count_ctl [OF cnt] by auto
qed

definition dp_pool_inv :: "nat \<Rightarrow> dp_event list \<Rightarrow> dpool \<Rightarrow> bool" where
  "dp_pool_inv n es s \<longleftrightarrow> (\<exists>at. dp_inv at s) \<and> dp_count n s"

interpretation dp_counting: step_invariant dp_step "init_dpool n" "dp_pool_inv n" for n
proof
  have "\<exists>at. dp_inv at (init_dpool n)" using dp_sim_init by (auto simp: dp_sim_def)
  moreover have "dp_count n (init_dpool n)"
    by (simp add: dp_count_def init_dpool_def unfinished_def removing_def adding_def GetTasks_def init_shutdowner_def)
  ultimately show "dp_pool_inv n [] (init_dpool n)" by (simp add: dp_pool_inv_def)
next
  fix es s c s' e
  assume "dp_pool_inv n es s" and st: "dp_step c s = Some (s', e)"
  then obtain at where at: "dp_inv at s" "dp_count n s" by (auto simp: dp_pool_inv_def)
  have "dp_follows (dp_abs at s) e s'" using dp_sim_step [OF _ st, of "dp_abs at s"] at(1) by (auto simp: dp_sim_def)
  then have "\<exists>at. dp_inv at s'" by (auto simp: dp_follows_def dp_sim_def)
  then show "dp_pool_inv n (es @ e) s'" using dp_count_step [OF at st] by (simp add: dp_pool_inv_def)
qed

text \<open>What a count of zero says.\<close>

lemma dp_inv_accounting:
  assumes "dp_pool_inv n es s" and "int n < 2 ^ 62"
  shows "card (unfinished s) + card (removing s) = unat (GetTasks (dp_sd s)) + card (adding s) \<and>
    (GetTasks (dp_sd s) = 0 \<longrightarrow>
       dp_global s = [] \<and> (\<forall>w. dp_local s w = [] \<and> (\<forall>a. dp_loop s w \<noteq> WRun a)) \<and> unfinished s = adding s)"
proof -
  obtain at where inv: "dp_inv at s" and cnt: "dp_count n s" using assms(1) by (auto simp: dp_pool_inv_def)
  have sub: "adding s \<subseteq> unfinished s" by (rule adding_unfinished [OF inv])
  note fin = unfinished_finite [OF cnt] removing_finite [OF cnt]
  have "card (unfinished s) \<le> card {..<(2::nat) ^ 62}" using cnt by (intro card_mono) (auto simp: dp_count_def)
  moreover have "card (removing s) \<le> card {..<n}" using fin(3) by (intro card_mono) auto
  moreover have le: "card (adding s) \<le> card (unfinished s)" using sub fin(1) by (intro card_mono)
  ultimately have b: "card (unfinished s) \<le> 2 ^ 62" "card (removing s) < 2 ^ 62" "card (adding s) \<le> 2 ^ 62" using assms(2) by simp_all
  define k where "k = card (unfinished s) + card (removing s) - card (adding s)"
  have "of_nat k = GetTasks (dp_sd s)" using cnt le by (simp add: k_def dp_count_def of_nat_diff algebra_simps)
  moreover have "k < 2 ^ 64" using b unfolding k_def by simp
  then have "unat (of_nat k :: size_t) = k" by (simp add: unat_of_nat)
  ultimately have "unat (GetTasks (dp_sd s)) = k" by simp
  then have eq: "card (unfinished s) + card (removing s) = unat (GetTasks (dp_sd s)) + card (adding s)" using le by (simp add: k_def)
  moreover have "dp_global s = [] \<and> (\<forall>w. dp_local s w = [] \<and> (\<forall>a. dp_loop s w \<noteq> WRun a)) \<and> unfinished s = adding s"
    if "GetTasks (dp_sd s) = 0"
  proof -
    have "card (unfinished s) \<le> card (adding s)" using eq that by simp
    then have u: "adding s = unfinished s" by (rule card_seteq [OF fin(1) sub])
    have "\<exists>t. at a = InCall t" if "dp_life s a = Inside" for a
    proof -
      have "a \<in> adding s" using that u by (simp add: unfinished_def)
      then obtain t where "dp_call s t = SubAdd a" by (auto simp: adding_def)
      then show ?thesis using dp_invD(1) [OF inv, of t a] by auto
    qed
    then have no: "at a \<notin> {InGlobal, InLocal w, RunBy w}" for a w
      using dp_invD(7) [OF inv, of a] by (cases "at a"; fastforce)
    have "dp_global s = []" using dp_invD(2) [OF inv] no by (cases "dp_global s") auto
    moreover have "dp_local s w = []" for w using dp_invD(4) [OF inv, of _ w] no by (cases "dp_local s w") auto
    moreover have "dp_loop s w \<noteq> WRun a" for w a using dp_invD(6) [OF inv, of w a] no [of a w] by (auto simp: run_of_def)
    ultimately show ?thesis using u by simp
  qed
  ultimately show ?thesis by blast
qed

subsection \<open>Properties\<close>

lemma bound_to_one: "bound_to p ws \<Longrightarrow> v \<in> set ws \<Longrightarrow> w \<in> set ws \<Longrightarrow> v = w"
  by (auto simp: bound_to_def split: life_phase.splits option.splits)

lemma dp_inv_inside:
  assumes "dp_inv at s"
  shows "dp_life s a = Inside \<longleftrightarrow>
    (\<exists>t. held (dp_call s t) = Some a) \<or> a \<in> set (dp_global s) \<or> (\<exists>w. a \<in> set (dp_local s w)) \<or> (\<exists>w. dp_loop s w = WRun a)"
proof -
  have "run_of s w = Some a \<longleftrightarrow> dp_loop s w = WRun a" for w by (auto simp: run_of_def split: loop_pc.splits)
  then show ?thesis using dp_invD(7) [OF assms, of a] dp_invD(1,2,4,6) [OF assms, where a = a] by (cases "at a") auto
qed

text \<open>
  C4: In every interleaving of clients, workers and the shutdown, every task of \<open>DistributedPool\<close> goes through the life cycle of
  the specification: it starts only after it was submitted, runs on one worker at a time, and all its runs, however often it
  stops and is submitted again, are on the same worker. No task is lost: a task inside the pool is in the hands of a call, in exactly
  one queue and once there, or run by a worker.\<close>
theorem distributed_pool_affinity:
  assumes "reach dp_step (init_dpool n) es s"
  shows "(\<exists>x. reach life_spec (\<lambda>_. Outside, \<lambda>_. None) es x) \<and>
    (\<forall>a. \<forall>v \<in> set (started_on a es). \<forall>w \<in> set (started_on a es). v = w) \<and>
    (\<forall>a v w. dp_loop s v = WRun a \<longrightarrow> dp_loop s w = WRun a \<longrightarrow> v = w) \<and> (\<forall>t e. dp_call s t \<noteq> SubFault e) \<and>
    (\<forall>a. dp_life s a = Inside \<longleftrightarrow>
       (\<exists>t. held (dp_call s t) = Some a) \<or> a \<in> set (dp_global s) \<or> (\<exists>w. a \<in> set (dp_local s w)) \<or> (\<exists>w. dp_loop s w = WRun a)) \<and>
    distinct (dp_global s) \<and> (\<forall>w. distinct (dp_local s w) \<and> set (dp_local s w) \<inter> set (dp_global s) = {})"
proof -
  obtain x where x: "reach life_spec (\<lambda>_. Outside, \<lambda>_. None) es x" "dp_sim x s"
    using distributed_pool.refines [OF assms] by blast
  then obtain at where inv: "dp_inv at s" by (auto simp: dp_sim_def)
  have "dp_loop s v = WRun a \<Longrightarrow> dp_loop s w = WRun a \<Longrightarrow> v = w" for a v w
    using dp_invD(6) [OF inv, of v a] dp_invD(6) [OF inv, of w a] by (simp add: run_of_def)
  moreover have "dp_call s t \<noteq> SubFault e" for t e using dp_invD(8) [OF inv, of t] by auto
  moreover have "v = w" if "v \<in> set (started_on a es)" "w \<in> set (started_on a es)" for a v w
    using life_spec_bound [OF x(1)] bound_to_one that by blast
  moreover note dp_inv_inside [OF inv] dp_invD(3,5) [OF inv]
  moreover have "set (dp_local s w) \<inter> set (dp_global s) = {}" for w
    using dp_invD(4) [OF inv, of _ w] dp_invD(2) [OF inv] by auto
  ultimately show ?thesis using x(1) by blast
qed

theorem distributed_pool_affinity_witness:
  "\<exists>es s. reach dp_step (init_dpool 1) es s \<and> started_on 42 es = [0, 0] \<and>
     dp_life s 42 = Inside \<and> (\<forall>v. dp_loop s v = WRun 42 \<longrightarrow> v = 0)"
proof -
  have "run_ok dp_step
    [StartWorker 0, CallSubmit 5 42, CallGo 5, CallGo 5, CallGo 5, CallGo 5, LoopGo 0 False, LoopGo 0 False,
     CallGo 0, CallGo 0, CallGo 0, CallGo 0, LoopGo 0 False, LoopGo 0 False, TaskStops 0, CallSubmit 0 42,
     CallGo 0, CallGo 0, CallGo 0, CallGo 0, CallGo 0, LoopGo 0 False, LoopGo 0 False, LoopGo 0 False] (init_dpool 1)
    (\<lambda>es s. started_on 42 es = [0, 0] \<and> dp_loop s 0 = WRun 42)"
    by code_simp
  then obtain es s where r: "reach dp_step (init_dpool 1) es s" "started_on 42 es = [0, 0]" "dp_loop s 0 = WRun 42"
    by (elim run_okE) blast
  note a = distributed_pool_affinity [OF r(1)]
  have "dp_life s 42 = Inside" "\<forall>v. dp_loop s v = WRun 42 \<longrightarrow> v = 0" using a r(3) by (metis, metis)
  with r show ?thesis by blast
qed

text \<open>
  C31: \<open>count_tasks\<close> of \<open>DistributedPool\<close> is exact: the unfinished tasks and the completions before their \<open>RemoveTask\<close> are as many as
  the count and the submissions before their \<open>AddTask\<close>. Hence, when a worker reads a count of zero, both kinds of queues are empty, no task
  runs or is stopped, and the only unfinished tasks are those of \<open>Submit\<close> calls that have not counted them yet.\<close>
theorem distributed_pool_accounting:
  assumes "reach dp_step (init_dpool n) es s" and "int n < 2 ^ 62"
  shows "card (unfinished s) + card (removing s) = unat (GetTasks (dp_sd s)) + card (adding s) \<and>
    (GetTasks (dp_sd s) = 0 \<longrightarrow>
       dp_global s = [] \<and> (\<forall>w. dp_local s w = [] \<and> (\<forall>a. dp_loop s w \<noteq> WRun a)) \<and> unfinished s = adding s)"
  by (rule dp_inv_accounting [OF dp_counting.reach_inv [OF assms(1)] assms(2)])

theorem distributed_pool_accounting_witness:
  "\<exists>es s. reach dp_step (init_dpool 1) es s \<and> started_on 42 es = [0, 0] \<and> GetTasks (dp_sd s) = 0 \<and> dp_life s 42 = Gone \<and>
     dp_global s = [] \<and> unfinished s = adding s"
proof -
  have "run_ok dp_step
    [StartWorker 0, CallSubmit 5 42, CallGo 5, CallGo 5, CallGo 5, CallGo 5, LoopGo 0 False, LoopGo 0 False,
     CallGo 0, CallGo 0, CallGo 0, CallGo 0, LoopGo 0 False, LoopGo 0 False, TaskStops 0, CallSubmit 0 42,
     CallGo 0, CallGo 0, CallGo 0, CallGo 0, CallGo 0, LoopGo 0 False, LoopGo 0 False, LoopGo 0 False, TaskCompletes 0, LoopGo 0 False] (init_dpool 1)
    (\<lambda>es s. started_on 42 es = [0, 0] \<and> GetTasks (dp_sd s) = 0 \<and> dp_life s 42 = Gone)"
    by code_simp
  then obtain es s where r: "reach dp_step (init_dpool 1) es s" "started_on 42 es = [0, 0]" "GetTasks (dp_sd s) = 0" "dp_life s 42 = Gone"
    by (elim run_okE) blast
  have "int 1 < 2 ^ 62" by simp
  with distributed_pool_accounting [OF r(1)] r show ?thesis by blast
qed

text \<open>
  C32: The shutdown of \<open>DistributedPool\<close> is not protected against a concurrent \<open>Submit\<close>: a worker whose \<open>Process\<close> has returned, because the
  count was zero, reads a new count in \<open>Loop\<close>, resumes the finished coroutine and aborts the process. And three counters leave their
  range in ordinary runs: handing two tasks to a busy worker releases its binary semaphore to two, the count of suspended workers goes
  below zero, and so does the count of empty rounds of an idle worker.\<close>
theorem distributed_pool_faults:
  "(\<exists>es s. reach dp_step (init_dpool 1) es s \<and> dp_loop s 0 = WFault Abort) \<and>
   (\<exists>es s. reach dp_step (init_dpool 1) es s \<and> dp_smph s 0 = 2 \<and> GetSuspendedWorkers (dp_sd s) = - 2) \<and>
   (\<exists>es s. reach dp_step (init_dpool 1) es s \<and> dp_empty s 0 = - 1)"
proof (intro conjI)
  have "run_ok dp_step
    [StartWorker 0, LoopGo 0 False, LoopGo 0 False, CtlGo, LoopGo 0 False, LoopGo 0 False, CallSubmit 5 42, CallGo 5,
     LoopGo 0 False, LoopGo 0 False, LoopGo 0 False, LoopGo 0 False, LoopGo 0 False] (init_dpool 1)
    (\<lambda>es s. dp_loop s 0 = WFault Abort)"
    by code_simp
  then show "\<exists>es s. reach dp_step (init_dpool 1) es s \<and> dp_loop s 0 = WFault Abort" by (elim run_okE) blast
  have "run_ok dp_step
    [StartWorker 0, CallSubmit 5 42, CallGo 5, CallGo 5, CallGo 5, CallGo 5, LoopGo 0 False, LoopGo 0 False,
     CallGo 0, CallGo 0, CallGo 0, CallGo 0, LoopGo 0 False, LoopGo 0 False, TaskStops 0, CallSubmit 0 42,
     CallGo 0, CallGo 0, CallGo 0, CallGo 0, CallGo 0, LoopGo 0 False, LoopGo 0 False, LoopGo 0 False] (init_dpool 1)
    (\<lambda>es s. dp_smph s 0 = 2 \<and> GetSuspendedWorkers (dp_sd s) = - 2)"
    by code_simp
  then show "\<exists>es s. reach dp_step (init_dpool 1) es s \<and> dp_smph s 0 = 2 \<and> GetSuspendedWorkers (dp_sd s) = - 2" by (elim run_okE) blast
  have "run_ok dp_step [StartWorker 0, LoopGo 0 False, LoopGo 0 False, LoopGo 0 False, LoopGo 0 False] (init_dpool 1)
    (\<lambda>es s. dp_empty s 0 = - 1)"
    by code_simp
  then show "\<exists>es s. reach dp_step (init_dpool 1) es s \<and> dp_empty s 0 = - 1" by (elim run_okE) blast
qed

end
