(* ===== verification/Distributed_Idle.thy ===== *)
theory Distributed_Idle
  imports Distributed_Pool
begin

text \<open>
  \<open>Shutdowner::WaitIdle\<close> (\<^verbatim>\<open>src/executor/executor.h\<close>) on the distributed pool: client threads wait for the count of tasks to become zero, while the
  workers call \<open>NotifyAll\<close> at the end of every round of \<open>Process\<close>.

  The machine is the one of \<open>Distributed_Pool\<close> with the waiting threads beside it. \<open>WaitIdle\<close> holds its mutex from the test to the sleep, but the count
  is changed and \<open>NotifyAll\<close> is called without it, so the load of the count and the sleep are two steps and a notification may fall between them.

  The lemmas show what the return of \<open>WaitIdle\<close> means, that a missed notification is made up for by the next round of any worker as long as
  the pool is not shut down, and that after a shutdown it may not be.
\<close>

datatype idle_pc = IdleOut | IdleLock | IdleTest | IdleBlock | IdleSleep

record idle_pool =
  ip_pool :: dpool
  ip_mutex :: "tid option"
  ip_pc :: "tid \<Rightarrow> idle_pc"

datatype idle_event = OfPool dp_event | IdleReturned tid

datatype idle_choice = PoolChoice dp_choice | CallWaitIdle tid | IdleGo tid | IdleSpurious tid

definition init_idle_pool :: "nat \<Rightarrow> idle_pool" where
  "init_idle_pool n = \<lparr>ip_pool = init_dpool n, ip_mutex = None, ip_pc = (\<lambda>_. IdleOut)\<rparr>"

definition idle_to :: "tid \<Rightarrow> idle_pc \<Rightarrow> idle_pool \<Rightarrow> idle_pool" where
  "idle_to t p s = s\<lparr>ip_pc := (ip_pc s)(t := p)\<rparr>"

definition NotifyAll :: "idle_pool \<Rightarrow> idle_pool" where
  "NotifyAll s = s\<lparr>ip_pc := (\<lambda>t. if ip_pc s t = IdleSleep then IdleLock else ip_pc s t)\<rparr>"

definition notifies :: "dp_choice \<Rightarrow> dpool \<Rightarrow> bool" where
  "notifies c p = (case c of LoopGo w b \<Rightarrow> dp_loop p w = WNotify | _ \<Rightarrow> False)"

definition pool_moves :: "dp_choice \<Rightarrow> idle_pool \<Rightarrow> (idle_pool \<times> idle_event list) option" where
  "pool_moves c s =
     (case dp_step c (ip_pool s) of
        None \<Rightarrow> None
      | Some (p, e) \<Rightarrow> Some ((if notifies c (ip_pool s) then NotifyAll s else s)\<lparr>ip_pool := p\<rparr>, map OfPool e))"

definition WaitIdle_go :: "tid \<Rightarrow> idle_pool \<Rightarrow> (idle_pool \<times> idle_event list) option" where
  "WaitIdle_go t s =
     (case ip_pc s t of
        IdleLock \<Rightarrow> if ip_mutex s = None then Some (idle_to t IdleTest (s\<lparr>ip_mutex := Some t\<rparr>), []) else None
      | IdleTest \<Rightarrow>
          if 0 \<noteq> GetTasks (dp_sd (ip_pool s)) then Some (idle_to t IdleBlock s, [])
          else Some (idle_to t IdleOut (s\<lparr>ip_mutex := None\<rparr>), [IdleReturned t])
      | IdleBlock \<Rightarrow> Some (idle_to t IdleSleep (s\<lparr>ip_mutex := None\<rparr>), [])
      | _ \<Rightarrow> None)"

fun idle_step :: "(idle_choice, idle_pool, idle_event) stepper" where
  "idle_step (PoolChoice c) s = pool_moves c s"
| "idle_step (CallWaitIdle t) s = (if ip_pc s t = IdleOut then Some (idle_to t IdleLock s, []) else None)"
| "idle_step (IdleGo t) s = WaitIdle_go t s"
| "idle_step (IdleSpurious t) s = (if ip_pc s t = IdleSleep then Some (idle_to t IdleLock s, []) else None)"

subsection \<open>The pool under the waiting threads\<close>

text \<open>Before the shutdown no worker has seen one.\<close>

fun before_shutdown :: "loop_pc \<Rightarrow> bool" where
  "before_shutdown WClose2 = False"
| "before_shutdown (LClose1 r) = (\<not> r)"
| "before_shutdown (LClose2 r) = False"
| "before_shutdown (LShut r) = (\<not> r)"
| "before_shutdown (LSleep r) = (\<not> r)"
| "before_shutdown (LResume r) = (\<not> r)"
| "before_shutdown WExit = False"
| "before_shutdown (WFault e) = False"
| "before_shutdown _ = True"

definition open_inv :: "dpool \<Rightarrow> bool" where
  "open_inv s \<longleftrightarrow> IsShutdown (dp_sd s) \<or> (\<forall>w. before_shutdown (dp_loop s w))"

lemmas sd_ops = IsShutdown_def StartShutdown_def AddTask_def RemoveTask_def AddSuspendedWorker_def WakeUpSuspendedWorker_def GetTasks_def

lemma open_inv_call: "open_inv s \<Longrightarrow> call_go t s = Some s' \<Longrightarrow> open_inv s'"
  by (auto simp: open_inv_def call_go_def Submit_add_def Submit_progress_def Submit_route_def Submit_global_def Push_local_def Push_store_def
      Push_wake_def smph_release_def cgo_def sd_ops split: submit_pc.splits sum.splits)

lemma open_inv_ctl: "open_inv s \<Longrightarrow> ctl_go s = Some s' \<Longrightarrow> open_inv s'"
  by (auto simp: open_inv_def ctl_go_def smph_release_def sd_ops split: ctl_pc.splits if_splits)

lemma open_inv_loop: "open_inv s \<Longrightarrow> loop_go w b s = Some (s', e) \<Longrightarrow> open_inv s'"
  by (cases "dp_loop s w")
    (force simp: open_inv_def loop_go_def Process_local_def Process_global_def Process_decrease_def Loop_sleep_def lgo_def cgo_def sd_ops
      split: list.splits if_splits)+

lemma open_inv_step: "open_inv s \<Longrightarrow> dp_step c s = Some (s', e) \<Longrightarrow> open_inv s'"
  by (cases c) (auto simp: Submit_state_def cgo_def lgo_def open_inv_def [of s'] split: if_splits loop_pc.splits
      dest: open_inv_call open_inv_ctl open_inv_loop, auto simp: open_inv_def)

lemma idle_pool_reach:
  assumes "reach idle_step (init_idle_pool n) es s"
  shows "\<exists>ps. reach dp_step (init_dpool n) ps (ip_pool s)"
  using assms
proof (induction rule: reach.induct)
  case reach_init
  show ?case using reach.reach_init [of dp_step] by (auto simp: init_idle_pool_def)
next
  case (reach_step es s c s' e)
  show ?case
  proof (cases c)
    case (PoolChoice d)
    then obtain p pe where "dp_step d (ip_pool s) = Some (p, pe)" "ip_pool s' = p"
      using reach_step.hyps(2) by (auto simp: pool_moves_def split: option.splits)
    then show ?thesis using reach_step.IH reach.reach_step [of dp_step] by blast
  qed (use reach_step in \<open>auto simp: WaitIdle_go_def idle_to_def split: idle_pc.splits if_splits\<close>)
qed

lemma pool_open: "reach dp_step (init_dpool n) ps p \<Longrightarrow> open_inv p"
proof (induction rule: reach.induct)
  case reach_init
  show ?case by (simp add: open_inv_def init_dpool_def)
qed (rule open_inv_step)

subsection \<open>The rounds of a worker\<close>

text \<open>How many steps a worker that is not running a task is away from \<open>NotifyAll\<close>, when there are no tasks.\<close>

fun loop_rank :: "loop_pc \<Rightarrow> nat" where
  "loop_rank WNotify = 0"
| "loop_rank (LResume r) = 1"
| "loop_rank (LSleep r) = 2"
| "loop_rank (LShut r) = 3"
| "loop_rank (LClose1 r) = 4"
| "loop_rank WAddSuspended = 5"
| "loop_rank WShut = 6"
| "loop_rank WCmp = 7"
| "loop_rank WDec = 8"
| "loop_rank WClose1 = 9"
| "loop_rank WGlobal = 10"
| "loop_rank WLocal = 11"
| "loop_rank WReturn = 1"
| "loop_rank WRemove = 1"
| "loop_rank _ = 0"

fun call_rank :: "submit_pc \<Rightarrow> nat" where
  "call_rank (PushStore w) = 3"
| "call_rank (PushWake w) = 2"
| "call_rank (PushRelease w) = 1"
| "call_rank _ = 0"

definition round_rank :: "nat \<Rightarrow> dpool \<Rightarrow> nat" where
  "round_rank w p = loop_rank (dp_loop p w) + call_rank (dp_call p w)"

text \<open>The next step of a worker: the call it is in, or else its loop; \<open>b\<close> is whether a sleep ends with the semaphore.\<close>

definition worker_choice :: "nat \<Rightarrow> bool \<Rightarrow> dpool \<Rightarrow> dp_choice" where
  "worker_choice w b p = (if dp_call p w = NoCall then LoopGo w b else CallGo w)"

text \<open>A worker alone, with a count of zero.\<close>

definition worker_free :: "nat \<Rightarrow> dpool \<Rightarrow> bool" where
  "worker_free w p \<longleftrightarrow> held (dp_call p w) = None \<and> (\<forall>e. dp_call p w \<noteq> SubFault e) \<and> before_shutdown (dp_loop p w) \<and>
     dp_loop p w \<notin> {WNew, WRemove} \<and> (\<forall>a. dp_loop p w \<noteq> WRun a) \<and> dp_local p w = [] \<and> dp_global p = [] \<and>
     GetTasks (dp_sd p) = 0 \<and> \<not> IsShutdown (dp_sd p)"

lemma worker_free_step:
  assumes f: "worker_free w p" and r: "\<not> notifies (worker_choice w b p) p"
  shows "\<exists>p'. dp_step (worker_choice w b p) p = Some (p', []) \<and> worker_free w p' \<and> round_rank w p' < round_rank w p"
proof (cases "dp_call p w = NoCall")
  case False
  then show ?thesis using f
    by (cases "dp_call p w")
      (auto simp: worker_free_def worker_choice_def round_rank_def call_go_def Push_store_def Push_wake_def smph_release_def cgo_def sd_ops)
next
  case True
  then have "dp_loop p w \<noteq> WNotify" using r by (simp add: notifies_def worker_choice_def)
  then show ?thesis using f True
    by (cases "dp_loop p w")
      (auto simp: worker_free_def worker_choice_def round_rank_def loop_go_def Process_local_def Process_global_def Process_decrease_def
        Loop_sleep_def lgo_def sd_ops)
qed

lemma worker_free_notifies:
  assumes f: "worker_free w p" and r: "notifies (worker_choice w b p) p"
  shows "\<exists>p'. dp_step (worker_choice w b p) p = Some (p', []) \<and> GetTasks (dp_sd p') = 0"
  using assms by (auto simp: worker_free_def notifies_def worker_choice_def loop_go_def lgo_def split: if_splits)

text \<open>The rounds of a worker until it has notified; \<open>bs\<close> resolves its sleeps.\<close>

fun worker_runs :: "nat \<Rightarrow> bool list \<Rightarrow> idle_pool \<Rightarrow> idle_pool option" where
  "worker_runs w [] s = Some s"
| "worker_runs w (b # bs) s =
     (let c = worker_choice w b (ip_pool s) in
      case pool_moves c s of
        None \<Rightarrow> None
      | Some (s', e) \<Rightarrow> if notifies c (ip_pool s) then Some s' else worker_runs w bs s')"

lemma worker_runs_notify:
  "worker_free w (ip_pool s) \<Longrightarrow> length bs > round_rank w (ip_pool s) \<Longrightarrow>
   \<exists>s'. worker_runs w bs s = Some s' \<and> ip_pc s' = ip_pc (NotifyAll s) \<and> ip_mutex s' = ip_mutex s \<and> GetTasks (dp_sd (ip_pool s')) = 0"
proof (induction bs arbitrary: s)
  case (Cons b bs)
  let ?c = "worker_choice w b (ip_pool s)"
  show ?case
  proof (cases "notifies ?c (ip_pool s)")
    case True
    then obtain p' where "dp_step ?c (ip_pool s) = Some (p', [])" "GetTasks (dp_sd p') = 0"
      using worker_free_notifies [OF Cons.prems(1)] by blast
    then show ?thesis using True by (simp add: pool_moves_def NotifyAll_def)
  next
    case False
    then obtain p' where p': "dp_step ?c (ip_pool s) = Some (p', [])" "worker_free w p'" "round_rank w p' < round_rank w (ip_pool s)"
      using worker_free_step [OF Cons.prems(1)] by blast
    let ?s = "s\<lparr>ip_pool := p'\<rparr>"
    have "\<exists>s'. worker_runs w bs ?s = Some s' \<and> ip_pc s' = ip_pc (NotifyAll ?s) \<and> ip_mutex s' = ip_mutex ?s \<and> GetTasks (dp_sd (ip_pool s')) = 0"
      using Cons.IH [of ?s] Cons.prems(2) p'(2,3) by simp
    moreover have "ip_pc (NotifyAll ?s) = ip_pc (NotifyAll s)" by (simp add: NotifyAll_def fun_eq_iff)
    ultimately show ?thesis using p'(1) False by (simp add: pool_moves_def Let_def)
  qed
qed simp

lemma worker_runs_reach: "worker_runs w bs s = Some s' \<Longrightarrow> \<exists>es. reach idle_step s es s'"
proof (induction bs arbitrary: s)
  case Nil
  then show ?case using reach.reach_init [of idle_step] by auto
next
  case (Cons b bs)
  obtain s1 e where s1: "pool_moves (worker_choice w b (ip_pool s)) s = Some (s1, e)"
    "notifies (worker_choice w b (ip_pool s)) (ip_pool s) \<and> s' = s1 \<or> worker_runs w bs s1 = Some s'"
    using Cons.prems by (auto simp: Let_def split: option.splits if_splits)
  have one: "reach idle_step s e s1" by (rule reach_single [where c = "PoolChoice (worker_choice w b (ip_pool s))"]) (simp add: s1(1))
  from s1(2) show ?case
  proof
    assume "worker_runs w bs s1 = Some s'"
    then obtain es where "reach idle_step s1 es s'" using Cons.IH by blast
    then show ?thesis using reach_trans [OF _ one] by blast
  qed (use one in blast)
qed

lemma reachable_worker_free:
  assumes r: "reach idle_step (init_idle_pool n) es s" and n: "int n < 2 ^ 62" and w: "dp_loop (ip_pool s) w \<noteq> WNew" "held (dp_call (ip_pool s) w) = None"
    and z: "\<not> IsShutdown (dp_sd (ip_pool s))" "GetTasks (dp_sd (ip_pool s)) = 0"
  shows "worker_free w (ip_pool s)"
proof -
  obtain ps where ps: "reach dp_step (init_dpool n) ps (ip_pool s)" using idle_pool_reach [OF r] by blast
  have inv: "dp_pool_inv n ps (ip_pool s)" by (rule dp_counting.reach_inv [OF ps])
  then obtain at where at: "dp_inv at (ip_pool s)" "dp_count n (ip_pool s)" by (auto simp: dp_pool_inv_def)
  note acc = dp_inv_accounting [OF inv n]
  then have u: "unfinished (ip_pool s) = adding (ip_pool s)" using z(2) by blast
  then have "card (removing (ip_pool s)) = 0" using acc z(2) unfolding u by simp
  then have "removing (ip_pool s) = {}" using removing_finite [OF at(2)] by simp
  then have "dp_loop (ip_pool s) w \<noteq> WRemove" by (auto simp: removing_def)
  moreover have "before_shutdown (dp_loop (ip_pool s) w)" using pool_open [OF ps] z(1) by (simp add: open_inv_def)
  moreover have "dp_call (ip_pool s) w \<noteq> SubFault e" for e using dp_invD(8) [OF at(1), of w] by auto
  ultimately show ?thesis using acc w z by (simp add: worker_free_def)
qed

lemma round_rank_bound: "round_rank w p < 15"
proof -
  have "loop_rank q \<le> 11" for q by (cases q) auto
  moreover have "call_rank q \<le> 3" for q by (cases q) auto
  ultimately have "loop_rank (dp_loop p w) + call_rank (dp_call p w) \<le> 11 + 3" by (intro add_mono)
  then show ?thesis by (simp add: round_rank_def)
qed

subsection \<open>After the shutdown\<close>

text \<open>Every worker has left its loop.\<close>

definition all_exited :: "nat \<Rightarrow> dpool \<Rightarrow> bool" where
  "all_exited n p \<longleftrightarrow> dp_workers p = n \<and> (\<forall>w. dp_loop p w = (if w < n then WExit else WNew))"

lemma all_exited_step:
  assumes a: "all_exited n p" and st: "dp_step c p = Some (p', e)"
  shows "all_exited n p'" "\<not> notifies c p"
proof -
  have same: "dp_workers p' = dp_workers p \<and> dp_loop p' = dp_loop p"
  proof (cases c)
    case (CallGo t)
    then show ?thesis using st
      by (auto simp: call_go_def Submit_add_def Submit_progress_def Submit_route_def Submit_global_def Push_local_def Push_store_def
          Push_wake_def smph_release_def cgo_def split: submit_pc.splits sum.splits)
  next
    case (LoopGo w b)
    then show ?thesis using st a by (auto simp: all_exited_def loop_go_def split: if_splits)
  next
    case CtlGo
    then show ?thesis using st by (auto simp: ctl_go_def smph_release_def split: ctl_pc.splits if_splits)
  qed (use st a in \<open>auto simp: all_exited_def Submit_state_def cgo_def split: if_splits\<close>)
  then show "all_exited n p'" using a by (simp add: all_exited_def)
  show "\<not> notifies c p" using a by (cases c) (auto simp: notifies_def all_exited_def)
qed

lemma all_exited_sleeps:
  assumes "all_exited n (ip_pool s)" and "ip_pc s t = IdleSleep" and "idle_step c s = Some (s', e)" and "c \<noteq> IdleSpurious t"
  shows "all_exited n (ip_pool s') \<and> ip_pc s' t = IdleSleep"
proof (cases c)
  case (PoolChoice d)
  then show ?thesis using assms all_exited_step [OF assms(1), of d] by (auto simp: pool_moves_def split: option.splits if_splits)
qed (use assms in \<open>auto simp: WaitIdle_go_def idle_to_def split: if_splits idle_pc.splits\<close>)

lemma all_exited_forever:
  "all_exited n (ip_pool s) \<Longrightarrow> ip_pc s t = IdleSleep \<Longrightarrow> IdleSpurious t \<notin> set cs \<Longrightarrow> sched idle_step cs s = Some (s', es) \<Longrightarrow>
   ip_pc s' t = IdleSleep"
proof (induction cs arbitrary: s es)
  case (Cons c cs)
  then obtain s1 e1 es1 where s1: "idle_step c s = Some (s1, e1)" "sched idle_step cs s1 = Some (s', es1)" by (auto split: option.splits prod.splits)
  have "all_exited n (ip_pool s1) \<and> ip_pc s1 t = IdleSleep" using all_exited_sleeps [OF Cons.prems(1,2) s1(1)] Cons.prems(3) by auto
  then show ?case using Cons.IH [OF _ _ _ s1(2)] Cons.prems(3) by simp
qed simp

subsection \<open>Properties\<close>

text \<open>
  When \<open>WaitIdle\<close> returns on a \<open>DistributedPool\<close>, at that step the global queue and the queue of every worker are empty, no worker runs a task, and
  the only tasks that were submitted and are not finished are those of \<open>Submit\<close> calls that have not counted them yet.\<close>

lemma wait_idle_means_idle:
  assumes "reach idle_step (init_idle_pool n) es s" and "int n < 2 ^ 62" and "idle_step (IdleGo t) s = Some (s', e)" and "IdleReturned t \<in> set e"
  shows "dp_global (ip_pool s') = [] \<and> (\<forall>w. dp_local (ip_pool s') w = [] \<and> (\<forall>a. dp_loop (ip_pool s') w \<noteq> WRun a)) \<and>
    unfinished (ip_pool s') = adding (ip_pool s')"
proof -
  obtain ps where ps: "reach dp_step (init_dpool n) ps (ip_pool s)" using idle_pool_reach [OF assms(1)] by blast
  have "GetTasks (dp_sd (ip_pool s)) = 0" "ip_pool s' = ip_pool s"
    using assms(3,4) by (auto simp: WaitIdle_go_def idle_to_def split: idle_pc.splits if_splits)
  then show ?thesis using dp_inv_accounting [OF dp_counting.reach_inv [OF ps] assms(2)] by simp
qed

text \<open>
  C37: A notification that \<open>WaitIdle\<close> misses, between its test and its sleep, is made up for: while the pool is not shut down and has no tasks, any worker
  that has been started and is not in the middle of a \<open>Submit\<close> calls \<open>NotifyAll\<close> within fifteen steps of its own, however its sleeps end; then no
  thread sleeps in \<open>WaitIdle\<close>, and each thread that did returns with its next two steps, once the mutex is free.\<close>
theorem wait_idle_wakes:
  assumes "reach idle_step (init_idle_pool n) es s" and "int n < 2 ^ 62" and "dp_loop (ip_pool s) w \<noteq> WNew" and "held (dp_call (ip_pool s) w) = None"
    and "\<not> IsShutdown (dp_sd (ip_pool s))" and "GetTasks (dp_sd (ip_pool s)) = 0" and "length bs = 15"
  shows "\<exists>s'. worker_runs w bs s = Some s' \<and> (\<exists>es'. reach idle_step s es' s') \<and> (\<forall>t. ip_pc s' t \<noteq> IdleSleep) \<and>
    (\<forall>t. ip_pc s t = IdleSleep \<and> ip_mutex s = None \<longrightarrow> (\<exists>s''. sched idle_step [IdleGo t, IdleGo t] s' = Some (s'', [IdleReturned t])))"
proof -
  have "worker_free w (ip_pool s)" by (rule reachable_worker_free [OF assms(1-6)])
  then obtain s' where s': "worker_runs w bs s = Some s'" "ip_pc s' = ip_pc (NotifyAll s)" "ip_mutex s' = ip_mutex s"
    "GetTasks (dp_sd (ip_pool s')) = 0" using worker_runs_notify [of w s bs] round_rank_bound assms(7) by auto
  have "ip_pc s' t \<noteq> IdleSleep" for t by (simp add: s'(2) NotifyAll_def)
  moreover have "\<exists>s''. sched idle_step [IdleGo t, IdleGo t] s' = Some (s'', [IdleReturned t])" if "ip_pc s t = IdleSleep" "ip_mutex s = None" for t
    using that s'(2-4) by (simp add: NotifyAll_def WaitIdle_go_def idle_to_def)
  ultimately show ?thesis using s'(1) worker_runs_reach [OF s'(1)] by blast
qed

text \<open>The run after which the count is zero, the notification has passed and a thread sleeps.\<close>

definition missed_run :: "idle_choice list" where
  "missed_run =
     map PoolChoice [StartWorker 0, CallSubmit 5 42, CallGo 5, CallGo 5, CallGo 5, CallGo 5] @ [CallWaitIdle 9, IdleGo 9, IdleGo 9] @
     map PoolChoice [LoopGo 0 False, LoopGo 0 False, CallGo 0, CallGo 0, CallGo 0, CallGo 0, LoopGo 0 False, LoopGo 0 False, TaskCompletes 0,
       LoopGo 0 False, LoopGo 0 False] @ [IdleGo 9]"

theorem wait_idle_wakes_witness:
  "\<exists>es s. reach idle_step (init_idle_pool 1) es s \<and> GetTasks (dp_sd (ip_pool s)) = 0 \<and> ip_pc s 9 = IdleSleep \<and>
     (\<exists>s'. worker_runs 0 (replicate 15 False) s = Some s' \<and> (\<exists>s''. sched idle_step [IdleGo 9, IdleGo 9] s' = Some (s'', [IdleReturned 9])))"
proof -
  have "run_ok idle_step missed_run (init_idle_pool 1)
    (\<lambda>es s. dp_loop (ip_pool s) 0 = WLocal \<and> dp_call (ip_pool s) 0 = NoCall \<and> \<not> IsShutdown (dp_sd (ip_pool s)) \<and> GetTasks (dp_sd (ip_pool s)) = 0 \<and>
      ip_pc s 9 = IdleSleep \<and> ip_mutex s = None)" by code_simp
  then obtain es s where r: "reach idle_step (init_idle_pool 1) es s" "dp_loop (ip_pool s) 0 = WLocal" "dp_call (ip_pool s) 0 = NoCall"
    "\<not> IsShutdown (dp_sd (ip_pool s))" "GetTasks (dp_sd (ip_pool s)) = 0" "ip_pc s 9 = IdleSleep" "ip_mutex s = None" by (elim run_okE) blast
  have "int 1 < 2 ^ 62" "dp_loop (ip_pool s) 0 \<noteq> WNew" "held (dp_call (ip_pool s) 0) = None" "length (replicate 15 False) = 15" using r by simp_all
  from wait_idle_wakes [OF r(1) this(1-3) r(4,5) this(4)] show ?thesis using r by blast
qed

text \<open>
  With a shutdown the missed notification is not made up for: a worker that finds the pool empty and shut down leaves \<open>Process\<close> without a call of
  \<open>NotifyAll\<close>. A state is reachable in which the shutdown has joined every worker, the count is zero, and a thread sleeps in \<open>WaitIdle\<close>
  from which, whatever happens, only a spurious wake-up can free it.\<close>

lemma wait_idle_lost_at_shutdown:
  "\<exists>es s. reach idle_step (init_idle_pool 1) es s \<and> dp_ctl (ip_pool s) = CtlWake 1 \<and> GetTasks (dp_sd (ip_pool s)) = 0 \<and> ip_pc s 9 = IdleSleep \<and>
     (\<forall>cs s' es'. IdleSpurious 9 \<notin> set cs \<longrightarrow> sched idle_step cs s = Some (s', es') \<longrightarrow> ip_pc s' 9 = IdleSleep)"
proof -
  have "run_ok idle_step
    (missed_run @ map PoolChoice [CtlGo, CtlGo, LoopGo 0 False, LoopGo 0 False, LoopGo 0 False, LoopGo 0 False, LoopGo 0 False, LoopGo 0 False, CtlGo])
    (init_idle_pool 1)
    (\<lambda>es s. dp_ctl (ip_pool s) = CtlWake 1 \<and> GetTasks (dp_sd (ip_pool s)) = 0 \<and> ip_pc s 9 = IdleSleep \<and> dp_loop (ip_pool s) 0 = WExit)"
    by code_simp
  then obtain es s where r: "reach idle_step (init_idle_pool 1) es s" "dp_ctl (ip_pool s) = CtlWake 1" "GetTasks (dp_sd (ip_pool s)) = 0"
    "ip_pc s 9 = IdleSleep" "dp_loop (ip_pool s) 0 = WExit" by (elim run_okE) blast
  obtain ps where "reach dp_step (init_dpool 1) ps (ip_pool s)" using idle_pool_reach [OF r(1)] by blast
  then have "dp_count 1 (ip_pool s)" using dp_counting.reach_inv by (auto simp: dp_pool_inv_def)
  then have "all_exited 1 (ip_pool s)" using r(5) by (fastforce simp: all_exited_def dp_count_def)
  then show ?thesis using all_exited_forever [of 1 s 9] r by blast
qed

end
