(* ===== verification/Classic_MS_Queue.thy ===== *)
theory Classic_MS_Queue
  imports Queue_Spec Node_Chain
begin

text \<open>
  The Michael-Scott queue with counted pointers, \<^verbatim>\<open>src/components/lock_free/classic_ms_queue.h\<close>.

  A \<open>NodePointer\<close> is a pointer with a modification counter (a \<open>size_t\<close>, which wraps); it is loaded, compared and exchanged as a whole.
  Each load and compare-exchange is a step. \<open>cq_heap\<close> is what the memory holds and \<open>cq_freed\<close> the nodes that have been deleted; \<open>new\<close> returns an
  unused address or that of a deleted node, and the constructor of \<open>Node\<close> writes it. The allocator is outside the sources: \<open>cq_stable\<close> says
  whether the memory of a deleted node can still be read, as the type-preserving allocator of the class comment has it, or not, as with the
  ordinary \<open>delete\<close>, where such an access is a fault. Deleting a node twice is a fault with both.

  The lemmas show what the counters achieve and what they do not. While \<open>new\<close> does not return a node that a \<open>Push\<close> is about to link to
  (\<open>patient_step\<close>) and the counters have not gone round, the queue is linearizable and free of faults, although deleted nodes are reused while
  other threads hold pointers to them: a counter is the position of its node in the list of all nodes ever linked (\<open>stamped\<close>), so a
  compare-exchange of \<open>head\<close> or \<open>tail\<close> succeeds only when nothing has moved. The proof goes through the machine \<open>observing_spec\<close>, because \<open>TryPop\<close>
  reads that the queue is empty before it checks that its pointers are consistent. When \<open>new\<close> does return such a node, the queue is not
  linearizable, since the constructor resets the counter of \<open>next\<close>; and with the ordinary \<open>delete\<close> freed memory is read.
\<close>

subsection \<open>Nodes and program points\<close>

type_synonym node_pointer = "ptr \<times> size_t"

abbreviation node_ptr :: "node_pointer \<Rightarrow> ptr" where
  "node_ptr \<equiv> fst"

abbreviation counter :: "node_pointer \<Rightarrow> size_t" where
  "counter \<equiv> snd"

record 'v classic_node =
  cn_value :: 'v
  cn_next :: node_pointer

datatype 'v classic_pc =
    CIdle
  | CPushTail addr                                        \<comment> \<open>the new node; next is \<open>tail.load()\<close>\<close>
  | CPushNext addr node_pointer
  | CPushCheck addr node_pointer node_pointer
  | CPushLink addr node_pointer node_pointer
  | CPushHelp addr node_pointer node_pointer
  | CPushSwing addr node_pointer
  | CPopHead
  | CPopTail node_pointer
  | CPopNext node_pointer node_pointer
  | CPopCheck node_pointer node_pointer node_pointer      \<comment> \<open>\<open>old_head\<close>, \<open>old_tail\<close>, \<open>next_after_old_head\<close>\<close>
  | CPopHelp node_pointer node_pointer
  | CPopRead node_pointer node_pointer
  | CPopCas node_pointer node_pointer 'v
  | CPopDelete node_pointer 'v
  | CReturn "'v queue_result"
  | CFault fault

record 'v classic_queue =
  cq_head :: node_pointer
  cq_tail :: node_pointer
  cq_heap :: "addr \<Rightarrow> 'v classic_node option"
  cq_freed :: "addr list"
  cq_stable :: bool
  cq_pc :: "tid \<Rightarrow> 'v classic_pc"

datatype 'v classic_choice =
    CallClassicPush tid 'v addr
  | CallClassicPop tid
  | ClassicGo tid

text \<open>The constructor: a dummy node with the default value \<open>d\<close>.\<close>

definition init_classic :: "bool \<Rightarrow> 'v \<Rightarrow> 'v classic_queue" where
  "init_classic keeps d =
     \<lparr>cq_head = (Some 0, 0), cq_tail = (Some 0, 0), cq_heap = (\<lambda>_. None)(0 := Some \<lparr>cn_value = d, cn_next = (None, 0)\<rparr>),
      cq_freed = [], cq_stable = keeps, cq_pc = (\<lambda>_. CIdle)\<rparr>"

definition cset :: "tid \<Rightarrow> 'v classic_pc \<Rightarrow> 'v classic_queue \<Rightarrow> 'v classic_queue" where
  "cset t p s = s\<lparr>cq_pc := (cq_pc s)(t := p)\<rparr>"

text \<open>The addresses \<open>new\<close> may return, and the constructor of a node.\<close>

definition available :: "'v classic_queue \<Rightarrow> addr \<Rightarrow> bool" where
  "available s a \<longleftrightarrow> cq_heap s a = None \<or> a \<in> set (cq_freed s)"

definition new_classic :: "addr \<Rightarrow> 'v \<Rightarrow> 'v classic_queue \<Rightarrow> 'v classic_queue" where
  "new_classic a v s =
     s\<lparr>cq_heap := (cq_heap s)(a := Some \<lparr>cn_value = v, cn_next = (None, 0)\<rparr>), cq_freed := removeAll a (cq_freed s)\<rparr>"

text \<open>An access to a node.\<close>

definition on_classic ::
  "tid \<Rightarrow> ptr \<Rightarrow> (addr \<Rightarrow> 'v classic_node \<Rightarrow> 'v classic_queue) \<Rightarrow> 'v classic_queue \<Rightarrow> 'v classic_queue" where
  "on_classic t p f s =
     (case p of
        None \<Rightarrow> cset t (CFault NullDeref) s
      | Some a \<Rightarrow>
          (case cq_heap s a of
             None \<Rightarrow> cset t (CFault UseAfterFree) s
           | Some nd \<Rightarrow> if a \<in> set (cq_freed s) \<and> \<not> cq_stable s then cset t (CFault UseAfterFree) s else f a nd))"

subsection \<open>Push\<close>

definition CPush_tail :: "tid \<Rightarrow> addr \<Rightarrow> 'v classic_queue \<Rightarrow> 'v classic_queue" where
  "CPush_tail t n s = cset t (CPushNext n (cq_tail s)) s"

definition CPush_next :: "tid \<Rightarrow> addr \<Rightarrow> node_pointer \<Rightarrow> 'v classic_queue \<Rightarrow> 'v classic_queue" where
  "CPush_next t n old_tail s = on_classic t (node_ptr old_tail) (\<lambda>a nd. cset t (CPushCheck n old_tail (cn_next nd)) s) s"

definition CPush_check :: "tid \<Rightarrow> addr \<Rightarrow> node_pointer \<Rightarrow> node_pointer \<Rightarrow> 'v classic_queue \<Rightarrow> 'v classic_queue" where
  "CPush_check t n old_tail nx s =
     cset t (if old_tail = cq_tail s
             then (if node_ptr nx = None then CPushLink n old_tail nx else CPushHelp n old_tail nx)
             else CPushTail n) s"

definition CPush_link :: "tid \<Rightarrow> addr \<Rightarrow> node_pointer \<Rightarrow> node_pointer \<Rightarrow> 'v classic_queue \<Rightarrow> 'v classic_queue" where
  "CPush_link t n old_tail nx s =
     on_classic t (node_ptr old_tail)
       (\<lambda>a nd. if cn_next nd = nx
               then cset t (CPushSwing n old_tail)
                      (s\<lparr>cq_heap := (cq_heap s)(a := Some (nd\<lparr>cn_next := (Some n, counter nx + 1)\<rparr>))\<rparr>)
               else cset t (CPushTail n) s) s"

definition classic_cas_tail :: "node_pointer \<Rightarrow> ptr \<Rightarrow> 'v classic_queue \<Rightarrow> 'v classic_queue" where
  "classic_cas_tail old_tail p s =
     (if cq_tail s = old_tail then s\<lparr>cq_tail := (p, counter old_tail + 1)\<rparr> else s)"

definition CPush_help :: "tid \<Rightarrow> addr \<Rightarrow> node_pointer \<Rightarrow> node_pointer \<Rightarrow> 'v classic_queue \<Rightarrow> 'v classic_queue" where
  "CPush_help t n old_tail nx s = cset t (CPushTail n) (classic_cas_tail old_tail (node_ptr nx) s)"

definition CPush_swing :: "tid \<Rightarrow> addr \<Rightarrow> node_pointer \<Rightarrow> 'v classic_queue \<Rightarrow> 'v classic_queue" where
  "CPush_swing t n old_tail s = cset t (CReturn Pushed) (classic_cas_tail old_tail (Some n) s)"

subsection \<open>TryPop\<close>

definition CPop_head :: "tid \<Rightarrow> 'v classic_queue \<Rightarrow> 'v classic_queue" where
  "CPop_head t s = cset t (CPopTail (cq_head s)) s"

definition CPop_tail :: "tid \<Rightarrow> node_pointer \<Rightarrow> 'v classic_queue \<Rightarrow> 'v classic_queue" where
  "CPop_tail t old_head s = cset t (CPopNext old_head (cq_tail s)) s"

definition CPop_next :: "tid \<Rightarrow> node_pointer \<Rightarrow> node_pointer \<Rightarrow> 'v classic_queue \<Rightarrow> 'v classic_queue" where
  "CPop_next t old_head old_tail s =
     on_classic t (node_ptr old_head) (\<lambda>a nd. cset t (CPopCheck old_head old_tail (cn_next nd)) s) s"

definition CPop_check ::
  "tid \<Rightarrow> node_pointer \<Rightarrow> node_pointer \<Rightarrow> node_pointer \<Rightarrow> 'v classic_queue \<Rightarrow> 'v classic_queue" where
  "CPop_check t old_head old_tail nx s =
     cset t
       (if old_head = cq_head s then
          (if node_ptr old_head = node_ptr old_tail then
             (if node_ptr nx = None then CReturn (Popped None) else CPopHelp old_tail nx)
           else CPopRead old_head nx)
        else CPopHead) s"

definition CPop_help :: "tid \<Rightarrow> node_pointer \<Rightarrow> node_pointer \<Rightarrow> 'v classic_queue \<Rightarrow> 'v classic_queue" where
  "CPop_help t old_tail nx s = cset t CPopHead (classic_cas_tail old_tail (node_ptr nx) s)"

definition CPop_read :: "tid \<Rightarrow> node_pointer \<Rightarrow> node_pointer \<Rightarrow> 'v classic_queue \<Rightarrow> 'v classic_queue" where
  "CPop_read t old_head nx s = on_classic t (node_ptr nx) (\<lambda>a nd. cset t (CPopCas old_head nx (cn_value nd)) s) s"

definition CPop_cas :: "tid \<Rightarrow> node_pointer \<Rightarrow> node_pointer \<Rightarrow> 'v \<Rightarrow> 'v classic_queue \<Rightarrow> 'v classic_queue" where
  "CPop_cas t old_head nx v s =
     (if cq_head s = old_head
      then cset t (CPopDelete old_head v) (s\<lparr>cq_head := (node_ptr nx, counter old_head + 1)\<rparr>)
      else cset t CPopHead s)"

definition CPop_delete :: "tid \<Rightarrow> node_pointer \<Rightarrow> 'v \<Rightarrow> 'v classic_queue \<Rightarrow> 'v classic_queue" where
  "CPop_delete t old_head v s =
     (case node_ptr old_head of
        None \<Rightarrow> cset t (CReturn (Popped (Some v))) s
      | Some a \<Rightarrow>
          if cq_heap s a = None \<or> a \<in> set (cq_freed s) then cset t (CFault UseAfterFree) s
          else cset t (CReturn (Popped (Some v))) (s\<lparr>cq_freed := a # cq_freed s\<rparr>))"

subsection \<open>The queue as a step machine\<close>

definition classic_go :: "tid \<Rightarrow> 'v classic_queue \<Rightarrow> 'v classic_queue option" where
  "classic_go t s =
     (case cq_pc s t of
        CPushTail n \<Rightarrow> Some (CPush_tail t n s)
      | CPushNext n ot \<Rightarrow> Some (CPush_next t n ot s)
      | CPushCheck n ot nx \<Rightarrow> Some (CPush_check t n ot nx s)
      | CPushLink n ot nx \<Rightarrow> Some (CPush_link t n ot nx s)
      | CPushHelp n ot nx \<Rightarrow> Some (CPush_help t n ot nx s)
      | CPushSwing n ot \<Rightarrow> Some (CPush_swing t n ot s)
      | CPopHead \<Rightarrow> Some (CPop_head t s)
      | CPopTail h \<Rightarrow> Some (CPop_tail t h s)
      | CPopNext h ot \<Rightarrow> Some (CPop_next t h ot s)
      | CPopCheck h ot nx \<Rightarrow> Some (CPop_check t h ot nx s)
      | CPopHelp ot nx \<Rightarrow> Some (CPop_help t ot nx s)
      | CPopRead h nx \<Rightarrow> Some (CPop_read t h nx s)
      | CPopCas h nx v \<Rightarrow> Some (CPop_cas t h nx v s)
      | CPopDelete h v \<Rightarrow> Some (CPop_delete t h v s)
      | _ \<Rightarrow> None)"

fun classic_step :: "('v classic_choice, 'v classic_queue, 'v queue_event) stepper" where
  "classic_step (CallClassicPush t v a) s =
     (if cq_pc s t = CIdle \<and> available s a
      then Some (cset t (CPushTail a) (new_classic a v s), [Invoke t (OpPush v)])
      else None)"
| "classic_step (CallClassicPop t) s =
     (if cq_pc s t = CIdle then Some (cset t CPopHead s, [Invoke t OpPop]) else None)"
| "classic_step (ClassicGo t) s =
     (case cq_pc s t of
        CReturn r \<Rightarrow> Some (cset t CIdle s, [Return t r])
      | _ \<Rightarrow> map_option (\<lambda>s'. (s', [])) (classic_go t s))"

text \<open>The node a \<open>Push\<close> is about to link to. \<open>patient_step\<close> leaves out the calls in which \<open>new\<close> returns such a node.\<close>

fun links_onto :: "'v classic_pc \<Rightarrow> ptr" where
  "links_onto (CPushLink n ot nx) = node_ptr ot"
| "links_onto _ = None"

definition linking :: "'v classic_queue \<Rightarrow> addr \<Rightarrow> bool" where
  "linking s a \<longleftrightarrow> (\<exists>t. links_onto (cq_pc s t) = Some a)"

fun patient_step :: "('v classic_choice, 'v classic_queue, 'v queue_event) stepper" where
  "patient_step (CallClassicPush t v a) s = (if linking s a then None else classic_step (CallClassicPush t v a) s)"
| "patient_step c s = classic_step c s"

subsection \<open>The destructor\<close>

text \<open>It reads the successor of the head and deletes the head; the result lists the deleted nodes.\<close>

partial_function (option) destroy_classic ::
  "ptr \<Rightarrow> (addr \<Rightarrow> 'v classic_node option) \<Rightarrow> addr list \<Rightarrow> (fault + addr list) option" where
  "destroy_classic h hp freed =
     (case h of
        None \<Rightarrow> Some (Inr freed)
      | Some a \<Rightarrow>
          (case hp a of
             None \<Rightarrow> Some (Inl UseAfterFree)
           | Some nd \<Rightarrow>
               if a \<in> set freed then Some (Inl UseAfterFree)
               else destroy_classic (node_ptr (cn_next nd)) hp (a # freed)))"

subsection \<open>The invariant\<close>

text \<open>
  \<open>ns\<close> lists the nodes ever linked, in order, an address once for every time it was linked; \<open>hi\<close> and \<open>ti\<close> are the positions of
  \<open>head\<close> and \<open>tail\<close>. The nodes from \<open>hi\<close> on are live.
\<close>

definition stamped :: "addr list \<Rightarrow> nat \<Rightarrow> node_pointer \<Rightarrow> bool" where
  "stamped ns i p \<longleftrightarrow> i < length ns \<and> p = (Some (ns ! i), of_nat i)"

definition cnext :: "(addr \<Rightarrow> 'v classic_node option) \<Rightarrow> ptr \<Rightarrow> ptr" where
  "cnext hp p = (case p of None \<Rightarrow> None | Some a \<Rightarrow> (case hp a of None \<Rightarrow> None | Some nd \<Rightarrow> node_ptr (cn_next nd)))"

definition clinked :: "nat \<Rightarrow> addr list \<Rightarrow> (addr \<Rightarrow> 'v classic_node option) \<Rightarrow> bool" where
  "clinked hi ns hp \<longleftrightarrow> (\<forall>i. hi \<le> i \<longrightarrow> i < length ns \<longrightarrow>
     cnext hp (Some (ns ! i)) = (if Suc i < length ns then Some (ns ! Suc i) else None))"

definition cval :: "(addr \<Rightarrow> 'v classic_node option) \<Rightarrow> addr \<Rightarrow> 'v option" where
  "cval hp a = map_option cn_value (hp a)"

definition cpushing :: "(addr \<Rightarrow> 'v classic_node option) \<Rightarrow> 'v op_status \<Rightarrow> addr \<Rightarrow> bool" where
  "cpushing hp st n \<longleftrightarrow> (\<exists>v. st = Pending (OpPush v) \<and> hp n = Some \<lparr>cn_value = v, cn_next = (None, 0)\<rparr>)"

definition met :: "addr list \<Rightarrow> nat \<Rightarrow> node_pointer \<Rightarrow> bool" where
  "met ns k p \<longleftrightarrow> (\<exists>i \<le> k. stamped ns i p)"

definition leads :: "addr list \<Rightarrow> nat \<Rightarrow> node_pointer \<Rightarrow> ptr \<Rightarrow> bool" where
  "leads ns k p nx \<longleftrightarrow> (\<exists>i \<le> k. stamped ns i p \<and> node_at ns (Suc i) nx)"

text \<open>
  What a thread knows; \<open>obs\<close> says that its pop has seen the queue empty. What it has read of a node that may have been popped since holds only
  while \<open>head\<close> or \<open>tail\<close> has not moved.
\<close>

fun cpc_ok ::
  "addr list \<Rightarrow> nat \<Rightarrow> nat \<Rightarrow> (addr \<Rightarrow> 'v classic_node option) \<Rightarrow> 'v op_status \<Rightarrow> bool \<Rightarrow> 'v classic_pc \<Rightarrow> bool" where
  "cpc_ok ns hi ti hp st obs CIdle \<longleftrightarrow> st = Idle"
| "cpc_ok ns hi ti hp st obs (CPushTail n) \<longleftrightarrow> cpushing hp st n"
| "cpc_ok ns hi ti hp st obs (CPushNext n ot) \<longleftrightarrow> cpushing hp st n \<and> met ns ti ot"
| "cpc_ok ns hi ti hp st obs (CPushCheck n ot nx) \<longleftrightarrow> cpushing hp st n \<and>
     (\<exists>j \<le> ti. stamped ns j ot \<and> (j = ti \<longrightarrow> node_ptr nx \<noteq> None \<longrightarrow> node_at ns (Suc j) (node_ptr nx)))"
| "cpc_ok ns hi ti hp st obs (CPushLink n ot nx) \<longleftrightarrow> cpushing hp st n \<and> node_ptr nx = None \<and>
     (\<exists>j \<le> ti. stamped ns j ot \<and> (j < hi \<longrightarrow> cnext hp (node_ptr ot) \<noteq> None))"
| "cpc_ok ns hi ti hp st obs (CPushHelp n ot nx) \<longleftrightarrow> cpushing hp st n \<and> leads ns ti ot (node_ptr nx)"
| "cpc_ok ns hi ti hp st obs (CPushSwing n ot) \<longleftrightarrow> st = Finished Pushed \<and> leads ns ti ot (Some n)"
| "cpc_ok ns hi ti hp st obs CPopHead \<longleftrightarrow> st = Pending OpPop"
| "cpc_ok ns hi ti hp st obs (CPopTail h) \<longleftrightarrow> st = Pending OpPop \<and> met ns hi h"
| "cpc_ok ns hi ti hp st obs (CPopNext h ot) \<longleftrightarrow> st = Pending OpPop \<and>
     (\<exists>i j. i \<le> hi \<and> i \<le> j \<and> j \<le> ti \<and> stamped ns i h \<and> stamped ns j ot)"
| "cpc_ok ns hi ti hp st obs (CPopCheck h ot nx) \<longleftrightarrow> st = Pending OpPop \<and>
     (\<exists>i j. i \<le> hi \<and> i \<le> j \<and> j \<le> ti \<and> stamped ns i h \<and> stamped ns j ot \<and>
        (i = hi \<longrightarrow> (if node_ptr nx = None then obs \<and> i = j else node_at ns (Suc i) (node_ptr nx))))"
| "cpc_ok ns hi ti hp st obs (CPopHelp ot nx) \<longleftrightarrow> st = Pending OpPop \<and> leads ns ti ot (node_ptr nx)"
| "cpc_ok ns hi ti hp st obs (CPopRead h nx) \<longleftrightarrow> st = Pending OpPop \<and>
     (\<exists>i \<le> hi. i < ti \<and> stamped ns i h \<and> node_at ns (Suc i) (node_ptr nx))"
| "cpc_ok ns hi ti hp st obs (CPopCas h nx v) \<longleftrightarrow> st = Pending OpPop \<and>
     (\<exists>i \<le> hi. i < ti \<and> stamped ns i h \<and> node_at ns (Suc i) (node_ptr nx) \<and> (i = hi \<longrightarrow> cval hp (ns ! Suc i) = Some v))"
| "cpc_ok ns hi ti hp st obs (CPopDelete h v) \<longleftrightarrow> st = Finished (Popped (Some v)) \<and> node_ptr h \<noteq> None"
| "cpc_ok ns hi ti hp st obs (CReturn r) \<longleftrightarrow> st = Finished r"
| "cpc_ok ns hi ti hp st obs (CFault f) \<longleftrightarrow> False"

text \<open>The node a thread has to itself: one not linked yet, or one popped and not deleted yet.\<close>

fun kept :: "'v classic_pc \<Rightarrow> ptr" where
  "kept (CPushTail n) = Some n"
| "kept (CPushNext n ot) = Some n"
| "kept (CPushCheck n ot nx) = Some n"
| "kept (CPushLink n ot nx) = Some n"
| "kept (CPushHelp n ot nx) = Some n"
| "kept (CPopDelete h v) = node_ptr h"
| "kept _ = None"

definition kept_nodes :: "(tid \<Rightarrow> 'v classic_pc) \<Rightarrow> addr set" where
  "kept_nodes pcs = {a. \<exists>t. kept (pcs t) = Some a}"

definition cchain :: "addr list \<Rightarrow> nat \<Rightarrow> nat \<Rightarrow> 'v list \<Rightarrow> 'v classic_queue \<Rightarrow> bool" where
  "cchain ns hi ti q s \<longleftrightarrow> clinked hi ns (cq_heap s) \<and> hi \<le> ti \<and> stamped ns hi (cq_head s) \<and> stamped ns ti (cq_tail s) \<and>
     map (cval (cq_heap s)) (drop (Suc hi) ns) = map Some q"

text \<open>Every node ever allocated is live, deleted, or kept by one thread.\<close>

definition cmemory :: "addr list \<Rightarrow> nat \<Rightarrow> 'v classic_queue \<Rightarrow> bool" where
  "cmemory ns hi s \<longleftrightarrow> distinct (drop hi ns) \<and> exclusive kept (cq_pc s) \<and> set ns \<subseteq> dom (cq_heap s) \<and>
     kept_nodes (cq_pc s) \<inter> set (drop hi ns) = {} \<and> kept_nodes (cq_pc s) \<inter> set (cq_freed s) = {} \<and>
     set (drop hi ns) \<inter> set (cq_freed s) = {} \<and>
     dom (cq_heap s) = set (drop hi ns) \<union> set (cq_freed s) \<union> kept_nodes (cq_pc s)"

text \<open>\<open>k\<close> calls of \<open>Push\<close> so far: no position exceeds them, so the counters have not gone round.\<close>

definition pending_pushes :: "(tid \<Rightarrow> 'v op_status) \<Rightarrow> tid set" where
  "pending_pushes st = {t. \<exists>v. st t = Pending (OpPush v)}"

definition ccount :: "nat \<Rightarrow> addr list \<Rightarrow> (tid \<Rightarrow> 'v op_status) \<Rightarrow> bool" where
  "ccount k ns st \<longleftrightarrow> k < 2 ^ 64 \<and> finite (pending_pushes st) \<and> length ns + card (pending_pushes st) \<le> Suc k"

definition cq_inv ::
  "nat \<Rightarrow> addr list \<Rightarrow> nat \<Rightarrow> nat \<Rightarrow> 'v list \<Rightarrow> (tid \<Rightarrow> 'v op_status) \<Rightarrow> tid set \<Rightarrow> 'v classic_queue \<Rightarrow> bool" where
  "cq_inv k ns hi ti q st obs s \<longleftrightarrow> cchain ns hi ti q s \<and> cmemory ns hi s \<and> ccount k ns st \<and>
     (\<forall>t. cpc_ok ns hi ti (cq_heap s) (st t) (t \<in> obs) (cq_pc s t))"

definition cq_sim :: "'v observing_queue \<Rightarrow> nat \<times> 'v classic_queue \<Rightarrow> bool" where
  "cq_sim b x = (case b of ((q, st), obs) \<Rightarrow> case x of (k, s) \<Rightarrow> \<exists>ns hi ti. cq_inv k ns hi ti q st obs s)"

definition cq_answers :: "'v observing_queue \<Rightarrow> 'v queue_event list \<Rightarrow> nat \<Rightarrow> 'v classic_queue \<Rightarrow> bool" where
  "cq_answers b e k s \<longleftrightarrow> (\<exists>b'. reach observing_spec b e b' \<and> cq_sim b' (k, s))"

lemma cq_answersI:
  "reach observing_spec b e ((q, st), obs) \<Longrightarrow> cq_inv k ns hi ti q st obs s \<Longrightarrow> cq_answers b e k s"
  unfolding cq_answers_def cq_sim_def by (intro exI [of _ "((q, st), obs)"]) auto

lemma cq_answers_same: "cq_inv k ns hi ti q st obs s \<Longrightarrow> cq_answers ((q, st), obs) [] k s"
  by (rule cq_answersI [OF reach.reach_init])

lemma cq_invD:
  assumes "cq_inv k ns hi ti q st obs s"
  shows "clinked hi ns (cq_heap s)" "hi \<le> ti" "stamped ns hi (cq_head s)" "stamped ns ti (cq_tail s)"
    "map (cval (cq_heap s)) (drop (Suc hi) ns) = map Some q" "cmemory ns hi s" "ccount k ns st"
    "cpc_ok ns hi ti (cq_heap s) (st t) (t \<in> obs) (cq_pc s t)"
  using assms by (auto simp: cq_inv_def cchain_def)

lemma cq_invI:
  assumes "clinked hi ns (cq_heap s)" "hi \<le> ti" "stamped ns hi (cq_head s)" "stamped ns ti (cq_tail s)"
    "map (cval (cq_heap s)) (drop (Suc hi) ns) = map Some q" "cmemory ns hi s" "ccount k ns st"
    "\<And>t. cpc_ok ns hi ti (cq_heap s) (st t) (t \<in> obs) (cq_pc s t)"
  shows "cq_inv k ns hi ti q st obs s"
  using assms by (auto simp: cq_inv_def cchain_def)

subsection \<open>Positions and counters\<close>

lemma stamped_append [intro]: "stamped ns i p \<Longrightarrow> stamped (ns @ ms) i p"
  by (auto simp: stamped_def nth_append)

lemma stamped_unique:
  assumes "ccount k ns st" and "stamped ns i p" and "stamped ns j p"
  shows "i = j"
proof -
  have "i < 2 ^ 64" "j < 2 ^ 64" and "of_nat i = (of_nat j :: size_t)" using assms by (auto simp: stamped_def ccount_def)
  then have "unat (of_nat i :: size_t) = unat (of_nat j :: size_t)" by simp
  then show ?thesis using \<open>i < 2 ^ 64\<close> \<open>j < 2 ^ 64\<close> by (simp add: unat_of_nat take_bit_nat_eq_self)
qed

lemma stamped_next: "stamped ns i p \<Longrightarrow> node_at ns (Suc i) nx \<Longrightarrow> stamped ns (Suc i) (nx, counter p + 1)"
  by (auto simp: stamped_def node_at_def)

lemma met_mono: "met ns k p \<Longrightarrow> k \<le> k' \<Longrightarrow> met (ns @ ms) k' p"
  unfolding met_def by (meson le_trans stamped_append)

lemma leads_mono: "leads ns k p nx \<Longrightarrow> k \<le> k' \<Longrightarrow> leads (ns @ ms) k' p nx"
  unfolding leads_def by (meson le_trans stamped_append node_at_append)

lemma live_position:
  assumes "distinct (drop hi ns)" and "hi \<le> i" "hi \<le> j" and "i < length ns" "j < length ns" and "ns ! i = ns ! j"
  shows "i = j"
proof -
  have "drop hi ns ! (i - hi) = drop hi ns ! (j - hi)" using assms by simp
  then have "i - hi = j - hi" using assms by (subst (asm) nth_eq_iff_index_eq) auto
  then show ?thesis using assms by simp
qed

lemma live_mem: "hi \<le> i \<Longrightarrow> i < length ns \<Longrightarrow> ns ! i \<in> set (drop hi ns)"
  unfolding in_set_conv_nth by (intro exI [of _ "i - hi"]) simp

lemma kept_nodes_upd:
  "exclusive kept pcs \<Longrightarrow> kept_nodes (pcs(t := p)) = kept_nodes pcs - set_option (kept (pcs t)) \<union> set_option (kept p)"
  unfolding kept_nodes_def exclusive_def by (auto split: if_splits)

lemma kept_nodes_same: "kept p = kept (pcs t) \<Longrightarrow> kept_nodes (pcs(t := p)) = kept_nodes pcs"
  unfolding kept_nodes_def by (auto split: if_splits)

lemma cmemory_local: "cmemory ns hi s \<Longrightarrow> kept p = kept (cq_pc s t) \<Longrightarrow> cmemory ns hi (cset t p s)"
  unfolding cmemory_def cset_def by (auto simp: kept_nodes_same intro!: exclusive_upd)

lemma cpc_ok_stable:
  assumes "cpc_ok ns hi ti hp st obs pc" and "hi \<le> hi'" "ti \<le> ti'"
    and own: "\<And>n. kept pc = Some n \<Longrightarrow> hp' n = hp n"
    and live: "\<And>a. a \<in> set (drop hi ns) \<Longrightarrow> cval hp' a = cval hp a"
    and onto: "\<And>a. links_onto pc = Some a \<Longrightarrow> cnext hp (Some a) \<noteq> None \<Longrightarrow> cnext hp' (Some a) \<noteq> None"
    and popped: "\<And>j. hi \<le> j \<Longrightarrow> j < hi' \<Longrightarrow> cnext hp' (Some (ns ! j)) \<noteq> None"
  shows "cpc_ok (ns @ ms) hi' ti' hp' st obs pc"
proof (cases pc)
  case (CPushLink n ot nx)
  with assms(1) obtain j where j: "j \<le> ti" "stamped ns j ot" "j < hi \<longrightarrow> cnext hp (node_ptr ot) \<noteq> None" by auto
  then have "cnext hp' (node_ptr ot) \<noteq> None" if "j < hi'"
    using that popped [of j] onto CPushLink by (cases "j < hi") (auto simp: stamped_def)
  with j(1,2) assms(3) have "\<exists>j \<le> ti'. stamped (ns @ ms) j ot \<and> (j < hi' \<longrightarrow> cnext hp' (node_ptr ot) \<noteq> None)"
    by (intro exI [of _ j]) auto
  with assms(1) own CPushLink show ?thesis by (simp add: cpushing_def)
next
  case (CPopCas h nx v)
  with assms(1) obtain i where i: "i \<le> hi" "i < ti" "stamped ns i h" "node_at ns (Suc i) (node_ptr nx)"
    "i = hi \<longrightarrow> cval hp (ns ! Suc i) = Some v" by auto
  have "cval hp' ((ns @ ms) ! Suc i) = Some v" if "i = hi'"
    using that i assms(2) live live_mem [of hi "Suc i" ns] by (auto simp: node_at_def nth_append)
  with i assms(2,3) have "\<exists>i \<le> hi'. i < ti' \<and> stamped (ns @ ms) i h \<and> node_at (ns @ ms) (Suc i) (node_ptr nx) \<and>
      (i = hi' \<longrightarrow> cval hp' ((ns @ ms) ! Suc i) = Some v)"
    by (intro exI [of _ i]) auto
  with assms(1) CPopCas show ?thesis by simp
next
  case (CPushCheck n ot nx)
  with assms(1) obtain j where j: "j \<le> ti" "stamped ns j ot" "j = ti \<longrightarrow> node_ptr nx \<noteq> None \<longrightarrow> node_at ns (Suc j) (node_ptr nx)" by auto
  then have "\<exists>j \<le> ti'. stamped (ns @ ms) j ot \<and> (j = ti' \<longrightarrow> node_ptr nx \<noteq> None \<longrightarrow> node_at (ns @ ms) (Suc j) (node_ptr nx))"
    using assms(3) by (intro exI [of _ j]) auto
  with assms(1) own CPushCheck show ?thesis by (simp add: cpushing_def)
next
  case (CPopCheck h ot nx)
  with assms(1) obtain i j where i: "i \<le> hi" "i \<le> j" "j \<le> ti" "stamped ns i h" "stamped ns j ot"
    "i = hi \<longrightarrow> (if node_ptr nx = None then obs \<and> i = j else node_at ns (Suc i) (node_ptr nx))" by auto
  then have "\<exists>i j. i \<le> hi' \<and> i \<le> j \<and> j \<le> ti' \<and> stamped (ns @ ms) i h \<and> stamped (ns @ ms) j ot \<and>
      (i = hi' \<longrightarrow> (if node_ptr nx = None then obs \<and> i = j else node_at (ns @ ms) (Suc i) (node_ptr nx)))"
    using assms(2,3) by (intro exI [of _ i] exI [of _ j]) auto
  with assms(1) CPopCheck show ?thesis by simp
next
  case (CPopNext h ot)
  with assms(1) obtain i j where i: "i \<le> hi" "i \<le> j" "j \<le> ti" "stamped ns i h" "stamped ns j ot" by auto
  then have "\<exists>i j. i \<le> hi' \<and> i \<le> j \<and> j \<le> ti' \<and> stamped (ns @ ms) i h \<and> stamped (ns @ ms) j ot"
    using assms(2,3) by (intro exI [of _ i] exI [of _ j]) auto
  with assms(1) CPopNext show ?thesis by simp
next
  case (CPopRead h nx)
  with assms(1) obtain i where i: "i \<le> hi" "i < ti" "stamped ns i h" "node_at ns (Suc i) (node_ptr nx)" by auto
  then have "\<exists>i \<le> hi'. i < ti' \<and> stamped (ns @ ms) i h \<and> node_at (ns @ ms) (Suc i) (node_ptr nx)"
    using assms(2,3) by (intro exI [of _ i]) auto
  with assms(1) CPopRead show ?thesis by simp
qed (use assms(1-4) in \<open>auto simp: cpushing_def intro: met_mono leads_mono\<close>)

subsection \<open>Steps of one thread\<close>

text \<open>A run in which no freed memory is accessed, or in which that is harmless.\<close>

definition unfaulted :: "'v classic_queue \<Rightarrow> bool" where
  "unfaulted s \<longleftrightarrow> cq_stable s \<or> (\<forall>t f. cq_pc s t \<noteq> CFault f)"

lemma on_classic_node:
  "cq_heap s a = Some nd \<Longrightarrow> unfaulted (on_classic t (Some a) f s) \<Longrightarrow> on_classic t (Some a) f s = f a nd"
  by (auto simp: on_classic_def unfaulted_def cset_def split: if_splits)

lemma linked_node:
  assumes "cq_inv k ns hi ti q st obs s" and "i < length ns"
  obtains nd where "cq_heap s (ns ! i) = Some nd" "cnext (cq_heap s) (Some (ns ! i)) = node_ptr (cn_next nd)"
    "\<And>t f. unfaulted (on_classic t (Some (ns ! i)) f s) \<Longrightarrow> on_classic t (Some (ns ! i)) f s = f (ns ! i) nd"
proof -
  have "ns ! i \<in> dom (cq_heap s)" using cq_invD(6) [OF assms(1)] nth_mem [OF assms(2)] by (auto simp: cmemory_def)
  then obtain nd where nd: "cq_heap s (ns ! i) = Some nd" by blast
  then show thesis using that [OF nd] on_classic_node [OF nd] by (simp add: cnext_def)
qed

lemma ccount_upd:
  "ccount k ns st \<Longrightarrow> (\<exists>v. x = Pending (OpPush v)) = (\<exists>v. st t = Pending (OpPush v)) \<Longrightarrow> ccount k ns (st(t := x))"
proof -
  assume "ccount k ns st" and x: "(\<exists>v. x = Pending (OpPush v)) = (\<exists>v. st t = Pending (OpPush v))"
  moreover have "pending_pushes (st(t := x)) = pending_pushes st" using x by (auto simp: pending_pushes_def split: if_splits)
  ultimately show ?thesis by (simp add: ccount_def)
qed

lemma cq_local:
  assumes inv: "cq_inv k ns hi ti q st obs s" and "cpc_ok ns hi ti (cq_heap s) x (t \<in> obs') p" and "kept p = kept (cq_pc s t)"
    and "obs' - {t} = obs - {t}" and "(\<exists>v. x = Pending (OpPush v)) = (\<exists>v. st t = Pending (OpPush v))"
  shows "cq_inv k ns hi ti q (st(t := x)) obs' (cset t p s)"
proof -
  have "u \<in> obs' \<longleftrightarrow> u \<in> obs" if "u \<noteq> t" for u using assms(4) that by blast
  then have "cpc_ok ns hi ti (cq_heap s) ((st(t := x)) u) (u \<in> obs') (((cq_pc s)(t := p)) u)" for u
    using cq_invD(8) [OF inv, of u] assms(2) by auto
  moreover have "ccount k ns (st(t := x))" using cq_invD(7) [OF inv] assms(5) by (rule ccount_upd)
  moreover have "cmemory ns hi (cset t p s)" using cq_invD(6) [OF inv] assms(3) by (rule cmemory_local)
  ultimately show ?thesis using inv by (auto simp: cq_inv_def cchain_def cset_def)
qed

lemma cq_local_same:
  assumes "cq_inv k ns hi ti q st obs s" and "cpc_ok ns hi ti (cq_heap s) (st t) (t \<in> obs) p" "kept p = kept (cq_pc s t)"
  shows "cq_answers ((q, st), obs) [] k (cset t p s)"
  using cq_answers_same [OF cq_local [OF assms refl refl]] by simp

lemma cmemory_view:
  "cmemory ns hi s \<Longrightarrow> cq_heap s' = cq_heap s \<Longrightarrow> cq_freed s' = cq_freed s \<Longrightarrow> cq_pc s' = cq_pc s \<Longrightarrow> cmemory ns hi s'"
  unfolding cmemory_def by (elim conjE, intro conjI) simp_all

lemma cq_tail_cas:
  assumes inv: "cq_inv k ns hi ti q st obs s" and "leads ns ti ot p'"
    and ok: "\<And>ti'. ti \<le> ti' \<Longrightarrow> cpc_ok ns hi ti' (cq_heap s) (st t) (t \<in> obs) p"
    and kept: "kept p = kept (cq_pc s t)"
  shows "cq_answers ((q, st), obs) [] k (cset t p (classic_cas_tail ot p' s))"
proof (cases "cq_tail s = ot")
  case False
  then show ?thesis using cq_local_same [OF inv ok kept] by (simp add: classic_cas_tail_def)
next
  case True
  note D = cq_invD [OF inv]
  obtain i where i: "stamped ns i ot" "node_at ns (Suc i) p'" using assms(2) by (auto simp: leads_def)
  moreover have "i = ti" using stamped_unique [OF D(7) i(1)] D(4) True by blast
  ultimately have at: "stamped ns (Suc ti) (p', counter ot + 1)" using stamped_next by blast
  have "cpc_ok ns hi (Suc ti) (cq_heap s) (st u) (u \<in> obs) (((cq_pc s)(t := p)) u)" for u
    using cpc_ok_stable [OF D(8) [of u], of hi "Suc ti" "cq_heap s" "[]"] ok by auto
  moreover have "cmemory ns hi (cset t p (classic_cas_tail ot p' s))"
    using cmemory_local [OF D(6) kept] by (rule cmemory_view) (simp_all add: classic_cas_tail_def cset_def)
  ultimately have "cq_inv k ns hi (Suc ti) q st obs (cset t p (classic_cas_tail ot p' s))"
    using True at D(1-5,7) by (intro cq_invI) (auto simp: classic_cas_tail_def cset_def)
  then show ?thesis by (rule cq_answers_same)
qed

lemma clinked_link:
  assumes "clinked hi ns hp" and "ns \<noteq> []" and "hi \<le> length ns - 1" and "n \<notin> set (drop hi ns)" and "distinct (drop hi ns)"
    and "hp (last ns) = Some nd" and "cnext hp (Some n) = None"
  shows "clinked hi (ns @ [n]) (hp(last ns := Some (nd\<lparr>cn_next := (Some n, c)\<rparr>)))"
  unfolding clinked_def
proof (intro allI impI)
  fix i
  assume i: "hi \<le> i" "i < length (ns @ [n])"
  let ?hp = "hp(last ns := Some (nd\<lparr>cn_next := (Some n, c)\<rparr>))"
  have last: "last ns = ns ! (length ns - 1)" using assms(2) by (rule last_conv_nth)
  have mem: "last ns \<in> set (drop hi ns)" using live_mem [of hi "length ns - 1" ns] assms(2,3) last by simp
  consider "i = length ns" | "i = length ns - 1" "i < length ns" | "Suc i < length ns" using i by fastforce
  then show "cnext ?hp (Some ((ns @ [n]) ! i)) = (if Suc i < length (ns @ [n]) then Some ((ns @ [n]) ! Suc i) else None)"
  proof cases
    case 1
    then show ?thesis using assms(4,7) mem by (auto simp: cnext_def)
  next
    case 2
    then show ?thesis using assms(2) last by (auto simp: nth_append cnext_def)
  next
    case 3
    then have "ns ! i \<noteq> last ns"
      using live_position [OF assms(5) i(1) assms(3), of] assms(2) unfolding last by fastforce
    moreover have "cnext hp (Some (ns ! i)) = Some (ns ! Suc i)" using assms(1) i(1) 3 unfolding clinked_def by auto
    ultimately show ?thesis using 3 by (simp add: nth_append cnext_def)
  qed
qed

text \<open>Linking the new node: the effect of a push.\<close>

lemma cq_link:
  assumes inv: "cq_inv k ns hi ti q st obs s" and pc: "cq_pc s t = CPushLink n ot nx" and ok: "unfaulted (CPush_link t n ot nx s)"
  shows "cq_answers ((q, st), obs) [] k (CPush_link t n ot nx s)"
proof -
  note D = cq_invD [OF inv]
  obtain v j where st: "st t = Pending (OpPush v)" and fresh: "cq_heap s n = Some \<lparr>cn_value = v, cn_next = (None, 0)\<rparr>"
    and nx: "node_ptr nx = None" and j: "j \<le> ti" "stamped ns j ot" "j < hi \<longrightarrow> cnext (cq_heap s) (node_ptr ot) \<noteq> None"
    using D(8) [of t] pc by (auto simp: cpushing_def)
  have ot: "node_ptr ot = Some (ns ! j)" "j < length ns" using j(2) by (auto simp: stamped_def)
  obtain nd where nd: "cq_heap s (ns ! j) = Some nd" "cnext (cq_heap s) (Some (ns ! j)) = node_ptr (cn_next nd)"
    "\<And>t f. unfaulted (on_classic t (Some (ns ! j)) f s) \<Longrightarrow> on_classic t (Some (ns ! j)) f s = f (ns ! j) nd"
    using linked_node [OF inv ot(2)] by blast
  note eq = nd(3) [OF ok [unfolded CPush_link_def ot(1)], folded ot(1), folded CPush_link_def]
  show ?thesis
  proof (cases "cn_next nd = nx")
    case False
    then have "CPush_link t n ot nx s = cset t (CPushTail n) s" using eq by simp
    then show ?thesis using cq_local_same [OF inv, of t "CPushTail n"] D(8) [of t] pc by auto
  next
    case True
    let ?hp = "(cq_heap s)(ns ! j := Some (nd\<lparr>cn_next := (Some n, counter nx + 1)\<rparr>))"
    have s': "CPush_link t n ot nx s = cset t (CPushSwing n ot) (s\<lparr>cq_heap := ?hp\<rparr>)" using True eq by simp
    have null: "cnext (cq_heap s) (Some (ns ! j)) = None" using nd(2) True nx by simp
    then have hi: "hi \<le> j" using j(3) ot(1) by force
    then have len: "length ns = Suc j" using null D(1) ot(2) unfolding clinked_def by (metis Suc_lessI option.distinct(1))
    then have ti: "ti = j" using j(1) D(4) by (auto simp: stamped_def)
    have ns: "ns \<noteq> []" "last ns = ns ! j" using len by (auto simp: last_conv_nth simp flip: length_greater_0_conv)
    note M = D(6) [unfolded cmemory_def]
    have keep: "kept (cq_pc s t) = Some n" using pc by simp
    then have n: "n \<in> kept_nodes (cq_pc s)" by (auto simp: kept_nodes_def)
    then have fr: "n \<notin> set (drop hi ns)" "n \<notin> set (cq_freed s)" "n \<noteq> ns ! j" using M live_mem [OF hi ot(2)] by auto
    have dr: "drop hi (ns @ [n]) = drop hi ns @ [n]" "drop (Suc hi) (ns @ [n]) = drop (Suc hi) ns @ [n]" using hi len by simp_all
    have link: "clinked hi (ns @ [n]) ?hp"
      using clinked_link [OF D(1) ns(1) _ fr(1), of nd "counter nx + 1"] M nd(1) fresh ns(2) hi len by (simp add: cnext_def)
    have val: "cval ?hp = cval (cq_heap s)" using nd(1) by (auto simp: cval_def fun_eq_iff)
    have vals: "map (cval ?hp) (drop (Suc hi) (ns @ [n])) = map Some (q @ [v])"
      using D(5) fresh unfolding val dr by (simp add: cval_def)
    have others: "cpc_ok (ns @ [n]) hi ti ?hp (st u) (u \<in> obs) (cq_pc s u)" if "u \<noteq> t" for u
    proof (rule cpc_ok_stable [OF D(8)])
      fix m
      assume "kept (cq_pc s u) = Some m"
      then have "m \<in> kept_nodes (cq_pc s)" by (auto simp: kept_nodes_def)
      then have "m \<noteq> ns ! j" using M live_mem [OF hi ot(2)] by auto
      then show "?hp m = cq_heap s m" by simp
    qed (use val in \<open>auto simp: cnext_def\<close>)
    have lead: "leads (ns @ [n]) ti ot (Some n)"
      using j(2) ti len unfolding leads_def by (intro exI [of _ j]) (auto simp: node_at_def nth_append)
    have mem: "cmemory (ns @ [n]) hi (CPush_link t n ot nx s)"
    proof -
      have "kept_nodes ((cq_pc s)(t := CPushSwing n ot)) = kept_nodes (cq_pc s) - {n}"
        using M keep by (subst kept_nodes_upd) auto
      moreover have "exclusive kept ((cq_pc s)(t := CPushSwing n ot))" using M by (intro exclusive_upd) auto
      ultimately show ?thesis using M fr n nd(1) fresh unfolding s' cmemory_def dr cset_def by auto
    qed
    have cnt: "ccount k (ns @ [n]) (st(t := Finished Pushed))"
    proof -
      have "pending_pushes (st(t := Finished Pushed)) = pending_pushes st - {t}" by (auto simp: pending_pushes_def split: if_splits)
      moreover have "t \<in> pending_pushes st" using st by (simp add: pending_pushes_def)
      moreover from this have "card (pending_pushes st) > 0" using D(7) by (auto simp: ccount_def card_gt_0_iff)
      ultimately show ?thesis using D(7) by (simp add: ccount_def)
    qed
    have "cq_inv k (ns @ [n]) hi ti (q @ [v]) (st(t := Finished Pushed)) (obs - {t}) (CPush_link t n ot nx s)"
    proof (rule cq_invI [OF _ D(2) _ _ _ mem cnt])
      show "cpc_ok (ns @ [n]) hi ti (cq_heap (CPush_link t n ot nx s)) ((st(t := Finished Pushed)) u) (u \<in> obs - {t})
          (cq_pc (CPush_link t n ot nx s) u)" for u
        using others [of u] lead unfolding s' cset_def by auto
    qed (use link vals D(3,4) in \<open>auto simp: s' cset_def\<close>)
    moreover have "reach observing_spec ((q, st), obs) [] ((q @ [v], st(t := Finished Pushed)), obs - {t})"
      using st by (intro reach_single [where c = "Plain (Effect t)"]) simp
    ultimately show ?thesis by (intro cq_answersI)
  qed
qed

text \<open>Moving the head: the effect of a pop.\<close>

lemma cq_pop:
  assumes inv: "cq_inv k ns hi ti q st obs s" and pc: "cq_pc s t = CPopCas h nx v"
  shows "cq_answers ((q, st), obs) [] k (CPop_cas t h nx v s)"
proof (cases "cq_head s = h")
  case False
  then show ?thesis using cq_local_same [OF inv, of t CPopHead] cq_invD(8) [OF inv, of t] pc by (simp add: CPop_cas_def)
next
  case True
  note D = cq_invD [OF inv]
  obtain i where st: "st t = Pending OpPop" and i: "i < ti" "stamped ns i h" "node_at ns (Suc i) (node_ptr nx)"
    "i = hi \<longrightarrow> cval (cq_heap s) (ns ! Suc i) = Some v"
    using D(8) [of t] pc by auto
  have ih: "i = hi" using stamped_unique [OF D(7) i(2)] D(3) True by blast
  then have len: "Suc hi < length ns" "hi < length ns" and cv: "cval (cq_heap s) (ns ! Suc hi) = Some v"
    using i by (auto simp: node_at_def)
  have drop1: "drop (Suc hi) ns = ns ! Suc hi # drop (Suc (Suc hi)) ns" using len(1) by (rule Cons_nth_drop_Suc [symmetric])
  have drop0: "drop hi ns = ns ! hi # drop (Suc hi) ns" using len(2) by (rule Cons_nth_drop_Suc [symmetric])
  from drop1 D(5) cv obtain q' where q: "q = v # q'" and rest: "map (cval (cq_heap s)) (drop (Suc (Suc hi)) ns) = map Some q'"
    by (cases q) auto
  have nxt: "cnext (cq_heap s) (Some (ns ! hi)) \<noteq> None" using D(1) len unfolding clinked_def by simp
  have others: "cpc_ok ns (Suc hi) ti (cq_heap s) (st u) (u \<in> obs) (cq_pc s u)" for u
  proof -
    have "cpc_ok (ns @ []) (Suc hi) ti (cq_heap s) (st u) (u \<in> obs) (cq_pc s u)"
    proof (rule cpc_ok_stable [OF D(8)])
      fix j
      assume "hi \<le> j" "j < Suc hi"
      then show "cnext (cq_heap s) (Some (ns ! j)) \<noteq> None" using nxt by (simp add: le_less_Suc_eq)
    qed simp_all
    then show ?thesis by simp
  qed
  have h: "node_ptr h = Some (ns ! hi)" using i(2) ih by (simp add: stamped_def)
  have s': "CPop_cas t h nx v s = cset t (CPopDelete h v) (s\<lparr>cq_head := (node_ptr nx, counter h + 1)\<rparr>)"
    using True by (simp add: CPop_cas_def)
  have mem: "cmemory ns (Suc hi) (CPop_cas t h nx v s)"
  proof -
    note M = D(6) [unfolded cmemory_def drop0]
    have "kept_nodes ((cq_pc s)(t := CPopDelete h v)) = insert (ns ! hi) (kept_nodes (cq_pc s))"
      using M pc h by (subst kept_nodes_upd) auto
    moreover have "ns ! hi \<notin> kept_nodes (cq_pc s)" using M by auto
    then have "exclusive kept ((cq_pc s)(t := CPopDelete h v))" using M h by (intro exclusive_new) (auto simp: kept_nodes_def)
    ultimately show ?thesis using M unfolding s' cmemory_def cset_def by auto
  qed
  have hd: "stamped ns (Suc hi) (node_ptr nx, counter h + 1)" using stamped_next [OF i(2,3)] ih by simp
  have "cq_inv k ns (Suc hi) ti q' (st(t := Finished (Popped (Some v)))) (obs - {t}) (CPop_cas t h nx v s)"
  proof (rule cq_invI [OF _ _ _ _ _ mem])
    show "cpc_ok ns (Suc hi) ti (cq_heap (CPop_cas t h nx v s)) ((st(t := Finished (Popped (Some v)))) u) (u \<in> obs - {t})
        (cq_pc (CPop_cas t h nx v s) u)" for u
      using others [of u] h unfolding s' cset_def by auto
    show "ccount k ns (st(t := Finished (Popped (Some v))))" using D(7) st by (intro ccount_upd) auto
  qed (use D(1,4) hd rest i(1) ih in \<open>auto simp: s' cset_def clinked_def\<close>)
  moreover have "reach observing_spec ((q, st), obs) [] ((q', st(t := Finished (Popped (Some v)))), obs - {t})"
    using st q by (intro reach_single [where c = "Plain (Effect t)"]) simp
  ultimately show ?thesis by (intro cq_answersI)
qed

text \<open>Deleting the node that was popped.\<close>

lemma cq_delete:
  assumes inv: "cq_inv k ns hi ti q st obs s" and pc: "cq_pc s t = CPopDelete h v"
  shows "cq_answers ((q, st), obs) [] k (CPop_delete t h v s)"
proof -
  note D = cq_invD [OF inv]
  note M = D(6) [unfolded cmemory_def]
  obtain a where a: "node_ptr h = Some a" using D(8) [of t] pc by auto
  have n: "a \<in> kept_nodes (cq_pc s)" using pc a unfolding kept_nodes_def by (metis (mono_tags, lifting) kept.simps(6) mem_Collect_eq)
  then have fr: "a \<notin> set (cq_freed s)" "a \<notin> set (drop hi ns)" "cq_heap s a \<noteq> None" using M by auto
  then have s': "CPop_delete t h v s = cset t (CReturn (Popped (Some v))) (s\<lparr>cq_freed := a # cq_freed s\<rparr>)"
    using a by (auto simp: CPop_delete_def)
  have "kept_nodes ((cq_pc s)(t := CReturn (Popped (Some v)))) = kept_nodes (cq_pc s) - {a}"
    using M pc a by (subst kept_nodes_upd) auto
  moreover have "exclusive kept ((cq_pc s)(t := CReturn (Popped (Some v))))" using M by (intro exclusive_upd) auto
  ultimately have "cmemory ns hi (CPop_delete t h v s)" using M fr n unfolding s' cmemory_def cset_def by auto
  moreover have "cpc_ok ns hi ti (cq_heap s) (st u) (u \<in> obs) (((cq_pc s)(t := CReturn (Popped (Some v)))) u)" for u
    using D(8) [of u] pc by auto
  ultimately have "cq_inv k ns hi ti q st obs (CPop_delete t h v s)"
    using D(1-5,7) by (intro cq_invI) (auto simp: s' cset_def)
  then show ?thesis by (rule cq_answers_same)
qed

text \<open>Loading \<open>tail\<close> and the successor of a node, and trying to move \<open>tail\<close>.\<close>

lemma live_next:
  "clinked hi ns hp \<Longrightarrow> hi \<le> i \<Longrightarrow> i < length ns \<Longrightarrow> cnext hp (Some (ns ! i)) = p \<Longrightarrow>
     (p = None \<longleftrightarrow> \<not> Suc i < length ns) \<and> (p \<noteq> None \<longrightarrow> node_at ns (Suc i) p)"
  unfolding clinked_def node_at_def by (auto split: if_splits)

lemma cq_push_search:
  assumes inv: "cq_inv k ns hi ti q st obs s"
  shows "cq_pc s t = CPushTail n \<Longrightarrow> cq_answers ((q, st), obs) [] k (CPush_tail t n s)"
    "cq_pc s t = CPushNext n ot \<Longrightarrow> unfaulted (CPush_next t n ot s) \<Longrightarrow> cq_answers ((q, st), obs) [] k (CPush_next t n ot s)"
    "cq_pc s t = CPushCheck n ot nx \<Longrightarrow> cq_answers ((q, st), obs) [] k (CPush_check t n ot nx s)"
    "cq_pc s t = CPushHelp n ot nx \<Longrightarrow> cq_answers ((q, st), obs) [] k (CPush_help t n ot nx s)"
    "cq_pc s t = CPushSwing n ot \<Longrightarrow> cq_answers ((q, st), obs) [] k (CPush_swing t n ot s)"
proof -
  note D = cq_invD [OF inv]
  note K = D(8) [of t]
  {
    assume pc: "cq_pc s t = CPushTail n"
    have "met ns ti (cq_tail s)" using D(4) by (auto simp: met_def)
    then show "cq_answers ((q, st), obs) [] k (CPush_tail t n s)"
      unfolding CPush_tail_def using K pc by (intro cq_local_same [OF inv]) auto
  next
    assume pc: "cq_pc s t = CPushNext n ot" and ok: "unfaulted (CPush_next t n ot s)"
    then obtain j where j: "j \<le> ti" "stamped ns j ot" using K by (auto simp: met_def)
    then have ot: "node_ptr ot = Some (ns ! j)" "j < length ns" by (auto simp: stamped_def)
    obtain nd where nd: "cnext (cq_heap s) (Some (ns ! j)) = node_ptr (cn_next nd)"
      "\<And>t f. unfaulted (on_classic t (Some (ns ! j)) f s) \<Longrightarrow> on_classic t (Some (ns ! j)) f s = f (ns ! j) nd"
      using linked_node [OF inv ot(2)] by blast
    have s': "CPush_next t n ot s = cset t (CPushCheck n ot (cn_next nd)) s"
      using nd(2) ok unfolding CPush_next_def ot(1) by blast
    have "j = ti \<longrightarrow> node_ptr (cn_next nd) \<noteq> None \<longrightarrow> node_at ns (Suc j) (node_ptr (cn_next nd))"
      using live_next [OF D(1) _ ot(2) nd(1)] D(2) by auto
    then have "\<exists>j \<le> ti. stamped ns j ot \<and> (j = ti \<longrightarrow> node_ptr (cn_next nd) \<noteq> None \<longrightarrow> node_at ns (Suc j) (node_ptr (cn_next nd)))"
      using j by blast
    then show "cq_answers ((q, st), obs) [] k (CPush_next t n ot s)"
      unfolding s' using K pc by (intro cq_local_same [OF inv]) auto
  next
    assume pc: "cq_pc s t = CPushCheck n ot nx"
    then obtain j where j: "j \<le> ti" "stamped ns j ot" "j = ti \<longrightarrow> node_ptr nx \<noteq> None \<longrightarrow> node_at ns (Suc j) (node_ptr nx)" using K by auto
    have cur: "j = ti" if "ot = cq_tail s" using that stamped_unique [OF D(7) j(2)] D(4) by blast
    have "cpc_ok ns hi ti (cq_heap s) (st t) (t \<in> obs) (CPushLink n ot nx)" if "ot = cq_tail s" "node_ptr nx = None"
      using K pc that j cur D(2) by auto
    moreover have "cpc_ok ns hi ti (cq_heap s) (st t) (t \<in> obs) (CPushHelp n ot nx)" if "ot = cq_tail s" "node_ptr nx \<noteq> None"
      using K pc that j cur by (auto simp: leads_def)
    ultimately show "cq_answers ((q, st), obs) [] k (CPush_check t n ot nx s)"
      unfolding CPush_check_def using K pc by (intro cq_local_same [OF inv]) (auto split del: if_split split: if_splits)
  next
    assume pc: "cq_pc s t = CPushHelp n ot nx"
    then have "cpushing (cq_heap s) (st t) n" "leads ns ti ot (node_ptr nx)" using K by auto
    then show "cq_answers ((q, st), obs) [] k (CPush_help t n ot nx s)"
      unfolding CPush_help_def using pc by (intro cq_tail_cas [OF inv]) auto
  next
    assume pc: "cq_pc s t = CPushSwing n ot"
    then show "cq_answers ((q, st), obs) [] k (CPush_swing t n ot s)"
      unfolding CPush_swing_def using K by (intro cq_tail_cas [OF inv]) auto
  }
qed

text \<open>Reading that the head has no successor: the queue is empty at that moment.\<close>

lemma cq_pop_next:
  assumes inv: "cq_inv k ns hi ti q st obs s" and pc: "cq_pc s t = CPopNext h ot" and ok: "unfaulted (CPop_next t h ot s)"
  shows "cq_answers ((q, st), obs) [] k (CPop_next t h ot s)"
proof -
  note D = cq_invD [OF inv]
  obtain i j where st: "st t = Pending OpPop" and i: "i \<le> hi" "i \<le> j" "j \<le> ti" "stamped ns i h" "stamped ns j ot"
    using D(8) [of t] pc by auto
  have h: "node_ptr h = Some (ns ! i)" "i < length ns" using i(4) by (auto simp: stamped_def)
  obtain nd where nd: "cnext (cq_heap s) (Some (ns ! i)) = node_ptr (cn_next nd)"
    "\<And>t f. unfaulted (on_classic t (Some (ns ! i)) f s) \<Longrightarrow> on_classic t (Some (ns ! i)) f s = f (ns ! i) nd"
    using linked_node [OF inv h(2)] by blast
  have s': "CPop_next t h ot s = cset t (CPopCheck h ot (cn_next nd)) s"
    using nd(2) ok unfolding CPop_next_def h(1) by blast
  note N = live_next [OF D(1) _ h(2) nd(1)]
  show ?thesis
  proof (cases "i = hi \<and> node_ptr (cn_next nd) = None")
    case True
    then have last: "\<not> Suc hi < length ns" using N by simp
    then have "q = []" using D(5) by simp
    then have "reach observing_spec ((q, st), obs) [] ((q, st), insert t obs)"
      using st by (intro reach_single [where c = "Observe t"]) simp
    moreover have "j = i" using last True i(1,2,3) D(4) by (auto simp: stamped_def)
    then have "cq_inv k ns hi ti q (st(t := st t)) (insert t obs) (CPop_next t h ot s)"
      unfolding s' using st i True pc by (intro cq_local [OF inv]) auto
    ultimately show ?thesis by (intro cq_answersI) auto
  next
    case False
    then have "\<exists>i j. i \<le> hi \<and> i \<le> j \<and> j \<le> ti \<and> stamped ns i h \<and> stamped ns j ot \<and>
        (i = hi \<longrightarrow> (if node_ptr (cn_next nd) = None then t \<in> obs \<and> i = j else node_at ns (Suc i) (node_ptr (cn_next nd))))"
      using i N by (intro exI [of _ i] exI [of _ j]) auto
    then show ?thesis unfolding s' using st pc by (intro cq_local_same [OF inv]) auto
  qed
qed

lemma cq_pop_check:
  assumes inv: "cq_inv k ns hi ti q st obs s" and pc: "cq_pc s t = CPopCheck h ot nx"
  shows "cq_answers ((q, st), obs) [] k (CPop_check t h ot nx s)"
proof (cases "h = cq_head s")
  case False
  then show ?thesis unfolding CPop_check_def using cq_invD(8) [OF inv, of t] pc by (intro cq_local_same [OF inv]) auto
next
  case True
  note D = cq_invD [OF inv]
  obtain i j where st: "st t = Pending OpPop" and i: "i \<le> hi" "i \<le> j" "j \<le> ti" "stamped ns i h" "stamped ns j ot"
    "i = hi \<longrightarrow> (if node_ptr nx = None then t \<in> obs \<and> i = j else node_at ns (Suc i) (node_ptr nx))"
    using D(8) [of t] pc by auto
  have ih: "i = hi" using stamped_unique [OF D(7) i(4)] D(3) True by blast
  have same: "j = i" if "node_ptr h = node_ptr ot"
    using that live_position [of hi ns i j] D(6) i ih by (auto simp: stamped_def cmemory_def)
  show ?thesis
  proof (cases "node_ptr h = node_ptr ot")
    case False
    then have "i < j" "node_ptr nx \<noteq> None" using i ih by (auto simp: stamped_def order_le_less split: if_splits)
    then have "\<exists>i \<le> hi. i < ti \<and> stamped ns i h \<and> node_at ns (Suc i) (node_ptr nx)" using i ih by (intro exI [of _ i]) auto
    then show ?thesis unfolding CPop_check_def using True False st pc by (intro cq_local_same [OF inv]) auto
  next
    case eq: True
    show ?thesis
    proof (cases "node_ptr nx = None")
      case nx: True
      have s': "CPop_check t h ot nx s = cset t (CReturn (Popped None)) s" using True eq nx by (simp add: CPop_check_def)
      have "t \<in> obs" using i(6) ih nx by simp
      then have "reach observing_spec ((q, st), obs) [] ((q, st(t := Finished (Popped None))), obs - {t})"
        by (intro reach_single [where c = "Commit t"]) simp
      moreover have "cq_inv k ns hi ti q (st(t := Finished (Popped None))) (obs - {t}) (CPop_check t h ot nx s)"
        unfolding s' using st pc by (intro cq_local [OF inv]) auto
      ultimately show ?thesis by (intro cq_answersI)
    next
      case False
      then have "leads ns ti ot (node_ptr nx)" using i ih same [OF eq] by (auto simp: leads_def)
      then show ?thesis unfolding CPop_check_def using True eq False st pc by (intro cq_local_same [OF inv]) auto
    qed
  qed
qed

lemma cq_pop_rest:
  assumes inv: "cq_inv k ns hi ti q st obs s"
  shows "cq_pc s t = CPopHead \<Longrightarrow> cq_answers ((q, st), obs) [] k (CPop_head t s)"
    "cq_pc s t = CPopTail h \<Longrightarrow> cq_answers ((q, st), obs) [] k (CPop_tail t h s)"
    "cq_pc s t = CPopHelp ot nx \<Longrightarrow> cq_answers ((q, st), obs) [] k (CPop_help t ot nx s)"
    "cq_pc s t = CPopRead h nx \<Longrightarrow> unfaulted (CPop_read t h nx s) \<Longrightarrow> cq_answers ((q, st), obs) [] k (CPop_read t h nx s)"
proof -
  note D = cq_invD [OF inv]
  note K = D(8) [of t]
  {
    assume pc: "cq_pc s t = CPopHead"
    have "met ns hi (cq_head s)" using D(3) by (auto simp: met_def)
    then show "cq_answers ((q, st), obs) [] k (CPop_head t s)"
      unfolding CPop_head_def using K pc by (intro cq_local_same [OF inv]) auto
  next
    assume pc: "cq_pc s t = CPopTail h"
    then obtain i where "i \<le> hi" "stamped ns i h" using K by (auto simp: met_def)
    then have "\<exists>i j. i \<le> hi \<and> i \<le> j \<and> j \<le> ti \<and> stamped ns i h \<and> stamped ns j (cq_tail s)"
      using D(2,4) by (intro exI [of _ i] exI [of _ ti]) auto
    then show "cq_answers ((q, st), obs) [] k (CPop_tail t h s)"
      unfolding CPop_tail_def using K pc by (intro cq_local_same [OF inv]) auto
  next
    assume pc: "cq_pc s t = CPopHelp ot nx"
    then show "cq_answers ((q, st), obs) [] k (CPop_help t ot nx s)"
      unfolding CPop_help_def using K by (intro cq_tail_cas [OF inv]) auto
  next
    assume pc: "cq_pc s t = CPopRead h nx" and ok: "unfaulted (CPop_read t h nx s)"
    then obtain i where i: "i \<le> hi" "i < ti" "stamped ns i h" "node_at ns (Suc i) (node_ptr nx)" using K by auto
    then have nx: "node_ptr nx = Some (ns ! Suc i)" "Suc i < length ns" by (auto simp: node_at_def)
    obtain nd where nd: "cq_heap s (ns ! Suc i) = Some nd"
      "\<And>t f. unfaulted (on_classic t (Some (ns ! Suc i)) f s) \<Longrightarrow> on_classic t (Some (ns ! Suc i)) f s = f (ns ! Suc i) nd"
      using linked_node [OF inv nx(2)] by blast
    have s': "CPop_read t h nx s = cset t (CPopCas h nx (cn_value nd)) s"
      using nd(2) ok unfolding CPop_read_def nx(1) by blast
    have "\<exists>i \<le> hi. i < ti \<and> stamped ns i h \<and> node_at ns (Suc i) (node_ptr nx) \<and> (i = hi \<longrightarrow> cval (cq_heap s) (ns ! Suc i) = Some (cn_value nd))"
      using i nd(1) by (intro exI [of _ i]) (auto simp: cval_def)
    then show "cq_answers ((q, st), obs) [] k (CPop_read t h nx s)"
      unfolding s' using K pc by (intro cq_local_same [OF inv]) auto
  }
qed

lemma classic_go_answers:
  assumes inv: "cq_inv k ns hi ti q st obs s" and go: "classic_go t s = Some s'" and ok: "unfaulted s'"
  shows "cq_answers ((q, st), obs) [] k s'"
proof (cases "cq_pc s t")
  case (CPushTail n)
  then show ?thesis using go cq_push_search(1) [OF inv CPushTail] by (simp add: classic_go_def)
next
  case (CPushNext n ot)
  then show ?thesis using go ok cq_push_search(2) [OF inv CPushNext] by (simp add: classic_go_def)
next
  case (CPushCheck n ot nx)
  then show ?thesis using go cq_push_search(3) [OF inv CPushCheck] by (simp add: classic_go_def)
next
  case (CPushLink n ot nx)
  then show ?thesis using go ok cq_link [OF inv CPushLink] by (simp add: classic_go_def)
next
  case (CPushHelp n ot nx)
  then show ?thesis using go cq_push_search(4) [OF inv CPushHelp] by (simp add: classic_go_def)
next
  case (CPushSwing n ot)
  then show ?thesis using go cq_push_search(5) [OF inv CPushSwing] by (simp add: classic_go_def)
next
  case CPopHead
  then show ?thesis using go cq_pop_rest(1) [OF inv CPopHead] by (simp add: classic_go_def)
next
  case (CPopTail h)
  then show ?thesis using go cq_pop_rest(2) [OF inv CPopTail] by (simp add: classic_go_def)
next
  case (CPopNext h ot)
  then show ?thesis using go ok cq_pop_next [OF inv CPopNext] by (simp add: classic_go_def)
next
  case (CPopCheck h ot nx)
  then show ?thesis using go cq_pop_check [OF inv CPopCheck] by (simp add: classic_go_def)
next
  case (CPopHelp ot nx)
  then show ?thesis using go cq_pop_rest(3) [OF inv CPopHelp] by (simp add: classic_go_def)
next
  case (CPopRead h nx)
  then show ?thesis using go ok cq_pop_rest(4) [OF inv CPopRead] by (simp add: classic_go_def)
next
  case (CPopCas h nx v)
  then show ?thesis using go cq_pop [OF inv CPopCas] by (simp add: classic_go_def)
next
  case (CPopDelete h v)
  then show ?thesis using go cq_delete [OF inv CPopDelete] by (simp add: classic_go_def)
qed (use go in \<open>simp_all add: classic_go_def\<close>)

lemma classic_call_push:
  assumes inv: "cq_inv k ns hi ti q st obs s" and pc: "cq_pc s t = CIdle" and a: "available s a" "\<not> linking s a" and k: "Suc k < 2 ^ 64"
  shows "cq_answers ((q, st), obs) [Invoke t (OpPush v)] (Suc k) (cset t (CPushTail a) (new_classic a v s))" (is "cq_answers _ _ _ ?s")
proof (rule cq_answersI)
  note D = cq_invD [OF inv]
  note M = D(6) [unfolded cmemory_def]
  have st: "st t = Idle" using D(8) [of t] pc by simp
  then show "reach observing_spec ((q, st), obs) [Invoke t (OpPush v)] ((q, st(t := Pending (OpPush v))), obs)"
    by (intro reach_single [where c = "Plain (Call t (OpPush v))"]) simp
  let ?hp = "(cq_heap s)(a := Some \<lparr>cn_value = v, cn_next = (None, 0)\<rparr>)"
  have "a \<notin> dom (cq_heap s) \<or> a \<in> set (cq_freed s)" using a(1) by (auto simp: available_def)
  then have off: "a \<notin> set (drop hi ns)" "a \<notin> kept_nodes (cq_pc s)" using M by auto
  have live: "ns ! i \<noteq> a" if "hi \<le> i" "i < length ns" for i using live_mem [OF that] off(1) by auto
  have own: "kept (cq_pc s u) \<noteq> Some a" for u using off(2) by (auto simp: kept_nodes_def)
  have "cpc_ok ns hi ti ?hp (st u) (u \<in> obs) (cq_pc s u)" for u
  proof -
    have "links_onto (cq_pc s u) \<noteq> Some a" using a(2) by (auto simp: linking_def)
    then have "cpc_ok (ns @ []) hi ti ?hp (st u) (u \<in> obs) (cq_pc s u)"
      using own [of u] off(1) by (intro cpc_ok_stable [OF D(8)]) (auto simp: cval_def cnext_def)
    then show ?thesis by simp
  qed
  then have "cpc_ok ns hi ti (cq_heap ?s) ((st(t := Pending (OpPush v))) u) (u \<in> obs) (cq_pc ?s u)" for u
    by (auto simp: cset_def new_classic_def cpushing_def)
  moreover have "clinked hi ns (cq_heap ?s)" using D(1) live unfolding clinked_def cset_def new_classic_def by (simp add: cnext_def)
  moreover have "map (cval (cq_heap ?s)) (drop (Suc hi) ns) = map Some q"
  proof -
    have "b \<noteq> a" if "b \<in> set (drop (Suc hi) ns)" for b using that off(1) set_drop_subset_set_drop [of hi "Suc hi" ns] by auto
    then have "map (cval (cq_heap ?s)) (drop (Suc hi) ns) = map (cval (cq_heap s)) (drop (Suc hi) ns)"
      by (intro map_cong) (auto simp: cset_def new_classic_def cval_def)
    then show ?thesis using D(5) by simp
  qed
  moreover have "cmemory ns hi ?s"
  proof -
    have "kept_nodes ((cq_pc s)(t := CPushTail a)) = insert a (kept_nodes (cq_pc s))" using M pc by (subst kept_nodes_upd) auto
    moreover have "exclusive kept ((cq_pc s)(t := CPushTail a))" using M own by (intro exclusive_new) auto
    ultimately show ?thesis using M off a(1) unfolding cmemory_def cset_def new_classic_def available_def by auto
  qed
  moreover have "ccount (Suc k) ns (st(t := Pending (OpPush v)))"
  proof -
    have "pending_pushes (st(t := Pending (OpPush v))) = insert t (pending_pushes st)" by (auto simp: pending_pushes_def)
    moreover have "t \<notin> pending_pushes st" using st by (simp add: pending_pushes_def)
    ultimately show ?thesis using D(7) k by (simp add: ccount_def)
  qed
  ultimately show "cq_inv (Suc k) ns hi ti q (st(t := Pending (OpPush v))) obs ?s"
    using D(2-4) by (intro cq_invI) (auto simp: cset_def new_classic_def)
qed

subsection \<open>Runs\<close>

text \<open>A step only moves the program point of its thread, and a thread that has faulted stays where it is.\<close>

lemma on_classic_other:
  "(\<And>a nd. cq_pc (f a nd) u = cq_pc s u \<and> cq_stable (f a nd) = cq_stable s) \<Longrightarrow> u \<noteq> t \<Longrightarrow>
     cq_pc (on_classic t p f s) u = cq_pc s u \<and> cq_stable (on_classic t p f s) = cq_stable s"
  by (auto simp: on_classic_def cset_def split: option.splits)

lemma classic_go_other:
  assumes "classic_go t s = Some s'" and "u \<noteq> t"
  shows "cq_pc s' u = cq_pc s u \<and> cq_stable s' = cq_stable s"
proof -
  have eq: "s' = (case cq_pc s t of
        CPushTail n \<Rightarrow> CPush_tail t n s | CPushNext n ot \<Rightarrow> CPush_next t n ot s | CPushCheck n ot nx \<Rightarrow> CPush_check t n ot nx s
      | CPushLink n ot nx \<Rightarrow> CPush_link t n ot nx s | CPushHelp n ot nx \<Rightarrow> CPush_help t n ot nx s | CPushSwing n ot \<Rightarrow> CPush_swing t n ot s
      | CPopHead \<Rightarrow> CPop_head t s | CPopTail h \<Rightarrow> CPop_tail t h s | CPopNext h ot \<Rightarrow> CPop_next t h ot s
      | CPopCheck h ot nx \<Rightarrow> CPop_check t h ot nx s | CPopHelp ot nx \<Rightarrow> CPop_help t ot nx s | CPopRead h nx \<Rightarrow> CPop_read t h nx s
      | CPopCas h nx v \<Rightarrow> CPop_cas t h nx v s | CPopDelete h v \<Rightarrow> CPop_delete t h v s | _ \<Rightarrow> s)"
    using assms(1) by (auto simp: classic_go_def split: classic_pc.splits)
  have "cq_pc (CPush_next t n ot s) u = cq_pc s u \<and> cq_stable (CPush_next t n ot s) = cq_stable s"
    "cq_pc (CPush_link t n ot nx s) u = cq_pc s u \<and> cq_stable (CPush_link t n ot nx s) = cq_stable s"
    "cq_pc (CPop_next t ot nx s) u = cq_pc s u \<and> cq_stable (CPop_next t ot nx s) = cq_stable s"
    "cq_pc (CPop_read t ot nx s) u = cq_pc s u \<and> cq_stable (CPop_read t ot nx s) = cq_stable s" for n ot nx
    unfolding CPush_next_def CPush_link_def CPop_next_def CPop_read_def
    by (intro on_classic_other; use assms(2) in \<open>simp add: cset_def\<close>)+
  then show ?thesis unfolding eq using assms(2)
    by (auto simp: CPush_tail_def CPush_check_def CPush_help_def CPush_swing_def CPop_head_def CPop_tail_def CPop_check_def CPop_help_def
        CPop_cas_def CPop_delete_def classic_cas_tail_def cset_def split: classic_pc.split option.split)
qed

fun classic_acts :: "'v classic_choice \<Rightarrow> tid option" where
  "classic_acts (CallClassicPush t v a) = Some t"
| "classic_acts (CallClassicPop t) = Some t"
| "classic_acts (ClassicGo t) = Some t"

lemma classic_step_cases:
  assumes "classic_step c s = Some (s', e)" and "classic_acts c = Some t"
  obtains (push) v a where "c = CallClassicPush t v a" "cq_pc s t = CIdle" "available s a" "e = [Invoke t (OpPush v)]"
      "s' = cset t (CPushTail a) (new_classic a v s)"
    | (pop) "cq_pc s t = CIdle" "s' = cset t CPopHead s" "e = [Invoke t OpPop]"
    | (return) r where "cq_pc s t = CReturn r" "s' = cset t CIdle s" "e = [Return t r]"
    | (go) "classic_go t s = Some s'" "e = []"
  using assms by (cases c) (auto split: if_splits classic_pc.splits)

lemma classic_step_other:
  assumes "classic_step c s = Some (s', e)" and "classic_acts c = Some t" and "u \<noteq> t"
  shows "cq_pc s' u = cq_pc s u \<and> cq_stable s' = cq_stable s"
  using assms(1,2)
proof (cases rule: classic_step_cases)
  case go
  then show ?thesis using classic_go_other assms(3) by blast
qed (use assms(3) in \<open>simp_all add: cset_def new_classic_def\<close>)

lemma patient_step_classic: "patient_step c s = Some (s', e) \<Longrightarrow> classic_step c s = Some (s', e)"
  by (cases c) (auto split: if_splits)

lemma patient_step_unfaulted:
  assumes "patient_step c s = Some (s', e)" and "unfaulted s'"
  shows "unfaulted s"
proof -
  note st = patient_step_classic [OF assms(1)]
  obtain t where t: "classic_acts c = Some t" by (cases c) auto
  have "cq_stable s' = cq_stable s" using classic_step_other [OF st t, of "Suc t"] by simp
  moreover have "cq_pc s u \<noteq> CFault f" if "\<And>t f. cq_pc s' t \<noteq> CFault f" for u f
  proof (cases "u = t")
    case True
    from st t show ?thesis unfolding True by (cases rule: classic_step_cases) (auto simp: classic_go_def split: classic_pc.splits)
  next
    case False
    then show ?thesis using classic_step_other [OF st t False] that by metis
  qed
  ultimately show ?thesis using assms(2) by (auto simp: unfaulted_def)
qed

text \<open>The runs the theorems are about, with the number of calls of \<open>Push\<close> so far.\<close>

definition counted_step :: "('v classic_choice, nat \<times> 'v classic_queue, 'v queue_event) stepper" where
  "counted_step c x = (case x of (k, s) \<Rightarrow>
     (case patient_step c s of
        None \<Rightarrow> None
      | Some (s', e) \<Rightarrow>
          let k' = k + length (pushed_values e) in if k' < 2 ^ 64 \<and> unfaulted s' then Some ((k', s'), e) else None))"

lemma counted_stepI:
  "patient_step c s = Some (s', e) \<Longrightarrow> k + length (pushed_values e) < 2 ^ 64 \<Longrightarrow> unfaulted s' \<Longrightarrow>
     counted_step c (k, s) = Some ((k + length (pushed_values e), s'), e)"
  by (simp add: counted_step_def Let_def)

lemma counted_stepD:
  assumes "counted_step c (k, s) = Some (x, e)"
  obtains s' where "x = (k + length (pushed_values e), s')" "patient_step c s = Some (s', e)" "unfaulted s'"
    "k + length (pushed_values e) < 2 ^ 64"
  using assms by (auto simp: counted_step_def Let_def split: option.splits if_splits)

lemma counted_sched:
  assumes "sched patient_step cs s = Some (s', es)" and "k + length (pushed_values es) < 2 ^ 64" and "unfaulted s'"
  shows "sched counted_step cs (k, s) = Some ((k + length (pushed_values es), s'), es) \<and> unfaulted s"
  using assms(1,2)
proof (induction cs arbitrary: k s es)
  case Nil
  then show ?case using assms(3) by simp
next
  case (Cons c cs)
  then obtain s1 e es1 where s1: "patient_step c s = Some (s1, e)" "sched patient_step cs s1 = Some (s', es1)" "es = e @ es1"
    by (auto split: option.splits prod.splits)
  have "k + length (pushed_values e) + length (pushed_values es1) < 2 ^ 64" using Cons.prems(2) s1(3) by simp
  from Cons.IH [OF s1(2) this]
  have rest: "sched counted_step cs (k + length (pushed_values e), s1) = Some ((k + length (pushed_values es), s'), es1)"
    and u: "unfaulted s1" using s1(3) by (auto simp: ac_simps)
  have "k + length (pushed_values e) < 2 ^ 64" using Cons.prems(2) s1(3) by simp
  from counted_stepI [OF s1(1) this u] rest s1(3) patient_step_unfaulted [OF s1(1) u] show ?case by simp
qed

lemma counted_reach:
  assumes "reach patient_step s0 es s" and "length (pushed_values es) < 2 ^ 64" and "unfaulted s"
  shows "reach counted_step (0, s0) es (length (pushed_values es), s)"
proof -
  obtain cs where "sched patient_step cs s0 = Some (s, es)" using reach_sched [OF assms(1)] by blast
  from counted_sched [OF this, of 0] assms(2,3) show ?thesis using sched_reach by fastforce
qed

lemma classic_sim_step:
  assumes sim: "cq_sim b (k, s)" and st: "counted_step c (k, s) = Some (x, e)"
  shows "\<exists>b'. reach observing_spec b e b' \<and> cq_sim b' x"
proof -
  obtain s' where x: "x = (k + length (pushed_values e), s')" and st: "patient_step c s = Some (s', e)" and ok: "unfaulted s'"
    and k: "k + length (pushed_values e) < 2 ^ 64"
    using counted_stepD [OF st] by blast
  obtain q st0 obs where b: "b = ((q, st0), obs)" by (metis surj_pair)
  then obtain ns hi ti where inv: "cq_inv k ns hi ti q st0 obs s" using sim by (auto simp: cq_sim_def)
  note K = cq_invD(8) [OF inv]
  obtain t where t: "classic_acts c = Some t" by (cases c) auto
  have "cq_answers ((q, st0), obs) e (k + length (pushed_values e)) s'"
    using patient_step_classic [OF st] t
  proof (cases rule: classic_step_cases)
    case (push v a)
    then have "\<not> linking s a" using st by (auto split: if_splits)
    then show ?thesis using classic_call_push [OF inv push(2,3), of v] k push(4,5) by simp
  next
    case pop
    then have "st0 t = Idle" using K [of t] by simp
    then have "reach observing_spec ((q, st0), obs) e ((q, st0(t := Pending OpPop)), obs)"
      unfolding pop(3) by (intro reach_single [where c = "Plain (Call t OpPop)"]) simp
    moreover have "cq_inv k ns hi ti q (st0(t := Pending OpPop)) obs s'"
      unfolding pop(2) using pop(1) \<open>st0 t = Idle\<close> by (intro cq_local [OF inv]) auto
    ultimately show ?thesis unfolding pop(3) by (intro cq_answersI) auto
  next
    case (return r)
    then have "st0 t = Finished r" using K [of t] by simp
    then have "reach observing_spec ((q, st0), obs) e ((q, st0(t := Idle)), obs)"
      unfolding return(3) by (intro reach_single [where c = "Plain (Reply t)"]) simp
    moreover have "cq_inv k ns hi ti q (st0(t := Idle)) obs s'"
      unfolding return(2) using return(1) \<open>st0 t = Finished r\<close> by (intro cq_local [OF inv]) auto
    moreover have "pushed_values e = []" unfolding return(3) by simp
    ultimately show ?thesis by (intro cq_answersI) auto
  next
    case go
    then show ?thesis using classic_go_answers [OF inv go(1) ok] by simp
  qed
  then show ?thesis unfolding b x cq_answers_def .
qed

lemma classic_sim_init: "cq_sim init_observing (0, init_classic keeps d)"
proof -
  have "cq_inv 0 [0] 0 0 [] (\<lambda>_. Idle) {} (init_classic keeps d)"
    by (auto simp: cq_inv_def cchain_def cmemory_def ccount_def init_classic_def clinked_def cnext_def stamped_def exclusive_def
        pending_pushes_def kept_nodes_def)
  then show ?thesis unfolding cq_sim_def init_observing_def init_spec_def by auto
qed

interpretation classic_refines:
  event_simulation counted_step "(0, init_classic keeps d)" observing_spec init_observing cq_sim for keeps d
proof unfold_locales
  show "cq_sim init_observing (0, init_classic keeps d)" by (rule classic_sim_init)
  fix b x c x' e
  assume "cq_sim b x" "counted_step c x = Some (x', e)"
  then show "\<exists>b'. reach observing_spec b e b' \<and> cq_sim b' x'" using classic_sim_step by (cases x) blast
qed

lemma cq_sim_no_fault: "cq_sim b (k, s) \<Longrightarrow> cq_pc s t \<noteq> CFault f"
  by (auto simp: cq_sim_def split: prod.splits) (metis cpc_ok.simps(17) cq_invD(8))

lemma destroy_classic_chain:
  assumes l: "clinked hi ns hp" and d: "distinct (drop hi ns)" and m: "set (drop hi ns) \<subseteq> dom hp"
  shows "hi \<le> k \<Longrightarrow> k \<le> length ns \<Longrightarrow> set (drop k ns) \<inter> set freed = {} \<Longrightarrow>
    destroy_classic (if k < length ns then Some (ns ! k) else None) hp freed = Some (Inr (rev (drop k ns) @ freed))"
proof (induction "length ns - k" arbitrary: k freed)
  case 0
  then show ?case by (simp add: destroy_classic.simps)
next
  case (Suc m)
  then have k: "k < length ns" by simp
  have drop: "drop k ns = ns ! k # drop (Suc k) ns" using k by (rule Cons_nth_drop_Suc [symmetric])
  have "ns ! k \<in> dom hp" using live_mem [OF Suc.prems(1) k] assms(3) by blast
  then obtain nd where nd: "hp (ns ! k) = Some nd" by blast
  then have nx: "node_ptr (cn_next nd) = (if Suc k < length ns then Some (ns ! Suc k) else None)"
    using l Suc.prems(1) k unfolding clinked_def by (auto simp: cnext_def)
  have "distinct (drop k ns)" using d Suc.prems(1) distinct_drop [of "drop hi ns" "k - hi"] by simp
  then have nk: "ns ! k \<notin> set (drop (Suc k) ns)" unfolding drop by simp
  have "destroy_classic (Some (ns ! k)) hp freed = destroy_classic (node_ptr (cn_next nd)) hp (ns ! k # freed)"
    using Suc.prems(3) nd drop by (subst destroy_classic.simps) auto
  moreover have "destroy_classic (if Suc k < length ns then Some (ns ! Suc k) else None) hp (ns ! k # freed) =
      Some (Inr (rev (drop (Suc k) ns) @ ns ! k # freed))"
    using Suc.prems drop nk k Suc.hyps(2) by (intro Suc.hyps(1)) auto
  ultimately show ?case using k nx drop by simp
qed

text \<open>A run is patient when the threads that take part in it are; this can be evaluated.\<close>

fun patient_run :: "tid list \<Rightarrow> 'v classic_choice list \<Rightarrow> 'v classic_queue \<Rightarrow> bool" where
  "patient_run ts [] s \<longleftrightarrow> True"
| "patient_run ts (c # cs) s \<longleftrightarrow>
     (case c of CallClassicPush t v a \<Rightarrow> list_all (\<lambda>u. links_onto (cq_pc s u) \<noteq> Some a) ts | _ \<Rightarrow> True) \<and>
     list_ex (\<lambda>u. classic_acts c = Some u) ts \<and>
     (case classic_step c s of None \<Rightarrow> False | Some (s', e) \<Rightarrow> patient_run ts cs s')"

lemma patient_run_sched:
  "\<forall>u. u \<notin> set ts \<longrightarrow> cq_pc s u = CIdle \<Longrightarrow> patient_run ts cs s \<Longrightarrow> sched patient_step cs s = sched classic_step cs s"
proof (induction cs arbitrary: s)
  case Nil
  show ?case by simp
next
  case (Cons c cs)
  then obtain s' e t where st: "classic_step c s = Some (s', e)" and t: "classic_acts c = Some t" "t \<in> set ts"
    and rest: "patient_run ts cs s'" by (auto simp: list_ex_iff split: option.splits prod.splits)
  have "patient_step c s = classic_step c s"
  proof (cases c)
    case (CallClassicPush u v a)
    then have "\<forall>u \<in> set ts. links_onto (cq_pc s u) \<noteq> Some a" using Cons.prems(2) by (simp add: list_all_iff)
    then have "\<not> linking s a" using Cons.prems(1) unfolding linking_def by (metis links_onto.simps(2) option.distinct(1))
    then show ?thesis using CallClassicPush by simp
  qed simp_all
  moreover have "\<forall>u. u \<notin> set ts \<longrightarrow> cq_pc s' u = CIdle" using Cons.prems(1) classic_step_other [OF st t(1)] t(2) by metis
  ultimately show ?case using Cons.IH [of s'] rest st by simp
qed

lemma patient_reach_stable: "reach patient_step (init_classic keeps d) es s \<Longrightarrow> cq_stable s = keeps"
proof (induction rule: reach.induct)
  case (reach_step es s c s' e)
  obtain t where "classic_acts c = Some t" by (cases c) auto
  from classic_step_other [OF patient_step_classic [OF reach_step.hyps(2)] this, of "Suc t"] reach_step.IH show ?case by simp
qed (simp add: init_classic_def)

subsection \<open>Properties\<close>

text \<open>
  C5: \<open>ClassicMSQueue\<close> is linearizable and fault-free in every interleaving of any number of threads, although deleted nodes are
  reused, under three conditions on the run: the memory of a deleted node stays readable (the type-preserving allocator of the class comment),
  or at least no thread has accessed a deleted node; \<open>new\<close> has not returned a node that a \<open>Push\<close> had checked and was about to link to
  (\<open>patient_step\<close>); and fewer than \<open>2 ^ 64\<close> calls of \<open>Push\<close> were made, so that no counter has gone round. Then the history of calls and returns
  is one of the atomic queue, no null or dangling pointer is dereferenced and no node deleted twice, and the popped values were pushed, each popped
  at most once. The destructor ends and deletes exactly the nodes from \<open>head\<close> on, once each; when no operation is under way, every
  node ever allocated has then been deleted.\<close>
theorem classic_ms_queue_linearizable:
  assumes "reach patient_step (init_classic keeps d) es s" and "length (pushed_values es) < 2 ^ 64"
    and "keeps \<or> (\<forall>t f. cq_pc s t \<noteq> CFault f)"
  shows "(\<exists>a. reach queue_spec init_spec es a) \<and> (\<forall>t f. cq_pc s t \<noteq> CFault f) \<and>
    mset (popped_values es) \<subseteq># mset (pushed_values es) \<and>
    (\<exists>ns. destroy_classic (node_ptr (cq_head s)) (cq_heap s) (cq_freed s) = Some (Inr (rev ns @ cq_freed s)) \<and>
       distinct ns \<and> node_ptr (cq_head s) = Some (hd ns) \<and>
       (\<exists>st. reach queue_spec init_spec es (map (the \<circ> cval (cq_heap s)) (tl ns), st)) \<and>
       ((\<forall>t. cq_pc s t = CIdle) \<longrightarrow> set (rev ns @ cq_freed s) = dom (cq_heap s)))"
proof -
  have "cq_stable s = keeps" by (rule patient_reach_stable [OF assms(1)])
  then have "unfaulted s" using assms(3) by (simp add: unfaulted_def)
  from classic_refines.refines [OF counted_reach [OF assms(1,2) this]] obtain b
    where r: "reach observing_spec init_observing es b" and sim: "cq_sim b (length (pushed_values es), s)" by blast
  obtain q st obs where b: "b = ((q, st), obs)" by (metis surj_pair)
  have spec: "reach queue_spec init_spec es (q, st)" using observing_refines [OF r] b by simp
  obtain ns hi ti where inv: "cq_inv (length (pushed_values es)) ns hi ti q st obs s" using sim b by (auto simp: cq_sim_def)
  note D = cq_invD [OF inv] and M = cq_invD(6) [OF inv, unfolded cmemory_def]
  have hi: "hi < length ns" "node_ptr (cq_head s) = Some (ns ! hi)" using D(3) by (auto simp: stamped_def)
  have "hd (drop hi ns) = ns ! hi" "tl (drop hi ns) = drop (Suc hi) ns"
    using hi(1) by (simp_all add: hd_drop_conv_nth drop_Suc tl_drop)
  moreover have "map (the \<circ> cval (cq_heap s)) (drop (Suc hi) ns) = q"
  proof -
    have "map the (map (cval (cq_heap s)) (drop (Suc hi) ns)) = map the (map Some q)" using D(5) by simp
    then show ?thesis by (simp add: comp_def)
  qed
  moreover have "destroy_classic (node_ptr (cq_head s)) (cq_heap s) (cq_freed s) = Some (Inr (rev (drop hi ns) @ cq_freed s))"
    using destroy_classic_chain [OF D(1), of hi "cq_freed s"] M hi by auto
  moreover have "set (rev (drop hi ns) @ cq_freed s) = dom (cq_heap s)" if "\<forall>t. cq_pc s t = CIdle"
    using M that by (simp add: kept_nodes_def)
  ultimately have "\<exists>ns. destroy_classic (node_ptr (cq_head s)) (cq_heap s) (cq_freed s) = Some (Inr (rev ns @ cq_freed s)) \<and>
       distinct ns \<and> node_ptr (cq_head s) = Some (hd ns) \<and>
       (\<exists>st. reach queue_spec init_spec es (map (the \<circ> cval (cq_heap s)) (tl ns), st)) \<and>
       ((\<forall>t. cq_pc s t = CIdle) \<longrightarrow> set (rev ns @ cq_freed s) = dom (cq_heap s))"
    using hi(2) spec M by (intro exI [of _ "drop hi ns"]) auto
  then show ?thesis using cq_sim_no_fault [OF sim] spec spec_pops_pushed [OF spec] by blast
qed

text \<open>
  The witness is the situation the counters are for: thread 1 has read \<open>head\<close> when thread 2 pops that node, reuses it for another push and pops
  until it is the head again. Thread 1 finds the same pointer with another counter, starts again and answers that the queue is empty.\<close>

definition aba_run :: "nat classic_choice list" where
  "aba_run = [CallClassicPush 2 7 10] @ replicate 6 (ClassicGo 2) @ [CallClassicPop 1, ClassicGo 1, ClassicGo 1] @
     CallClassicPop 2 # replicate 8 (ClassicGo 2) @ CallClassicPush 2 8 0 # replicate 6 (ClassicGo 2) @
     CallClassicPop 2 # replicate 8 (ClassicGo 2) @ replicate 7 (ClassicGo 1)"

theorem classic_ms_queue_linearizable_witness:
  "\<exists>es s. reach patient_step (init_classic True (0 :: nat)) es s \<and> popped_values es = [7, 8] \<and> pushed_values es = [7, 8] \<and>
     Return 1 (Popped None) \<in> set es \<and> cq_head s = (Some 0, 2) \<and> (\<exists>a. reach queue_spec init_spec es a)"
proof -
  have "run_ok classic_step aba_run (init_classic True (0 :: nat))
     (\<lambda>es s. popped_values es = [7, 8] \<and> pushed_values es = [7, 8] \<and> Return 1 (Popped None) \<in> set es \<and> cq_head s = (Some 0, 2))"
    by code_simp
  then obtain es s where r: "sched classic_step aba_run (init_classic True (0 :: nat)) = Some (s, es)"
    and v: "popped_values es = [7, 8]" "pushed_values es = [7, 8]" "Return 1 (Popped None) \<in> set es" "cq_head s = (Some 0, 2)"
    by (elim run_okE) blast
  have "patient_run [1, 2] aba_run (init_classic True (0 :: nat))" by code_simp
  from patient_run_sched [OF _ this] r have "sched patient_step aba_run (init_classic True (0 :: nat)) = Some (s, es)"
    by (simp add: init_classic_def)
  then have "reach patient_step (init_classic True (0 :: nat)) es s" by (rule sched_reach)
  moreover from classic_ms_queue_linearizable [OF this] v have "\<exists>a. reach queue_spec init_spec es a" by simp
  ultimately show ?thesis using v by blast
qed

text \<open>
  C40: The conditions are needed. With the ordinary \<open>delete\<close>, \<open>TryPop\<close> of one thread can read the successor of a node that another
  thread has popped and freed, and \<open>Push\<close> can read the successor of a freed tail. With the type-preserving allocator of the class comment the queue
  is not linearizable: a thread has read the null successor of the tail and is about to link its node to it; the tail is popped, deleted and reused for
  the node of another \<open>Push\<close>, whose constructor sets the successor to null with counter \<open>0\<close> again; the link succeeds on that unlinked node,
  \<open>Push\<close> returns, and the next \<open>TryPop\<close> of the same thread answers that the queue is empty.\<close>
theorem classic_ms_queue_allocator:
  "(\<exists>es s. reach classic_step (init_classic False (0 :: nat)) es s \<and> cq_pc s 1 = CFault UseAfterFree) \<and>
   (\<exists>es s. reach classic_step (init_classic False (0 :: nat)) es s \<and> cq_pc s 3 = CFault UseAfterFree) \<and>
   (\<exists>es s. reach classic_step (init_classic True (0 :: nat)) es s \<and> (\<nexists>a. reach queue_spec init_spec es a))"
proof (intro conjI)
  have "run_ok classic_step
     ([CallClassicPush 2 (7 :: nat) 10] @ replicate 6 (ClassicGo 2) @ [CallClassicPop 1, ClassicGo 1, ClassicGo 1] @
      CallClassicPop 2 # replicate 8 (ClassicGo 2) @ [ClassicGo 1]) (init_classic False (0 :: nat))
     (\<lambda>es s. cq_pc s 1 = CFault UseAfterFree)"
    by code_simp
  then show "\<exists>es s. reach classic_step (init_classic False (0 :: nat)) es s \<and> cq_pc s 1 = CFault UseAfterFree" by (elim run_okE) blast
  have "run_ok classic_step
     ([CallClassicPush 3 (9 :: nat) 12, ClassicGo 3, CallClassicPush 2 7 10] @ replicate 6 (ClassicGo 2) @
      CallClassicPop 2 # replicate 8 (ClassicGo 2) @ [ClassicGo 3]) (init_classic False (0 :: nat))
     (\<lambda>es s. cq_pc s 3 = CFault UseAfterFree)"
    by code_simp
  then show "\<exists>es s. reach classic_step (init_classic False (0 :: nat)) es s \<and> cq_pc s 3 = CFault UseAfterFree" by (elim run_okE) blast
  let ?h = "[Invoke 1 (OpPush 5), Invoke 2 (OpPush 6), Return 2 Pushed, Invoke 2 OpPop, Return 2 (Popped (Some 6)), Invoke 2 (OpPush 7),
    Return 1 Pushed] :: nat queue_event list"
  have "run_ok classic_step
     ([CallClassicPush 1 (5 :: nat) 1, ClassicGo 1, ClassicGo 1, ClassicGo 1, CallClassicPush 2 6 2] @ replicate 6 (ClassicGo 2) @
      CallClassicPop 2 # replicate 8 (ClassicGo 2) @ CallClassicPush 2 7 0 # replicate 3 (ClassicGo 1) @
      CallClassicPop 1 # replicate 5 (ClassicGo 1)) (init_classic True (0 :: nat))
     (\<lambda>es s. es = ?h @ [Invoke 1 OpPop, Return 1 (Popped None)])"
    by code_simp
  then obtain es s where r: "reach classic_step (init_classic True (0 :: nat)) es s" and es: "es = ?h @ [Invoke 1 OpPop, Return 1 (Popped None)]"
    by (elim run_okE) blast
  have "settled ?h 5" by (simp add: settled_def open_op_def)
  from no_false_empty [OF this, of 1] have "\<nexists>a. reach queue_spec init_spec es a" unfolding es by blast
  with r show "\<exists>es s. reach classic_step (init_classic True (0 :: nat)) es s \<and> (\<nexists>a. reach queue_spec init_spec es a)" by blast
qed

end
