(* ===== verification/Routines.thy ===== *)
theory Routines
  imports Manual_Executor Tasks
begin

text \<open>
  Routines and the tasks made of them: \<^verbatim>\<open>src/components/function/basic_function.h\<close>,
  \<^verbatim>\<open>src/executor/task/internal/task_free_function.cpp\<close> and \<^verbatim>\<open>src/executor/submit.cpp\<close>.

  A \<open>BasicFunction\<close> is a shared pointer to a holder of a callable object; copies share the holder, and with it the state of the
  callable. \<open>invoke\<close> is the call operator of the wrapped object, a parameter: it returns the result and the object's new state.
  A \<open>TaskFreeFunction\<close> runs its routine once and deletes itself. Routines act on the world of the client.

  The lemmas show the life of a holder (created, shared, destroyed with the last copy), and that submitted routines run once and
  in order when the manual executor is drained, leaving neither a task nor a holder behind.
\<close>

subsection \<open>BasicFunction\<close>

record 'f holders =
  hs_obj :: "addr \<Rightarrow> 'f option"
  hs_refs :: "addr \<Rightarrow> nat"

type_synonym basic_function = ptr

definition null_function :: basic_function where
  "null_function = None"

text \<open>\<open>new\<close> returns the address \<open>a\<close>.\<close>

definition make_function :: "addr \<Rightarrow> 'f \<Rightarrow> 'f holders \<Rightarrow> basic_function \<times> 'f holders" where
  "make_function a f hs = (Some a, hs\<lparr>hs_obj := (hs_obj hs)(a \<mapsto> f), hs_refs := (hs_refs hs)(a := 1)\<rparr>)"

definition copy_function :: "basic_function \<Rightarrow> 'f holders \<Rightarrow> basic_function \<times> 'f holders" where
  "copy_function p hs =
     (p, case p of None \<Rightarrow> hs | Some a \<Rightarrow> hs\<lparr>hs_refs := (hs_refs hs)(a := hs_refs hs a + 1)\<rparr>)"

definition destroy_function :: "basic_function \<Rightarrow> 'f holders \<Rightarrow> 'f holders" where
  "destroy_function p hs =
     (case p of
        None \<Rightarrow> hs
      | Some a \<Rightarrow>
          hs\<lparr>hs_refs := (hs_refs hs)(a := hs_refs hs a - 1),
             hs_obj := (if hs_refs hs a = 1 then (hs_obj hs)(a := None) else hs_obj hs)\<rparr>)"

definition function_bool :: "basic_function \<Rightarrow> bool" where
  "function_bool p \<longleftrightarrow> p \<noteq> None"

definition call_function ::
  "('f \<Rightarrow> 'x \<Rightarrow> 'r \<times> 'f) \<Rightarrow> basic_function \<Rightarrow> 'x \<Rightarrow> 'f holders \<Rightarrow> fault + ('r \<times> 'f holders)" where
  "call_function invoke p x hs =
     (case p of
        None \<Rightarrow> Inl NullDeref
      | Some a \<Rightarrow>
          (case hs_obj hs a of
             None \<Rightarrow> Inl UseAfterFree
           | Some f \<Rightarrow> (case invoke f x of (r, f') \<Rightarrow> Inr (r, hs\<lparr>hs_obj := (hs_obj hs)(a \<mapsto> f')\<rparr>))))"

lemma copies_share_state:
  assumes "make_function a f hs = (p, hs1)" and "copy_function p hs1 = (p', hs2)" and "call_function invoke p x hs2 = Inr (r, hs3)"
  shows "call_function invoke p' y hs3 = Inr (fst (invoke (snd (invoke f x)) y), hs3\<lparr>hs_obj := (hs_obj hs3)(a \<mapsto> snd (invoke (snd (invoke f x)) y))\<rparr>)"
    "hs_obj (destroy_function p hs3) a \<noteq> None" "hs_obj (destroy_function p' (destroy_function p hs3)) a = None"
  using assms by (auto simp: make_function_def copy_function_def call_function_def destroy_function_def case_prod_unfold)

subsection \<open>TaskFreeFunction\<close>

record ('f, 'w) routine_world =
  rw_holders :: "'f holders"
  rw_tasks :: "addr \<Rightarrow> basic_function option"
  rw_world :: 'w
  rw_fault :: "fault option"

definition TaskFreeFunction_Make :: "addr \<Rightarrow> basic_function \<Rightarrow> ('f, 'w) routine_world \<Rightarrow> ('f, 'w) routine_world" where
  "TaskFreeFunction_Make a routine rw = rw\<lparr>rw_tasks := (rw_tasks rw)(a \<mapsto> routine)\<rparr>"

text \<open>\<open>delete this\<close> destroys the routine, which is a member of the task.\<close>

definition TaskFreeFunction_Run ::
  "('f \<Rightarrow> 'w \<Rightarrow> 'w \<times> 'f) \<Rightarrow> addr \<Rightarrow> ('f, 'w) routine_world \<Rightarrow> fault + (('f, 'w) routine_world \<times> task_run_result)" where
  "TaskFreeFunction_Run invoke a rw =
     (case rw_tasks rw a of
        None \<Rightarrow> Inl UseAfterFree
      | Some routine \<Rightarrow>
          bind_res (call_function invoke routine (rw_world rw) (rw_holders rw))
            (\<lambda>(w, hs). Inr (rw\<lparr>rw_world := w, rw_holders := destroy_function routine hs, rw_tasks := (rw_tasks rw)(a := None)\<rparr>,
                            COMPLETE)))"

definition routine_body :: "('f \<Rightarrow> 'w \<Rightarrow> 'w \<times> 'f) \<Rightarrow> ('f, 'w) routine_world task_body" where
  "routine_body invoke a rw =
     (case TaskFreeFunction_Run invoke a rw of Inl e \<Rightarrow> (rw\<lparr>rw_fault := Some e\<rparr>, []) | Inr (rw', _) \<Rightarrow> (rw', []))"

subsection \<open>Submit\<close>

text \<open>\<open>Submit(executor, routine)\<close> with the manual executor; \<open>a\<close> is the address of the new task.\<close>

definition Submit_routine ::
  "addr \<Rightarrow> basic_function \<Rightarrow> ('f, 'w) routine_world \<times> manual_executor \<Rightarrow> fault + (('f, 'w) routine_world \<times> manual_executor)" where
  "Submit_routine a routine st =
     (case st of (rw, e) \<Rightarrow> bind_res (me_Submit (Some a) e) (\<lambda>e'. Inr (TaskFreeFunction_Make a routine rw, e')))"

text \<open>A client that submits callables: the addresses of the task and of the holder are fresh.\<close>

fun Submit_routines ::
  "(addr \<times> addr \<times> 'f) list \<Rightarrow> ('f, 'w) routine_world \<times> manual_executor \<Rightarrow> fault + (('f, 'w) routine_world \<times> manual_executor)" where
  "Submit_routines [] st = Inr st"
| "Submit_routines ((a, h, f) # xs) st =
     (case st of (rw, e) \<Rightarrow>
        (case make_function h f (rw_holders rw) of (p, hs) \<Rightarrow>
           bind_res (Submit_routine a p (rw\<lparr>rw_holders := hs\<rparr>, e)) (Submit_routines xs)))"

text \<open>The queued tasks own their holders, each the only reference.\<close>

definition owned_routines :: "(addr \<times> addr \<times> 'f) list \<Rightarrow> ('f, 'w) routine_world \<Rightarrow> bool" where
  "owned_routines xs rw \<longleftrightarrow> distinct (map fst xs) \<and> distinct (map (fst \<circ> snd) xs) \<and>
     (\<forall>(a, h, f) \<in> set xs. rw_tasks rw a = Some (Some h) \<and> hs_obj (rw_holders rw) h = Some f \<and> hs_refs (rw_holders rw) h = 1)"

lemma submit_routines_ok:
  assumes "me_inv e" and "owned_routines ys rw" and "me_queue e = map fst ys"
    and "distinct (map fst (ys @ xs))" and "distinct (map (fst \<circ> snd) (ys @ xs))" and "length (ys @ xs) < 2 ^ 64 - 1"
  shows "\<exists>rw' e'. Submit_routines xs (rw, e) = Inr (rw', e') \<and> me_inv e' \<and> me_queue e' = map fst (ys @ xs) \<and> owned_routines (ys @ xs) rw' \<and>
    rw_world rw' = rw_world rw \<and> rw_fault rw' = rw_fault rw \<and>
    (\<forall>a. a \<notin> fst ` set xs \<longrightarrow> rw_tasks rw' a = rw_tasks rw a) \<and>
    (\<forall>h. h \<notin> (fst \<circ> snd) ` set xs \<longrightarrow> hs_obj (rw_holders rw') h = hs_obj (rw_holders rw) h)"
  using assms
proof (induction xs arbitrary: ys rw e)
  case Nil
  then show ?case by auto
next
  case (Cons x xs)
  obtain a h f where x: "x = (a, h, f)" by (metis surj_pair)
  let ?hs = "(rw_holders rw)\<lparr>hs_obj := (hs_obj (rw_holders rw))(h \<mapsto> f), hs_refs := (hs_refs (rw_holders rw))(h := 1)\<rparr>"
  let ?rw = "TaskFreeFunction_Make a (Some h) (rw\<lparr>rw_holders := ?hs\<rparr>)"
  have fresh: "a \<notin> fst ` set ys" "h \<notin> (fst \<circ> snd) ` set ys" using Cons.prems(4,5) x by auto
  have "list_room a (me_queue e)" using fresh(1) Cons.prems(3,6) by (auto simp: list_room_def)
  then obtain e1 where e1: "me_Submit (Some a) e = Inr e1" "me_inv e1" "me_queue e1 = me_queue e @ [a]"
    using me_Submit_ok [OF Cons.prems(1)] by blast
  have o1: "owned_routines (ys @ [x]) ?rw"
  proof -
    have "rw_tasks ?rw b = Some (Some k) \<and> hs_obj (rw_holders ?rw) k = Some g \<and> hs_refs (rw_holders ?rw) k = 1"
      if y: "(b, k, g) \<in> set ys" for b k g
    proof -
      have "b \<noteq> a" "k \<noteq> h" using y fresh by force+
      then show ?thesis using y Cons.prems(2) by (auto simp: owned_routines_def TaskFreeFunction_Make_def)
    qed
    moreover have "distinct (map fst (ys @ [x]))" "distinct (map (fst \<circ> snd) (ys @ [x]))" using Cons.prems(4,5) by (simp_all add: comp_def)
    ultimately show ?thesis unfolding owned_routines_def by (auto simp: x TaskFreeFunction_Make_def)
  qed
  have q1: "me_queue e1 = map fst (ys @ [x])" using e1(3) Cons.prems(3) x by simp
  have d: "distinct (map fst ((ys @ [x]) @ xs))" "distinct (map (fst \<circ> snd) ((ys @ [x]) @ xs))" "length ((ys @ [x]) @ xs) < 2 ^ 64 - 1"
    using Cons.prems(4-6) by (simp_all add: comp_def)
  obtain rw' e' where r: "Submit_routines xs (?rw, e1) = Inr (rw', e')" "me_inv e'" "me_queue e' = map fst ((ys @ [x]) @ xs)"
    "owned_routines ((ys @ [x]) @ xs) rw'" "rw_world rw' = rw_world ?rw" "rw_fault rw' = rw_fault ?rw"
    "\<forall>a. a \<notin> fst ` set xs \<longrightarrow> rw_tasks rw' a = rw_tasks ?rw a"
    "\<forall>h. h \<notin> (fst \<circ> snd) ` set xs \<longrightarrow> hs_obj (rw_holders rw') h = hs_obj (rw_holders ?rw) h"
    using Cons.IH [OF e1(2) o1 q1 d] by blast
  have "Submit_routines (x # xs) (rw, e) = Inr (rw', e')" using r(1) e1(1) x by (simp add: make_function_def Submit_routine_def)
  then show ?case using r(2-8) x by (auto simp: TaskFreeFunction_Make_def)
qed

lemma routine_body_ok:
  assumes "owned_routines ((a, h, f) # xs) rw"
  shows "owned_routines xs (fst (routine_body invoke a rw))" "snd (routine_body invoke a rw) = []"
    "rw_world (fst (routine_body invoke a rw)) = fst (invoke f (rw_world rw))" "rw_fault (fst (routine_body invoke a rw)) = rw_fault rw"
    "rw_tasks (fst (routine_body invoke a rw)) = (rw_tasks rw)(a := None)"
    "hs_obj (rw_holders (fst (routine_body invoke a rw))) = (hs_obj (rw_holders rw))(h := None)"
proof -
  let ?hs = "(rw_holders rw)\<lparr>hs_refs := (hs_refs (rw_holders rw))(h := 0), hs_obj := (hs_obj (rw_holders rw))(h := None)\<rparr>"
  have o: "rw_tasks rw a = Some (Some h)" "hs_obj (rw_holders rw) h = Some f" "hs_refs (rw_holders rw) h = 1"
    using assms by (auto simp: owned_routines_def)
  have b: "routine_body invoke a rw =
    (rw\<lparr>rw_world := fst (invoke f (rw_world rw)), rw_holders := ?hs, rw_tasks := (rw_tasks rw)(a := None)\<rparr>, [])"
    using o by (simp add: routine_body_def TaskFreeFunction_Run_def call_function_def destroy_function_def case_prod_unfold)
  show "snd (routine_body invoke a rw) = []" "rw_world (fst (routine_body invoke a rw)) = fst (invoke f (rw_world rw))"
    "rw_fault (fst (routine_body invoke a rw)) = rw_fault rw" "rw_tasks (fst (routine_body invoke a rw)) = (rw_tasks rw)(a := None)"
    "hs_obj (rw_holders (fst (routine_body invoke a rw))) = (hs_obj (rw_holders rw))(h := None)"
    by (simp_all add: b)
  show "owned_routines xs (fst (routine_body invoke a rw))"
    using assms unfolding b owned_routines_def by force
qed

lemma routines_run:
  assumes "owned_routines xs rw"
  shows "\<exists>rw'. fifo_run (routine_body invoke) (length xs) rw (map fst xs) = Some (length xs, rw', []) \<and>
    rw_world rw' = fold (\<lambda>(a, h, f) w. fst (invoke f w)) xs (rw_world rw) \<and> rw_fault rw' = rw_fault rw \<and>
    (\<forall>a. rw_tasks rw' a = (if a \<in> fst ` set xs then None else rw_tasks rw a)) \<and>
    (\<forall>h. hs_obj (rw_holders rw') h = (if h \<in> (fst \<circ> snd) ` set xs then None else hs_obj (rw_holders rw) h))"
  using assms
proof (induction xs arbitrary: rw)
  case Nil
  then show ?case by simp
next
  case (Cons x xs)
  obtain a h f where x: "x = (a, h, f)" by (metis surj_pair)
  note b = routine_body_ok [OF Cons.prems [unfolded x], of invoke]
  let ?rw = "fst (routine_body invoke a rw)"
  have p: "routine_body invoke a rw = (?rw, [])" using b(2) by (metis prod.collapse)
  obtain rw' where r: "fifo_run (routine_body invoke) (length xs) ?rw (map fst xs) = Some (length xs, rw', [])"
    "rw_world rw' = fold (\<lambda>(a, h, f) w. fst (invoke f w)) xs (rw_world ?rw)" "rw_fault rw' = rw_fault ?rw"
    "\<forall>a. rw_tasks rw' a = (if a \<in> fst ` set xs then None else rw_tasks ?rw a)"
    "\<forall>h. hs_obj (rw_holders rw') h = (if h \<in> (fst \<circ> snd) ` set xs then None else hs_obj (rw_holders ?rw) h)"
    using Cons.IH [OF b(1)] by blast
  have "fifo_run (routine_body invoke) (length (x # xs)) rw (map fst (x # xs)) = Some (length (x # xs), rw', [])"
    using r(1) b(2) x by (simp add: case_prod_unfold)
  then show ?case using r(2-5) b(3-6) x by (intro exI [of _ rw']) auto
qed

subsection \<open>Properties\<close>

text \<open>
  C33: Routines submitted to the manual executor through \<open>Submit\<close> and drained: each callable is invoked exactly once, in the order of
  submission, on the world the previous ones left; \<open>Drain\<close> returns their number; every task has deleted itself and every
  holder was freed with it, nothing else was touched and nothing faulted. This composes \<open>BasicFunction\<close>,
  \<open>TaskFreeFunction\<close>, \<open>Submit\<close> and \<open>IntrusiveManualExecutor\<close>.\<close>
theorem submitted_routines_run:
  fixes xs :: "(addr \<times> addr \<times> 'f) list" and rw :: "('f, 'w) routine_world"
  assumes "distinct (map fst xs)" and "distinct (map (fst \<circ> snd) xs)" and "int (length xs) < 2 ^ 64 - 1"
  shows "\<exists>rw1 e1 rw2 e2. Submit_routines xs (rw, init_manual links) = Inr (rw1, e1) \<and>
    Drain (routine_body invoke) rw1 e1 = Some (Inr (of_nat (length xs), rw2, e2)) \<and> me_queue e2 = [] \<and>
    rw_world rw2 = fold (\<lambda>(a, h, f) w. fst (invoke f w)) xs (rw_world rw) \<and> rw_fault rw2 = rw_fault rw \<and>
    (\<forall>a. rw_tasks rw2 a = (if a \<in> fst ` set xs then None else rw_tasks rw a)) \<and>
    (\<forall>h. hs_obj (rw_holders rw2) h = (if h \<in> (fst \<circ> snd) ` set xs then None else hs_obj (rw_holders rw) h))"
proof -
  have n: "length ([] @ xs) < 2 ^ 64 - 1" using assms(3) by simp
  have "owned_routines [] rw" by (simp add: owned_routines_def)
  from submit_routines_ok [OF me_inv_init(1) this, of links xs] obtain rw1 e1 where
    s: "Submit_routines xs (rw, init_manual links) = Inr (rw1, e1)" "me_inv e1" "me_queue e1 = map fst xs" "owned_routines xs rw1"
      "rw_world rw1 = rw_world rw" "rw_fault rw1 = rw_fault rw" "\<forall>a. a \<notin> fst ` set xs \<longrightarrow> rw_tasks rw1 a = rw_tasks rw a"
      "\<forall>h. h \<notin> (fst \<circ> snd) ` set xs \<longrightarrow> hs_obj (rw_holders rw1) h = hs_obj (rw_holders rw) h"
    using me_inv_init(2) assms(1,2) n by auto
  obtain rw2 where r: "fifo_run (routine_body invoke) (length xs) rw1 (me_queue e1) = Some (length xs, rw2, [])"
    "rw_world rw2 = fold (\<lambda>(a, h, f) w. fst (invoke f w)) xs (rw_world rw1)" "rw_fault rw2 = rw_fault rw1"
    "\<forall>a. rw_tasks rw2 a = (if a \<in> fst ` set xs then None else rw_tasks rw1 a)"
    "\<forall>h. hs_obj (rw_holders rw2) h = (if h \<in> (fst \<circ> snd) ` set xs then None else hs_obj (rw_holders rw1) h)"
    using routines_run [OF s(4), of invoke] s(3) by metis
  obtain e2 where "Drain (routine_body invoke) rw1 e1 = Some (Inr (of_nat (length xs), rw2, e2))" "me_queue e2 = []"
    using Drain_loop_ok [OF s(2) r(1), of 0] by (auto simp: Drain_def)
  then show ?thesis using s r by (intro exI [of _ rw1] exI [of _ e1] exI [of _ rw2] exI [of _ e2]) auto
qed

theorem submitted_routines_run_witness:
  "\<exists>rw1 e1 rw2 e2. Submit_routines [(1, 10, 3 :: nat), (2, 20, 5)]
       (\<lparr>rw_holders = \<lparr>hs_obj = (\<lambda>_. None), hs_refs = (\<lambda>_. 0)\<rparr>, rw_tasks = (\<lambda>_. None), rw_world = [], rw_fault = None\<rparr>, init_manual (\<lambda>_. None)) =
       Inr (rw1, e1) \<and>
     Drain (routine_body (\<lambda>f log. (log @ [f], f))) rw1 e1 = Some (Inr (2, rw2, e2)) \<and> rw_world rw2 = [3, 5] \<and> rw_tasks rw2 1 = None"
proof -
  let ?xs = "[(1, 10, 3), (2, 20, 5)] :: (addr \<times> addr \<times> nat) list"
  let ?rw = "\<lparr>rw_holders = \<lparr>hs_obj = (\<lambda>_. None), hs_refs = (\<lambda>_. 0)\<rparr>, rw_tasks = (\<lambda>_. None), rw_world = [], rw_fault = None\<rparr> :: (nat, nat list) routine_world"
  have "distinct (map fst ?xs)" "distinct (map (fst \<circ> snd) ?xs)" "int (length ?xs) < 2 ^ 64 - 1" by simp_all
  from submitted_routines_run [OF this, of ?rw "\<lambda>_. None" "\<lambda>f log. (log @ [f], f)"] obtain rw1 e1 rw2 e2 where
    "Submit_routines ?xs (?rw, init_manual (\<lambda>_. None)) = Inr (rw1, e1)"
    "Drain (routine_body (\<lambda>f log. (log @ [f], f))) rw1 e1 = Some (Inr (of_nat (length ?xs), rw2, e2))"
    "rw_world rw2 = fold (\<lambda>(a, h, f) w. fst (w @ [f], f)) ?xs (rw_world ?rw)"
    "\<forall>a. rw_tasks rw2 a = (if a \<in> fst ` set ?xs then None else rw_tasks ?rw a)"
    by blast
  moreover have "of_nat (length ?xs) = (2 :: size_t)" by simp
  ultimately show ?thesis by (intro exI [of _ rw1] exI [of _ e1] exI [of _ rw2] exI [of _ e2]) simp
qed

end
