(* ===== verification/Guarded_Counter.thy ===== *)
theory Guarded_Counter
  imports Fiber_Sync Coro_Mutex
begin

text \<open>
  Programs that count under a lock: the pattern shared by the workloads and benchmarks of the repository. A program repeats a number of
  times: call the lock, read the shared counter, write it back incremented, call the unlock. The read and the write are two steps, so without
  mutual exclusion increments would be lost.

  The lock is a parameter: \<open>step\<close> is its machine, \<open>calls\<close> and \<open>leaves\<close> name the thread that a choice makes call the lock or the
  unlock, \<open>holds\<close> says who is inside and \<open>outside\<close> who has nothing to do with it. The locale \<open>counting_lock\<close> asks of a
  lock that it excludes and that only its own unlock makes a thread leave; it is interpreted on the mutex for fibers and on the mutex for coroutines.
  A thread that is not a program may use the lock as well.
\<close>

datatype inc_pc = IncNo | IncLoaded size_t | IncDone

datatype prog_state = NotStarted | Left nat | Finished

record 's counting =
  cn_lock :: 's
  cn_value :: size_t
  cn_pc :: "tid \<Rightarrow> inc_pc"
  cn_prog :: "tid \<Rightarrow> prog_state"

datatype 'c counting_choice = Begin tid | LockChoice 'c | LoadValue tid | StoreValue tid | Finish tid

definition init_counting :: "'s \<Rightarrow> 's counting" where
  "init_counting s0 = \<lparr>cn_lock = s0, cn_value = 0, cn_pc = (\<lambda>_. IncNo), cn_prog = (\<lambda>_. NotStarted)\<rparr>"

text \<open>The program order: the lock is called while iterations are left, and left after the increment.\<close>

definition lock_move ::
  "('c \<Rightarrow> tid option) \<Rightarrow> ('c \<Rightarrow> tid option) \<Rightarrow> 'c \<Rightarrow> 's counting \<Rightarrow> bool" where
  "lock_move calls leaves c s \<longleftrightarrow>
     (case calls c of None \<Rightarrow> True | Some t \<Rightarrow> cn_prog s t \<noteq> Finished \<and> cn_prog s t \<noteq> Left 0) \<and>
     (case leaves c of None \<Rightarrow> True | Some t \<Rightarrow> cn_prog s t = NotStarted \<or> cn_pc s t = IncDone)"

definition lock_moved :: "('c \<Rightarrow> tid option) \<Rightarrow> 'c \<Rightarrow> 's \<Rightarrow> 's counting \<Rightarrow> 's counting" where
  "lock_moved leaves c l s =
     (case leaves c of None \<Rightarrow> s\<lparr>cn_lock := l\<rparr> | Some t \<Rightarrow> s\<lparr>cn_lock := l, cn_pc := (cn_pc s)(t := IncNo)\<rparr>)"

fun counting_step ::
  "('c, 's, 'e) stepper \<Rightarrow> ('s \<Rightarrow> tid \<Rightarrow> bool) \<Rightarrow> ('s \<Rightarrow> tid \<Rightarrow> bool) \<Rightarrow> ('c \<Rightarrow> tid option) \<Rightarrow> ('c \<Rightarrow> tid option) \<Rightarrow> tid list \<Rightarrow> nat \<Rightarrow>
     ('c counting_choice, 's counting, 'e) stepper" where
  "counting_step step holds outside calls leaves ms k (Begin t) s =
     (if t \<in> set ms \<and> cn_prog s t = NotStarted \<and> outside (cn_lock s) t then Some (s\<lparr>cn_prog := (cn_prog s)(t := Left k)\<rparr>, []) else None)"
| "counting_step step holds outside calls leaves ms k (LockChoice c) s =
     (if lock_move calls leaves c s then map_option (\<lambda>(l, e). (lock_moved leaves c l s, e)) (step c (cn_lock s)) else None)"
| "counting_step step holds outside calls leaves ms k (LoadValue t) s =
     (case cn_prog s t of
        Left (Suc j) \<Rightarrow>
          if holds (cn_lock s) t \<and> cn_pc s t = IncNo then Some (s\<lparr>cn_pc := (cn_pc s)(t := IncLoaded (cn_value s))\<rparr>, []) else None
      | _ \<Rightarrow> None)"
| "counting_step step holds outside calls leaves ms k (StoreValue t) s =
     (case (cn_pc s t, cn_prog s t) of
        (IncLoaded r, Left (Suc j)) \<Rightarrow>
          Some (s\<lparr>cn_value := r + 1, cn_pc := (cn_pc s)(t := IncDone), cn_prog := (cn_prog s)(t := Left j)\<rparr>, [])
      | _ \<Rightarrow> None)"
| "counting_step step holds outside calls leaves ms k (Finish t) s =
     (if cn_prog s t = Left 0 \<and> outside (cn_lock s) t then Some (s\<lparr>cn_prog := (cn_prog s)(t := Finished)\<rparr>, []) else None)"

text \<open>How often a program has incremented.\<close>

fun increments :: "nat \<Rightarrow> prog_state \<Rightarrow> nat" where
  "increments k NotStarted = 0"
| "increments k (Left j) = k - j"
| "increments k Finished = k"

definition counting_ok :: "('s \<Rightarrow> tid \<Rightarrow> bool) \<Rightarrow> tid list \<Rightarrow> nat \<Rightarrow> 's counting \<Rightarrow> bool" where
  "counting_ok holds ms k s \<longleftrightarrow>
     cn_value s = of_nat (\<Sum>t \<in> set ms. increments k (cn_prog s t)) \<and>
     (\<forall>t. t \<notin> set ms \<longrightarrow> cn_prog s t = NotStarted) \<and> (\<forall>t j. cn_prog s t = Left j \<longrightarrow> j \<le> k) \<and>
     (\<forall>t r. cn_pc s t = IncLoaded r \<longrightarrow> holds (cn_lock s) t \<and> r = cn_value s \<and> cn_prog s t \<noteq> NotStarted)"

lemma counting_okD:
  assumes "counting_ok holds ms k s"
  shows "cn_value s = of_nat (\<Sum>t \<in> set ms. increments k (cn_prog s t))" "t \<notin> set ms \<Longrightarrow> cn_prog s t = NotStarted"
    "cn_prog s t = Left j \<Longrightarrow> j \<le> k"
    "cn_pc s t = IncLoaded r \<Longrightarrow> holds (cn_lock s) t" "cn_pc s t = IncLoaded r \<Longrightarrow> r = cn_value s"
    "cn_pc s t = IncLoaded r \<Longrightarrow> cn_prog s t \<noteq> NotStarted"
  using assms unfolding counting_ok_def by blast+

lemma sum_upd:
  assumes "t \<in> set ms"
  shows "(\<Sum>u \<in> set ms. increments k ((p(t := x)) u)) + increments k (p t) = (\<Sum>u \<in> set ms. increments k (p u)) + increments k x"
proof -
  have "(\<Sum>u \<in> set ms - {t}. increments k ((p(t := x)) u)) = (\<Sum>u \<in> set ms - {t}. increments k (p u))" by (rule sum.cong) auto
  then show ?thesis using assms by (simp add: sum.remove [of _ t])
qed

lemma sum_same:
  assumes "increments k x = increments k (p t)"
  shows "(\<Sum>u \<in> set ms. increments k ((p(t := x)) u)) = (\<Sum>u \<in> set ms. increments k (p u))"
  by (rule sum.cong) (use assms in auto)

locale counting_lock = lock_protocol step s0 inv holds
  for step :: "('c, 's, 'e) stepper" and s0 :: 's and inv :: "'e list \<Rightarrow> 's \<Rightarrow> bool" and holds :: "'s \<Rightarrow> tid \<Rightarrow> bool" +
  fixes outside :: "'s \<Rightarrow> tid \<Rightarrow> bool" and calls leaves :: "'c \<Rightarrow> tid option"
  assumes keeps_hold: "inv es s \<Longrightarrow> holds s t \<Longrightarrow> step c s = Some (s', e) \<Longrightarrow> leaves c \<noteq> Some t \<Longrightarrow> holds s' t"
begin

lemma counting_ok_step:
  assumes ok: "counting_ok holds ms k s" and lk: "inv es (cn_lock s)"
    and st: "counting_step step holds outside calls leaves ms k c s = Some (s', e)"
  shows "counting_ok holds ms k s' \<and> inv (es @ e) (cn_lock s')"
proof (cases c)
  case (Begin t)
  with st have t: "t \<in> set ms" "cn_prog s t = NotStarted" "s' = s\<lparr>cn_prog := (cn_prog s)(t := Left k)\<rparr>" "e = []" by (auto split: if_splits)
  have "cn_value s' = of_nat (\<Sum>u \<in> set ms. increments k (cn_prog s' u))"
    using counting_okD(1) [OF ok] sum_same [of k "Left k" "cn_prog s" t ms] t by simp
  then show ?thesis using ok lk t unfolding counting_ok_def by auto
next
  case (LockChoice c)
  with st obtain l where l: "step c (cn_lock s) = Some (l, e)" "s' = lock_moved leaves c l s" "lock_move calls leaves c s"
    by (auto split: if_splits)
  have f: "cn_value s' = cn_value s" "cn_prog s' = cn_prog s" "cn_lock s' = l" by (simp_all add: l(2) lock_moved_def split: option.splits)
  have "holds l t \<and> r = cn_value s \<and> cn_prog s t \<noteq> NotStarted" if p: "cn_pc s' t = IncLoaded r" for t r
  proof -
    have "cn_pc s t = IncLoaded r" "leaves c \<noteq> Some t" using p by (auto simp: l(2) lock_moved_def split: option.splits if_splits)
    then show ?thesis using keeps_hold [OF lk counting_okD(4) [OF ok] l(1)] counting_okD(5,6) [OF ok] by blast
  qed
  then have "counting_ok holds ms k s'" using ok unfolding counting_ok_def f by blast
  then show ?thesis using inv_step [OF lk l(1)] f(3) by simp
next
  case (LoadValue t)
  with st obtain j where t: "cn_prog s t = Left (Suc j)" "holds (cn_lock s) t" "s' = s\<lparr>cn_pc := (cn_pc s)(t := IncLoaded (cn_value s))\<rparr>" "e = []"
    by (auto split: prog_state.splits nat.splits if_splits)
  then show ?thesis using ok lk unfolding counting_ok_def by auto
next
  case (StoreValue t)
  with st obtain r j where t: "cn_pc s t = IncLoaded r" "cn_prog s t = Left (Suc j)" "e = []"
    "s' = s\<lparr>cn_value := r + 1, cn_pc := (cn_pc s)(t := IncDone), cn_prog := (cn_prog s)(t := Left j)\<rparr>"
    by (auto split: inc_pc.splits prog_state.splits nat.splits)
  have r: "r = cn_value s" "holds (cn_lock s) t" using counting_okD(4,5) [OF ok t(1)] by auto
  have m: "t \<in> set ms" using counting_okD(2) [OF ok, of t] t(2) by auto
  have j: "Suc j \<le> k" using counting_okD(3) [OF ok t(2)] .
  then have "(\<Sum>u \<in> set ms. increments k (((cn_prog s)(t := Left j)) u)) = Suc (\<Sum>u \<in> set ms. increments k (cn_prog s u))"
    using sum_upd [OF m, of k "cn_prog s" "Left j"] t(2) by simp
  then have v: "cn_value s' = of_nat (\<Sum>u \<in> set ms. increments k (cn_prog s' u))" using counting_okD(1) [OF ok] r t(4) by simp
  have "cn_pc s u \<noteq> IncLoaded q" if "u \<noteq> t" for u q
    using counting_okD(4) [OF ok, of u q] inv_exclusive [OF lk r(2), of u] that by auto
  then show ?thesis using ok lk v m t Suc_leD [OF j] unfolding counting_ok_def by (auto split: if_splits)
next
  case (Finish t)
  with st have t: "cn_prog s t = Left 0" "s' = s\<lparr>cn_prog := (cn_prog s)(t := Finished)\<rparr>" "e = []" by (auto split: if_splits)
  have m: "t \<in> set ms" using counting_okD(2) [OF ok, of t] t(1) by auto
  have "cn_value s' = of_nat (\<Sum>u \<in> set ms. increments k (cn_prog s' u))"
    using counting_okD(1) [OF ok] sum_same [of k Finished "cn_prog s" t ms] t by simp
  then show ?thesis using ok lk m t unfolding counting_ok_def by auto
qed

lemma counting_ok_init: "counting_ok holds ms k (init_counting s0)"
  by (simp add: counting_ok_def init_counting_def)

lemma counting_reach:
  assumes "reach (counting_step step holds outside calls leaves ms k) (init_counting s0) es s"
  shows "counting_ok holds ms k s \<and> inv es (cn_lock s)"
  using assms
proof (induction rule: reach.induct)
  case reach_init
  show ?case using counting_ok_init inv_init by (simp add: init_counting_def)
next
  case (reach_step es s c s' e)
  then show ?case using counting_ok_step by blast
qed

text \<open>The value is exact when every program has finished.\<close>

lemma all_finished_value:
  assumes "counting_ok holds ms k s" and "\<And>t. t \<in> set ms \<Longrightarrow> cn_prog s t = Finished"
  shows "cn_value s = of_nat (card (set ms) * k)"
  using counting_okD(1) [OF assms(1)] assms(2) by simp

end

subsection \<open>The two mutexes\<close>

fun fm_calls :: "fm_choice \<Rightarrow> tid option" where
  "fm_calls (FmLock f) = Some f"
| "fm_calls _ = None"

fun fm_leaves :: "fm_choice \<Rightarrow> tid option" where
  "fm_leaves (FmUnlock f) = Some f"
| "fm_leaves _ = None"

definition fm_outside :: "fiber_mutex \<Rightarrow> tid \<Rightarrow> bool" where
  "fm_outside s f \<longleftrightarrow> fm_pc s f = FOut"

fun coro_calls :: "coro_choice \<Rightarrow> tid option" where
  "coro_calls (CoAwaitLock c) = Some c"
| "coro_calls _ = None"

fun coro_leaves :: "coro_choice \<Rightarrow> tid option" where
  "coro_leaves (CallUnlock c) = Some c"
| "coro_leaves _ = None"

definition coro_outside :: "coro_mutex \<Rightarrow> tid \<Rightarrow> bool" where
  "coro_outside s c \<longleftrightarrow> cm_pc s c = COut"

interpretation fiber_counting:
  counting_lock fm_step "init_fiber_mutex h" "\<lambda>_ s. \<exists>a. fm_sim a s" fm_holds fm_outside fm_calls fm_leaves for h
proof unfold_locales
  fix s t c s' e
  assume "fm_holds s t" "fm_step c s = Some (s', e)" "fm_leaves c \<noteq> Some t"
  then show "fm_holds s' t"
    by (cases c) (auto simp: fm_holds_def Lock_def Park_def waiter_Schedule_def fiber_resumes_def fto_def bind_res_Inr_iff Fiber_Sync.Unlock_def
        split: if_splits fm_pc.splits sum.splits option.splits)
qed

interpretation coro_counting:
  counting_lock coro_step init_coro_mutex "\<lambda>_ s. \<exists>a. coro_sim a s" coro_holds coro_outside coro_calls coro_leaves
proof unfold_locales
  fix s t c s' e
  assume "coro_holds s t" "coro_step c s = Some (s', e)" "coro_leaves c \<noteq> Some t"
  then show "coro_holds s' t"
    by (cases c) (auto simp: coro_holds_def cto_def take_spin_def await_ready_def TryLock_def ReleaseLock_def ParkAwaiter_def
        Coro_Mutex.Unlock_def Resume_def split: if_splits coro_pc.splits list.splits)
qed

end
