(* ===== verification/Workloads.thy ===== *)
theory Workloads
  imports Guarded_Counter Wait_Group
begin

text \<open>
  The programs that exercise the runtime, \<^verbatim>\<open>example/workload/pool/main.cpp\<close> and \<^verbatim>\<open>example/workload/mutex/main.cpp\<close>: a main fiber adds to a wait
  group, starts fibers that count under a mutex, waits for the group and asserts or prints the count. The counter of these programs lives as long as
  the fibers: it is a local of the main fiber, which waits for them, or of \<open>main\<close>, which waits for the pool. \<open>bench_logic\<close> of
  \<^verbatim>\<open>bench/bench_pool.cpp\<close> starts the same fibers over a local of a function that returns at once, and has a machine of its own.

  The machine composes the ones of the components: the counting programs of \<open>Guarded_Counter\<close> over the mutex of \<open>Fiber_Sync\<close>, and the wait group of
  \<open>Wait_Group\<close>. Fibers run on any number of threads of a pool, so every interleaving of their steps is considered; the fibers are
  \<open>1 \<dots> n\<close>, the main fiber is \<open>0\<close>. A group that has run into the double release of a guard stops, so what is shown holds up to it.

  The lemmas show that the count is right: when \<open>Wait\<close> has returned, every increment has been made and none was lost. For \<open>bench_logic\<close>
  they show that it is one of these programs as long as its frame exists, and that afterwards the fibers access a variable that no longer does.
\<close>

subsection \<open>Fibers, a mutex and a wait group\<close>

datatype main_pc = MainAdd | MainGo nat | MainWait | MainParked | MainAfter

record workload =
  wl_count :: "fiber_mutex counting"
  wl_wg :: wg_system
  wl_main :: main_pc

datatype wl_event = OnMutex lock_event | OnGroup wg_event

datatype wl_choice = WlMain | WlFiber "fm_choice counting_choice" | WlDone addr | WlGroup wg_choice

definition init_workload :: "links \<Rightarrow> workload" where
  "init_workload h = \<lparr>wl_count = init_counting (init_fiber_mutex h), wl_wg = init_wg_system h, wl_main = MainAdd\<rparr>"

definition fibers :: "nat \<Rightarrow> addr list" where
  "fibers n = [1..<Suc n]"

definition count_step :: "nat \<Rightarrow> nat \<Rightarrow> (fm_choice counting_choice, fiber_mutex counting, lock_event) stepper" where
  "count_step n k = counting_step fm_step fm_holds fm_outside fm_calls fm_leaves (fibers n) k"

definition on_group :: "wg_choice \<Rightarrow> workload \<Rightarrow> (workload \<times> wl_event list) option" where
  "on_group c s = map_option (\<lambda>(g, e). (s\<lparr>wl_wg := g\<rparr>, map OnGroup e)) (wg_step c (wl_wg s))"

definition on_count :: "nat \<Rightarrow> nat \<Rightarrow> fm_choice counting_choice \<Rightarrow> workload \<Rightarrow> (workload \<times> wl_event list) option" where
  "on_count n k c s = map_option (\<lambda>(x, e). (s\<lparr>wl_count := x\<rparr>, map OnMutex e)) (count_step n k c (wl_count s))"

definition main_to :: "main_pc \<Rightarrow> workload \<times> wl_event list \<Rightarrow> workload \<times> wl_event list" where
  "main_to p r = (case r of (s, e) \<Rightarrow> (s\<lparr>wl_main := p\<rparr>, e))"

definition after_wait :: "wg_system \<Rightarrow> main_pc" where
  "after_wait g = (if ws_fault g \<noteq> None then MainWait else if ws_pc g 0 = WgParked then MainParked else MainAfter)"

text \<open>The routine of the main fiber.\<close>

definition main_step :: "nat \<Rightarrow> nat \<Rightarrow> workload \<Rightarrow> (workload \<times> wl_event list) option" where
  "main_step n k s =
     (case wl_main s of
        MainAdd \<Rightarrow> map_option (main_to (MainGo 0)) (on_group (WgAdd (of_nat n)) s)
      | MainGo i \<Rightarrow>
          if i < n then map_option (main_to (MainGo (Suc i))) (on_count n k (Begin (Suc i)) s)
          else Some (s\<lparr>wl_main := MainWait\<rparr>, [])
      | MainWait \<Rightarrow>
          map_option (\<lambda>r. main_to (after_wait (wl_wg (fst r))) r) (on_group (WgWait 0) s)
      | _ \<Rightarrow> None)"

text \<open>A step of a counting fiber: it uses the mutex after \<open>Go\<close> has started it.\<close>

fun fiber_move :: "fm_choice counting_choice \<Rightarrow> workload \<Rightarrow> bool" where
  "fiber_move (LockChoice c) s \<longleftrightarrow> (case fm_calls c of None \<Rightarrow> True | Some f \<Rightarrow> cn_prog (wl_count s) f \<noteq> NotStarted)"
| "fiber_move (LoadValue f) s \<longleftrightarrow> True"
| "fiber_move (StoreValue f) s \<longleftrightarrow> True"
| "fiber_move (Begin f) s \<longleftrightarrow> False"
| "fiber_move (Finish f) s \<longleftrightarrow> False"

definition done_step :: "nat \<Rightarrow> nat \<Rightarrow> addr \<Rightarrow> workload \<Rightarrow> (workload \<times> wl_event list) option" where
  "done_step n k f s =
     (case on_count n k (Finish f) s of
        None \<Rightarrow> None
      | Some (s1, e1) \<Rightarrow> map_option (\<lambda>(s2, e2). (s2, e1 @ e2)) (on_group (WgDone f) s1))"

text \<open>What the wait group does after the calls: wake-up loops, guards, resumed fibers.\<close>

definition group_step :: "wg_choice \<Rightarrow> workload \<Rightarrow> (workload \<times> wl_event list) option" where
  "group_step c s =
     (case c of
        WgGo d \<Rightarrow> on_group c s
      | WgClear f \<Rightarrow> on_group c s
      | WgResume f \<Rightarrow>
          map_option (\<lambda>r. if f = 0 \<and> ws_fault (wl_wg (fst r)) = None then main_to MainAfter r else r) (on_group c s)
      | _ \<Rightarrow> None)"

fun workload_step :: "nat \<Rightarrow> nat \<Rightarrow> (wl_choice, workload, wl_event) stepper" where
  "workload_step n k WlMain s = main_step n k s"
| "workload_step n k (WlFiber c) s = (if fiber_move c s then on_count n k c s else None)"
| "workload_step n k (WlDone f) s = done_step n k f s"
| "workload_step n k (WlGroup c) s = group_step c s"

subsection \<open>The history of the group\<close>

definition group_part :: "wl_event list \<Rightarrow> wg_event list" where
  "group_part es = List.map_filter (\<lambda>e. case e of OnGroup g \<Rightarrow> Some g | _ \<Rightarrow> None) es"

lemma group_part_simps [simp]:
  "group_part [] = []" "group_part (es @ fs) = group_part es @ group_part fs" "group_part (map OnGroup gs) = gs" "group_part (map OnMutex ls) = []"
  "group_part (OnGroup g # es) = g # group_part es" "group_part (OnMutex l # es) = group_part es"
  by (induction gs) (simp_all add: group_part_def List.map_filter_def comp_def filter_empty_conv)

fun dones :: "wg_event list \<Rightarrow> nat" where
  "dones [] = 0"
| "dones (WDone d # es) = Suc (dones es)"
| "dones (_ # es) = dones es"

lemma dones_append [simp]: "dones (es @ fs) = dones es + dones fs"
  by (induction es rule: dones.induct) auto

lemma level_dones: "(\<forall>m. WAdded m \<notin> set es) \<Longrightarrow> level es = - int (dones es)"
  by (induction es rule: dones.induct) auto

definition only_adds :: "nat \<Rightarrow> wg_event list \<Rightarrow> bool" where
  "only_adds n gs \<longleftrightarrow> (\<exists>ds. gs = WAdded n # ds \<and> (\<forall>m. WAdded m \<notin> set ds))"

lemma only_adds_level: "only_adds n gs \<Longrightarrow> level gs = int n - int (dones gs)"
  by (auto simp: only_adds_def level_dones)

lemma only_adds_more: "only_adds n gs \<Longrightarrow> (\<forall>m. WAdded m \<notin> set e) \<Longrightarrow> only_adds n (gs @ e)"
  by (auto simp: only_adds_def)

text \<open>After the last parking of the main fiber the counter was zero: every \<open>Done\<close> was called.\<close>

lemma zero_since_all_done:
  assumes "only_adds n gs" and "zero_since 0 gs" and "WParks 0 \<in> set gs"
  shows "n \<le> dones gs"
proof -
  obtain xs ys where s: "gs = xs @ ys" "level xs = 0" "WParks 0 \<notin> set ys" using assms(2) by (auto simp: zero_since_def)
  then have "WParks 0 \<in> set xs" using assms(3) by auto
  then have "xs \<noteq> []" by auto
  then have "only_adds n xs" using assms(1) s(1) by (cases xs) (auto simp: only_adds_def)
  then show ?thesis using only_adds_level [of n xs] s(1,2) by simp
qed

text \<open>What a step of the group emits.\<close>

lemma wg_step_emits:
  assumes "wg_step c g = Some (g', e)"
  shows "dones e \<le> (case c of WgDone _ \<Rightarrow> 1 | _ \<Rightarrow> 0)" "(\<forall>m. c \<noteq> WgAdd m) \<Longrightarrow> \<forall>m. WAdded m \<notin> set e"
    "c = WgAdd m \<Longrightarrow> e = [WAdded (unat m)]" "c = WgResume f \<Longrightarrow> ws_fault g' = None \<Longrightarrow> e = [WPasses f] \<and> ws_pc g f = WgScheduled"
    "c = WgWait f \<Longrightarrow> after_wait g' = MainAfter \<Longrightarrow> f = 0 \<Longrightarrow> e = [WPasses 0] \<and> wg_counter (ws_group g) = 0"
  using assms
  by (auto simp: wg_step_def wg_call_def wg_go_def wg_defs Let_def after_wait_def word_gt_0 split: wg_choice.splits if_splits wg_pc.splits sum.splits option.splits)

lemma parked_before: "reach wg_step (init_wg_system h) gs g \<Longrightarrow> ws_pc g f \<in> {WgParked, WgScheduled} \<Longrightarrow> WParks f \<in> set gs"
proof (induction arbitrary: f rule: reach.induct)
  case reach_init
  then show ?case by (simp add: init_wg_system_def)
next
  case (reach_step gs g c g' e)
  have "ws_pc g f \<in> {WgParked, WgScheduled} \<or> WParks f \<in> set e"
    using reach_step.hyps(2) reach_step.prems
    by (auto simp: wg_step_def wg_call_def wg_go_def wg_defs Let_def split: wg_choice.splits if_splits wg_pc.splits sum.splits option.splits)
  then show ?case using reach_step.IH by auto
qed

subsection \<open>The invariant of a workload\<close>

definition finished :: "nat \<Rightarrow> workload \<Rightarrow> addr set" where
  "finished n s = {f \<in> set (fibers n). cn_prog (wl_count s) f = Finished}"

definition wl_inv :: "links \<Rightarrow> nat \<Rightarrow> nat \<Rightarrow> wl_event list \<Rightarrow> workload \<Rightarrow> bool" where
  "wl_inv h n k es s \<longleftrightarrow>
     counting_ok fm_holds (fibers n) k (wl_count s) \<and> (\<exists>a. fm_sim a (cn_lock (wl_count s))) \<and>
     reach wg_step (init_wg_system h) (group_part es) (wl_wg s) \<and>
     (if wl_main s = MainAdd then group_part es = [] \<and> wl_wg s = init_wg_system h \<and> (\<forall>f. cn_prog (wl_count s) f = NotStarted)
      else only_adds n (group_part es)) \<and>
     dones (group_part es) \<le> card (finished n s) \<and> (wl_main s = MainAfter \<longrightarrow> finished n s = set (fibers n))"

lemma on_groupE:
  assumes "on_group c s = Some (s', e)"
  obtains g ge where "wg_step c (wl_wg s) = Some (g, ge)" "s' = s\<lparr>wl_wg := g\<rparr>" "e = map OnGroup ge"
  using assms by (auto simp: on_group_def)

lemma on_countE:
  assumes "on_count n k c s = Some (s', e)"
  obtains x ce where "count_step n k c (wl_count s) = Some (x, ce)" "s' = s\<lparr>wl_count := x\<rparr>" "e = map OnMutex ce"
  using assms by (auto simp: on_count_def)

lemma card_fibers: "card (set (fibers n)) = n"
  unfolding fibers_def by (simp del: upt_Suc)

lemma card_finished: "finite (finished n s)" "card (finished n s) \<le> n" "card (finished n s) = n \<Longrightarrow> finished n s = set (fibers n)"
proof -
  have "finished n s \<subseteq> set (fibers n)" "card (set (fibers n)) = n" by (auto simp: finished_def card_fibers)
  then show "finite (finished n s)" "card (finished n s) \<le> n" "card (finished n s) = n \<Longrightarrow> finished n s = set (fibers n)"
    using card_mono [of "set (fibers n)"] card_subset_eq [of "set (fibers n)"] by (auto simp: finished_def)
qed

lemma all_finished: "wl_inv h n k es s \<Longrightarrow> n \<le> dones (group_part es) \<Longrightarrow> finished n s = set (fibers n)"
  using card_finished(2,3) [of n s] by (auto simp: wl_inv_def)

text \<open>A step of the counting programs, and one of the group that is not \<open>Done\<close>.\<close>

lemma count_step_progs:
  assumes "count_step n k c x = Some (x', e)"
  shows "cn_prog x f = Finished \<Longrightarrow> cn_prog x' f = Finished"
    "c \<noteq> Begin f \<Longrightarrow> cn_prog x f = NotStarted \<Longrightarrow> cn_prog x' f = NotStarted"
  using assms
  by (cases c; auto simp: count_step_def lock_moved_def split: if_splits option.splits prog_state.splits nat.splits inc_pc.splits)+

lemma wl_inv_count:
  assumes inv: "wl_inv h n k es s" and st: "count_step n k c (wl_count s) = Some (x, e)"
    and m: "wl_main s \<noteq> MainAdd \<or> (\<forall>f. c \<noteq> Begin f)"
  shows "wl_inv h n k (es @ map OnMutex e) (s\<lparr>wl_count := x\<rparr>)"
proof -
  have "counting_ok fm_holds (fibers n) k x" "\<exists>a. fm_sim a (cn_lock x)"
    using fiber_counting.counting_ok_step [of "fibers n" k "wl_count s" c x e] inv st unfolding wl_inv_def count_step_def by blast+
  moreover have sub: "finished n s \<subseteq> finished n (s\<lparr>wl_count := x\<rparr>)"
    using count_step_progs(1) [OF st] by (auto simp: finished_def)
  moreover have "card (finished n s) \<le> card (finished n (s\<lparr>wl_count := x\<rparr>))" by (rule card_mono [OF card_finished(1) sub])
  moreover have "finished n (s\<lparr>wl_count := x\<rparr>) \<subseteq> set (fibers n)" by (auto simp: finished_def)
  ultimately show ?thesis using inv m count_step_progs(2) [OF st] by (auto simp: wl_inv_def)
qed

lemma wl_inv_group:
  assumes inv: "wl_inv h n k es s" and st: "wg_step c (wl_wg s) = Some (g, e)" and m: "wl_main s \<noteq> MainAdd"
    and c: "\<forall>m. c \<noteq> WgAdd m" "dones (group_part es) + dones e \<le> card (finished n s)"
  shows "wl_inv h n k (es @ map OnGroup e) (s\<lparr>wl_wg := g\<rparr>)"
  using inv m c reach.reach_step [of wg_step, OF _ st] only_adds_more [OF _ wg_step_emits(2) [OF st c(1)]]
  by (auto simp: wl_inv_def finished_def)

text \<open>The main fiber returns from \<open>Wait\<close> after every fiber has finished.\<close>

lemma main_after:
  assumes inv: "wl_inv h n k es s" and m: "wl_main s \<noteq> MainAdd"
    and z: "zero_since 0 (group_part es) \<and> WParks 0 \<in> set (group_part es) \<or> level (group_part es) = 0"
  shows "finished n s = set (fibers n)"
proof (rule all_finished [OF inv])
  have "only_adds n (group_part es)" using inv m by (simp add: wl_inv_def)
  then show "n \<le> dones (group_part es)" using z zero_since_all_done only_adds_level by force
qed

lemma main_step_inv:
  assumes inv: "wl_inv h n k es s" and st: "main_step n k s = Some (s', e)" and n: "int n < 2 ^ 64"
  shows "wl_inv h n k (es @ e) s'"
proof (cases "wl_main s")
  case MainAdd
  then obtain g ge where g: "wg_step (WgAdd (of_nat n)) (wl_wg s) = Some (g, ge)" "s' = s\<lparr>wl_wg := g, wl_main := MainGo 0\<rparr>" "e = map OnGroup ge"
    using st by (auto simp: main_step_def main_to_def elim!: on_groupE)
  have "unat (of_nat n :: size_t) = n" using n by (simp add: unat_of_nat)
  then have "ge = [WAdded n]" using wg_step_emits(3) [OF g(1)] by simp
  moreover have "reach wg_step (init_wg_system h) [WAdded n] g" using reach_single [of wg_step, OF g(1)] inv MainAdd calculation by (simp add: wl_inv_def)
  ultimately show ?thesis using inv MainAdd g by (auto simp: wl_inv_def only_adds_def finished_def)
next
  case (MainGo i)
  show ?thesis
  proof (cases "i < n")
    case True
    then obtain x ce where x: "count_step n k (Begin (Suc i)) (wl_count s) = Some (x, ce)" "s' = s\<lparr>wl_count := x, wl_main := MainGo (Suc i)\<rparr>" "e = map OnMutex ce"
      using st MainGo by (auto simp: main_step_def main_to_def elim!: on_countE)
    have "wl_inv h n k (es @ e) (s\<lparr>wl_count := x\<rparr>)" using wl_inv_count [OF inv x(1)] MainGo x(3) by simp
    then show ?thesis using MainGo x(2) by (auto simp: wl_inv_def finished_def)
  next
    case False
    then show ?thesis using st MainGo inv by (auto simp: main_step_def wl_inv_def finished_def simp del: split_paired_Ex)
  qed
next
  case MainWait
  then obtain g ge where g: "wg_step (WgWait 0) (wl_wg s) = Some (g, ge)" "s' = s\<lparr>wl_wg := g, wl_main := after_wait g\<rparr>" "e = map OnGroup ge"
    using st by (auto simp: main_step_def main_to_def elim!: on_groupE)
  have inv': "wl_inv h n k (es @ e) (s\<lparr>wl_wg := g\<rparr>)"
    using wl_inv_group [OF inv g(1)] wg_step_emits(1) [OF g(1)] inv MainWait g(3) by (simp add: wl_inv_def)
  have "finished n s = set (fibers n)" if "after_wait g = MainAfter"
  proof (rule main_after [OF inv])
    have "reach wg_step (init_wg_system h) (group_part es) (wl_wg s)" using inv by (simp add: wl_inv_def)
    then show "zero_since 0 (group_part es) \<and> WParks 0 \<in> set (group_part es) \<or> level (group_part es) = 0"
      using wg_history(1) wg_step_emits(5) [OF g(1), of 0] that by simp
  qed (use MainWait in simp)
  moreover have "after_wait g \<noteq> MainAdd" by (simp add: after_wait_def)
  ultimately show ?thesis using inv' g(2) MainWait by (auto simp: wl_inv_def finished_def)
qed (use st in \<open>simp_all add: main_step_def\<close>)

lemma finish_counts:
  assumes "wl_inv h n k es s" and "count_step n k (Finish f) (wl_count s) = Some (x, e)"
  shows "card (finished n (s\<lparr>wl_count := x\<rparr>)) = Suc (card (finished n s))"
proof -
  have f: "cn_prog (wl_count s) f = Left 0" "x = (wl_count s)\<lparr>cn_prog := (cn_prog (wl_count s))(f := Finished)\<rparr>"
    using assms(2) by (auto simp: count_step_def split: if_splits)
  have "counting_ok fm_holds (fibers n) k (wl_count s)" using assms(1) by (simp add: wl_inv_def)
  from counting_okD(2) [OF this, of f] f(1) have "f \<in> set (fibers n)" by auto
  then have "finished n (s\<lparr>wl_count := x\<rparr>) = insert f (finished n s)" "f \<notin> finished n s" using f by (auto simp: finished_def)
  then show ?thesis using card_finished(1) by simp
qed

lemma done_step_inv:
  assumes inv: "wl_inv h n k es s" and st: "done_step n k f s = Some (s', e)"
  shows "wl_inv h n k (es @ e) s'"
proof -
  obtain s1 e1 e2 where s1: "on_count n k (Finish f) s = Some (s1, e1)" "on_group (WgDone f) s1 = Some (s', e2)" "e = e1 @ e2"
    using st by (auto simp: done_step_def split: option.splits)
  obtain x ce where x: "count_step n k (Finish f) (wl_count s) = Some (x, ce)" "s1 = s\<lparr>wl_count := x\<rparr>" "e1 = map OnMutex ce"
    using on_countE [OF s1(1)] .
  obtain g ge where g: "wg_step (WgDone f) (wl_wg s1) = Some (g, ge)" "s' = s1\<lparr>wl_wg := g\<rparr>" "e2 = map OnGroup ge"
    using on_groupE [OF s1(2)] .
  have inv1: "wl_inv h n k (es @ e1) s1" using wl_inv_count [OF inv x(1)] x(2,3) by simp
  have "cn_prog (wl_count s) f = Left 0" using x(1) by (auto simp: count_step_def split: if_splits)
  then have "wl_main s1 \<noteq> MainAdd" using inv x(2) by (auto simp: wl_inv_def)
  moreover have "dones (group_part (es @ e1)) + dones ge \<le> card (finished n s1)"
    using finish_counts [OF inv x(1)] wg_step_emits(1) [OF g(1)] inv x(2,3) by (simp add: wl_inv_def)
  ultimately have "wl_inv h n k ((es @ e1) @ map OnGroup ge) (s1\<lparr>wl_wg := g\<rparr>)" using wl_inv_group [OF inv1 g(1)] by simp
  then show ?thesis using s1(3) g(2,3) by simp
qed

lemma group_step_inv:
  assumes inv: "wl_inv h n k es s" and st: "group_step c s = Some (s', e)"
  shows "wl_inv h n k (es @ e) s'"
proof -
  have c: "\<forall>m. c \<noteq> WgAdd m" "\<forall>f. c \<noteq> WgDone f" "\<forall>f. c \<noteq> WgWait f" using st by (auto simp: group_step_def)
  obtain s1 where s1: "on_group c s = Some (s1, e)"
    "s' = s1 \<or> c = WgResume 0 \<and> ws_fault (wl_wg s1) = None \<and> s' = s1\<lparr>wl_main := MainAfter\<rparr>"
    using st by (cases c) (auto simp: group_step_def main_to_def split: if_splits)
  obtain g ge where g: "wg_step c (wl_wg s) = Some (g, ge)" "e = map OnGroup ge"
    "s' = s\<lparr>wl_wg := g\<rparr> \<or> c = WgResume 0 \<and> ws_fault g = None \<and> s' = s\<lparr>wl_wg := g, wl_main := MainAfter\<rparr>"
    by (rule on_groupE [OF s1(1)]) (use s1(2) in auto)
  have m: "wl_main s \<noteq> MainAdd"
  proof
    assume "wl_main s = MainAdd"
    then have "wl_wg s = init_wg_system h" using inv by (simp add: wl_inv_def)
    then show False using g(1) c by (auto simp: wg_step_def wg_call_def wg_go_def init_wg_system_def split: wg_choice.splits if_splits)
  qed
  have "dones ge = 0" using wg_step_emits(1) [OF g(1)] c(2) by (simp split: wg_choice.splits)
  then have "dones (group_part es) + dones ge \<le> card (finished n s)" using inv by (simp add: wl_inv_def)
  then have inv': "wl_inv h n k (es @ e) (s\<lparr>wl_wg := g\<rparr>)" using wl_inv_group [OF inv g(1) m c(1)] g(2) by simp
  have "finished n s = set (fibers n)" if r: "c = WgResume 0" "ws_fault g = None"
  proof (rule main_after [OF inv m])
    have ge: "ge = [WPasses 0]" "ws_pc (wl_wg s) 0 = WgScheduled" using wg_step_emits(4) [OF g(1) r] by auto
    have h: "reach wg_step (init_wg_system h) (group_part es) (wl_wg s)" using inv by (simp add: wl_inv_def)
    have "passes_after_zero (group_part es @ WPasses 0 # [])" using wg_history(2) [OF reach.reach_step [of wg_step, OF h g(1)]] ge by simp
    then have "zero_since 0 (group_part es)" unfolding passes_after_zero_def by blast
    then show "zero_since 0 (group_part es) \<and> WParks 0 \<in> set (group_part es) \<or> level (group_part es) = 0"
      using parked_before [OF h, of 0] ge by simp
  qed
  then show ?thesis using g(3) inv' m by (auto simp: wl_inv_def finished_def simp del: split_paired_Ex)
qed

lemma workload_inv:
  assumes n: "int n < 2 ^ 64" and r: "reach (workload_step n k) (init_workload h) es s"
  shows "wl_inv h n k es s"
  using r
proof (induction rule: reach.induct)
  case reach_init
  show ?case using fiber_counting.counting_ok_init fm_sim_init [of h]
    by (auto simp: wl_inv_def init_workload_def init_counting_def reach.reach_init)
next
  case (reach_step es s c s' e)
  show ?case
  proof (cases c)
    case WlMain
    then show ?thesis using reach_step main_step_inv n by simp
  next
    case (WlFiber m)
    then obtain x ce where x: "count_step n k m (wl_count s) = Some (x, ce)" "s' = s\<lparr>wl_count := x\<rparr>" "e = map OnMutex ce" "fiber_move m s"
      using reach_step.hyps(2) by (auto split: if_splits elim!: on_countE)
    then have "\<forall>f. m \<noteq> Begin f" by auto
    then show ?thesis using wl_inv_count [OF reach_step.IH x(1)] x(2,3) by simp
  next
    case (WlDone f)
    then show ?thesis using reach_step done_step_inv by simp
  next
    case (WlGroup m)
    then show ?thesis using reach_step group_step_inv by simp
  qed
qed

lemma wl_inv_exact:
  assumes inv: "wl_inv h n k es s" and "wl_main s = MainAfter"
  shows "cn_value (wl_count s) = of_nat (n * k) \<and> (\<forall>f \<in> set (fibers n). cn_prog (wl_count s) f = Finished)"
proof -
  have fin: "\<forall>f \<in> set (fibers n). cn_prog (wl_count s) f = Finished" using assms by (auto simp: wl_inv_def finished_def)
  have "counting_ok fm_holds (fibers n) k (wl_count s)" using inv by (simp add: wl_inv_def)
  then have "cn_value (wl_count s) = of_nat (card (set (fibers n)) * k)" using fin fiber_counting.all_finished_value by blast
  then show ?thesis using fin by (simp add: card_fibers)
qed

subsection \<open>The benchmark of the pools\<close>

text \<open>
  \<open>bench_logic\<close> hands its local \<open>counter\<close> to the main fiber by reference and returns as soon as \<open>Go\<close> has submitted that fiber. \<open>bl_frame\<close> says whether its
  frame still exists; an access to the counter after that is a fault.
\<close>

record bench_logic =
  bl_work :: workload
  bl_frame :: bool
  bl_fault :: "fault option"

datatype bl_choice = BlReturn | BlFibers wl_choice | BlAssert

definition init_bench_logic :: "links \<Rightarrow> bench_logic" where
  "init_bench_logic h = \<lparr>bl_work = init_workload h, bl_frame = True, bl_fault = None\<rparr>"

fun uses_counter :: "wl_choice \<Rightarrow> bool" where
  "uses_counter (WlFiber (LoadValue f)) \<longleftrightarrow> True"
| "uses_counter (WlFiber (StoreValue f)) \<longleftrightarrow> True"
| "uses_counter _ \<longleftrightarrow> False"

definition bl_assert :: "nat \<Rightarrow> bench_logic \<Rightarrow> bench_logic" where
  "bl_assert n s =
     (if \<not> bl_frame s then s\<lparr>bl_fault := Some UseAfterFree\<rparr>
      else if cn_value (wl_count (bl_work s)) = of_nat n then s else s\<lparr>bl_fault := Some AssertFailed\<rparr>)"

fun bench_logic_step :: "nat \<Rightarrow> (bl_choice, bench_logic, wl_event) stepper" where
  "bench_logic_step n BlReturn s = (if bl_frame s then Some (s\<lparr>bl_frame := False\<rparr>, []) else None)"
| "bench_logic_step n (BlFibers c) s =
     (case (bl_fault s, workload_step n 1 c (bl_work s)) of
        (None, Some (w, e)) \<Rightarrow>
          if uses_counter c \<and> \<not> bl_frame s then Some (s\<lparr>bl_fault := Some UseAfterFree\<rparr>, []) else Some (s\<lparr>bl_work := w\<rparr>, e)
      | _ \<Rightarrow> None)"
| "bench_logic_step n BlAssert s =
     (if bl_fault s = None \<and> wl_main (bl_work s) = MainAfter then Some (bl_assert n s, []) else None)"

text \<open>Its fibers are those of a workload, so the assertion itself never fails; what fails is the access to the counter.\<close>

lemma bench_logic_workload:
  assumes "reach (bench_logic_step n) (init_bench_logic h) es s" and "int n < 2 ^ 64"
  shows "reach (workload_step n 1) (init_workload h) es (bl_work s) \<and> bl_fault s \<noteq> Some AssertFailed \<and> (bl_frame s \<longrightarrow> bl_fault s = None)"
  using assms(1)
proof (induction rule: reach.induct)
  case reach_init
  show ?case by (simp add: init_bench_logic_def reach.reach_init)
next
  case (reach_step es s c s' e)
  show ?case
  proof (cases c)
    case BlReturn
    with reach_step show ?thesis by (auto split: if_splits)
  next
    case (BlFibers d)
    with reach_step.hyps(2) obtain w f where w: "bl_fault s = None" "workload_step n 1 d (bl_work s) = Some (w, f)"
      "if uses_counter d \<and> \<not> bl_frame s then s' = s\<lparr>bl_fault := Some UseAfterFree\<rparr> \<and> e = [] else s' = s\<lparr>bl_work := w\<rparr> \<and> e = f"
      by (auto split: option.splits if_splits)
    have "reach (workload_step n 1) (init_workload h) (es @ f) w" using reach.reach_step [of "workload_step n 1" _ _ "bl_work s" d, OF _ w(2)] reach_step.IH by blast
    then show ?thesis using w(1,3) reach_step.IH by (auto split: if_splits)
  next
    case BlAssert
    with reach_step have m: "wl_main (bl_work s) = MainAfter" "s' = bl_assert n s" "e = []" by (auto split: if_splits)
    have "cn_value (wl_count (bl_work s)) = of_nat (n * 1)" using wl_inv_exact [OF workload_inv [OF assms(2)] m(1)] reach_step.IH by blast
    with m reach_step.IH show ?thesis by (auto simp: bl_assert_def)
  qed
qed

lemma bench_counter_dangles:
  "(\<exists>es s. reach (bench_logic_step 1) (init_bench_logic (\<lambda>_. None)) es s \<and> bl_fault s = Some UseAfterFree \<and> cn_value (wl_count (bl_work s)) = 0) \<and>
   (\<exists>es s. reach (bench_logic_step 1) (init_bench_logic (\<lambda>_. None)) es s \<and> bl_fault s = Some UseAfterFree \<and> wl_main (bl_work s) = MainAfter)"
proof
  have "run_ok (bench_logic_step 1)
    [BlReturn, BlFibers WlMain, BlFibers WlMain, BlFibers (WlFiber (LockChoice (FmLock 1))), BlFibers (WlFiber (LoadValue 1))]
    (init_bench_logic (\<lambda>_. None)) (\<lambda>es s. bl_fault s = Some UseAfterFree \<and> cn_value (wl_count (bl_work s)) = 0)" by code_simp
  then show "\<exists>es s. reach (bench_logic_step 1) (init_bench_logic (\<lambda>_. None)) es s \<and> bl_fault s = Some UseAfterFree \<and>
      cn_value (wl_count (bl_work s)) = 0"
    by (elim run_okE) blast
  have "run_ok (bench_logic_step 1)
    [BlFibers WlMain, BlFibers WlMain, BlFibers (WlFiber (LockChoice (FmLock 1))), BlFibers (WlFiber (LoadValue 1)),
     BlFibers (WlFiber (StoreValue 1)), BlFibers (WlFiber (LockChoice (FmUnlock 1))), BlFibers (WlDone 1), BlFibers WlMain, BlFibers WlMain,
     BlReturn, BlAssert]
    (init_bench_logic (\<lambda>_. None)) (\<lambda>es s. bl_fault s = Some UseAfterFree \<and> wl_main (bl_work s) = MainAfter)" by code_simp
  then show "\<exists>es s. reach (bench_logic_step 1) (init_bench_logic (\<lambda>_. None)) es s \<and> bl_fault s = Some UseAfterFree \<and>
      wl_main (bl_work s) = MainAfter"
    by (elim run_okE) blast
qed

subsection \<open>Properties\<close>

text \<open>
  C13: The count of the two workload programs, \<^verbatim>\<open>example/workload/pool/main.cpp\<close> and \<^verbatim>\<open>example/workload/mutex/main.cpp\<close>: in every interleaving of the main fiber, the counting fibers and the wake-ups, when
  \<open>wg.Wait()\<close> has returned in the main fiber, each of the \<open>n\<close> fibers has called \<open>Done\<close>, after its last unlock, and the counter that the fibers
  increment under the mutex is the number of fibers times the number of iterations of each.\<close>
theorem workload_counter_exact:
  assumes "reach (workload_step n k) (init_workload h) es s" and "wl_main s = MainAfter" and "int n < 2 ^ 64"
  shows "cn_value (wl_count s) = of_nat (n * k) \<and> (\<forall>f \<in> set (fibers n). cn_prog (wl_count s) f = Finished)"
  using workload_inv [OF assms(3,1)] assms(2) by (rule wl_inv_exact)

theorem workload_counter_exact_witness:
  "\<exists>es s. reach (workload_step 2 1) (init_workload (\<lambda>_. None)) es s \<and> wl_main s = MainAfter \<and> cn_value (wl_count s) = 2"
proof -
  have "run_ok (workload_step 2 1)
    [WlMain, WlMain, WlMain, WlFiber (LockChoice (FmLock 1)), WlFiber (LockChoice (FmLock 2)), WlMain, WlMain, WlGroup (WgClear 0),
     WlFiber (LockChoice (FmClear 2)), WlFiber (LoadValue 1), WlFiber (StoreValue 1), WlFiber (LockChoice (FmUnlock 1)),
     WlFiber (LockChoice (FmSchedule 1)), WlDone 1, WlFiber (LockChoice (FmResume 2)), WlFiber (LoadValue 2), WlFiber (StoreValue 2),
     WlFiber (LockChoice (FmUnlock 2)), WlDone 2, WlGroup (WgGo 2), WlGroup (WgGo 2), WlGroup (WgResume 0)]
    (init_workload (\<lambda>_. None)) (\<lambda>es s. wl_main s = MainAfter)" by code_simp
  then obtain es s where r: "reach (workload_step 2 1) (init_workload (\<lambda>_. None)) es s" "wl_main s = MainAfter" by (elim run_okE) blast
  show ?thesis using workload_counter_exact [OF r] r by (intro exI [of _ es] exI [of _ s]) simp
qed

end
