(* ===== verification/Mutex_Benchmark.thy ===== *)
theory Mutex_Benchmark
  imports Guarded_Counter
begin

text \<open>
  The benchmark of mutexes, \<^verbatim>\<open>bench/bench_async_mutex.cpp\<close>: \<open>TestAsyncMutex\<close> and \<open>TestStdMutex\<close> have the same methods, on the
  mutex for coroutines and on \<open>std::mutex\<close>, so the machine is written once, over the operations of a lock.

  The workers are \<open>1 \<dots> n\<close>; the thread \<open>0\<close> calls \<open>StartAll\<close> and \<open>Wait\<close>. A worker waits at a condition variable for \<open>wait_flag\<close>, locks the mutex,
  increments \<open>number\<close> and unlocks twice in each iteration, and counts the latch down. \<open>StartAll\<close> sets the flag and notifies under \<open>cv_wait\<close>,
  and locks and unlocks the mutex before it releases \<open>cv_wait\<close>. The condition variable and the latch are those of the standard library: \<open>wait\<close>
  releases the mutex and blocks in one step, may wake spuriously, and returns after locking the mutex again.

  The lemmas show that \<open>number\<close> is exact when \<open>Wait\<close> returns and the latch never goes below zero, for both locks, and that \<open>StartAll\<close>, a coroutine
  that awaits while it owns a \<open>std::unique_lock\<close>, is never suspended there.
\<close>

subsection \<open>The locks\<close>

record ('c, 's, 'e) lock_ops =
  op_step :: "('c, 's, 'e) stepper"
  op_holds :: "'s \<Rightarrow> tid \<Rightarrow> bool"
  op_outside :: "'s \<Rightarrow> tid \<Rightarrow> bool"
  op_calls :: "'c \<Rightarrow> tid option"
  op_leaves :: "'c \<Rightarrow> tid option"
  op_actor :: "'c \<Rightarrow> tid"
  op_lock :: "tid \<Rightarrow> 'c"
  op_unlock :: "tid \<Rightarrow> 'c"
  op_go :: "tid \<Rightarrow> 'c"

fun coro_actor :: "coro_choice \<Rightarrow> tid" where
  "coro_actor (CoAwaitLock c) = c"
| "coro_actor (CallUnlock c) = c"
| "coro_actor (CoroGo c) = c"

definition coro_ops :: "(coro_choice, coro_mutex, lock_event) lock_ops" where
  "coro_ops = \<lparr>op_step = coro_step, op_holds = coro_holds, op_outside = coro_outside, op_calls = coro_calls, op_leaves = coro_leaves,
     op_actor = coro_actor, op_lock = CoAwaitLock, op_unlock = CallUnlock, op_go = CoroGo\<rparr>"

text \<open>\<open>std::mutex\<close>.\<close>

datatype std_pc = StdOut | StdWants | StdIn

record std_mutex =
  sm_owner :: "tid option"
  sm_pc :: "tid \<Rightarrow> std_pc"

datatype std_choice = StdLock tid | StdUnlock tid | StdGo tid

definition init_std_mutex :: std_mutex where
  "init_std_mutex = \<lparr>sm_owner = None, sm_pc = (\<lambda>_. StdOut)\<rparr>"

fun std_step :: "(std_choice, std_mutex, lock_event) stepper" where
  "std_step (StdLock t) s = (if sm_pc s t = StdOut then Some (s\<lparr>sm_pc := (sm_pc s)(t := StdWants)\<rparr>, []) else None)"
| "std_step (StdGo t) s =
     (if sm_pc s t = StdWants \<and> sm_owner s = None
      then Some (s\<lparr>sm_owner := Some t, sm_pc := (sm_pc s)(t := StdIn)\<rparr>, [Announced t, Acquired t]) else None)"
| "std_step (StdUnlock t) s =
     (if sm_pc s t = StdIn then Some (s\<lparr>sm_owner := None, sm_pc := (sm_pc s)(t := StdOut)\<rparr>, [Released t]) else None)"

definition std_holds :: "std_mutex \<Rightarrow> tid \<Rightarrow> bool" where
  "std_holds s t \<longleftrightarrow> sm_pc s t = StdIn"

definition std_outside :: "std_mutex \<Rightarrow> tid \<Rightarrow> bool" where
  "std_outside s t \<longleftrightarrow> sm_pc s t = StdOut"

fun std_calls :: "std_choice \<Rightarrow> tid option" where
  "std_calls (StdLock t) = Some t"
| "std_calls _ = None"

fun std_leaves :: "std_choice \<Rightarrow> tid option" where
  "std_leaves (StdUnlock t) = Some t"
| "std_leaves _ = None"

fun std_actor :: "std_choice \<Rightarrow> tid" where
  "std_actor (StdLock t) = t"
| "std_actor (StdUnlock t) = t"
| "std_actor (StdGo t) = t"

definition std_ops :: "(std_choice, std_mutex, lock_event) lock_ops" where
  "std_ops = \<lparr>op_step = std_step, op_holds = std_holds, op_outside = std_outside, op_calls = std_calls, op_leaves = std_leaves,
     op_actor = std_actor, op_lock = StdLock, op_unlock = StdUnlock, op_go = StdGo\<rparr>"

definition std_inv :: "std_mutex \<Rightarrow> bool" where
  "std_inv s \<longleftrightarrow> (\<forall>t. sm_pc s t = StdIn \<longleftrightarrow> sm_owner s = Some t)"

interpretation std_counting:
  counting_lock std_step init_std_mutex "\<lambda>_. std_inv" std_holds std_outside std_calls std_leaves
proof unfold_locales
  show "std_inv init_std_mutex" by (simp add: std_inv_def init_std_mutex_def)
next
  fix s c s' e
  assume "std_inv s" "std_step c s = Some (s', e)"
  then show "std_inv s'" 
  proof (cases c)
    case (StdLock t)
    then have "s' = s\<lparr>sm_pc := (sm_pc s)(t := StdWants)\<rparr>" "sm_pc s t = StdOut" using \<open>std_step c s = Some (s', e)\<close> by (auto split: if_splits)
    then show ?thesis using \<open>std_inv s\<close> by (simp add: std_inv_def) (metis std_pc.distinct(3))
  qed (auto simp: std_inv_def split: if_splits)
next
  fix s i j
  assume "std_inv s" "std_holds s i" "std_holds s j"
  then show "i = j" by (simp add: std_inv_def std_holds_def)
next
  fix s t c s' e
  assume "std_holds s t" "std_step c s = Some (s', e)" "std_leaves c \<noteq> Some t"
  then show "std_holds s' t" by (cases c) (auto simp: std_holds_def split: if_splits)
qed

subsection \<open>The benchmark\<close>

datatype gate_pc =
    GateOut
  | GateHas             \<comment> \<open>has \<open>cv_wait\<close>; next is the test of \<open>wait_flag\<close>\<close>
  | GateWaits bool      \<comment> \<open>in \<open>cv.wait\<close>; was it notified\<close>
  | GatePassed

datatype starter_pc = SBegin | SFlag | SNotify | SAwait | SIn | SOut | SWait | SAfter

record 's bench =
  bn_count :: "'s counting"
  bn_cv :: "tid option"
  bn_flag :: bool
  bn_gate :: "tid \<Rightarrow> gate_pc"
  bn_starter :: starter_pc
  bn_latch :: int

datatype 'c bench_choice = StarterGo | GateGo tid | SpuriousWake tid | WorkerLock 'c | WorkerLoad tid | WorkerStore tid | CountDown tid

definition workers :: "nat \<Rightarrow> tid list" where
  "workers n = [1..<Suc n]"

definition init_bench :: "nat \<Rightarrow> 's \<Rightarrow> 's bench" where
  "init_bench n s0 =
     \<lparr>bn_count = init_counting s0, bn_cv = None, bn_flag = False, bn_gate = (\<lambda>_. GateOut), bn_starter = SBegin, bn_latch = int n\<rparr>"

text \<open>A step of the counting programs; a worker makes two increments in each of its iterations.\<close>

definition bench_count ::
  "('c, 's, 'e) lock_ops \<Rightarrow> nat \<Rightarrow> nat \<Rightarrow> 'c counting_choice \<Rightarrow> 's bench \<Rightarrow> ('s bench \<times> 'e list) option" where
  "bench_count ops n iters c s =
     map_option (\<lambda>(x, e). (s\<lparr>bn_count := x\<rparr>, e))
       (counting_step (op_step ops) (op_holds ops) (op_outside ops) (op_calls ops) (op_leaves ops) (workers n) (2 * iters) c (bn_count s))"

definition to_starter :: "starter_pc \<Rightarrow> 's bench \<times> 'e list \<Rightarrow> 's bench \<times> 'e list" where
  "to_starter p r = (case r of (s, e) \<Rightarrow> (s\<lparr>bn_starter := p\<rparr>, e))"

definition notify_all :: "'s bench \<Rightarrow> 's bench" where
  "notify_all s = s\<lparr>bn_gate := (\<lambda>t. case bn_gate s t of GateWaits _ \<Rightarrow> GateWaits True | g \<Rightarrow> g)\<rparr>"

definition StartAll :: "('c, 's, 'e) lock_ops \<Rightarrow> nat \<Rightarrow> nat \<Rightarrow> 's bench \<Rightarrow> ('s bench \<times> 'e list) option" where
  "StartAll ops n iters s =
     (case bn_starter s of
        SBegin \<Rightarrow> if bn_cv s = None then Some (s\<lparr>bn_cv := Some 0, bn_starter := SFlag\<rparr>, []) else None
      | SFlag \<Rightarrow> Some (s\<lparr>bn_flag := True, bn_starter := SNotify\<rparr>, [])
      | SNotify \<Rightarrow> Some ((notify_all s)\<lparr>bn_starter := SAwait\<rparr>, [])
      | SAwait \<Rightarrow> map_option (to_starter SIn) (bench_count ops n iters (LockChoice (op_lock ops 0)) s)
      | SIn \<Rightarrow>
          if op_holds ops (cn_lock (bn_count s)) 0 then map_option (to_starter SOut) (bench_count ops n iters (LockChoice (op_unlock ops 0)) s)
          else bench_count ops n iters (LockChoice (op_go ops 0)) s
      | SOut \<Rightarrow>
          if op_outside ops (cn_lock (bn_count s)) 0 then Some (s\<lparr>bn_cv := None, bn_starter := SWait\<rparr>, [])
          else bench_count ops n iters (LockChoice (op_go ops 0)) s
      | _ \<Rightarrow> None)"

definition bench_Wait :: "'s bench \<Rightarrow> 's bench option" where
  "bench_Wait s = (if bn_starter s = SWait \<and> bn_latch s = 0 then Some (s\<lparr>bn_starter := SAfter\<rparr>) else None)"

text \<open>The block of \<open>run\<close> that waits for the flag.\<close>

definition gate_to :: "tid \<Rightarrow> gate_pc \<Rightarrow> tid option \<Rightarrow> 's bench \<Rightarrow> 's bench" where
  "gate_to t g cv s = s\<lparr>bn_gate := (bn_gate s)(t := g), bn_cv := cv\<rparr>"

definition run_gate :: "('c, 's, 'e) lock_ops \<Rightarrow> nat \<Rightarrow> nat \<Rightarrow> tid \<Rightarrow> 's bench \<Rightarrow> ('s bench \<times> 'e list) option" where
  "run_gate ops n iters t s =
     (case bn_gate s t of
        GateOut \<Rightarrow> if bn_cv s = None \<and> t \<in> set (workers n) then Some (gate_to t GateHas (Some t) s, []) else None
      | GateHas \<Rightarrow>
          if bn_flag s then map_option (\<lambda>(s', e). (gate_to t GatePassed None s', e)) (bench_count ops n iters (Begin t) s)
          else Some (gate_to t (GateWaits False) None s, [])
      | GateWaits True \<Rightarrow> if bn_cv s = None then Some (gate_to t GateHas (Some t) s, []) else None
      | _ \<Rightarrow> None)"

definition spurious_wake :: "tid \<Rightarrow> 's bench \<Rightarrow> 's bench option" where
  "spurious_wake t s =
     (case bn_gate s t of GateWaits b \<Rightarrow> Some (s\<lparr>bn_gate := (bn_gate s)(t := GateWaits True)\<rparr>) | _ \<Rightarrow> None)"

definition count_down :: "('c, 's, 'e) lock_ops \<Rightarrow> nat \<Rightarrow> nat \<Rightarrow> tid \<Rightarrow> 's bench \<Rightarrow> ('s bench \<times> 'e list) option" where
  "count_down ops n iters t s = map_option (\<lambda>(s', e). (s'\<lparr>bn_latch := bn_latch s' - 1\<rparr>, e)) (bench_count ops n iters (Finish t) s)"

fun bench_step :: "('c, 's, 'e) lock_ops \<Rightarrow> nat \<Rightarrow> nat \<Rightarrow> ('c bench_choice, 's bench, 'e) stepper" where
  "bench_step ops n iters StarterGo s =
     (if bn_starter s = SWait then map_option (\<lambda>s'. (s', [])) (bench_Wait s) else StartAll ops n iters s)"
| "bench_step ops n iters (GateGo t) s = run_gate ops n iters t s"
| "bench_step ops n iters (SpuriousWake t) s = map_option (\<lambda>s'. (s', [])) (spurious_wake t s)"
| "bench_step ops n iters (WorkerLock c) s =
     (if op_actor ops c \<noteq> 0 \<and> cn_prog (bn_count s) (op_actor ops c) \<noteq> NotStarted then bench_count ops n iters (LockChoice c) s else None)"
| "bench_step ops n iters (WorkerLoad t) s = bench_count ops n iters (LoadValue t) s"
| "bench_step ops n iters (WorkerStore t) s = bench_count ops n iters (StoreValue t) s"
| "bench_step ops n iters (CountDown t) s = count_down ops n iters t s"

text \<open>The two classes of the benchmark.\<close>

definition TestAsyncMutex :: "nat \<Rightarrow> nat \<Rightarrow> (coro_choice bench_choice, coro_mutex bench, lock_event) stepper" where
  "TestAsyncMutex n iters = bench_step coro_ops n iters"

definition TestStdMutex :: "nat \<Rightarrow> nat \<Rightarrow> (std_choice bench_choice, std_mutex bench, lock_event) stepper" where
  "TestStdMutex n iters = bench_step std_ops n iters"

text \<open>One iteration of each benchmark: the object with its constants, the workers and the starting thread; a state that the iteration can be in.\<close>

definition MaxCountThreads :: nat where
  "MaxCountThreads = 8"

definition CountIterationsInThread :: nat where
  "CountIterationsInThread = 10000"

definition BenchAsyncMutex :: "lock_event list \<Rightarrow> coro_mutex bench \<Rightarrow> bool" where
  "BenchAsyncMutex = reach (TestAsyncMutex MaxCountThreads CountIterationsInThread) (init_bench MaxCountThreads init_coro_mutex)"

definition BenchStdMutex :: "lock_event list \<Rightarrow> std_mutex bench \<Rightarrow> bool" where
  "BenchStdMutex = reach (TestStdMutex MaxCountThreads CountIterationsInThread) (init_bench MaxCountThreads init_std_mutex)"

subsection \<open>The invariant\<close>

definition ended :: "nat \<Rightarrow> 's bench \<Rightarrow> tid set" where
  "ended n s = {t \<in> set (workers n). cn_prog (bn_count s) t = Finished}"

text \<open>Before \<open>StartAll\<close> has released \<open>cv_wait\<close> no worker has passed the gate.\<close>

fun started :: "starter_pc \<Rightarrow> bool" where
  "started SWait = True"
| "started SAfter = True"
| "started _ = False"

fun flag_set :: "starter_pc \<Rightarrow> bool" where
  "flag_set SBegin = False"
| "flag_set SFlag = False"
| "flag_set _ = True"

definition gate_inv :: "'s bench \<Rightarrow> bool" where
  "gate_inv s \<longleftrightarrow>
     (\<forall>t. bn_gate s t = GateHas \<longleftrightarrow> bn_cv s = Some t \<and> t \<noteq> 0) \<and> bn_gate s 0 = GateOut \<and>
     (bn_cv s = Some 0 \<longleftrightarrow> \<not> started (bn_starter s) \<and> bn_starter s \<noteq> SBegin) \<and> bn_flag s = flag_set (bn_starter s) \<and>
     (\<not> started (bn_starter s) \<longrightarrow> (\<forall>t. cn_prog (bn_count s) t = NotStarted)) \<and>
     (bn_flag s \<and> bn_starter s \<noteq> SNotify \<longrightarrow> (\<forall>t. bn_gate s t \<noteq> GateWaits False))"

lemma gate_invD:
  assumes "gate_inv s"
  shows "bn_gate s t = GateHas \<longleftrightarrow> bn_cv s = Some t \<and> t \<noteq> 0" "bn_gate s 0 = GateOut"
    "bn_cv s = Some 0 \<longleftrightarrow> \<not> started (bn_starter s) \<and> bn_starter s \<noteq> SBegin" "bn_flag s = flag_set (bn_starter s)"
    "\<not> started (bn_starter s) \<Longrightarrow> cn_prog (bn_count s) t = NotStarted"
    "bn_flag s \<Longrightarrow> bn_starter s \<noteq> SNotify \<Longrightarrow> bn_gate s t \<noteq> GateWaits False"
  using assms unfolding gate_inv_def by blast+

definition latch_inv :: "nat \<Rightarrow> 's bench \<Rightarrow> bool" where
  "latch_inv n s \<longleftrightarrow> bn_latch s + int (card (ended n s)) = int n \<and> (bn_starter s = SAfter \<longrightarrow> ended n s = set (workers n))"

lemma card_ended: "finite (ended n s)" "card (ended n s) \<le> n" "card (ended n s) = n \<Longrightarrow> ended n s = set (workers n)"
proof -
  have "ended n s \<subseteq> set (workers n)" "card (set (workers n)) = n" by (auto simp: ended_def workers_def simp del: upt_Suc)
  then show "finite (ended n s)" "card (ended n s) \<le> n" "card (ended n s) = n \<Longrightarrow> ended n s = set (workers n)"
    using card_mono [of "set (workers n)"] card_subset_eq [of "set (workers n)"] by (auto simp: ended_def)
qed

lemma bench_countE:
  assumes "bench_count ops n iters c s = Some (s', e)"
  obtains x where
    "counting_step (op_step ops) (op_holds ops) (op_outside ops) (op_calls ops) (op_leaves ops) (workers n) (2 * iters) c (bn_count s) = Some (x, e)"
    "s' = s\<lparr>bn_count := x\<rparr>"
  using assms by (auto simp: bench_count_def)

text \<open>Only \<open>Begin\<close> starts a program, only \<open>Finish\<close> ends one.\<close>

lemma counting_progs:
  assumes "counting_step step holds outside calls leaves ms k c x = Some (x', e)"
  shows "c \<noteq> Begin t \<Longrightarrow> cn_prog x t = NotStarted \<Longrightarrow> cn_prog x' t = NotStarted"
    "c \<noteq> Finish t \<Longrightarrow> cn_prog x' t = Finished \<longleftrightarrow> cn_prog x t = Finished"
    "c = Finish t \<Longrightarrow> cn_prog x t = Left 0 \<and> x' = x\<lparr>cn_prog := (cn_prog x)(t := Finished)\<rparr>"
  using assms by (cases c; auto simp: lock_moved_def split: if_splits option.splits prog_state.splits nat.splits inc_pc.splits)+

lemma gate_inv_count:
  assumes "gate_inv s" and "bench_count ops n iters c s = Some (s', e)" and "\<forall>t. c \<noteq> Begin t"
  shows "gate_inv s'"
proof -
  obtain x where x: "counting_step (op_step ops) (op_holds ops) (op_outside ops) (op_calls ops) (op_leaves ops) (workers n) (2 * iters) c (bn_count s) = Some (x, e)"
    "s' = s\<lparr>bn_count := x\<rparr>" using bench_countE [OF assms(2)] .
  then show ?thesis using assms(1,3) counting_progs(1) [OF x(1)] by (simp add: gate_inv_def)
qed

lemma latch_inv_count:
  assumes "latch_inv n s" and "bench_count ops n iters c s = Some (s', e)" and "\<forall>t. c \<noteq> Finish t"
  shows "latch_inv n s'"
proof -
  obtain x where x: "counting_step (op_step ops) (op_holds ops) (op_outside ops) (op_calls ops) (op_leaves ops) (workers n) (2 * iters) c (bn_count s) = Some (x, e)"
    "s' = s\<lparr>bn_count := x\<rparr>" using bench_countE [OF assms(2)] .
  have "cn_prog x t = Finished \<longleftrightarrow> cn_prog (bn_count s) t = Finished" for t using counting_progs(2) [OF x(1)] assms(3) by blast
  then have "ended n s' = ended n s" by (simp add: ended_def x(2))
  then show ?thesis using assms(1) by (simp add: latch_inv_def x(2))
qed

lemma bench_count_same:
  assumes "bench_count ops n iters c s = Some (s', e)"
  shows "bn_cv s' = bn_cv s" "bn_flag s' = bn_flag s" "bn_gate s' = bn_gate s" "bn_starter s' = bn_starter s" "bn_latch s' = bn_latch s"
  using assms by (auto elim!: bench_countE)

lemma latch_inv_same:
  "latch_inv n s \<Longrightarrow> bn_count s' = bn_count s \<Longrightarrow> bn_latch s' = bn_latch s \<Longrightarrow> bn_starter s' = SAfter \<longrightarrow> bn_starter s = SAfter \<Longrightarrow> latch_inv n s'"
  by (auto simp: latch_inv_def ended_def)

lemma gate_inv_starter:
  assumes "gate_inv s" and "bn_starter s \<in> {SAwait, SIn}" and "p \<in> {SIn, SOut}"
  shows "gate_inv (s\<lparr>bn_starter := p\<rparr>)"
proof -
  have "started (bn_starter s) = started p" "flag_set (bn_starter s) = flag_set p" "bn_starter s \<noteq> SBegin" "p \<noteq> SBegin"
    "bn_starter s \<noteq> SNotify" "p \<noteq> SNotify" using assms(2,3) by auto
  then show ?thesis using assms(1) by (simp add: gate_inv_def)
qed

lemma StartAll_gate:
  assumes g: "gate_inv s" and st: "StartAll ops n iters s = Some (s', e)"
  shows "gate_inv s'"
proof -
  have lock: "gate_inv s1" "bn_starter s1 = bn_starter s" if "bench_count ops n iters (LockChoice c) s = Some (s1, e1)" for c s1 e1
    using gate_inv_count [OF g that] bench_count_same(4) [OF that] by simp_all
  show ?thesis
  proof (cases "bn_starter s")
    case SBegin
    then have "s' = s\<lparr>bn_cv := Some 0, bn_starter := SFlag\<rparr>" "bn_cv s = None" using st by (auto simp: StartAll_def split: if_splits)
    then show ?thesis using g SBegin by (auto simp: gate_inv_def)
  next
    case SFlag
    then have "s' = s\<lparr>bn_flag := True, bn_starter := SNotify\<rparr>" using st by (auto simp: StartAll_def)
    then show ?thesis using g SFlag by (simp add: gate_inv_def)
  next
    case SNotify
    then show ?thesis using g st by (auto simp: StartAll_def notify_all_def gate_inv_def split: gate_pc.splits)
  next
    case SAwait
    then obtain c s1 where "bench_count ops n iters (LockChoice c) s = Some (s1, e)" "s' = s1\<lparr>bn_starter := SIn\<rparr>"
      using st by (auto simp: StartAll_def to_starter_def)
    then show ?thesis using lock [of c s1 e] SAwait by (simp add: gate_inv_starter)
  next
    case SIn
    then obtain c s1 where "bench_count ops n iters (LockChoice c) s = Some (s1, e)" "s' = s1 \<or> s' = s1\<lparr>bn_starter := SOut\<rparr>"
      using st by (auto simp: StartAll_def to_starter_def split: if_splits)
    then show ?thesis using lock [of c s1 e] SIn by (auto simp: gate_inv_starter)
  next
    case SOut
    show ?thesis
    proof (cases "op_outside ops (cn_lock (bn_count s)) 0")
      case True
      then show ?thesis using g st SOut by (auto simp: StartAll_def gate_inv_def)
    next
      case False
      then show ?thesis using st SOut lock(1) by (auto simp: StartAll_def)
    qed
  qed (use st in \<open>simp_all add: StartAll_def\<close>)
qed

lemma StartAll_latch:
  assumes l: "latch_inv n s" and st: "StartAll ops n iters s = Some (s', e)"
  shows "latch_inv n s'"
proof -
  consider c s1 where "bench_count ops n iters (LockChoice c) s = Some (s1, e)" "s' = s1\<lparr>bn_starter := SIn\<rparr> \<or> s' = s1\<lparr>bn_starter := SOut\<rparr> \<or> s' = s1"
    | "bn_count s' = bn_count s" "bn_latch s' = bn_latch s" "bn_starter s' \<noteq> SAfter"
    using st by (cases "bn_starter s") (auto simp: StartAll_def to_starter_def notify_all_def split: if_splits)
  then show ?thesis
  proof cases
    case 1
    then show ?thesis using latch_inv_count [OF l 1(1)] by (auto intro: latch_inv_same)
  next
    case 2
    then show ?thesis using l by (auto intro: latch_inv_same)
  qed
qed

lemma gate_inv_upd:
  assumes g: "gate_inv s" and t: "t \<noteq> 0" and has: "g = GateHas \<longleftrightarrow> cv = Some t" and w: "g = GateWaits False \<longrightarrow> \<not> bn_flag s"
    and cv: "cv = bn_cv s \<or> cv \<in> {None, Some t} \<and> bn_cv s \<in> {None, Some t}"
  shows "gate_inv (gate_to t g cv s)"
  unfolding gate_inv_def
proof (intro conjI allI impI)
  fix u
  show "bn_gate (gate_to t g cv s) u = GateHas \<longleftrightarrow> bn_cv (gate_to t g cv s) = Some u \<and> u \<noteq> 0"
    using gate_invD(1) [OF g, of u] has cv t by (cases "u = t") (auto simp: gate_to_def)
  show "bn_gate (gate_to t g cv s) u \<noteq> GateWaits False" if "bn_flag (gate_to t g cv s) \<and> bn_starter (gate_to t g cv s) \<noteq> SNotify"
    using gate_invD(6) [OF g, of u] that w by (auto simp: gate_to_def)
  show "cn_prog (bn_count (gate_to t g cv s)) u = NotStarted" if "\<not> started (bn_starter (gate_to t g cv s))"
    using gate_invD(5) [OF g, of u] that by (simp add: gate_to_def)
  have "cv = Some 0 \<longleftrightarrow> bn_cv s = Some 0" using cv t by auto
  then show "bn_cv (gate_to t g cv s) = Some 0 \<longleftrightarrow> \<not> started (bn_starter (gate_to t g cv s)) \<and> bn_starter (gate_to t g cv s) \<noteq> SBegin"
    using gate_invD(3) [OF g] by (simp add: gate_to_def)
qed (use gate_invD(2,4) [OF g] t in \<open>simp_all add: gate_to_def\<close>)

lemma run_gate_inv:
  assumes g: "gate_inv s" and l: "latch_inv n s" and st: "run_gate ops n iters t s = Some (s', e)"
  shows "gate_inv s' \<and> latch_inv n s'"
proof (cases "bn_gate s t = GateHas \<and> bn_flag s")
  case True
  then obtain s1 where s1: "bench_count ops n iters (Begin t) s = Some (s1, e)" "s' = gate_to t GatePassed None s1"
    using st by (auto simp: run_gate_def)
  have "bn_cv s = Some t" "t \<noteq> 0" using g True by (auto simp: gate_inv_def)
  then have ns: "started (bn_starter s)" using g True by (auto simp: gate_inv_def)
  then have "gate_inv s'"
    using g True s1(2) bench_count_same [OF s1(1)] \<open>bn_cv s = Some t\<close> by (auto simp: gate_inv_def gate_to_def)
  moreover have "latch_inv n s'" using latch_inv_count [OF l s1(1)] s1(2) by (auto simp: gate_to_def intro: latch_inv_same)
  ultimately show ?thesis by simp
next
  case False
  have t0: "t \<noteq> 0" using g st by (intro notI) (simp add: run_gate_def gate_inv_def workers_def del: upt_Suc)
  have gt: "bn_gate s t = GateHas \<longleftrightarrow> bn_cv s = Some t" using g t0 by (simp add: gate_inv_def)
  then obtain p cv where s': "s' = gate_to t p cv s"
    "bn_cv s = None \<and> t \<noteq> 0 \<and> p = GateHas \<and> cv = Some t \<and> bn_gate s t \<noteq> GateHas \<or> bn_cv s = Some t \<and> t \<noteq> 0 \<and> p = GateWaits False \<and> cv = None \<and> \<not> bn_flag s"
    using False st t0 by (auto simp: run_gate_def split: gate_pc.splits bool.splits if_splits)
  have "latch_inv n s'" using l s'(1) by (auto simp: gate_to_def intro: latch_inv_same)
  moreover have "gate_inv s'" unfolding s'(1) using s'(2) by (intro gate_inv_upd [OF g t0]) auto
  ultimately show ?thesis by simp
qed

lemma count_down_latch:
  assumes l: "latch_inv n s" and ok: "counting_ok holds (workers n) k (bn_count s)" and st: "count_down ops n iters t s = Some (s', e)"
  shows "latch_inv n s'"
proof -
  obtain s1 where s1: "bench_count ops n iters (Finish t) s = Some (s1, e)" "s' = s1\<lparr>bn_latch := bn_latch s1 - 1\<rparr>"
    using st by (auto simp: count_down_def)
  obtain x where x: "counting_step (op_step ops) (op_holds ops) (op_outside ops) (op_calls ops) (op_leaves ops) (workers n) (2 * iters) (Finish t) (bn_count s) = Some (x, e)"
    "s1 = s\<lparr>bn_count := x\<rparr>" using bench_countE [OF s1(1)] .
  note f = counting_progs(3) [OF x(1) refl]
  have t: "t \<in> set (workers n)" using counting_okD(2) [OF ok, of t] f by auto
  then have "ended n s' = insert t (ended n s)" "t \<notin> ended n s" using f by (auto simp: ended_def s1(2) x(2))
  then have "card (ended n s') = Suc (card (ended n s))" using card_ended(1) [of n s] by simp
  then show ?thesis using l t \<open>t \<notin> ended n s\<close> by (auto simp: latch_inv_def s1(2) x(2))
qed

text \<open>A step moves the counting programs by one step or not at all.\<close>

definition count_moves :: "('c, 's, 'e) lock_ops \<Rightarrow> nat \<Rightarrow> nat \<Rightarrow> 's bench \<Rightarrow> 'e list \<Rightarrow> 's bench \<Rightarrow> bool" where
  "count_moves ops n iters s e s' \<longleftrightarrow>
     bn_count s' = bn_count s \<and> e = [] \<or> (\<exists>c s1. bench_count ops n iters c s = Some (s1, e) \<and> bn_count s' = bn_count s1)"

lemma count_movesI: "bench_count ops n iters c s = Some (s1, e) \<Longrightarrow> bn_count s' = bn_count s1 \<Longrightarrow> count_moves ops n iters s e s'"
  by (auto simp: count_moves_def)

lemma StartAll_moves: "StartAll ops n iters s = Some (s', e) \<Longrightarrow> count_moves ops n iters s e s'"
  by (cases "bn_starter s")
    (auto simp: StartAll_def to_starter_def notify_all_def split: if_splits intro: count_movesI, auto simp: count_moves_def)

lemma run_gate_moves: "run_gate ops n iters t s = Some (s', e) \<Longrightarrow> count_moves ops n iters s e s'"
  by (auto simp: run_gate_def gate_to_def split: gate_pc.splits bool.splits if_splits intro: count_movesI, auto simp: count_moves_def)

definition bench_inv ::
  "('c, 's, 'e) lock_ops \<Rightarrow> ('e list \<Rightarrow> 's \<Rightarrow> bool) \<Rightarrow> nat \<Rightarrow> nat \<Rightarrow> 'e list \<Rightarrow> 's bench \<Rightarrow> bool" where
  "bench_inv ops linv n iters es s \<longleftrightarrow>
     counting_ok (op_holds ops) (workers n) (2 * iters) (bn_count s) \<and> linv es (cn_lock (bn_count s)) \<and> gate_inv s \<and> latch_inv n s"

locale bench_lock =
  counting_lock "op_step ops" s0 inv "op_holds ops" "op_outside ops" "op_calls ops" "op_leaves ops"
  for ops :: "('c, 's, 'e) lock_ops" and s0 :: 's and inv :: "'e list \<Rightarrow> 's \<Rightarrow> bool"
begin

lemma count_part:
  assumes "bench_inv ops inv n iters es s" and "bench_count ops n iters c s = Some (s', e)"
  shows "counting_ok (op_holds ops) (workers n) (2 * iters) (bn_count s') \<and> inv (es @ e) (cn_lock (bn_count s'))"
  using assms counting_ok_step by (auto simp: bench_inv_def elim!: bench_countE)

lemma moves_part:
  assumes "bench_inv ops inv n iters es s" and "count_moves ops n iters s e s'"
  shows "counting_ok (op_holds ops) (workers n) (2 * iters) (bn_count s') \<and> inv (es @ e) (cn_lock (bn_count s'))"
  using assms count_part [OF assms(1)] by (auto simp: count_moves_def bench_inv_def)

lemma count_inv:
  assumes "bench_inv ops inv n iters es s" and "bench_count ops n iters c s = Some (s', e)" and "\<forall>t. c \<noteq> Begin t" and "\<forall>t. c \<noteq> Finish t"
  shows "bench_inv ops inv n iters (es @ e) s'"
  using count_part [OF assms(1,2)] gate_inv_count [OF _ assms(2,3)] latch_inv_count [OF _ assms(2,4)] assms(1) by (simp add: bench_inv_def)

lemma bench_inv_step:
  assumes inv: "bench_inv ops inv n iters es s" and st: "bench_step ops n iters c s = Some (s', e)"
  shows "bench_inv ops inv n iters (es @ e) s'"
proof (cases c)
  case StarterGo
  show ?thesis
  proof (cases "bn_starter s = SWait")
    case True
    then have s': "s' = s\<lparr>bn_starter := SAfter\<rparr>" "bn_latch s = 0" "e = []"
      using st StarterGo by (auto simp: bench_Wait_def split: if_splits)
    then have "ended n s = set (workers n)" using inv card_ended(3) [of n s] by (simp add: bench_inv_def latch_inv_def)
    then show ?thesis using inv s' True by (auto simp: bench_inv_def latch_inv_def gate_inv_def ended_def)
  next
    case False
    then have st': "StartAll ops n iters s = Some (s', e)" using st StarterGo by simp
    have "gate_inv s'" "latch_inv n s'" using inv StartAll_gate [OF _ st'] StartAll_latch [OF _ st'] by (auto simp: bench_inv_def)
    moreover have "counting_ok (op_holds ops) (workers n) (2 * iters) (bn_count s') \<and> inv (es @ e) (cn_lock (bn_count s'))"
      by (rule moves_part [OF inv StartAll_moves [OF st']])
    ultimately show ?thesis by (simp add: bench_inv_def)
  qed
next
  case (GateGo t)
  then have st': "run_gate ops n iters t s = Some (s', e)" using st by simp
  have "gate_inv s'" "latch_inv n s'" using inv run_gate_inv [OF _ _ st'] by (auto simp: bench_inv_def)
  moreover have "counting_ok (op_holds ops) (workers n) (2 * iters) (bn_count s') \<and> inv (es @ e) (cn_lock (bn_count s'))"
    by (rule moves_part [OF inv run_gate_moves [OF st']])
  ultimately show ?thesis by (simp add: bench_inv_def)
next
  case (SpuriousWake t)
  then obtain b where s': "s' = gate_to t (GateWaits True) (bn_cv s) s" "e = []" "bn_gate s t = GateWaits b"
    using st by (auto simp: spurious_wake_def gate_to_def split: gate_pc.splits)
  have g: "gate_inv s" using inv by (simp add: bench_inv_def)
  have "t \<noteq> 0" using gate_invD(2) [OF g] s'(3) by (intro notI) simp
  then have "bn_cv s \<noteq> Some t" using gate_invD(1) [OF g, of t] s'(3) by simp
  then have "gate_inv s'" unfolding s'(1) using \<open>t \<noteq> 0\<close> by (intro gate_inv_upd [OF g]) auto
  moreover have "latch_inv n s'" using inv s'(1) by (auto simp: bench_inv_def gate_to_def intro: latch_inv_same)
  moreover have "bn_count s' = bn_count s" by (simp add: s'(1) gate_to_def)
  ultimately show ?thesis using inv s'(2) by (simp add: bench_inv_def)
next
  case (CountDown t)
  then obtain s1 where s1: "bench_count ops n iters (Finish t) s = Some (s1, e)" "s' = s1\<lparr>bn_latch := bn_latch s1 - 1\<rparr>"
    using st by (auto simp: count_down_def)
  have "gate_inv s1" using inv gate_inv_count [OF _ s1(1)] by (simp add: bench_inv_def)
  then have "gate_inv s'" using s1(2) by (simp add: gate_inv_def)
  moreover have "latch_inv n s'" using inv count_down_latch [of n s "op_holds ops" "2 * iters"] st CountDown by (auto simp: bench_inv_def)
  ultimately show ?thesis using count_part [OF inv s1(1)] s1(2) by (simp add: bench_inv_def)
qed (use st count_inv [OF inv] in \<open>auto split: if_splits\<close>)

lemma bench_inv_init: "bench_inv ops inv n iters [] (init_bench n s0)"
  using counting_ok_init inv_init
  by (auto simp: bench_inv_def init_bench_def gate_inv_def latch_inv_def ended_def init_counting_def)

lemma bench_reach: "reach (bench_step ops n iters) (init_bench n s0) es s \<Longrightarrow> bench_inv ops inv n iters es s"
  by (induction rule: reach.induct) (auto intro: bench_inv_init bench_inv_step)

lemma number_exact:
  assumes "bench_inv ops inv n iters es s" and "bn_starter s = SAfter"
  shows "cn_value (bn_count s) = of_nat (2 * iters * n)"
proof -
  have "ended n s = set (workers n)" using assms by (simp add: bench_inv_def latch_inv_def)
  then have "\<And>t. t \<in> set (workers n) \<Longrightarrow> cn_prog (bn_count s) t = Finished" by (auto simp: ended_def)
  then have "cn_value (bn_count s) = of_nat (card (set (workers n)) * (2 * iters))"
    using assms(1) all_finished_value unfolding bench_inv_def by blast
  moreover have "card (set (workers n)) = n" by (simp add: workers_def del: upt_Suc)
  ultimately show ?thesis by (simp add: mult.commute)
qed

end

interpretation coro_bench: bench_lock coro_ops init_coro_mutex "\<lambda>_ s. \<exists>a. coro_sim a s"
  using coro_counting.counting_lock_axioms by (simp add: bench_lock_def coro_ops_def)

interpretation std_bench: bench_lock std_ops init_std_mutex "\<lambda>_. std_inv"
  using std_counting.counting_lock_axioms by (simp add: bench_lock_def std_ops_def)

subsection \<open>StartAll is not suspended\<close>

text \<open>Where the coroutine \<open>StartAll\<close> is in the mutex, which no other coroutine uses before it has released \<open>cv_wait\<close>.\<close>

fun solo_at :: "starter_pc \<Rightarrow> coro_pc \<Rightarrow> bool" where
  "solo_at SIn p \<longleftrightarrow> p \<in> {CSpin, CReady, CReleaseIn, CIn}"
| "solo_at SOut p \<longleftrightarrow> p \<in> {CUnSpin, CUnlock, CUnDone, COut}"
| "solo_at _ p \<longleftrightarrow> p = COut"

definition solo :: "coro_mutex bench \<Rightarrow> bool" where
  "solo s \<longleftrightarrow> (\<forall>c. c \<noteq> 0 \<longrightarrow> cm_pc (cn_lock (bn_count s)) c = COut) \<and> solo_at (bn_starter s) (cm_pc (cn_lock (bn_count s)) 0)"

lemma solo_free:
  assumes "coro_sim a m" and "\<forall>c. c \<noteq> 0 \<longrightarrow> cm_pc m c = COut" and "solo_at p (cm_pc m 0)"
  shows "cm_pc m 0 = CReady \<Longrightarrow> \<not> cm_flag m" "cm_waiters m = []" "\<not> spinning_at (cm_pc m 0) \<Longrightarrow> cm_spin m = None"
proof -
  obtain h where inv: "coro_inv h m" using assms(1) by (auto simp: coro_sim_def)
  have pc: "cm_pc m c = COut" if "c \<noteq> 0" for c using assms(2) that by simp
  have p0: "\<not> parked_at (cm_pc m 0)" "hands_to (cm_pc m 0) = None" using assms(3) by (cases p; auto simp: parked_at_def)+
  have np: "\<not> parked_at (cm_pc m c)" for c using p0(1) pc [of c] by (cases "c = 0") (auto simp: parked_at_def)
  then show "cm_waiters m = []" using coro_invD(4) [OF inv] by (metis list.set_intros(1) neq_Nil_conv)
  have nh: "hands_to (cm_pc m c) = None" for c using p0(2) pc [of c] by (cases "c = 0") auto
  show "\<not> cm_flag m" if "cm_pc m 0 = CReady"
  proof (cases h)
    case (Has c)
    then have "inside_at (cm_pc m c)" using coro_invD(2) [OF inv] by simp
    then show ?thesis using that pc [of c] by (cases "c = 0") auto
  next
    case (Gives u w)
    then show ?thesis using coro_invD(3) [OF inv, of u] nh [of u] by simp
  qed (use coro_invD(7) [OF inv] in simp)
  show "cm_spin m = None" if "\<not> spinning_at (cm_pc m 0)"
  proof (cases "cm_spin m")
    case (Some c)
    then have "spinning_at (cm_pc m c)" using coro_invD(1) [OF inv] by simp
    then show ?thesis using that pc [of c] by (cases "c = 0") auto
  qed
qed

fun start_left :: "starter_pc \<Rightarrow> coro_pc \<Rightarrow> nat" where
  "start_left SBegin p = 12"
| "start_left SFlag p = 11"
| "start_left SNotify p = 10"
| "start_left SAwait p = 9"
| "start_left SIn p = (case p of CSpin \<Rightarrow> 8 | CReady \<Rightarrow> 7 | CReleaseIn \<Rightarrow> 6 | _ \<Rightarrow> 5)"
| "start_left SOut p = (case p of CUnSpin \<Rightarrow> 4 | CUnlock \<Rightarrow> 3 | CUnDone \<Rightarrow> 2 | _ \<Rightarrow> 1)"
| "start_left _ p = 0"

definition start_rank :: "coro_mutex bench \<Rightarrow> nat" where
  "start_rank s = start_left (bn_starter s) (cm_pc (cn_lock (bn_count s)) 0)"

lemmas solo_defs = coro_ops_def bench_count_def lock_move_def lock_moved_def to_starter_def coro_holds_def coro_outside_def notify_all_def
  cto_def take_spin_def await_ready_def TryLock_def ReleaseLock_def Coro_Mutex.Unlock_def

lemma solo_StartAll:
  assumes s: "solo s" and sim: "coro_sim a (cn_lock (bn_count s))" and p: "cn_prog (bn_count s) 0 = NotStarted"
    and cv: "bn_starter s \<in> {SFlag, SNotify, SAwait, SIn, SOut}"
  shows "\<exists>s' e. StartAll coro_ops n iters s = Some (s', e) \<and> start_rank s' < start_rank s \<and> (\<not> started (bn_starter s') \<longrightarrow> solo s')"
proof -
  let ?m = "cn_lock (bn_count s)"
  have out: "\<forall>c. c \<noteq> 0 \<longrightarrow> cm_pc ?m c = COut" and at: "solo_at (bn_starter s) (cm_pc ?m 0)" using s by (auto simp: solo_def)
  note free = solo_free [OF sim out at]
  consider "bn_starter s = SFlag" | "bn_starter s = SNotify" | "bn_starter s = SAwait" | "bn_starter s = SIn" "cm_pc ?m 0 = CSpin"
    | "bn_starter s = SIn" "cm_pc ?m 0 = CReady" | "bn_starter s = SIn" "cm_pc ?m 0 = CReleaseIn" | "bn_starter s = SIn" "cm_pc ?m 0 = CIn"
    | "bn_starter s = SOut" "cm_pc ?m 0 = CUnSpin" | "bn_starter s = SOut" "cm_pc ?m 0 = CUnlock" | "bn_starter s = SOut" "cm_pc ?m 0 = CUnDone"
    | "bn_starter s = SOut" "cm_pc ?m 0 = COut"
    using cv at by auto
  then show ?thesis using out at p free
    by cases (simp_all add: StartAll_def solo_defs solo_def start_rank_def)
qed

text \<open>The other steps do not touch the mutex before that.\<close>

lemma bench_count_lock:
  assumes "bench_count ops n iters c s = Some (s', e)" and "\<forall>l. c \<noteq> LockChoice l"
  shows "cn_lock (bn_count s') = cn_lock (bn_count s)"
  using assms by (cases c) (auto simp: bench_count_def split: if_splits prog_state.splits nat.splits inc_pc.splits)

lemma others_keep_solo:
  assumes g: "gate_inv s" and st: "bench_step ops n iters c s = Some (s', e)" and c: "c \<noteq> StarterGo" and n: "\<not> started (bn_starter s)"
  shows "cn_lock (bn_count s') = cn_lock (bn_count s)" "bn_starter s' = bn_starter s"
proof -
  have nl: "bench_step ops n iters (WorkerLock l) s = None" for l using gate_invD(5) [OF g n] by simp
  have "cn_lock (bn_count s') = cn_lock (bn_count s) \<and> bn_starter s' = bn_starter s"
  proof (cases c)
    case (GateGo t)
    then show ?thesis using st bench_count_lock bench_count_same(4)
      by (fastforce simp: run_gate_def gate_to_def split: gate_pc.splits bool.splits if_splits)
  next
    case (CountDown t)
    then show ?thesis using st bench_count_lock bench_count_same(4) by (fastforce simp: count_down_def)
  qed (use st nl c bench_count_lock bench_count_same(4) in \<open>fastforce simp: spurious_wake_def split: gate_pc.splits\<close>)+
  then show "cn_lock (bn_count s') = cn_lock (bn_count s)" "bn_starter s' = bn_starter s" by simp_all
qed

lemma solo_step:
  assumes s: "solo s" and inv: "bench_inv coro_ops (\<lambda>_ s. \<exists>a. coro_sim a s) n iters es s" and n: "\<not> started (bn_starter s)"
    and st: "bench_step coro_ops n iters c s = Some (s', e)" and n': "\<not> started (bn_starter s')"
  shows "solo s'"
proof (cases "c = StarterGo")
  case True
  obtain a where sim: "coro_sim a (cn_lock (bn_count s))" using inv by (auto simp: bench_inv_def)
  have g: "gate_inv s" using inv by (simp add: bench_inv_def)
  have st': "StartAll coro_ops n iters s = Some (s', e)" using st True n by (auto split: if_splits)
  show ?thesis
  proof (cases "bn_starter s = SBegin")
    case True
    then show ?thesis using st' s by (auto simp: StartAll_def solo_def split: if_splits)
  next
    case False
    then have "bn_starter s \<in> {SFlag, SNotify, SAwait, SIn, SOut}" using n by (cases "bn_starter s") auto
    then show ?thesis using solo_StartAll [OF s sim gate_invD(5) [OF g n], of n iters] st' n' by auto
  qed
next
  case False
  have "gate_inv s" using inv by (simp add: bench_inv_def)
  from others_keep_solo [OF this st False n] show ?thesis using s by (simp add: solo_def)
qed

lemma started_stays:
  assumes "bench_step ops n iters c s = Some (s', e)" and "started (bn_starter s)"
  shows "started (bn_starter s')"
proof (cases "c = StarterGo")
  case True
  then show ?thesis using assms by (cases "bn_starter s") (auto simp: bench_Wait_def StartAll_def split: if_splits)
next
  case False
  have "bn_starter s' = bn_starter s"
  proof (cases c)
    case (GateGo t)
    then show ?thesis using assms(1) bench_count_same(4)
      by (fastforce simp: run_gate_def gate_to_def split: gate_pc.splits bool.splits if_splits)
  next
    case (CountDown t)
    then show ?thesis using assms(1) bench_count_same(4) by (fastforce simp: count_down_def)
  qed (use assms(1) False bench_count_same(4) in \<open>fastforce simp: spurious_wake_def split: gate_pc.splits if_splits\<close>)+
  then show ?thesis using assms(2) by simp
qed

lemma solo_reach:
  "reach (bench_step coro_ops n iters) (init_bench n init_coro_mutex) es s \<Longrightarrow> \<not> started (bn_starter s) \<Longrightarrow> solo s"
proof (induction rule: reach.induct)
  case reach_init
  show ?case by (simp add: solo_def init_bench_def init_counting_def init_coro_mutex_def)
next
  case (reach_step es s c s' e)
  then have "\<not> started (bn_starter s)" using started_stays by blast
  then show ?case using solo_step coro_bench.bench_reach reach_step by blast
qed

subsection \<open>Properties\<close>

text \<open>
  \<open>BenchAsyncMutex\<close>: in every interleaving, when \<open>Wait\<close> has returned every coroutine has made all its increments and none was lost, \<open>number\<close> is
  twice the iterations times the coroutines; and the latch is never counted down below zero.\<close>
lemma bench_async_mutex_exact:
  assumes "reach (TestAsyncMutex n iters) (init_bench n init_coro_mutex) es s"
  shows "bn_latch s \<ge> 0 \<and> (bn_starter s = SAfter \<longrightarrow> cn_value (bn_count s) = of_nat (2 * iters * n))"
proof -
  have inv: "bench_inv coro_ops (\<lambda>_ s. \<exists>a. coro_sim a s) n iters es s" using coro_bench.bench_reach assms by (simp add: TestAsyncMutex_def)
  then have "bn_latch s + int (card (ended n s)) = int n" by (simp add: bench_inv_def latch_inv_def)
  then show ?thesis using card_ended(2) [of n s] coro_bench.number_exact [OF inv] by simp
qed

text \<open>\<open>BenchStdMutex\<close>: the same, over \<open>std::mutex\<close>.\<close>

lemma bench_std_mutex_exact:
  assumes "reach (TestStdMutex n iters) (init_bench n init_std_mutex) es s" and "bn_starter s = SAfter"
  shows "cn_value (bn_count s) = of_nat (2 * iters * n)"
  using std_bench.number_exact [OF std_bench.bench_reach] assms by (simp add: TestStdMutex_def)

text \<open>So the eight threads of either benchmark bring \<open>number\<close> to 160000.\<close>

lemma benchmarks_count:
  "BenchAsyncMutex es s \<Longrightarrow> bn_starter s = SAfter \<Longrightarrow> cn_value (bn_count s) = 160000"
  "BenchStdMutex fs u \<Longrightarrow> bn_starter u = SAfter \<Longrightarrow> cn_value (bn_count u) = 160000"
  using bench_async_mutex_exact [of MaxCountThreads CountIterationsInThread es s] bench_std_mutex_exact [of MaxCountThreads CountIterationsInThread fs u]
  by (simp_all add: BenchAsyncMutex_def BenchStdMutex_def MaxCountThreads_def CountIterationsInThread_def)

text \<open>
  The coroutine \<open>StartAll\<close> awaits the mutex while its \<open>unique_lock\<close> owns \<open>cv_wait\<close>. It is never suspended there (a resumption on another thread
  would unlock \<open>cv_wait\<close> from a thread that does not own it): no worker uses the mutex before \<open>StartAll\<close> is over, each of its steps is enabled and
  brings it closer to the end, and after the notification no worker is left waiting without having been notified.\<close>

lemma bench_start_all_runs:
  assumes "reach (TestAsyncMutex n iters) (init_bench n init_coro_mutex) es s" and "bn_cv s = Some 0"
  shows "\<not> parked_at (cm_pc (cn_lock (bn_count s)) 0) \<and>
    (\<exists>s' e. TestAsyncMutex n iters StarterGo s = Some (s', e) \<and> start_rank s' < start_rank s) \<and>
    (bn_starter s \<in> {SAwait, SIn, SOut} \<longrightarrow> (\<forall>t. bn_gate s t \<noteq> GateWaits False))"
proof -
  have inv: "bench_inv coro_ops (\<lambda>_ s. \<exists>a. coro_sim a s) n iters es s" using coro_bench.bench_reach assms(1) by (simp add: TestAsyncMutex_def)
  then have g: "gate_inv s" and "\<exists>a. coro_sim a (cn_lock (bn_count s))" by (simp_all add: bench_inv_def del: split_paired_Ex)
  then obtain a where sim: "coro_sim a (cn_lock (bn_count s))" by blast
  have n: "\<not> started (bn_starter s)" "bn_starter s \<noteq> SBegin" using gate_invD(3) [OF g] assms(2) by auto
  have s: "solo s" using solo_reach assms(1) n(1) by (simp add: TestAsyncMutex_def)
  have "\<not> parked_at (cm_pc (cn_lock (bn_count s)) 0)" using s by (cases "bn_starter s") (auto simp: solo_def parked_at_def)
  moreover have "bn_starter s \<in> {SFlag, SNotify, SAwait, SIn, SOut}" using n by (cases "bn_starter s") auto
  from solo_StartAll [OF s sim gate_invD(5) [OF g n(1)] this, of n iters]
  have "\<exists>s' e. TestAsyncMutex n iters StarterGo s = Some (s', e) \<and> start_rank s' < start_rank s" using n(1) by (cases "bn_starter s = SWait") (auto simp: TestAsyncMutex_def)
  moreover have "bn_gate s t \<noteq> GateWaits False" if "bn_starter s \<in> {SAwait, SIn, SOut}" for t
    using gate_invD(4,6) [OF g] that by auto
  ultimately show ?thesis by blast
qed

end
