(* ===== verification/Stackless.thy ===== *)
theory Stackless
  imports Prelude
begin

text \<open>
  The examples of stackless coroutines, \<^verbatim>\<open>example/coro\<close>: \<open>Generator\<close> with \<open>natural_nums\<close> and \<open>input_seq\<close>, the state machine whose states are
  coroutines that transfer control to each other, the coroutine that walks over messages, the event that coroutines await, and the function
  that runs to its end at once.

  A coroutine frame is a cell of a store: where the body is suspended (\<open>None\<close> at the final suspension point) and the value in its promise. A body is a
  function from a suspension point to the next one with the yielded value, or to its end. A handle is a pointer to a frame; resuming a
  frame at its final suspension point is undefined (\<open>Abort\<close>), and so is every use of a destroyed frame. Reaching the end of a body
  leads to the final suspension point.

  The lemmas show what the generators produce, that the states of the machine, over a generator that is alive, are visited as by the automaton of its
  transition functions, that the messages are each printed once, that \<open>set\<close> resumes each awaiting coroutine once; and that two of the programs
  use destroyed frames: the constructor of the state machine destroys the generator it keeps.
\<close>

subsection \<open>Frames and handles\<close>

record ('s, 'v) coro_frame =
  cf_at :: "'s option"
  cf_value :: 'v

type_synonym ('s, 'v) frames = "addr \<rightharpoonup> ('s, 'v) coro_frame"
type_synonym ('s, 'v) coro_body = "'s \<Rightarrow> fault + ('s \<times> 'v) option"

definition frame_at :: "ptr \<Rightarrow> ('s, 'v) frames \<Rightarrow> fault + (addr \<times> ('s, 'v) coro_frame)" where
  "frame_at h hp = (case h of None \<Rightarrow> Inl NullDeref | Some a \<Rightarrow> (case hp a of None \<Rightarrow> Inl UseAfterFree | Some f \<Rightarrow> Inr (a, f)))"

definition handle_resume :: "('s, 'v) coro_body \<Rightarrow> ptr \<Rightarrow> ('s, 'v) frames \<Rightarrow> fault + ('s, 'v) frames" where
  "handle_resume body h hp =
     bind_res (frame_at h hp) (\<lambda>(a, f).
       case cf_at f of
         None \<Rightarrow> Inl Abort
       | Some s \<Rightarrow>
           bind_res (body s) (\<lambda>r.
             case r of
               None \<Rightarrow> Inr (hp(a \<mapsto> f\<lparr>cf_at := None\<rparr>))
             | Some (s', v) \<Rightarrow> Inr (hp(a \<mapsto> f\<lparr>cf_at := Some s', cf_value := v\<rparr>))))"

definition handle_done :: "ptr \<Rightarrow> ('s, 'v) frames \<Rightarrow> fault + bool" where
  "handle_done h hp = bind_res (frame_at h hp) (\<lambda>(a, f). Inr (cf_at f = None))"

definition handle_destroy :: "ptr \<Rightarrow> ('s, 'v) frames \<Rightarrow> fault + ('s, 'v) frames" where
  "handle_destroy h hp = bind_res (frame_at h hp) (\<lambda>(a, f). Inr (hp(a := None)))"

definition promise_value :: "ptr \<Rightarrow> ('s, 'v) frames \<Rightarrow> fault + 'v" where
  "promise_value h hp = bind_res (frame_at h hp) (\<lambda>(a, f). Inr (cf_value f))"

text \<open>A promise type says whether a coroutine is suspended before its body and whether it is after it. Without the second suspension the
  frame is destroyed as soon as the body ends. \<open>yield_value\<close> stores the value in the promise and suspends.\<close>

record promise_policy =
  initial_suspend :: bool
  final_suspend :: bool

definition Generator_promise :: promise_policy where
  "Generator_promise = \<lparr>initial_suspend = True, final_suspend = True\<rparr>"

definition stm_Resumable_promise :: promise_policy where
  "stm_Resumable_promise = \<lparr>initial_suspend = True, final_suspend = True\<rparr>"

definition Resumable_promise :: promise_policy where
  "Resumable_promise = \<lparr>initial_suspend = True, final_suspend = True\<rparr>"

definition resumable_no_wait_promise :: promise_policy where
  "resumable_no_wait_promise = \<lparr>initial_suspend = False, final_suspend = False\<rparr>"

definition resumable_no_own_promise :: promise_policy where
  "resumable_no_own_promise = \<lparr>initial_suspend = False, final_suspend = False\<rparr>"

definition ResumableNoOwn_promise :: promise_policy where
  "ResumableNoOwn_promise = \<lparr>initial_suspend = False, final_suspend = False\<rparr>"

definition yield_value :: "'s \<Rightarrow> 'v \<Rightarrow> ('s, 'v) coro_frame \<Rightarrow> ('s, 'v) coro_frame" where
  "yield_value s v f = f\<lparr>cf_at := Some s, cf_value := v\<rparr>"

definition coro_resume :: "promise_policy \<Rightarrow> ('s, 'v) coro_body \<Rightarrow> ptr \<Rightarrow> ('s, 'v) frames \<Rightarrow> fault + ('s, 'v) frames" where
  "coro_resume pol body h hp =
     bind_res (frame_at h hp) (\<lambda>(a, f).
       case cf_at f of
         None \<Rightarrow> Inl Abort
       | Some s \<Rightarrow>
           bind_res (body s) (\<lambda>r.
             case r of
               None \<Rightarrow> Inr (if final_suspend pol then hp(a \<mapsto> f\<lparr>cf_at := None\<rparr>) else hp(a := None))
             | Some (s', v) \<Rightarrow> Inr (hp(a \<mapsto> yield_value s' v f))))"

text \<open>A call of a coroutine: the frame is allocated at \<open>a\<close>, which is also the handle in the returned object.\<close>

definition coro_call :: "promise_policy \<Rightarrow> ('s, 'v) coro_body \<Rightarrow> 's \<Rightarrow> 'v \<Rightarrow> addr \<Rightarrow> ('s, 'v) frames \<Rightarrow> fault + ('s, 'v) frames" where
  "coro_call pol body s v a hp =
     (let hp' = hp(a \<mapsto> \<lparr>cf_at = Some s, cf_value = v\<rparr>) in if initial_suspend pol then Inr hp' else coro_resume pol body (Some a) hp')"

lemmas promise_types = Generator_promise_def stm_Resumable_promise_def Resumable_promise_def resumable_no_wait_promise_def
  resumable_no_own_promise_def ResumableNoOwn_promise_def

text \<open>The owners of a frame resume it as \<open>handle_resume\<close> does, and find it at its beginning.\<close>

lemma owned_resume:
  assumes "pol \<in> {Generator_promise, stm_Resumable_promise, Resumable_promise}"
  shows "coro_resume pol body h hp = handle_resume body h hp" "coro_call pol body s v a hp = Inr (hp(a \<mapsto> \<lparr>cf_at = Some s, cf_value = v\<rparr>))"
proof -
  have pol: "initial_suspend pol = True" "final_suspend pol = True" using assms by (auto simp: promise_types)
  show "coro_resume pol body h hp = handle_resume body h hp"
    unfolding coro_resume_def handle_resume_def yield_value_def pol if_True by (rule refl)
  show "coro_call pol body s v a hp = Inr (hp(a \<mapsto> \<lparr>cf_at = Some s, cf_value = v\<rparr>))" by (simp add: coro_call_def pol)
qed

text \<open>The coroutines that nobody owns leave no frame behind when they end, and only then.\<close>

lemma unowned_frame:
  assumes "pol \<in> {resumable_no_wait_promise, resumable_no_own_promise, ResumableNoOwn_promise}" and "hp a = Some f" "cf_at f = Some s" "body s = Inr r"
  shows "\<exists>hp'. coro_resume pol body (Some a) hp = Inr hp' \<and> (hp' a = None \<longleftrightarrow> r = None)"
  using assms by (cases r) (auto simp: coro_resume_def frame_at_def promise_types)

subsection \<open>Generator\<close>

text \<open>A generator is its handle. The class declares a destructor and no other special member, so it is copied, never moved.\<close>

type_synonym generator = ptr

definition copy_Generator :: "generator \<Rightarrow> generator" where
  "copy_Generator g = g"

definition destroy_Generator :: "generator \<Rightarrow> ('s, 'v) frames \<Rightarrow> fault + ('s, 'v) frames" where
  "destroy_Generator g hp = (if g = None then Inr hp else handle_destroy g hp)"

definition Generator_resume :: "('s, 'v) coro_body \<Rightarrow> generator \<Rightarrow> ('s, 'v) frames \<Rightarrow> fault + (('s, 'v) frames \<times> bool)" where
  "Generator_resume body g hp =
     bind_res (handle_done g hp) (\<lambda>d.
       bind_res (if d then Inr hp else handle_resume body g hp) (\<lambda>hp'.
         bind_res (handle_done g hp') (\<lambda>d'. Inr (hp', \<not> d'))))"

definition move_next :: "('s, 'v) coro_body \<Rightarrow> generator \<Rightarrow> ('s, 'v) frames \<Rightarrow> fault + (('s, 'v) frames \<times> bool)" where
  "move_next body g hp =
     (if g = None then Inr (hp, False)
      else bind_res (handle_resume body g hp) (\<lambda>hp'. bind_res (handle_done g hp') (\<lambda>d. Inr (hp', \<not> d))))"

definition current_value :: "generator \<Rightarrow> ('s, 'v) frames \<Rightarrow> fault + 'v" where
  "current_value g hp = promise_value g hp"

text \<open>The loop of \<open>main\<close> in \<^verbatim>\<open>example_natural_nums.cpp\<close>: it moves on and prints the value.\<close>

fun next_values :: "('s, 'v) coro_body \<Rightarrow> generator \<Rightarrow> nat \<Rightarrow> ('s, 'v) frames \<Rightarrow> fault + (('s, 'v) frames \<times> 'v list)" where
  "next_values body g 0 hp = Inr (hp, [])"
| "next_values body g (Suc n) hp =
     bind_res (move_next body g hp) (\<lambda>(hp', _).
       bind_res (current_value g hp') (\<lambda>v.
         bind_res (next_values body g n hp') (\<lambda>(hp'', vs). Inr (hp'', v # vs))))"

text \<open>\<open>natural_nums\<close>: before the first \<open>co_yield\<close>, or at it with the value of \<open>num\<close>; \<open>num++\<close> overflows at the greatest \<open>int\<close>.\<close>

datatype nums_point = NumsBegin | NumsAt int

fun natural_nums :: "(nums_point, int) coro_body" where
  "natural_nums NumsBegin = Inr (Some (NumsAt 0, 0))"
| "natural_nums (NumsAt num) = (if num + 1 < 2 ^ 31 then Inr (Some (NumsAt (num + 1), num + 1)) else Inl Abort)"

definition nums_main :: "nat \<Rightarrow> fault + int list" where
  "nums_main n =
     bind_res (next_values natural_nums (Some 0) n [0 \<mapsto> \<lparr>cf_at = Some NumsBegin, cf_value = 0\<rparr>]) (\<lambda>(hp, vs).
       bind_res (destroy_Generator (Some 0) hp) (\<lambda>_. Inr vs))"

text \<open>What a body yields from a suspension point on.\<close>

fun yields :: "('s, 'v) coro_body \<Rightarrow> nat \<Rightarrow> 's \<Rightarrow> fault + 'v list" where
  "yields body 0 s = Inr []"
| "yields body (Suc n) s =
     bind_res (body s) (\<lambda>r. case r of None \<Rightarrow> Inl Abort | Some (s', v) \<Rightarrow> bind_res (yields body n s') (\<lambda>vs. Inr (v # vs)))"

lemma next_values_yields:
  "hp a = Some f \<Longrightarrow> cf_at f = Some s \<Longrightarrow> yields body n s = Inr vs \<Longrightarrow>
   \<exists>hp' f'. next_values body (Some a) n hp = Inr (hp', vs) \<and> hp' a = Some f' \<and> (\<forall>b. b \<noteq> a \<longrightarrow> hp' b = hp b)"
proof (induction n arbitrary: hp f s vs)
  case (Suc n)
  obtain s' v vs' where y: "body s = Inr (Some (s', v))" "yields body n s' = Inr vs'" "vs = v # vs'"
    using Suc.prems(3) by (auto simp: bind_res_Inr_iff split: option.splits)
  let ?f = "f\<lparr>cf_at := Some s', cf_value := v\<rparr>"
  have "\<exists>hp' f'. next_values body (Some a) n (hp(a \<mapsto> ?f)) = Inr (hp', vs') \<and> hp' a = Some f' \<and> (\<forall>b. b \<noteq> a \<longrightarrow> hp' b = (hp(a \<mapsto> ?f)) b)"
    by (rule Suc.IH [of _ ?f s']) (simp_all add: y)
  then show ?case using Suc.prems y
    by (auto simp: move_next_def current_value_def handle_resume_def handle_done_def promise_value_def frame_at_def)
qed auto

lemma natural_nums_yields: "num + int n < 2 ^ 31 \<Longrightarrow> yields natural_nums n (NumsAt num) = Inr (map (\<lambda>i. num + 1 + int i) [0..<n])"
proof (induction n arbitrary: num)
  case (Suc n)
  then have "yields natural_nums n (NumsAt (num + 1)) = Inr (map (\<lambda>i. (num + 1) + 1 + int i) [0..<n])" by simp
  moreover have "map (\<lambda>i. num + 1 + int i) [0..<Suc n] = (num + 1) # map (\<lambda>i. num + 1 + 1 + int i) [0..<n]"
    by (rule nth_equalityI) (auto simp: nth_Cons' simp del: upt_Suc)
  ultimately show ?case using Suc.prems by simp
qed simp

subsection \<open>The state machine\<close>

datatype sym = SymA | SymB | SymTerm
datatype stm_state = StA | StB

fun sym_of :: "char \<Rightarrow> sym" where
  "sym_of c = (if c = CHR ''a'' then SymA else if c = CHR ''b'' then SymB else SymTerm)"

text \<open>\<open>input_seq\<close>: the suspension points are given by the characters that are left.\<close>

fun input_seq :: "(string, sym) coro_body" where
  "input_seq (c # cs) = Inr (Some (cs, sym_of c))"
| "input_seq [] = Inr (Some ([], SymTerm))"

fun transmission :: "stm_state \<Rightarrow> sym \<Rightarrow> stm_state" where
  "transmission StA s = (if s = SymB then StB else StA)"
| "transmission StB s = (if s = SymA then StA else StB)"

datatype state_pc = AtBegin | AtAwait | AtFinal

record state_machine =
  sm_current :: stm_state
  sm_states :: "stm_state \<Rightarrow> state_pc"
  sm_gen :: generator

definition set_pc :: "stm_state \<Rightarrow> state_pc \<Rightarrow> state_machine \<Rightarrow> state_machine" where
  "set_pc q p m = m\<lparr>sm_states := (sm_states m)(q := p)\<rparr>"

definition genval :: "state_machine \<Rightarrow> (string, sym) frames \<Rightarrow> fault + sym" where
  [simp]: "genval m hp = current_value (sm_gen m) hp"

definition gennext :: "state_machine \<Rightarrow> (string, sym) frames \<Rightarrow> fault + ((string, sym) frames \<times> bool)" where
  [simp]: "gennext m hp = move_next input_seq (sm_gen m) hp"

definition stm_at :: "state_machine \<Rightarrow> stm_state \<Rightarrow> state_pc" where
  [simp]: "stm_at m q = sm_states m q"

definition stm_current :: "state_machine \<Rightarrow> stm_state" where
  [simp]: "stm_current m = sm_current m"

text \<open>\<open>await_resume\<close> of a state: whether it leaves its loop.\<close>

definition stm_await_resume :: "state_machine \<Rightarrow> (string, sym) frames \<Rightarrow> fault + bool" where
  [simp]: "stm_await_resume m hp = bind_res (genval m hp) (\<lambda>s. Inr (s = SymTerm))"

text \<open>\<open>StateA\<close> and \<open>StateB\<close> from the head of their loop: print, await, and transfer to the next state. \<open>await_resume\<close> of
  the target tells it whether to leave its loop; a target that has not begun prints at once.\<close>

definition stm_turn ::
  "stm_state \<Rightarrow> state_machine \<Rightarrow> (string, sym) frames \<Rightarrow> fault + (state_machine \<times> (string, sym) frames \<times> stm_state option)" where
  "stm_turn q m hp =
     bind_res (gennext m hp) (\<lambda>(hp', _).
       bind_res (genval m hp') (\<lambda>s.
         let m1 = set_pc q AtAwait m; new_state = transmission q s in
         case stm_at m1 new_state of
           AtBegin \<Rightarrow> Inr (m1, hp', Some new_state)
         | AtAwait \<Rightarrow>
             bind_res (stm_await_resume m1 hp') (\<lambda>finish.
               if finish then Inr (set_pc new_state AtFinal m1, hp', None) else Inr (m1, hp', Some new_state))
         | AtFinal \<Rightarrow> Inl Abort))"

fun stm_loop ::
  "nat \<Rightarrow> stm_state \<Rightarrow> state_machine \<Rightarrow> (string, sym) frames \<Rightarrow> (fault + (state_machine \<times> (string, sym) frames \<times> stm_state list)) option" where
  "stm_loop 0 q m hp = None"
| "stm_loop (Suc n) q m hp =
     (case stm_turn q m hp of
        Inl e \<Rightarrow> Some (Inl e)
      | Inr (m', hp', None) \<Rightarrow> Some (Inr (m', hp', [q]))
      | Inr (m', hp', Some q') \<Rightarrow>
          map_option (\<lambda>r. bind_res r (\<lambda>(m2, hp2, qs). Inr (m2, hp2, q # qs))) (stm_loop n q' m' hp'))"

definition stm_run ::
  "nat \<Rightarrow> stm_state \<Rightarrow> state_machine \<Rightarrow> (string, sym) frames \<Rightarrow> (fault + (state_machine \<times> (string, sym) frames \<times> stm_state list)) option" where
  "stm_run n initial m hp = stm_loop n initial (m\<lparr>sm_current := initial\<rparr>) hp"

text \<open>The initial values of the members of \<open>StateMachine\<close>; its constructor is below.\<close>

definition new_machine :: "generator \<Rightarrow> state_machine" where
  "new_machine g = \<lparr>sm_current = StA, sm_states = (\<lambda>_. AtBegin), sm_gen = g\<rparr>"

text \<open>The class \<open>Resumable\<close> of the states owns a frame until \<open>handle\<close> gives it up; \<open>resume\<close> tests the handle, but asks a null handle whether it is
  done. \<open>add_state\<close> keeps the handle of a new state, which nothing destroys.\<close>

definition Resumable_handle :: "ptr \<Rightarrow> ptr \<times> ptr" where
  "Resumable_handle h = (h, None)"

definition destroy_stm_Resumable :: "ptr \<Rightarrow> ('s, 'v) frames \<Rightarrow> fault + ('s, 'v) frames" where
  "destroy_stm_Resumable h hp = (if h = None then Inr hp else handle_destroy h hp)"

definition Resumable_resume :: "('s, 'v) coro_body \<Rightarrow> ptr \<Rightarrow> ('s, 'v) frames \<Rightarrow> fault + (('s, 'v) frames \<times> bool)" where
  "Resumable_resume body h hp =
     bind_res (if h = None then Inr hp else handle_resume body h hp) (\<lambda>hp'. bind_res (handle_done h hp') (\<lambda>d. Inr (hp', \<not> d)))"

definition add_state :: "ptr \<Rightarrow> ('s, 'v) frames \<Rightarrow> fault + (ptr \<times> ('s, 'v) frames)" where
  "add_state h hp = (case Resumable_handle h of (kept, rest) \<Rightarrow> bind_res (destroy_stm_Resumable rest hp) (\<lambda>hp'. Inr (kept, hp')))"

lemma add_state_keeps_frame: "add_state h hp = Inr (h, hp)"
  by (simp add: add_state_def Resumable_handle_def destroy_stm_Resumable_def)

lemma released_resume_faults: "Resumable_resume body (snd (Resumable_handle h)) hp = Inl NullDeref"
  by (simp add: Resumable_resume_def Resumable_handle_def handle_done_def frame_at_def)

text \<open>The constructor takes the generator by value: its parameter is a copy, the member is a copy of the parameter, and the parameter is
  destroyed when the constructor returns.\<close>

definition construct_StateMachine :: "generator \<Rightarrow> (string, sym) frames \<Rightarrow> fault + (state_machine \<times> (string, sym) frames)" where
  "construct_StateMachine g hp =
     (let param = copy_Generator g; member = copy_Generator param in
      bind_res (destroy_Generator param hp) (\<lambda>hp'. Inr (new_machine member, hp')))"

definition stm_main :: "nat \<Rightarrow> string \<Rightarrow> (fault + stm_state) option" where
  "stm_main n seq =
     (case construct_StateMachine (Some 0) [0 \<mapsto> \<lparr>cf_at = Some seq, cf_value = SymTerm\<rparr>] of
        Inl e \<Rightarrow> Some (Inl e)
      | Inr (m, hp) \<Rightarrow> map_option (\<lambda>r. bind_res r (\<lambda>(m', _, _). Inr (stm_current m'))) (stm_run n StA m hp))"

text \<open>The automaton: the states visited on a word, the first one included.\<close>

fun visits :: "stm_state \<Rightarrow> sym list \<Rightarrow> stm_state list" where
  "visits q [] = [q]"
| "visits q (s # ss) = q # visits (transmission q s) ss"

lemma last_visits: "last (visits q ss) = fold (\<lambda>s q. transmission q s) ss q"
  by (induction ss arbitrary: q) (auto, metis visits.elims list.distinct(1))

definition accepted :: "string \<Rightarrow> sym list" where
  "accepted seq = takeWhile (\<lambda>s. s \<noteq> SymTerm) (map sym_of seq)"

lemma transmission_term [simp]: "transmission q SymTerm = q"
  by (cases q) simp_all

lemma gen_next:
  assumes "hp a = Some f" and "cf_at f = Some cs"
  shows "\<exists>hp' f'. move_next input_seq (Some a) hp = Inr (hp', True) \<and> current_value (Some a) hp' = Inr (case cs of [] \<Rightarrow> SymTerm | c # _ \<Rightarrow> sym_of c) \<and>
    hp' a = Some f' \<and> cf_at f' = Some (tl cs)"
  using assms by (cases cs) (simp_all add: move_next_def current_value_def handle_resume_def handle_done_def promise_value_def frame_at_def)

lemma stm_loop_visits:
  "hp a = Some f \<Longrightarrow> cf_at f = Some cs \<Longrightarrow> sm_gen m = Some a \<Longrightarrow> (\<forall>q. sm_states m q \<noteq> AtFinal) \<Longrightarrow> length cs < n \<Longrightarrow>
   \<exists>m' hp'. stm_loop n q m hp = Some (Inr (m', hp', visits q (accepted cs))) \<and> sm_current m' = sm_current m"
proof (induction cs arbitrary: n q m hp f)
  case Nil
  obtain n' where n: "n = Suc n'" using Nil.prems(5) by (cases n) auto
  obtain hp' f' where g: "move_next input_seq (Some a) hp = Inr (hp', True)" "current_value (Some a) hp' = Inr SymTerm"
    using gen_next [of hp a f "[]"] Nil.prems(1,2) by auto
  show ?case using Nil.prems g by (simp add: n stm_turn_def set_pc_def accepted_def Let_def)
next
  case (Cons c cs)
  obtain n' where n: "n = Suc n'" "length cs < n'" using Cons.prems(5) by (cases n) auto
  obtain hp' f' where g: "move_next input_seq (Some a) hp = Inr (hp', True)" "current_value (Some a) hp' = Inr (sym_of c)"
    "hp' a = Some f'" "cf_at f' = Some cs" using gen_next [of hp a f "c # cs"] Cons.prems(1,2) by auto
  let ?m = "set_pc q AtAwait m" and ?q = "transmission q (sym_of c)"
  have m: "sm_gen ?m = Some a" "\<forall>q. sm_states ?m q \<noteq> AtFinal" "sm_current ?m = sm_current m" using Cons.prems(3,4) by (auto simp: set_pc_def)
  show ?case
  proof (cases "sym_of c = SymTerm")
    case True
    then show ?thesis using Cons.prems(3) g(1,2) by (simp add: n(1) stm_turn_def set_pc_def accepted_def Let_def)
  next
    case False
    have "stm_turn q m hp = Inr (?m, hp', Some ?q)"
    proof (cases "sm_states ?m ?q")
      case AtFinal
      then show ?thesis using m(2) by blast
    qed (use False Cons.prems(3) g(1,2) m(1) in \<open>simp_all add: stm_turn_def Let_def del: sym_of.simps\<close>)
    moreover obtain m' hp2 where "stm_loop n' ?q ?m hp' = Some (Inr (m', hp2, visits ?q (accepted cs)))" "sm_current m' = sm_current ?m"
      using Cons.IH [of hp' f' ?m n' ?q] g(3,4) m(1,2) n(2) by blast
    ultimately show ?thesis using m(3) False by (simp add: n(1) accepted_def del: sym_of.simps)
  qed
qed

subsection \<open>The messages\<close>

text \<open>\<open>foo\<close> of \<^verbatim>\<open>example_resumable.cpp\<close> over \<open>k\<close> messages; \<open>Resumable\<close> is moved, never copied, and \<open>resume\<close> is that of \<open>Generator\<close>.\<close>

datatype foo_point = FooBegin | FooAt size_t

fun foo :: "nat \<Rightarrow> (foo_point, size_t) coro_body" where
  "foo k FooBegin = Inr (Some (FooAt 1, 0))"
| "foo k (FooAt num) = (if unat num = k then Inr None else Inr (Some (FooAt (num + 1), num)))"

definition GetCurrentMessage :: "string list \<Rightarrow> ptr \<Rightarrow> (foo_point, size_t) frames \<Rightarrow> fault + string" where
  "GetCurrentMessage messages h hp =
     bind_res (promise_value h hp) (\<lambda>i. if unat i < length messages then Inr (messages ! unat i) else Inl UseAfterFree)"

text \<open>The moving constructor returns the new object and what is left of the old one.\<close>

definition move_Resumable :: "ptr \<Rightarrow> ptr \<times> ptr" where
  "move_Resumable h = (h, None)"

definition destroy_Resumable :: "ptr \<Rightarrow> ('s, 'v) frames \<Rightarrow> fault + ('s, 'v) frames" where
  "destroy_Resumable h hp = (if h = None then Inr hp else handle_destroy h hp)"

fun messages_loop ::
  "string list \<Rightarrow> nat \<Rightarrow> ptr \<Rightarrow> (foo_point, size_t) frames \<Rightarrow> (fault + ((foo_point, size_t) frames \<times> string list)) option" where
  "messages_loop messages 0 h hp = None"
| "messages_loop messages (Suc n) h hp =
     (case Generator_resume (foo (length messages)) h hp of
        Inl e \<Rightarrow> Some (Inl e)
      | Inr (hp', False) \<Rightarrow> Some (Inr (hp', []))
      | Inr (hp', True) \<Rightarrow>
          (case GetCurrentMessage messages h hp' of
             Inl e \<Rightarrow> Some (Inl e)
           | Inr x \<Rightarrow> map_option (\<lambda>r. bind_res r (\<lambda>(hp'', xs). Inr (hp'', x # xs))) (messages_loop messages n h hp')))"

text \<open>\<open>main\<close>: the coroutine at address \<open>0\<close>, the loop, and the destructor; the frames that are left and the printed messages.\<close>

definition messages_main :: "string list \<Rightarrow> nat \<Rightarrow> (fault + ((foo_point, size_t) frames \<times> string list)) option" where
  "messages_main messages n =
     map_option (\<lambda>r. bind_res r (\<lambda>(hp, xs). bind_res (destroy_Resumable (Some 0) hp) (\<lambda>hp'. Inr (hp', xs))))
       (messages_loop messages n (Some 0) [0 \<mapsto> \<lparr>cf_at = Some FooBegin, cf_value = 0\<rparr>])"

lemma messages_loop_rest:
  "hp a = Some f \<Longrightarrow> cf_at f = Some (FooAt i) \<Longrightarrow> 0 < unat i \<Longrightarrow> unat i + m = length messages \<Longrightarrow> int (length messages) < 2 ^ 64 \<Longrightarrow> m < n \<Longrightarrow>
   \<exists>g. messages_loop messages n (Some a) hp = Some (Inr (hp(a \<mapsto> g), drop (unat i) messages))"
proof (induction m arbitrary: n hp f i)
  case 0
  then obtain n' where "n = Suc n'" by (cases n) auto
  with 0 show ?case
    by (intro exI [of _ "f\<lparr>cf_at := None\<rparr>"]) (simp add: Generator_resume_def handle_done_def handle_resume_def frame_at_def fun_upd_def)
next
  case (Suc m)
  then obtain n' where n: "n = Suc n'" "m < n'" by (cases n) auto
  have lt: "unat i < length messages" "unat i \<noteq> length messages" using Suc.prems(4) by auto
  have s: "unat (i + 1) = unat i + 1" using Suc.prems(4,5) by (intro unat_size_t_inc) simp
  let ?f = "f\<lparr>cf_at := Some (FooAt (i + 1)), cf_value := i\<rparr>"
  have g: "Generator_resume (foo (length messages)) (Some a) hp = Inr (hp(a \<mapsto> ?f), True)"
    using Suc.prems(1,2) lt by (simp add: Generator_resume_def handle_done_def handle_resume_def frame_at_def)
  have v: "GetCurrentMessage messages (Some a) (hp(a \<mapsto> ?f)) = Inr (messages ! unat i)"
    using lt(1) by (simp add: GetCurrentMessage_def promise_value_def frame_at_def)
  have "\<exists>g. messages_loop messages n' (Some a) (hp(a \<mapsto> ?f)) = Some (Inr ((hp(a \<mapsto> ?f))(a \<mapsto> g), drop (unat (i + 1)) messages))"
    by (rule Suc.IH [of _ ?f]) (use Suc.prems(4,5) n(2) s in simp_all)
  then obtain x where "messages_loop messages n' (Some a) (hp(a \<mapsto> ?f)) = Some (Inr (hp(a \<mapsto> x), drop (unat (i + 1)) messages))"
    unfolding fun_upd_upd by blast
  then have "messages_loop messages n (Some a) hp = Some (Inr (hp(a \<mapsto> x), drop (unat i) messages))"
    using g v s lt(1) by (simp add: n(1) Cons_nth_drop_Suc)
  then show ?case by blast
qed

subsection \<open>The event\<close>

text \<open>A consumer is a coroutine with the number of \<open>co_await\<close> expressions it has still to reach; a waiter is a copy of the awaiter, with the
  coroutine and what is left of it. \<open>Step c\<close> is a line printed by \<open>c\<close>.\<close>

record evt =
  evt_is_set :: bool
  awaiters :: "(addr \<times> nat) list"

datatype evt_event = Step addr

definition reset :: "evt \<Rightarrow> evt" where
  "reset e = e\<lparr>evt_is_set := False\<rparr>"

definition push_awaiter :: "addr \<times> nat \<Rightarrow> evt \<Rightarrow> evt" where
  "push_awaiter w e = e\<lparr>awaiters := awaiters e @ [w]\<rparr>"

text \<open>A coroutine prints and goes on to its next \<open>co_await\<close>: \<open>await_ready\<close> is the flag, \<open>await_suspend\<close> parks, \<open>await_resume\<close> resets the flag.\<close>

fun goes :: "addr \<Rightarrow> nat \<Rightarrow> evt \<Rightarrow> evt \<times> evt_event list" where
  "goes c 0 e = (e, [Step c])"
| "goes c (Suc n) e =
     (if evt_is_set e then (case goes c n (reset e) of (e', es) \<Rightarrow> (e', Step c # es))
      else (push_awaiter (c, n) e, [Step c]))"

fun resume_all :: "(addr \<times> nat) list \<Rightarrow> evt \<Rightarrow> evt \<times> evt_event list" where
  "resume_all [] e = (e, [])"
| "resume_all ((c, n) # ws) e =
     (case goes c n (reset e) of (e1, es) \<Rightarrow> (case resume_all ws e1 of (e2, es') \<Rightarrow> (e2, es @ es')))"

definition evt_set :: "evt \<Rightarrow> evt \<times> evt_event list" where
  "evt_set e = resume_all (awaiters e) (e\<lparr>evt_is_set := True, awaiters := []\<rparr>)"

text \<open>The consumers and \<open>main\<close> of \<^verbatim>\<open>example_subscription.cpp\<close>; the second call of \<open>consumer1\<close> is another coroutine.\<close>

definition consumer1 :: "addr \<Rightarrow> evt \<Rightarrow> evt \<times> evt_event list" where
  "consumer1 c e = goes c 1 e"

definition consumer2 :: "addr \<Rightarrow> evt \<Rightarrow> evt \<times> evt_event list" where
  "consumer2 c e = goes c 2 e"

definition subscription_main :: "evt \<times> evt_event list" where
  "subscription_main =
     fold (\<lambda>f (e, es). case f e of (e', es') \<Rightarrow> (e', es @ es'))
       [consumer1 1, consumer2 2, evt_set, consumer1 3, evt_set] (\<lparr>evt_is_set = False, awaiters = []\<rparr>, [])"

text \<open>The awaiters that are left with another \<open>co_await\<close>.\<close>

fun await_again :: "(addr \<times> nat) list \<Rightarrow> (addr \<times> nat) list" where
  "await_again [] = []"
| "await_again ((c, 0) # ws) = await_again ws"
| "await_again ((c, Suc n) # ws) = (c, n) # await_again ws"

lemma resume_all_once:
  "ws \<noteq> [] \<Longrightarrow> resume_all ws e = (\<lparr>evt_is_set = False, awaiters = awaiters e @ await_again ws\<rparr>, map (Step \<circ> fst) ws)"
proof (induction ws arbitrary: e rule: await_again.induct)
  case (2 c ws)
  then show ?case by (cases "ws = []") (simp_all add: reset_def)
next
  case (3 c n ws)
  then show ?case by (cases "ws = []") (simp_all add: reset_def push_awaiter_def)
qed simp

subsection \<open>A coroutine that is never suspended\<close>

text \<open>\<open>hello\<close> runs to its end inside the call and, as \<open>final_suspend\<close> does not suspend, its frame is destroyed; the returned object
  keeps the handle and its destructor asks the frame whether it is done.\<close>

definition hello :: "addr \<Rightarrow> (unit, unit) frames \<Rightarrow> fault + ((unit, unit) frames \<times> ptr)" where
  "hello a hp = bind_res (coro_call resumable_no_wait_promise (\<lambda>_. Inr None) () () a hp) (\<lambda>hp'. Inr (hp', Some a))"

text \<open>The moving constructor, which the program does not need: the new object and what is left of the old one.\<close>

definition move_resumable_no_wait :: "ptr \<Rightarrow> ptr \<times> ptr" where
  "move_resumable_no_wait h = (h, None)"

definition destroy_resumable_no_wait :: "ptr \<Rightarrow> (unit, unit) frames \<Rightarrow> fault + (unit, unit) frames" where
  "destroy_resumable_no_wait h hp =
     bind_res (handle_done h hp) (\<lambda>_.
       if h = None then Inr hp else bind_res (handle_done h hp) (\<lambda>d. if d then handle_destroy h hp else Inr hp))"

definition simple_main :: "addr \<Rightarrow> (unit, unit) frames \<Rightarrow> fault + (unit, unit) frames" where
  "simple_main a hp = bind_res (hello a hp) (\<lambda>(hp', h). destroy_resumable_no_wait h hp')"

subsection \<open>Properties\<close>

text \<open>
  The states of the machine transfer control as the automaton of its transition functions: with the members of \<open>StateMachine\<close> over a live generator for any
  string (which the constructor never leaves behind, \<open>examples_use_destroyed_frames\<close>), \<open>run\<close> ends after at most one
  transfer for each character and one more, and the states print themselves in the order in which the automaton visits them on the symbols before the
  first terminator, the last being the state the automaton ends in. \<open>current\<close>, however, still answers with the state that \<open>run\<close> was given.\<close>

lemma stm_is_automaton:
  assumes "hp a = Some \<lparr>cf_at = Some seq, cf_value = v\<rparr>" and "length seq < n"
  shows "\<exists>m' hp' qs. stm_run n q (new_machine (Some a)) hp = Some (Inr (m', hp', qs)) \<and> qs = visits q (accepted seq) \<and>
    last qs = fold (\<lambda>s p. transmission p s) (accepted seq) q \<and> sm_current m' = q"
  using stm_loop_visits [of hp a "\<lparr>cf_at = Some seq, cf_value = v\<rparr>" seq "(new_machine (Some a))\<lparr>sm_current := q\<rparr>" n q] assms
  by (auto simp: stm_run_def new_machine_def last_visits)

text \<open>
  The programs that use a destroyed frame. \<open>Generator\<close> has a destructor but no move or deleted copy, so the parameter of the constructor of
  \<open>StateMachine\<close> destroys the frame that the member refers to: \<open>main\<close> of \<^verbatim>\<open>example_stm.cpp\<close> resumes a destroyed coroutine whatever the input
  is. And \<open>hello\<close> of \<^verbatim>\<open>example_simple_func.cpp\<close> destroys its own frame, of which the destructor of the returned object then asks whether it is
  done.\<close>

lemma examples_use_destroyed_frames:
  "stm_main (Suc n) seq = Some (Inl UseAfterFree) \<and> simple_main a hp = Inl UseAfterFree"
  by (simp add: stm_main_def construct_StateMachine_def copy_Generator_def destroy_Generator_def handle_destroy_def frame_at_def new_machine_def
      stm_run_def stm_turn_def move_next_def handle_resume_def simple_main_def hello_def coro_call_def coro_resume_def promise_types
      destroy_resumable_no_wait_def handle_done_def Let_def)

text \<open>
  \<open>evt_awaiter_t::set\<close> resumes every coroutine that awaits the event, once and in the order in which they began to wait. If there are any, the event
  is not set afterwards (the first to be resumed resets it), and exactly those with another \<open>co_await\<close> ahead wait again, in the same order; none
  of them is resumed by the same call. If there are none, the event stays set.\<close>

lemma event_set_resumes_once:
  "evt_set e = (if awaiters e = [] then (e\<lparr>evt_is_set := True\<rparr>, [])
     else (\<lparr>evt_is_set = False, awaiters = await_again (awaiters e)\<rparr>, map (Step \<circ> fst) (awaiters e)))"
  by (cases "awaiters e = []") (simp_all add: evt_set_def resume_all_once)

text \<open>The second \<open>set\<close> of \<open>main\<close> resumes the consumer that was already waiting first.\<close>

lemma subscription_main_log: "subscription_main = (\<lparr>evt_is_set = False, awaiters = []\<rparr>, map Step [1, 2, 1, 2, 3, 2, 3])"
  by (simp add: subscription_main_def consumer1_def consumer2_def evt_set_def numeral_2_eq_2 reset_def push_awaiter_def)

text \<open>\<open>natural_nums\<close> produces the numbers from zero, as long as they are values of \<open>int\<close>; \<open>main\<close> frees the frame once.\<close>

lemma nums_main_counts:
  assumes "int n \<le> 2 ^ 31"
  shows "nums_main n = Inr (map int [0..<n])"
proof (cases n)
  case 0
  then show ?thesis by (simp add: nums_main_def destroy_Generator_def handle_destroy_def frame_at_def)
next
  case (Suc m)
  have "yields natural_nums m (NumsAt 0) = Inr (map (\<lambda>i. 0 + 1 + int i) [0..<m])" by (rule natural_nums_yields) (use assms Suc in simp)
  moreover have "map int [0..<Suc m] = 0 # map (\<lambda>i. 0 + 1 + int i) [0..<m]"
    by (rule nth_equalityI) (auto simp: nth_Cons' simp del: upt_Suc)
  ultimately have "yields natural_nums n NumsBegin = Inr (map int [0..<n])" by (simp add: Suc del: upt_Suc)
  then obtain hp f where "next_values natural_nums (Some 0) n [0 \<mapsto> \<lparr>cf_at = Some NumsBegin, cf_value = 0\<rparr>] = Inr (hp, map int [0..<n])" "hp 0 = Some f"
    using next_values_yields [of "[0 \<mapsto> \<lparr>cf_at = Some NumsBegin, cf_value = 0\<rparr>]" 0 "\<lparr>cf_at = Some NumsBegin, cf_value = 0\<rparr>" NumsBegin natural_nums n] by auto
  then show ?thesis by (simp add: nums_main_def destroy_Generator_def handle_destroy_def frame_at_def)
qed

text \<open>
  The loop of \<^verbatim>\<open>example_resumable.cpp\<close> prints every message once, in order, and ends one resumption after the last one, and the frame is freed, for every list of
  messages but the empty one: without messages \<open>foo\<close> yields an index that does not exist, and reading it is undefined.\<close>

lemma messages_printed_once:
  assumes "int (length messages) < 2 ^ 64" and "length messages < n"
  shows "messages_main messages n = (if messages = [] then Some (Inl UseAfterFree) else Some (Inr (Map.empty, messages)))"
proof -
  obtain n' where n: "n = Suc n'" using assms(2) by (cases n) auto
  let ?hp = "[0 \<mapsto> \<lparr>cf_at = Some FooBegin, cf_value = 0\<rparr>]" and ?f = "\<lparr>cf_at = Some (FooAt 1), cf_value = 0\<rparr>"
  have g: "Generator_resume (foo (length messages)) (Some 0) ?hp = Inr (?hp(0 \<mapsto> ?f), True)"
    by (simp add: Generator_resume_def handle_done_def handle_resume_def frame_at_def)
  show ?thesis
  proof (cases messages)
    case Nil
    then show ?thesis using g by (simp add: n messages_main_def GetCurrentMessage_def promise_value_def frame_at_def)
  next
    case (Cons x xs)
    have "\<exists>f'. messages_loop messages n' (Some 0) (?hp(0 \<mapsto> ?f)) = Some (Inr ((?hp(0 \<mapsto> ?f))(0 \<mapsto> f'), drop (unat (1 :: size_t)) messages))"
      by (rule messages_loop_rest [of _ _ ?f _ "length xs"]) (use assms Cons n in simp_all)
    then show ?thesis using g Cons
      by (auto simp: n messages_main_def GetCurrentMessage_def promise_value_def frame_at_def destroy_Resumable_def handle_destroy_def)
  qed
qed

end
