(* ===== verification/Lock_Freedom.thy ===== *)
theory Lock_Freedom
  imports Prelude
begin

text \<open>
  System-wide progress of a lock-free component, by a potential.

  A thread is charged the number of steps its current attempt still takes if nobody interferes (\<open>cost\<close>). An attempt
  fails only because another thread has changed the shared state, and such a change is paid for from an account that no
  failed attempt fills: what an operation may still do to the shared state (\<open>credit\<close>), and what others may still do on its behalf
  (\<open>lag\<close>). The locale asks for one law about single steps. It gives a bound, in the number of threads only, on the steps
  they take in any interleaving before one of their operations returns.
\<close>

text \<open>The charge of a thread that has \<open>n\<close> steps to go, and \<open>restart\<close> more when what it has read is out of date.\<close>

definition when_current :: "bool \<Rightarrow> nat \<Rightarrow> nat \<Rightarrow> nat" where
  "when_current b restart n = (if b then n else restart + n)"

lemma sum_one_less:
  fixes f :: "'a \<Rightarrow> nat"
  assumes "finite A" and "a \<in> A" and "f a < g a" and "\<And>x. x \<noteq> a \<Longrightarrow> f x \<le> g x"
  shows "sum f A < sum g A"
proof (rule sum_strict_mono_ex1)
  show "\<forall>x\<in>A. f x \<le> g x" using assms(3,4) by (metis less_imp_le)
qed (use assms in auto)

lemma sum_one_add:
  fixes f :: "'a \<Rightarrow> nat"
  assumes "finite A" and "a \<in> A" and "\<And>x. x \<noteq> a \<Longrightarrow> f x = g x"
  shows "sum f A + g a = sum g A + f a"
proof -
  have "sum f (A - {a}) = sum g (A - {a})" using assms(3) by (intro sum.cong) auto
  then show ?thesis using assms(1,2) by (simp add: sum.remove)
qed

lemma sched_replicate: "sched step cs s = Some (s, es) \<Longrightarrow> sched step (concat (replicate n cs)) s = Some (s, concat (replicate n es))"
  by (induction n) (simp_all add: sched_append)

locale lock_free =
  fixes step :: "('c, 's, 'e) stepper"
    and inv :: "'s \<Rightarrow> bool"
    and acts :: "'c \<Rightarrow> tid option"
    and returns :: "'e \<Rightarrow> bool"
    and cost :: "'s \<Rightarrow> tid \<Rightarrow> nat"
    and credit :: "'s \<Rightarrow> tid \<Rightarrow> nat"
    and lag :: "'s \<Rightarrow> nat"
    and cost_max credit_max lag_max :: nat
  assumes inv_keep: "inv s \<Longrightarrow> step c s = Some (s', e) \<Longrightarrow> inv s'"
    and cost_le: "cost s t \<le> cost_max"
    and credit_le: "credit s t \<le> credit_max"
    and lag_le: "lag s \<le> lag_max"
    and credit_other: "inv s \<Longrightarrow> acts c = Some t \<Longrightarrow> step c s = Some (s', e) \<Longrightarrow> u \<noteq> t \<Longrightarrow> credit s' u = credit s u"
    and advance: "inv s \<Longrightarrow> acts c = Some t \<Longrightarrow> step c s = Some (s', e) \<Longrightarrow> \<forall>x\<in>set e. \<not> returns x \<Longrightarrow>
      credit s' t + lag s' < credit s t + lag s \<or>
      credit s' t + lag s' \<le> credit s t + lag s \<and> cost s' t < cost s t \<and> (\<forall>u. u \<noteq> t \<longrightarrow> cost s' u \<le> cost s u)"
begin

definition potential :: "tid set \<Rightarrow> 's \<Rightarrow> nat" where
  "potential T s = sum (cost s) T + (card T * cost_max + 1) * (sum (credit s) T + lag s)"

lemma sum_cost_le: "sum (cost s) T \<le> card T * cost_max"
  using sum_bounded_above [of T "cost s" cost_max] cost_le by simp

lemma potential_le: "potential T s \<le> (card T * cost_max + 1) * (card T * credit_max + lag_max + 1)"
proof -
  have "sum (credit s) T \<le> card T * credit_max"
    using sum_bounded_above [of T "credit s" credit_max] credit_le by simp
  then have "(card T * cost_max + 1) * (sum (credit s) T + lag s) \<le> (card T * cost_max + 1) * (card T * credit_max + lag_max)"
    using lag_le [of s] by (intro mult_le_mono2) linarith
  then show ?thesis using sum_cost_le [of s T] by (simp add: potential_def)
qed

lemma potential_decreases:
  assumes "finite T" and "t \<in> T" and "inv s" and a: "acts c = Some t" "step c s = Some (s', e)" "\<forall>x\<in>set e. \<not> returns x"
  shows "potential T s' < potential T s"
proof -
  let ?k = "card T * cost_max + 1" and ?m = "\<lambda>s. sum (credit s) T + lag s"
  have credits: "sum (credit s') T + credit s t = sum (credit s) T + credit s' t"
    using assms(1,2) credit_other [OF assms(3) a(1,2)] by (intro sum_one_add) auto
  from advance [OF assms(3) a] consider (paid) "credit s' t + lag s' < credit s t + lag s"
    | (quiet) "credit s' t + lag s' \<le> credit s t + lag s" "cost s' t < cost s t" "\<And>u. u \<noteq> t \<Longrightarrow> cost s' u \<le> cost s u"
    by blast
  then show ?thesis
  proof cases
    case paid
    with credits have "Suc (?m s') \<le> ?m s" by linarith
    from mult_le_mono2 [OF this, of ?k] have "?k + ?k * ?m s' \<le> ?k * ?m s" by simp
    with sum_cost_le [of s' T] show ?thesis by (simp add: potential_def)
  next
    case quiet
    with credits have "?m s' \<le> ?m s" by linarith
    then have "?k * ?m s' \<le> ?k * ?m s" by (intro mult_le_mono2)
    with sum_one_less [OF assms(1,2), of "cost s'" "cost s"] quiet(2,3) show ?thesis by (simp add: potential_def)
  qed
qed

lemma steps_le_potential:
  assumes "finite T" and "inv s" and "sched step cs s = Some (s', es)" and "\<forall>c\<in>set cs. \<exists>t\<in>T. acts c = Some t"
    and "\<forall>x\<in>set es. \<not> returns x"
  shows "length cs \<le> potential T s"
  using assms(2-)
proof (induction cs arbitrary: s es)
  case Nil
  show ?case by simp
next
  case (Cons c cs)
  from Cons.prems(2) obtain s1 e es1 where s1: "step c s = Some (s1, e)" "sched step cs s1 = Some (s', es1)" "es = e @ es1"
    by (auto split: option.splits prod.splits)
  from Cons.prems(3) obtain t where "t \<in> T" "acts c = Some t" by auto
  with potential_decreases [OF assms(1) _ Cons.prems(1) _ s1(1)] Cons.prems(4) s1(3)
  have "potential T s1 < potential T s" by auto
  with Cons.IH [OF inv_keep [OF Cons.prems(1) s1(1)] s1(2)] Cons.prems(3,4) s1(3) show ?case by auto
qed

text \<open>More steps than the bound, and an operation has returned.\<close>

lemma some_operation_returns:
  assumes "finite T" and "inv s" and "sched step cs s = Some (s', es)" and "\<forall>c\<in>set cs. \<exists>t\<in>T. acts c = Some t"
    and "(card T * cost_max + 1) * (card T * credit_max + lag_max + 1) < length cs"
  shows "\<exists>x\<in>set es. returns x"
  using steps_le_potential [OF assms(1-4)] potential_le [of T s] assms(5) by (meson leD le_trans)

end

end
