(* ===== verification/Simple_MS_Progress.thy ===== *)
theory Simple_MS_Progress
  imports Simple_MS_Queue Lock_Freedom
begin

text \<open>
  Lock-freedom of \<^verbatim>\<open>src/components/lock_free/simple_ms_queue.h\<close>.

  The shared state a thread looks at is \<open>head\<close>, \<open>tail\<close> and the \<open>next\<close> pointers. The charge of a thread (\<open>attempt_cost\<close>) is small when the
  pointers it has read are current. A step changes the shared state by linking a node, by moving \<open>head\<close> or
  by moving \<open>tail\<close> to the last node; a push links once, a pop moves \<open>head\<close> once, and \<open>tail\<close> is never more than one node behind
  (\<open>tail_close\<close>), so there is at most one such move after each link. Weak compare-exchanges are taken not to fail spuriously. The loop
  that pushes a retired node is one step: only the collector, which has ended, takes nodes from the stack of another thread.
\<close>

subsection \<open>What a thread still has to do\<close>

definition sq_next :: "'v simple_queue \<Rightarrow> ptr \<Rightarrow> ptr" where
  "sq_next s p = (case p of None \<Rightarrow> None | Some a \<Rightarrow> nxt (sq_heap s a))"

fun attempt_cost :: "'v simple_queue \<Rightarrow> 'v simple_pc \<Rightarrow> nat" where
  "attempt_cost s (PushLoad n) = 4"
| "attempt_cost s (PushCheck n ot) = when_current (sq_tail s = ot) 4 3"
| "attempt_cost s (PushHelpLoad n ot) = when_current (sq_tail s = ot) 4 2"
| "attempt_cost s (PushHelp n ot nx) = when_current (sq_tail s = ot) 4 1"
| "attempt_cost s (PushLink n ot) = when_current (sq_next s ot = None) 4 1"
| "attempt_cost s (PushSwing n ot) = 1"
| "attempt_cost s PopLoad = 7"
| "attempt_cost s (PopProtect b) = when_current (sq_head s = b) 2 6"
| "attempt_cost s (PopValidate b) = when_current (sq_head s = b) 2 5"
| "attempt_cost s (PopNext h) = when_current (sq_head s = h) 7 4"
| "attempt_cost s PopReleaseEmpty = 1"
| "attempt_cost s (PopTail h) = when_current (sq_head s = h) 7 3"
| "attempt_cost s (PopHelpLoad ot) = when_current (sq_tail s = ot) 7 2"
| "attempt_cost s (PopHelp ot nx) = when_current (sq_tail s = ot) 7 1"
| "attempt_cost s (PopHeadNext h) = when_current (sq_head s = h) 7 2"
| "attempt_cost s (PopCas h nx) = when_current (sq_head s = h) 7 1"
| "attempt_cost s (PopReadNext h) = 5"
| "attempt_cost s (PopReadValue h nx) = 4"
| "attempt_cost s (PopRelease h v) = 3"
| "attempt_cost s (PopRetire h v) = 2"
| "attempt_cost s (PopRetireCount v) = 1"
| "attempt_cost s _ = 0"

text \<open>Three for an idle thread, two for an operation that has not taken effect, nothing afterwards.\<close>

fun op_credit :: "'v simple_pc \<Rightarrow> nat" where
  "op_credit QIdle = 3"
| "op_credit PopLoad = 2"
| "op_credit (PopProtect b) = 2"
| "op_credit (PopValidate b) = 2"
| "op_credit (PopNext h) = 2"
| "op_credit (PopTail h) = 2"
| "op_credit (PopHelpLoad ot) = 2"
| "op_credit (PopHelp ot nx) = 2"
| "op_credit (PopHeadNext h) = 2"
| "op_credit (PopCas h nx) = 2"
| "op_credit pc = (if owned pc = None then 0 else 2)"

definition tail_lag :: "'v simple_queue \<Rightarrow> nat" where
  "tail_lag s = (if sq_next s (sq_tail s) = None then 0 else 1)"

definition tail_close :: "'v simple_queue \<Rightarrow> bool" where
  "tail_close s \<longleftrightarrow> (sq_next s (sq_tail s) \<noteq> None \<longrightarrow> sq_next s (sq_next s (sq_tail s)) = None)"

lemmas view_defs = sq_next_def nxt_def set_pc_def cas_tail_def when_current_def

lemma sq_next_upd [simp]:
  "sq_next (s\<lparr>sq_hz := h\<rparr>) = sq_next s" "sq_next (s\<lparr>sq_pc := pcs\<rparr>) = sq_next s"
  "sq_next (s\<lparr>sq_head := p\<rparr>) = sq_next s" "sq_next (s\<lparr>sq_tail := p\<rparr>) = sq_next s"
  by (simp_all add: fun_eq_iff sq_next_def split: option.split)

lemma sq_next_at:
  assumes "linked ns (sq_heap s)" and "node_at ns i p"
  shows "sq_next s p = (if Suc i < length ns then Some (ns ! Suc i) else None)"
  using assms by (auto simp: linked_def node_at_def sq_next_def)

lemma follows_sq_next: "linked ns (sq_heap s) \<Longrightarrow> follows ns k p nx \<Longrightarrow> sq_next s p = nx \<and> nx \<noteq> None"
  by (auto simp: follows_def sq_next_at) (auto simp: node_at_def)

lemma on_node_ok:
  assumes "linked ns (sq_heap s)" and "seen ns k p"
  obtains a nd where "p = Some a" "sq_heap s a = Some nd" "node_next nd = sq_next s p" "\<And>f. on_node t p f s = f a nd"
proof -
  obtain i where i: "node_at ns i p" using assms(2) by (auto simp: seen_def)
  obtain nd where "deref s p = Inr (ns ! i, nd)" "sq_heap s (ns ! i) = Some nd" using deref_node [OF assms(1) i] by metis
  with i show ?thesis by (intro that [of "ns ! i" nd]) (auto simp: node_at_def on_node_def sq_next_def nxt_def)
qed

subsection \<open>What a step does to the shared state\<close>

text \<open>Nothing, and the thread gets ahead; or \<open>tail\<close> moves on; or a node is linked at \<open>tail\<close>; or \<open>head\<close> moves.\<close>

definition quiet :: "bool \<Rightarrow> 'v simple_queue \<Rightarrow> 'v simple_queue \<Rightarrow> 'v simple_pc \<Rightarrow> 'v simple_pc \<Rightarrow> bool" where
  "quiet sp s s' pc p \<longleftrightarrow> sq_head s' = sq_head s \<and> sq_tail s' = sq_tail s \<and> sq_next s' = sq_next s \<and>
     (\<not> sp \<longrightarrow> attempt_cost s p < attempt_cost s pc) \<and> op_credit p \<le> op_credit pc"

definition swings :: "'v simple_queue \<Rightarrow> 'v simple_queue \<Rightarrow> 'v simple_pc \<Rightarrow> 'v simple_pc \<Rightarrow> bool" where
  "swings s s' pc p \<longleftrightarrow> sq_next s (sq_tail s) \<noteq> None \<and> sq_tail s' = sq_next s (sq_tail s) \<and> sq_next s' = sq_next s \<and> op_credit p \<le> op_credit pc"

definition links_node :: "'v simple_queue \<Rightarrow> 'v simple_queue \<Rightarrow> 'v simple_pc \<Rightarrow> 'v simple_pc \<Rightarrow> bool" where
  "links_node s s' pc p \<longleftrightarrow> (\<exists>n. sq_next s (Some n) = None \<and> Some n \<noteq> sq_tail s \<and> sq_tail s' = sq_tail s \<and>
     sq_next s' = (sq_next s)(sq_tail s := Some n)) \<and> op_credit p = 0 \<and> op_credit pc = 2"

definition pops :: "'v simple_queue \<Rightarrow> 'v simple_queue \<Rightarrow> 'v simple_pc \<Rightarrow> 'v simple_pc \<Rightarrow> bool" where
  "pops s s' pc p \<longleftrightarrow> sq_tail s' = sq_tail s \<and> sq_next s' = sq_next s \<and> op_credit p = 0 \<and> op_credit pc = 2"

definition outcome :: "tid \<Rightarrow> bool \<Rightarrow> 'v simple_queue \<Rightarrow> 'v simple_queue \<Rightarrow> bool" where
  "outcome t sp s s' \<longleftrightarrow> (\<exists>p. sq_pc s' = (sq_pc s)(t := p) \<and>
     (quiet sp s s' (sq_pc s t) p \<or> swings s s' (sq_pc s t) p \<or> links_node s s' (sq_pc s t) p \<or> pops s s' (sq_pc s t) p))"

lemma quiet_outcome:
  "\<not> sp \<longrightarrow> attempt_cost s p < attempt_cost s (sq_pc s t) \<Longrightarrow> op_credit p \<le> op_credit (sq_pc s t) \<Longrightarrow> outcome t sp s (set_pc t p s)"
  unfolding outcome_def by (intro exI [of _ p]) (simp add: quiet_def set_pc_def)

lemma hz_outcome:
  assumes "hz_move c s = Some s1" and "hz_collector (sq_hz s) = CollectDone"
    and "attempt_cost s p < attempt_cost s (sq_pc s t)" "op_credit p \<le> op_credit (sq_pc s t)"
  shows "outcome t sp s (set_pc t p s1)"
proof -
  obtain h where "s1 = s\<lparr>sq_hz := h\<rparr>" using hz_move_local [OF assms(1,2)] by blast
  with assms(3,4) show ?thesis unfolding outcome_def by (intro exI [of _ p]) (simp add: quiet_def set_pc_def)
qed

lemma cas_outcome:
  assumes "sq_next s ot = nx" and "nx \<noteq> None" and "\<not> sp \<Longrightarrow> sq_tail s \<noteq> ot \<Longrightarrow> attempt_cost s p < attempt_cost s (sq_pc s t)"
    and "op_credit p \<le> op_credit (sq_pc s t)"
  shows "outcome t sp s (set_pc t p (cas_tail sp ot nx s))"
proof (cases "\<not> sp \<and> sq_tail s = ot")
  case True
  with assms have "swings s (set_pc t p (cas_tail sp ot nx s)) (sq_pc s t) p"
    by (auto simp: swings_def cas_tail_def set_pc_def)
  with True show ?thesis unfolding outcome_def by (intro exI [of _ p]) (simp add: cas_tail_def set_pc_def)
next
  case False
  with assms quiet_outcome [of sp s p t] show ?thesis by (auto simp: cas_tail_def)
qed

lemma push_outcome:
  assumes inv: "sq_inv ns hi ti q st s" and go: "simple_go t sp s = Some s'"
    and pc: "owned (sq_pc s t) \<noteq> None \<or> (\<exists>n ot. sq_pc s t = PushSwing n ot)"
  shows "outcome t sp s s'"
proof -
  note D = sq_invD [OF inv]
  note ok = D(8) [of t]
  show ?thesis
  proof (cases "sq_pc s t")
    case (PushLoad n)
    with go show ?thesis by (auto simp: simple_go_def Push_load_def when_current_def intro!: quiet_outcome)
  next
    case (PushCheck n ot)
    with ok have "seen ns ti ot" by simp
    from on_node_ok [OF D(2) this, of t] obtain a nd where nd: "node_next nd = sq_next s ot" "\<And>f. on_node t ot f s = f a nd" by blast
    with go PushCheck show ?thesis
      by (auto simp: simple_go_def Push_check_def when_current_def intro!: quiet_outcome)
  next
    case (PushHelpLoad n ot)
    with ok have "seen ns ti ot" by (auto simp: seen_next_def seen_def)
    from on_node_ok [OF D(2) this, of t] obtain a nd where nd: "node_next nd = sq_next s ot" "\<And>f. on_node t ot f s = f a nd" by blast
    with go PushHelpLoad show ?thesis
      by (auto simp: simple_go_def Push_help_load_def when_current_def intro!: quiet_outcome)
  next
    case (PushHelp n ot nx)
    with ok follows_sq_next [OF D(2), of ti ot nx] go show ?thesis
      by (auto simp: simple_go_def Push_help_def when_current_def intro!: cas_outcome)
  next
    case (PushLink n ot)
    with ok obtain i v where i: "i \<le> ti" "node_at ns i ot" and fresh: "fresh_node ns (sq_heap s) n v" by (auto simp: seen_def pushing_def)
    have "seen ns ti ot" using i by (auto simp: seen_def)
    from on_node_ok [OF D(2) this, of t] obtain a nd where nd: "ot = Some a" "sq_heap s a = Some nd" "node_next nd = sq_next s ot"
      "\<And>f. on_node t ot f s = f a nd" by blast
    show ?thesis
    proof (cases "\<not> sp \<and> node_next nd = None")
      case False
      with PushLink nd(3,4) go show ?thesis
        by (auto simp: simple_go_def Push_link_def when_current_def intro!: quiet_outcome)
    next
      case True
      then have "\<not> Suc i < length ns" using sq_next_at [OF D(2) i(2)] nd(3) by (auto split: if_splits)
      from last_position [OF i(2) this i(1) D(5)] have "sq_tail s = ot" using i(2) D(7) by (simp add: node_at_def)
      moreover have "n \<noteq> a" using fresh i(2) nd(1) by (auto simp: fresh_node_def node_at_def)
      moreover have "sq_next s (Some n) = None" using fresh by (simp add: fresh_node_def sq_next_def nxt_def)
      moreover have s': "s' = set_pc t (PushSwing n ot) (s\<lparr>sq_heap := (sq_heap s)(a := Some (nd\<lparr>node_next := Some n\<rparr>))\<rparr>)"
        using True PushLink nd(4) go by (simp add: simple_go_def Push_link_def)
      moreover have "sq_next s' = (sq_next s)(Some a := Some n)"
        unfolding s' by (auto simp: fun_eq_iff view_defs split: option.splits)
      ultimately have "links_node s s' (sq_pc s t) (PushSwing n ot)" using nd(1) PushLink by (auto simp: links_node_def set_pc_def)
      with s' show ?thesis unfolding outcome_def by (intro exI [of _ "PushSwing n ot"]) (simp add: set_pc_def)
    qed
  next
    case (PushSwing n ot)
    with ok follows_sq_next [OF D(2), of ti ot "Some n"] go show ?thesis
      using cas_outcome [of s ot "Some n" False "QReturn Pushed" t]
      by (auto simp: simple_go_def Push_swing_def outcome_def quiet_def)
  qed (use pc in auto)
qed

lemma pop_outcome:
  assumes inv: "sq_inv ns hi ti q st s" and go: "simple_go t sp s = Some s'"
    and pc: "\<not> (owned (sq_pc s t) \<noteq> None \<or> (\<exists>n ot. sq_pc s t = PushSwing n ot))"
  shows "outcome t sp s s'"
proof -
  note D = sq_invD [OF inv]
  note ok = D(8) [of t]
  have node: "\<exists>a nd. sq_heap s a = Some nd \<and> p = Some a \<and> node_next nd = sq_next s p \<and> (\<forall>f. on_node t p f s = f a nd)" if "seen ns k p" for k p
    using on_node_ok [OF D(2) that, of t] by metis
  have seen: "seen ns ti p" if "seen_next ns ti p \<or> behind ns ti p" for p
    using that by (auto simp: seen_next_def behind_def seen_def intro: less_imp_le)
  show ?thesis
  proof (cases "sq_pc s t")
    case PopLoad
    with go show ?thesis by (auto simp: simple_go_def Acquire_load_def when_current_def intro!: quiet_outcome)
  next
    case (PopProtect b)
    with go D(9) show ?thesis by (auto simp: simple_go_def Acquire_store_def when_current_def intro!: hz_outcome)
  next
    case (PopValidate b)
    with go show ?thesis by (auto simp: simple_go_def Acquire_validate_def when_current_def intro!: quiet_outcome)
  next
    case (PopNext h)
    with ok node [of hi h] go show ?thesis
      by (auto simp: simple_go_def TryPop_next_def when_current_def intro!: quiet_outcome)
  next
    case PopReleaseEmpty
    with go D(9) show ?thesis by (auto simp: simple_go_def TryPop_release_empty_def intro!: hz_outcome)
  next
    case (PopTail h)
    with go show ?thesis by (auto simp: simple_go_def TryPop_tail_def when_current_def intro!: quiet_outcome)
  next
    case (PopHelpLoad ot)
    with ok node [OF seen, of ot] go show ?thesis
      by (auto simp: simple_go_def TryPop_help_load_def when_current_def intro!: quiet_outcome)
  next
    case (PopHelp ot nx)
    with ok follows_sq_next [OF D(2), of ti ot nx] go show ?thesis
      by (auto simp: simple_go_def TryPop_help_def when_current_def intro!: cas_outcome)
  next
    case (PopHeadNext h)
    with ok node [OF seen, of h] go show ?thesis
      by (auto simp: simple_go_def TryPop_head_next_def when_current_def intro!: quiet_outcome)
  next
    case (PopCas h nx)
    show ?thesis
    proof (cases "\<not> sp \<and> sq_head s = h")
      case True
      with PopCas go have s': "s' = set_pc t (PopReadNext h) (s\<lparr>sq_head := nx\<rparr>)" by (simp add: simple_go_def TryPop_cas_def)
      then have "pops s s' (sq_pc s t) (PopReadNext h)" using PopCas by (simp add: pops_def set_pc_def)
      with s' show ?thesis unfolding outcome_def by (intro exI [of _ "PopReadNext h"]) (simp add: set_pc_def)
    next
      case False
      with PopCas go show ?thesis by (auto simp: simple_go_def TryPop_cas_def when_current_def intro!: quiet_outcome)
    qed
  next
    case (PopReadNext h)
    then have "seen ns hi h" using ok by (auto simp: taken_def seen_def intro: less_imp_le)
    from node [OF this] PopReadNext go show ?thesis
      by (auto simp: simple_go_def TryPop_read_next_def intro!: quiet_outcome)
  next
    case (PopReadValue h nx)
    then obtain i v where v: "node_at ns (Suc i) nx" "i \<le> hi" using ok by (auto simp: follows_def)
    then have "seen ns (Suc hi) nx" by (auto simp: seen_def)
    from node [OF this] obtain a nd where nd: "sq_heap s a = Some nd" "nx = Some a" "\<And>f. on_node t nx f s = f a nd" by blast
    have "\<exists>v. node_value nd = Item v"
      using PopReadValue ok nd v D(1) by (auto simp: taken_def follows_def val_def dest: node_at_unique) (metis nd(1) node_at_def node_at_unique option.inject option.simps(5))
    then obtain v where "s' = set_pc t (PopRelease h v) (s\<lparr>sq_heap := (sq_heap s)(a := Some (nd\<lparr>node_value := MovedFrom\<rparr>))\<rparr>)"
      using PopReadValue go nd(3) by (auto simp: simple_go_def TryPop_read_value_def)
    moreover from this have "quiet sp s s' (sq_pc s t) (PopRelease h v)"
      using PopReadValue nd(1) by (auto simp: quiet_def set_pc_def sq_next_def nxt_def fun_eq_iff split: option.splits)
    ultimately show ?thesis unfolding outcome_def by (intro exI [of _ "PopRelease h v"]) (simp add: set_pc_def)
  next
    case (PopRelease h v)
    with go D(9) show ?thesis by (auto simp: simple_go_def TryPop_release_def intro!: hz_outcome)
  next
    case (PopRetire h v)
    with go D(9) show ?thesis
      by (auto simp: simple_go_def TryPop_retire_def split: option.splits intro!: hz_outcome quiet_outcome)
  next
    case (PopRetireCount v)
    with go D(9) show ?thesis by (auto simp: simple_go_def TryPop_retire_count_def intro!: hz_outcome)
  qed (use pc go in \<open>auto simp: simple_go_def\<close>)
qed

lemma go_outcome: "sq_inv ns hi ti q st s \<Longrightarrow> simple_go t sp s = Some s' \<Longrightarrow> outcome t sp s s'"
  by (cases "owned (sq_pc s t) \<noteq> None \<or> (\<exists>n ot. sq_pc s t = PushSwing n ot)") (blast intro: push_outcome pop_outcome)+

lemma attempt_cost_view:
  "sq_head s' = sq_head s \<Longrightarrow> sq_tail s' = sq_tail s \<Longrightarrow> sq_next s' = sq_next s \<Longrightarrow> attempt_cost s' p = attempt_cost s p"
  by (cases p) simp_all

lemma outcome_tail_close: "outcome t sp s s' \<Longrightarrow> tail_close s \<Longrightarrow> tail_close s'"
  by (auto simp: outcome_def quiet_def swings_def links_node_def pops_def tail_close_def)

lemma outcome_advance:
  assumes "outcome t False s s'" and "tail_close s"
  shows "op_credit (sq_pc s' t) + tail_lag s' < op_credit (sq_pc s t) + tail_lag s \<or>
    op_credit (sq_pc s' t) + tail_lag s' \<le> op_credit (sq_pc s t) + tail_lag s \<and>
    attempt_cost s' (sq_pc s' t) < attempt_cost s (sq_pc s t) \<and>
    (\<forall>u. u \<noteq> t \<longrightarrow> attempt_cost s' (sq_pc s' u) \<le> attempt_cost s (sq_pc s u))"
proof -
  obtain p where p: "sq_pc s' = (sq_pc s)(t := p)" and
    "quiet False s s' (sq_pc s t) p \<or> swings s s' (sq_pc s t) p \<or> links_node s s' (sq_pc s t) p \<or> pops s s' (sq_pc s t) p"
    using assms(1) by (auto simp: outcome_def)
  then consider (quiet) "quiet False s s' (sq_pc s t) p" | (swings) "swings s s' (sq_pc s t) p"
    | (effect) "links_node s s' (sq_pc s t) p \<or> pops s s' (sq_pc s t) p" by blast
  then show ?thesis
  proof cases
    case quiet
    then have "attempt_cost s' x = attempt_cost s x" for x by (intro attempt_cost_view) (auto simp: quiet_def)
    with quiet p show ?thesis by (simp add: quiet_def tail_lag_def)
  next
    case swings
    with assms(2) p show ?thesis by (auto simp: swings_def tail_lag_def tail_close_def)
  next
    case effect
    with p show ?thesis by (auto simp: links_node_def pops_def tail_lag_def)
  qed
qed

subsection \<open>No thread waits for another\<close>

text \<open>The state of the thread's mutator that the next step of an operation needs.\<close>

fun hz_needed :: "'v simple_pc \<Rightarrow> mut_pc option" where
  "hz_needed PopReleaseEmpty = Some HasMutator"
| "hz_needed (PopReadNext h) = Some HasMutator"
| "hz_needed (PopReadValue h nx) = Some HasMutator"
| "hz_needed (PopRelease h v) = Some HasMutator"
| "hz_needed (PopRetire h v) = Some HasMutator"
| "hz_needed (PopRetireCount v) = Some RetireIncrease"
| "hz_needed pc = (if op_credit pc = 2 \<and> owned pc = None then Some HasMutator else None)"

definition mut_ready :: "'v simple_queue \<Rightarrow> bool" where
  "mut_ready s \<longleftrightarrow> (\<forall>t m. hz_needed (sq_pc s t) = Some m \<longrightarrow> hz_pc (sq_hz s) t = m)"

fun hz_thread :: "hz_choice \<Rightarrow> tid option" where
  "hz_thread (Make t) = Some t"
| "hz_thread (Protect t p) = Some t"
| "hz_thread (RetireNode t a) = Some t"
| "hz_thread (Destroy t) = Some t"
| "hz_thread (Continue t) = Some t"
| "hz_thread Collector = None"

lemma hz_step_other: "hz_step c h = Some (h', e) \<Longrightarrow> hz_thread c \<noteq> Some u \<Longrightarrow> hz_collector h = CollectDone \<Longrightarrow> hz_pc h' u = hz_pc h u"
  by (cases c) (auto simp: mut_ops split: if_splits mut_pc.splits)

lemma hz_move_other: "hz_move c s = Some s1 \<Longrightarrow> hz_thread c \<noteq> Some u \<Longrightarrow> hz_collector (sq_hz s) = CollectDone \<Longrightarrow> hz_pc (sq_hz s1) u = hz_pc (sq_hz s) u"
  by (auto simp: hz_move_def hz_step_other split: option.splits)

lemma hz_allowed_idle: "hz_allowed c s \<Longrightarrow> hz_thread c = Some u \<Longrightarrow> sq_pc s u = QIdle"
  by (cases c) auto

lemma set_pc_ready: "mut_ready s \<Longrightarrow> hz_needed p = None \<or> hz_needed p = hz_needed (sq_pc s t) \<Longrightarrow> mut_ready (set_pc t p s)"
  by (auto simp: mut_ready_def set_pc_def)

lemma hz_move_ready:
  assumes "mut_ready s" and "hz_collector (sq_hz s) = CollectDone" and "hz_move c s = Some s1" and "hz_thread c = Some t"
    and "hz_needed p = None \<or> hz_needed p = Some (hz_pc (sq_hz s1) t)"
  shows "mut_ready (set_pc t p s1)"
proof -
  obtain h where "s1 = s\<lparr>sq_hz := h\<rparr>" using hz_move_local [OF assms(3,2)] by blast
  with assms hz_move_other [OF assms(3)] show ?thesis by (auto simp: mut_ready_def set_pc_def)
qed

lemma mutator_moves:
  "hz_move (Protect t b) s = Some s1 \<Longrightarrow> hz_pc (sq_hz s1) t = HasMutator"
  "hz_move (RetireNode t a) s = Some s1 \<Longrightarrow> hz_pc (sq_hz s1) t = RetireIncrease"
  by (auto simp: hz_move_def mut_ops split: if_splits option.splits)

lemma go_ready:
  assumes ready: "mut_ready s" and hz: "hz_collector (sq_hz s) = CollectDone" and go: "simple_go t sp s = Some s'"
  shows "mut_ready s'"
proof -
  have keep: "mut_ready (s\<lparr>sq_heap := hp\<rparr>)" "mut_ready (s\<lparr>sq_head := a\<rparr>)" "mut_ready (s\<lparr>sq_tail := a\<rparr>)" for hp a
    using ready by (simp_all add: mut_ready_def)
  show ?thesis
  proof (cases "sq_pc s t")
    case (PopProtect b)
    with go ready hz show ?thesis by (auto simp: simple_go_def Acquire_store_def mutator_moves intro!: hz_move_ready)
  next
    case PopReleaseEmpty
    with go ready hz show ?thesis by (auto simp: simple_go_def TryPop_release_empty_def mutator_moves intro!: hz_move_ready)
  next
    case (PopRelease h v)
    with go ready hz show ?thesis by (auto simp: simple_go_def TryPop_release_def mutator_moves intro!: hz_move_ready)
  next
    case (PopRetire h v)
    show ?thesis
    proof (cases h)
      case None
      with PopRetire go ready show ?thesis by (auto simp: simple_go_def TryPop_retire_def intro!: set_pc_ready)
    next
      case (Some a)
      with PopRetire go ready hz show ?thesis by (auto simp: simple_go_def TryPop_retire_def mutator_moves intro!: hz_move_ready)
    qed
  next
    case (PopRetireCount v)
    with go ready hz show ?thesis by (auto simp: simple_go_def TryPop_retire_count_def intro!: hz_move_ready)
  qed (use go ready in \<open>auto simp: simple_go_def Push_load_def Push_check_def Push_help_load_def Push_help_def Push_link_def Push_swing_def
        Acquire_load_def Acquire_validate_def TryPop_next_def TryPop_tail_def TryPop_help_load_def TryPop_help_def TryPop_head_next_def
        TryPop_cas_def TryPop_read_next_def TryPop_read_value_def on_node_def cas_tail_def keep
        split: sum.splits cell.splits if_splits intro!: set_pc_ready\<close>)
qed

lemma mutator_steps:
  "hz_pc (sq_hz s) t = HasMutator \<Longrightarrow> hz_move (Protect t b) s \<noteq> None"
  "hz_pc (sq_hz s) t = HasMutator \<Longrightarrow> hz_move (RetireNode t a) s \<noteq> None"
  "hz_pc (sq_hz s) t = RetireIncrease \<Longrightarrow> hz_move (Continue t) s \<noteq> None"
  by (simp_all add: hz_move_def)

lemma go_enabled:
  assumes "mut_ready s" and "op_credit (sq_pc s t) \<noteq> 3" and "\<forall>f. sq_pc s t \<noteq> QFault f"
  shows "\<exists>s' e. simple_step (Go t False) s = Some (s', e)"
proof -
  have need: "hz_needed (sq_pc s t) = Some m \<Longrightarrow> hz_pc (sq_hz s) t = m" for m using assms(1) by (simp add: mut_ready_def)
  show ?thesis
    using assms(2,3) need mutator_steps [of s t]
    by (cases "sq_pc s t")
      (auto simp: simple_go_def Acquire_store_def TryPop_release_empty_def TryPop_release_def TryPop_retire_def
        TryPop_retire_count_def split: option.splits)
qed

subsection \<open>The contract\<close>

definition progress_inv :: "'v simple_queue \<Rightarrow> bool" where
  "progress_inv s \<longleftrightarrow> (\<exists>a. sq_sim a s) \<and> tail_close s \<and> mut_ready s"

text \<open>The steps that belong to the operations of a thread.\<close>

fun simple_acts :: "'v simple_choice \<Rightarrow> tid option" where
  "simple_acts (CallPush t v a) = Some t"
| "simple_acts (CallTryPop t) = Some t"
| "simple_acts (Go t spurious) = (if spurious then None else Some t)"
| "simple_acts (Hz c) = None"

lemma progress_inv_init: "progress_inv (init_simple CollectDone)"
proof -
  have "tail_close (init_simple CollectDone)" "mut_ready (init_simple CollectDone)"
    by (simp_all add: tail_close_def mut_ready_def init_simple_def sq_next_def nxt_def)
  then show ?thesis using simple_sim_init unfolding progress_inv_def by blast
qed

lemma sq_next_alloc: "sq_heap s a = None \<Longrightarrow> sq_next (s\<lparr>sq_heap := (sq_heap s)(a := Some \<lparr>node_value = x, node_next = None\<rparr>)\<rparr>) = sq_next s"
  by (auto simp: fun_eq_iff sq_next_def nxt_def split: option.splits)

lemma progress_inv_step:
  assumes inv: "progress_inv s" and st: "simple_step c s = Some (s', e)"
  shows "progress_inv s'"
proof -
  obtain a where sim': "sq_sim a s" using inv by (auto simp: progress_inv_def)
  then obtain ns hi ti q st where sim: "sq_inv ns hi ti q st s" by (auto simp: sq_sim_def split: prod.splits)
  have "\<exists>a. sq_sim a s'" using simple_sim_step [OF sim' st] unfolding answers_def by blast
  moreover have "tail_close s' \<and> mut_ready s'"
  proof (cases c)
    case (CallPush t v a)
    with st have "sq_heap s a = None" and s': "s' = set_pc t (PushLoad a) (s\<lparr>sq_heap := (sq_heap s)(a := Some \<lparr>node_value = Item v, node_next = None\<rparr>)\<rparr>)"
      by (auto split: if_splits)
    then have "sq_next s' = sq_next s" "sq_tail s' = sq_tail s" by (simp_all add: sq_next_alloc set_pc_def)
    with inv s' show ?thesis by (auto simp: progress_inv_def tail_close_def mut_ready_def set_pc_def)
  next
    case (CallTryPop t)
    with st inv show ?thesis by (auto simp: progress_inv_def tail_close_def mut_ready_def set_pc_def split: if_splits)
  next
    case (Go t sp)
    show ?thesis
    proof (cases "\<exists>r. sq_pc s t = QReturn r")
      case True
      with Go st inv show ?thesis by (auto simp: progress_inv_def tail_close_def mut_ready_def set_pc_def split: if_splits)
    next
      case False
      with Go st have "simple_go t sp s = Some s'" by (auto split: simple_pc.splits)
      with inv outcome_tail_close [OF go_outcome [OF sim]] go_ready sq_invD(9) [OF sim] show ?thesis
        unfolding progress_inv_def by blast
    qed
  next
    case (Hz k)
    with st have k: "hz_move k s = Some s'" "hz_allowed k s" by (auto split: if_splits)
    obtain h where h: "s' = s\<lparr>sq_hz := h\<rparr>" using hz_move_local [OF k(1) sq_invD(9) [OF sim]] by blast
    have "hz_pc h u = hz_pc (sq_hz s) u" if "hz_needed (sq_pc s u) = Some m" for u m
    proof -
      have "hz_thread k \<noteq> Some u" using that hz_allowed_idle [OF k(2)] by fastforce
      then show ?thesis using hz_move_other [OF k(1) _ sq_invD(9) [OF sim]] h by simp
    qed
    with inv h show ?thesis by (auto simp: progress_inv_def tail_close_def mut_ready_def)
  qed
  ultimately show ?thesis by (simp add: progress_inv_def)
qed

lemma attempt_cost_le: "attempt_cost s p \<le> 11"
  by (cases p) (simp_all add: when_current_def)

lemma op_credit_le: "op_credit p \<le> 3"
  by (cases p) simp_all

lemma tail_lag_le: "tail_lag s \<le> 1"
  by (simp add: tail_lag_def)

lemma progress_advance:
  assumes inv: "progress_inv s" and c: "simple_acts c = Some t" and st: "simple_step c s = Some (s', e)" and "\<forall>x\<in>set e. \<not> is_return x"
  shows "op_credit (sq_pc s' t) + tail_lag s' < op_credit (sq_pc s t) + tail_lag s \<or>
    op_credit (sq_pc s' t) + tail_lag s' \<le> op_credit (sq_pc s t) + tail_lag s \<and>
    attempt_cost s' (sq_pc s' t) < attempt_cost s (sq_pc s t) \<and>
    (\<forall>u. u \<noteq> t \<longrightarrow> attempt_cost s' (sq_pc s' u) \<le> attempt_cost s (sq_pc s u))"
proof (cases c)
  case (CallPush t' v a)
  with c st have "t' = t" "sq_pc s t = QIdle" "sq_heap s a = None"
    and s': "s' = set_pc t (PushLoad a) (s\<lparr>sq_heap := (sq_heap s)(a := Some \<lparr>node_value = Item v, node_next = None\<rparr>)\<rparr>)"
    by (auto split: if_splits)
  then show ?thesis by (simp add: set_pc_def tail_lag_def sq_next_alloc)
next
  case (CallTryPop t')
  with c st show ?thesis by (auto simp: set_pc_def tail_lag_def split: if_splits)
next
  case (Go t' sp)
  with c st assms(4) have "simple_go t False s = Some s'" by (auto split: simple_pc.splits if_splits)
  moreover obtain ns hi ti q st where "sq_inv ns hi ti q st s" using inv by (auto simp: progress_inv_def sq_sim_def split: prod.splits)
  ultimately have "outcome t False s s'" by (blast intro: go_outcome)
  then show ?thesis using inv by (intro outcome_advance) (simp_all add: progress_inv_def)
qed (use c in simp)

lemma progress_other:
  assumes inv: "progress_inv s" and c: "simple_acts c = Some t" and st: "simple_step c s = Some (s', e)" and "u \<noteq> t"
  shows "sq_pc s' u = sq_pc s u"
proof (cases c)
  case (Go t' sp)
  show ?thesis
  proof (cases "\<exists>r. sq_pc s t = QReturn r")
    case True
    with Go c st assms(4) show ?thesis by (auto simp: set_pc_def split: if_splits)
  next
    case False
    with Go c st have "simple_go t False s = Some s'" by (auto split: simple_pc.splits if_splits)
    moreover obtain ns hi ti q st where "sq_inv ns hi ti q st s" using inv by (auto simp: progress_inv_def sq_sim_def split: prod.splits)
    ultimately have "outcome t False s s'" by (blast intro: go_outcome)
    then show ?thesis using assms(4) by (auto simp: outcome_def)
  qed
qed (use c st assms(4) in \<open>auto simp: set_pc_def split: if_splits\<close>)

interpretation simple_lock_free:
  lock_free simple_step progress_inv simple_acts is_return "\<lambda>s t. attempt_cost s (sq_pc s t)" "\<lambda>s t. op_credit (sq_pc s t)" tail_lag 11 3 1
proof unfold_locales
  fix s :: "'v simple_queue" and c t s' e u
  assume "progress_inv s" "simple_acts c = Some t" "simple_step c s = Some (s', e)" "u \<noteq> t"
  from progress_other [OF this] show "op_credit (sq_pc s' u) = op_credit (sq_pc s u)" by simp
qed (use progress_inv_step progress_advance in \<open>simp_all add: attempt_cost_le op_credit_le tail_lag_le [simplified]\<close>)

interpretation simple_progress: step_invariant simple_step "init_simple CollectDone" "\<lambda>_. progress_inv"
  by unfold_locales (simp_all add: progress_inv_init progress_inv_step)

subsection \<open>Properties\<close>

text \<open>
  C14: \<open>SimpleMSQueue\<close> is lock-free as long as memory is not reclaimed (the collector of the hazard manager has ended, \<open>CollectDone\<close>, so that
  retired nodes stay where they are) and no weak compare-exchange fails spuriously. Whatever state it has been brought to, a thread inside \<open>Push\<close> or \<open>TryPop\<close> is never blocked,
  and among the steps of \<open>n\<close> threads, interleaved in any way and with new calls among them, one operation returns every
  \<open>(11 * n + 1) * (3 * n + 2)\<close> steps. Only the steps of compare-exchanges that do not fail spuriously are steps of a thread here (\<open>simple_acts\<close>).
\<close>

theorem simple_ms_queue_lock_free:
  assumes "reach simple_step (init_simple CollectDone) es s"
    and "finite T" and "sched simple_step cs s = Some (s', es')" and "\<forall>c\<in>set cs. \<exists>t\<in>T. simple_acts c = Some t"
    and "(11 * card T + 1) * (3 * card T + 2) < length cs"
  shows "(\<exists>t r. Return t r \<in> set es') \<and> (\<forall>t. sq_pc s t \<noteq> QIdle \<longrightarrow> (\<exists>s' e. simple_step (Go t False) s = Some (s', e)))"
proof (intro conjI allI impI)
  have inv: "progress_inv s" using simple_progress.reach_inv [OF assms(1)] .
  have "(card T * 11 + 1) * (card T * 3 + 1 + 1) < length cs" using assms(5) by (simp add: mult.commute)
  from simple_lock_free.some_operation_returns [OF assms(2) inv assms(3,4) this]
  show "\<exists>t r. Return t r \<in> set es'" by (metis is_return.elims(2))
  fix t
  assume "sq_pc s t \<noteq> QIdle"
  then have "op_credit (sq_pc s t) \<noteq> 3" by (cases "sq_pc s t") auto
  then show "\<exists>s' e. simple_step (Go t False) s = Some (s', e)"
    using inv sq_sim_no_fault unfolding progress_inv_def by (intro go_enabled) blast+
qed

text \<open>Nine pops of one thread from an empty queue are more steps than the bound; each leaves the state as it was.\<close>

definition with_mutator :: "nat simple_queue" where
  "with_mutator = (init_simple CollectDone)\<lparr>sq_hz := \<lparr>hz = init_hazard\<lparr>hz_threads := [(1, new_thread_state)], mutators_count := 1\<rparr>,
     hz_collector = CollectDone, hz_pc = (\<lambda>_. NoMutator)(1 := HasMutator)\<rparr>\<rparr>"

definition empty_pop :: "nat simple_choice list" where
  "empty_pop = CallTryPop 1 # replicate 6 (Go 1 False)"

lemma with_mutator_reached: "reach simple_step (init_simple CollectDone) [] with_mutator"
  by (rule sched_reach [of _ "[Hz (Make 1), Hz (Continue 1), Hz (Continue 1)]"])
    (simp add: with_mutator_def init_simple_def init_system_def init_hazard_def hz_move_def mut_ops thread_lock_free_def
      MakeMutator_insert_def MakeMutator_count_def registered_def thread_ids_def)

lemma empty_pop_run: "sched simple_step empty_pop with_mutator = Some (with_mutator, [Invoke 1 OpPop, Return 1 (Popped None)])"
  by (simp add: empty_pop_def eval_nat_numeral with_mutator_def init_simple_def init_hazard_def hz_move_def mut_ops
      simple_go_def Acquire_load_def Acquire_store_def Acquire_validate_def TryPop_next_def TryPop_release_empty_def set_pc_def on_node_def
      deref_def protect_def with_thread_def new_thread_state_def fun_eq_iff)

theorem simple_ms_queue_lock_free_witness:
  "\<exists>es' t r. sched simple_step (concat (replicate 9 empty_pop)) with_mutator = Some (with_mutator, es') \<and> Return t r \<in> set es'"
proof -
  have acts: "\<forall>c\<in>set (concat (replicate 9 empty_pop)). \<exists>t\<in>{1}. simple_acts c = Some t" by (auto simp: empty_pop_def)
  have "(11 * card {1 :: tid} + 1) * (3 * card {1 :: tid} + 2) < length (concat (replicate 9 empty_pop))"
    by (simp add: empty_pop_def length_concat comp_def sum_list_replicate)
  from simple_ms_queue_lock_free [OF with_mutator_reached _ sched_replicate [OF empty_pop_run] acts this]
    sched_replicate [OF empty_pop_run, of 9] show ?thesis by blast
qed

end
