(* ===== verification/Classic_MS_Progress.thy ===== *)
theory Classic_MS_Progress
  imports Classic_MS_Queue Lock_Freedom
begin

text \<open>
  Lock-freedom of \<^verbatim>\<open>src/components/lock_free/classic_ms_queue.h\<close>, on the runs \<open>Classic_MS_Queue\<close> shows to be linearizable: the second instance of
  \<open>lock_free\<close>.

  An attempt compares counted pointers, and a null \<open>next\<close> pointer always carries the counter \<open>0\<close> (\<open>null_plain\<close>): a failed compare-exchange of it
  therefore means that another node has been linked.
\<close>

subsection \<open>What a thread still has to do\<close>

abbreviation cq_next :: "'v classic_queue \<Rightarrow> ptr \<Rightarrow> ptr" where
  "cq_next s \<equiv> cnext (cq_heap s)"

fun classic_cost :: "'v classic_queue \<Rightarrow> 'v classic_pc \<Rightarrow> nat" where
  "classic_cost s (CPushTail n) = 4"
| "classic_cost s (CPushNext n ot) = when_current (cq_tail s = ot) 4 3"
| "classic_cost s (CPushCheck n ot nx) =
     when_current (cq_tail s = ot \<and> (node_ptr nx = None \<longrightarrow> cq_next s (node_ptr ot) = None)) 4 2"
| "classic_cost s (CPushLink n ot nx) = when_current (cq_next s (node_ptr ot) = None) 4 1"
| "classic_cost s (CPushHelp n ot nx) = when_current (cq_tail s = ot) 4 1"
| "classic_cost s (CPushSwing n ot) = 1"
| "classic_cost s CPopHead = 6"
| "classic_cost s (CPopTail h) = when_current (cq_head s = h) 6 5"
| "classic_cost s (CPopNext h ot) = when_current (cq_head s = h \<and> (node_ptr h = node_ptr ot \<longrightarrow> cq_tail s = ot)) 6 4"
| "classic_cost s (CPopCheck h ot nx) =
     when_current (cq_head s = h \<and> (node_ptr h = node_ptr ot \<longrightarrow> node_ptr nx \<noteq> None \<longrightarrow> cq_tail s = ot)) 6 3"
| "classic_cost s (CPopHelp ot nx) = when_current (cq_tail s = ot) 6 1"
| "classic_cost s (CPopRead h nx) = when_current (cq_head s = h) 6 2"
| "classic_cost s (CPopCas h nx v) = when_current (cq_head s = h) 6 1"
| "classic_cost s (CPopDelete h v) = 1"
| "classic_cost s _ = 0"

fun classic_credit :: "'v classic_pc \<Rightarrow> nat" where
  "classic_credit CIdle = 3"
| "classic_credit CPopHead = 2"
| "classic_credit (CPopTail h) = 2"
| "classic_credit (CPopNext h ot) = 2"
| "classic_credit (CPopCheck h ot nx) = 2"
| "classic_credit (CPopHelp ot nx) = 2"
| "classic_credit (CPopRead h nx) = 2"
| "classic_credit (CPopCas h nx v) = 2"
| "classic_credit (CPopDelete h v) = 0"
| "classic_credit pc = (if kept pc = None then 0 else 2)"

definition classic_lag :: "'v classic_queue \<Rightarrow> nat" where
  "classic_lag s = (if cq_next s (node_ptr (cq_tail s)) = None then 0 else 1)"

definition classic_close :: "'v classic_queue \<Rightarrow> bool" where
  "classic_close s \<longleftrightarrow>
     (cq_next s (node_ptr (cq_tail s)) \<noteq> None \<longrightarrow> cq_next s (cq_next s (node_ptr (cq_tail s))) = None)"

text \<open>The null \<open>next\<close> pointers in the heap and in what the threads have read.\<close>

fun next_read :: "'v classic_pc \<Rightarrow> node_pointer option" where
  "next_read (CPushCheck n ot nx) = Some nx"
| "next_read (CPushLink n ot nx) = Some nx"
| "next_read _ = None"

definition null_plain :: "'v classic_queue \<Rightarrow> bool" where
  "null_plain s \<longleftrightarrow> (\<forall>a nd. cq_heap s a = Some nd \<longrightarrow> node_ptr (cn_next nd) = None \<longrightarrow> cn_next nd = (None, 0)) \<and>
     (\<forall>t nx. next_read (cq_pc s t) = Some nx \<longrightarrow> node_ptr nx = None \<longrightarrow> nx = (None, 0))"

lemma cq_next_cset [simp]: "cq_next (cset t p s) = cq_next s"
  by (simp add: cset_def)

lemma tail_next:
  assumes "cq_inv k ns hi ti q st obs s" and "leads ns ti ot nx" and "cq_tail s = ot"
  shows "cq_next s (node_ptr ot) = nx \<and> nx \<noteq> None"
proof -
  note D = cq_invD [OF assms(1)]
  obtain i where i: "stamped ns i ot" "node_at ns (Suc i) nx" using assms(2) by (auto simp: leads_def)
  moreover have "i = ti" using stamped_unique [OF D(7) i(1)] D(4) assms(3) by blast
  ultimately show ?thesis using D(1,2) by (auto simp: stamped_def node_at_def clinked_def)
qed

subsection \<open>What a step does to the shared state\<close>

definition cquiet :: "'v classic_queue \<Rightarrow> 'v classic_queue \<Rightarrow> 'v classic_pc \<Rightarrow> 'v classic_pc \<Rightarrow> bool" where
  "cquiet s s' pc p \<longleftrightarrow> cq_head s' = cq_head s \<and> cq_tail s' = cq_tail s \<and> cq_next s' = cq_next s \<and>
     classic_cost s p < classic_cost s pc \<and> classic_credit p \<le> classic_credit pc"

definition cswings :: "'v classic_queue \<Rightarrow> 'v classic_queue \<Rightarrow> 'v classic_pc \<Rightarrow> 'v classic_pc \<Rightarrow> bool" where
  "cswings s s' pc p \<longleftrightarrow> cq_next s (node_ptr (cq_tail s)) \<noteq> None \<and> node_ptr (cq_tail s') = cq_next s (node_ptr (cq_tail s)) \<and>
     cq_next s' = cq_next s \<and> classic_credit p \<le> classic_credit pc"

definition clinks :: "'v classic_queue \<Rightarrow> 'v classic_queue \<Rightarrow> 'v classic_pc \<Rightarrow> 'v classic_pc \<Rightarrow> bool" where
  "clinks s s' pc p \<longleftrightarrow> (\<exists>n. cq_next s (Some n) = None \<and> Some n \<noteq> node_ptr (cq_tail s) \<and> cq_tail s' = cq_tail s \<and>
     cq_next s' = (cq_next s)(node_ptr (cq_tail s) := Some n)) \<and> classic_credit p = 0 \<and> classic_credit pc = 2"

definition cpops :: "'v classic_queue \<Rightarrow> 'v classic_queue \<Rightarrow> 'v classic_pc \<Rightarrow> 'v classic_pc \<Rightarrow> bool" where
  "cpops s s' pc p \<longleftrightarrow> cq_tail s' = cq_tail s \<and> cq_next s' = cq_next s \<and> classic_credit p = 0 \<and> classic_credit pc = 2"

definition coutcome :: "tid \<Rightarrow> 'v classic_queue \<Rightarrow> 'v classic_queue \<Rightarrow> bool" where
  "coutcome t s s' \<longleftrightarrow> (\<exists>p. cq_pc s' = (cq_pc s)(t := p) \<and>
     (cquiet s s' (cq_pc s t) p \<or> cswings s s' (cq_pc s t) p \<or> clinks s s' (cq_pc s t) p \<or> cpops s s' (cq_pc s t) p))"

lemma cquiet_outcome:
  "classic_cost s p < classic_cost s (cq_pc s t) \<Longrightarrow> classic_credit p \<le> classic_credit (cq_pc s t) \<Longrightarrow> coutcome t s (cset t p s)"
  unfolding coutcome_def by (intro exI [of _ p]) (simp add: cquiet_def cset_def)

lemma ccas_outcome:
  assumes "cq_tail s = ot \<Longrightarrow> cq_next s (node_ptr ot) = nx \<and> nx \<noteq> None"
    and "cq_tail s \<noteq> ot \<Longrightarrow> classic_cost s p < classic_cost s (cq_pc s t)"
    and "classic_credit p \<le> classic_credit (cq_pc s t)"
  shows "coutcome t s (cset t p (classic_cas_tail ot nx s))"
proof (cases "cq_tail s = ot")
  case True
  with assms have "cswings s (cset t p (classic_cas_tail ot nx s)) (cq_pc s t) p"
    by (auto simp: cswings_def classic_cas_tail_def cset_def)
  with True show ?thesis unfolding coutcome_def by (intro exI [of _ p]) (simp add: classic_cas_tail_def cset_def)
next
  case False
  with assms cquiet_outcome [of s p t] show ?thesis by (simp add: classic_cas_tail_def)
qed

lemma classic_link_outcome:
  assumes inv: "cq_inv k ns hi ti q st obs s" and null: "null_plain s" and go: "classic_go t s = Some s'" and ok: "unfaulted s'"
    and pc: "cq_pc s t = CPushLink n ot nx"
  shows "coutcome t s s'"
proof -
  note D = cq_invD [OF inv]
  from pc D(8) [of t] obtain j v where j: "j \<le> ti" "stamped ns j ot" "j < hi \<longrightarrow> cq_next s (node_ptr ot) \<noteq> None"
    and fresh: "cq_heap s n = Some \<lparr>cn_value = v, cn_next = (None, 0)\<rparr>" and nx: "node_ptr nx = None"
    by (auto simp: cpushing_def)
  have ot: "node_ptr ot = Some (ns ! j)" "j < length ns" using j(2) by (auto simp: stamped_def)
  obtain nd where nd: "cq_heap s (ns ! j) = Some nd" "cq_next s (Some (ns ! j)) = node_ptr (cn_next nd)"
    "\<And>t f. unfaulted (on_classic t (Some (ns ! j)) f s) \<Longrightarrow> on_classic t (Some (ns ! j)) f s = f (ns ! j) nd"
    using linked_node [OF inv ot(2)] by blast
  have s': "s' = CPush_link t n ot nx s" using go pc by (simp add: classic_go_def)
  note eq = nd(3) [OF ok [unfolded s' CPush_link_def ot(1)], folded ot(1), folded CPush_link_def, folded s']
  have plain: "nx = (None, 0)" "node_ptr (cn_next nd) = None \<Longrightarrow> cn_next nd = (None, 0)"
    using null nx pc nd(1) unfolding null_plain_def by (metis next_read.simps(2))+
  show ?thesis
  proof (cases "cn_next nd = nx")
    case False
    then have "cq_next s (node_ptr ot) \<noteq> None" using plain nd(2) ot(1) by auto
    with False eq pc show ?thesis by (auto simp: when_current_def intro!: cquiet_outcome)
  next
    case True
    then have last: "cq_next s (Some (ns ! j)) = None" using nd(2) nx by simp
    then have hi: "hi \<le> j" using j(3) ot(1) by force
    then have "length ns = Suc j" using last D(1) ot(2) unfolding clinked_def by (metis Suc_lessI option.distinct(1))
    then have "ti = j" using j(1) D(4) by (auto simp: stamped_def)
    then have tail: "node_ptr (cq_tail s) = Some (ns ! j)" using D(4) by (simp add: stamped_def)
    have "n \<in> kept_nodes (cq_pc s)" using pc unfolding kept_nodes_def by (metis (mono_tags, lifting) kept.simps(4) mem_Collect_eq)
    then have na: "n \<noteq> ns ! j" using D(6) live_mem [OF hi ot(2)] by (auto simp: cmemory_def)
    have free: "cq_next s (Some n) = None" using fresh by (simp add: cnext_def)
    have s2: "s' = cset t (CPushSwing n ot) (s\<lparr>cq_heap := (cq_heap s)(ns ! j := Some (nd\<lparr>cn_next := (Some n, counter nx + 1)\<rparr>))\<rparr>)"
      using True eq by simp
    have "cq_next s' = (cq_next s)(Some (ns ! j) := Some n)" unfolding s2 by (auto simp: fun_eq_iff cnext_def split: option.splits)
    then have "clinks s s' (cq_pc s t) (CPushSwing n ot)" using tail na free s2 pc by (auto simp: clinks_def cset_def)
    with s2 show ?thesis unfolding coutcome_def by (intro exI [of _ "CPushSwing n ot"]) (simp add: cset_def)
  qed
qed

text \<open>A step that reads a node it knows.\<close>

lemma cq_read_node:
  assumes "cq_inv k ns hi ti q st obs s" and "node_at ns i p" and "unfaulted (on_classic t p f s)"
  shows "\<exists>a nd. on_classic t p f s = f a nd"
proof -
  have i: "i < length ns" "p = Some (ns ! i)" using assms(2) by (auto simp: node_at_def)
  show ?thesis using linked_node [OF assms(1) i(1)] assms(3) unfolding i(2) by metis
qed

lemma classic_go_outcome:
  fixes s :: "'v classic_queue"
  assumes inv: "cq_inv k ns hi ti q st obs s" and null: "null_plain s" and go: "classic_go t s = Some s'" and ok: "unfaulted s'"
  shows "coutcome t s s'"
proof -
  note K = cq_invD(8) [OF inv, of t]
  note node = cq_read_node [OF inv]
  show ?thesis
  proof (cases "cq_pc s t")
    case (CPushTail n)
    with go show ?thesis by (auto simp: classic_go_def CPush_tail_def when_current_def intro!: cquiet_outcome)
  next
    case (CPushNext n ot)
    then have s': "s' = CPush_next t n ot s" using go by (simp add: classic_go_def)
    obtain j where j: "node_ptr ot = Some (ns ! j)" "j < length ns" using CPushNext K by (auto simp: met_def stamped_def)
    obtain nd where nd: "cq_next s (Some (ns ! j)) = node_ptr (cn_next nd)"
      "\<And>t f. unfaulted (on_classic t (Some (ns ! j)) f s) \<Longrightarrow> on_classic t (Some (ns ! j)) f s = f (ns ! j) nd"
      using linked_node [OF inv j(2)] by blast
    have "s' = cset t (CPushCheck n ot (cn_next nd)) s" using nd(2) ok unfolding s' CPush_next_def j(1) by blast
    with CPushNext nd(1) j(1) show ?thesis by (auto simp: when_current_def intro!: cquiet_outcome)
  next
    case (CPushCheck n ot nx)
    with go show ?thesis by (auto simp: classic_go_def CPush_check_def when_current_def intro!: cquiet_outcome)
  next
    case (CPushLink n ot nx)
    then show ?thesis by (rule classic_link_outcome [OF inv null go ok])
  next
    case (CPushHelp n ot nx)
    with K tail_next [OF inv, of ot "node_ptr nx"] go show ?thesis
      by (auto simp: classic_go_def CPush_help_def when_current_def intro!: ccas_outcome)
  next
    case (CPushSwing n ot)
    with K tail_next [OF inv, of ot "Some n"] go show ?thesis
      by (auto simp: classic_go_def CPush_swing_def intro!: ccas_outcome)
  next
    case CPopHead
    with go show ?thesis by (auto simp: classic_go_def CPop_head_def when_current_def intro!: cquiet_outcome)
  next
    case (CPopTail h)
    with go show ?thesis by (auto simp: classic_go_def CPop_tail_def when_current_def intro!: cquiet_outcome)
  next
    case (CPopNext h ot)
    then obtain i where "s' = CPop_next t h ot s" "stamped ns i h" using go K by (auto simp: classic_go_def)
    moreover from this have "node_at ns i (node_ptr h)" by (auto simp: stamped_def node_at_def)
    ultimately obtain nd :: "'v classic_node" where "s' = cset t (CPopCheck h ot (cn_next nd)) s"
      using node [of i _ t] ok unfolding CPop_next_def by blast
    with CPopNext show ?thesis by (auto simp: when_current_def intro!: cquiet_outcome)
  next
    case (CPopCheck h ot nx)
    with go show ?thesis by (auto simp: classic_go_def CPop_check_def when_current_def intro!: cquiet_outcome)
  next
    case (CPopHelp ot nx)
    with K tail_next [OF inv, of ot "node_ptr nx"] go show ?thesis
      by (auto simp: classic_go_def CPop_help_def when_current_def intro!: ccas_outcome)
  next
    case (CPopRead h nx)
    then obtain i where "s' = CPop_read t h nx s" "node_at ns (Suc i) (node_ptr nx)" using go K by (auto simp: classic_go_def)
    then obtain nd :: "'v classic_node" where "s' = cset t (CPopCas h nx (cn_value nd)) s"
      using node [of "Suc i" _ t] ok unfolding CPop_read_def by blast
    with CPopRead show ?thesis by (auto simp: when_current_def intro!: cquiet_outcome)
  next
    case (CPopCas h nx v)
    show ?thesis
    proof (cases "cq_head s = h")
      case True
      with CPopCas go have s': "s' = cset t (CPopDelete h v) (s\<lparr>cq_head := (node_ptr nx, counter h + 1)\<rparr>)"
        by (simp add: classic_go_def CPop_cas_def)
      then have "cpops s s' (cq_pc s t) (CPopDelete h v)" using CPopCas by (simp add: cpops_def cset_def)
      with s' show ?thesis unfolding coutcome_def by (intro exI [of _ "CPopDelete h v"]) (simp add: cset_def)
    next
      case False
      with CPopCas go show ?thesis by (auto simp: classic_go_def CPop_cas_def when_current_def intro!: cquiet_outcome)
    qed
  next
    case (CPopDelete h v)
    have "\<exists>p. cq_pc s' = (cq_pc s)(t := p) \<and> cquiet s s' (cq_pc s t) p"
      using go unfolding classic_go_def CPopDelete CPop_delete_def by (auto simp: cquiet_def cset_def split: option.splits if_splits)
    then show ?thesis unfolding coutcome_def by blast
  qed (use go in \<open>auto simp: classic_go_def\<close>)
qed

lemma classic_cost_view:
  "cq_head s' = cq_head s \<Longrightarrow> cq_tail s' = cq_tail s \<Longrightarrow> cq_next s' = cq_next s \<Longrightarrow> classic_cost s' p = classic_cost s p"
  by (cases p) simp_all

lemma coutcome_close: "coutcome t s s' \<Longrightarrow> classic_close s \<Longrightarrow> classic_close s'"
  by (auto simp: coutcome_def cquiet_def cswings_def clinks_def cpops_def classic_close_def)

lemma coutcome_advance:
  assumes "coutcome t s s'" and "classic_close s"
  shows "classic_credit (cq_pc s' t) + classic_lag s' < classic_credit (cq_pc s t) + classic_lag s \<or>
    classic_credit (cq_pc s' t) + classic_lag s' \<le> classic_credit (cq_pc s t) + classic_lag s \<and>
    classic_cost s' (cq_pc s' t) < classic_cost s (cq_pc s t) \<and>
    (\<forall>u. u \<noteq> t \<longrightarrow> classic_cost s' (cq_pc s' u) \<le> classic_cost s (cq_pc s u))"
proof -
  obtain p where p: "cq_pc s' = (cq_pc s)(t := p)" and
    "cquiet s s' (cq_pc s t) p \<or> cswings s s' (cq_pc s t) p \<or> clinks s s' (cq_pc s t) p \<or> cpops s s' (cq_pc s t) p"
    using assms(1) by (auto simp: coutcome_def)
  then consider (quiet) "cquiet s s' (cq_pc s t) p" | (swings) "cswings s s' (cq_pc s t) p"
    | (effect) "clinks s s' (cq_pc s t) p \<or> cpops s s' (cq_pc s t) p" by blast
  then show ?thesis
  proof cases
    case quiet
    then have "classic_cost s' x = classic_cost s x" for x by (intro classic_cost_view) (auto simp: cquiet_def)
    with quiet p show ?thesis by (simp add: cquiet_def classic_lag_def)
  next
    case swings
    with assms(2) p show ?thesis by (auto simp: cswings_def classic_lag_def classic_close_def)
  next
    case effect
    with p show ?thesis by (auto simp: clinks_def cpops_def classic_lag_def)
  qed
qed

subsection \<open>Null pointers\<close>

lemma cset_plain:
  assumes "null_plain s" and "\<And>nx. next_read p = Some nx \<Longrightarrow> node_ptr nx = None \<Longrightarrow> nx = (None, 0)"
  shows "null_plain (cset t p s)"
  using assms unfolding null_plain_def cset_def by auto

lemma on_classic_plain:
  assumes "null_plain s" and "\<And>a nd. cq_heap s a = Some nd \<Longrightarrow> null_plain (f a nd)"
  shows "null_plain (on_classic t p f s)"
  using assms by (auto simp: on_classic_def intro!: cset_plain split: option.splits)

lemma heap_plain:
  "null_plain s \<Longrightarrow> node_ptr (cn_next nd) = None \<longrightarrow> cn_next nd = (None, 0) \<Longrightarrow> null_plain (s\<lparr>cq_heap := (cq_heap s)(a := Some nd)\<rparr>)"
  "null_plain s \<Longrightarrow> null_plain (s\<lparr>cq_freed := fs\<rparr>)"
  "null_plain s \<Longrightarrow> null_plain (s\<lparr>cq_head := x\<rparr>)" "null_plain s \<Longrightarrow> null_plain (s\<lparr>cq_tail := x\<rparr>)"
  by (auto simp: null_plain_def)

lemma null_plainD: "null_plain s \<Longrightarrow> cq_heap s a = Some nd \<Longrightarrow> node_ptr (cn_next nd) = None \<Longrightarrow> cn_next nd = (None, 0)"
  "null_plain s \<Longrightarrow> next_read (cq_pc s t) = Some nx \<Longrightarrow> node_ptr nx = None \<Longrightarrow> nx = (None, 0)"
  unfolding null_plain_def by blast+

lemma classic_go_plain:
  assumes "null_plain s" and go: "classic_go t s = Some s'"
  shows "null_plain s'"
proof (cases "cq_pc s t")
  case (CPushCheck n ot nx)
  then have "node_ptr nx = None \<Longrightarrow> nx = (None, 0)" using null_plainD(2) [OF assms(1), of t nx] by simp
  with CPushCheck assms show ?thesis by (auto simp: classic_go_def CPush_check_def intro!: cset_plain split: if_splits)
next
  case (CPushNext n ot)
  have "null_plain (cset t (CPushCheck n ot (cn_next nd)) s)" if "cq_heap s a = Some nd" for a nd
    using assms(1) null_plainD(1) [OF assms(1) that] by (auto intro!: cset_plain)
  with CPushNext assms show ?thesis by (auto simp: classic_go_def CPush_next_def intro!: on_classic_plain)
qed (use assms null_plainD(1) [OF assms(1)] in \<open>auto simp: classic_go_def CPush_tail_def CPush_link_def CPush_help_def CPush_swing_def
    CPop_head_def CPop_tail_def CPop_next_def CPop_check_def CPop_help_def CPop_read_def CPop_cas_def CPop_delete_def classic_cas_tail_def
    intro!: on_classic_plain cset_plain heap_plain split: if_splits option.splits\<close>)

subsection \<open>The contract\<close>

definition classic_progress :: "nat \<times> 'v classic_queue \<Rightarrow> bool" where
  "classic_progress x \<longleftrightarrow> (\<exists>b. cq_sim b x) \<and> classic_close (snd x) \<and> null_plain (snd x)"

lemma classic_progressD:
  assumes "classic_progress (k, s)"
  obtains ns hi ti q st obs where "cq_inv k ns hi ti q st obs s" "classic_close s" "null_plain s"
  using assms by (auto simp: classic_progress_def cq_sim_def split: prod.splits)

lemma classic_progress_go: "classic_progress (k, s) \<Longrightarrow> classic_go t s = Some s' \<Longrightarrow> unfaulted s' \<Longrightarrow> coutcome t s s'"
  by (elim classic_progressD) (rule classic_go_outcome)

text \<open>A node \<open>new\<close> returns is not linked, so the live part of the chain does not change.\<close>

lemma classic_push_view:
  assumes "classic_progress (k, s)" and "available s a"
  shows "cq_next (new_classic a v s) (node_ptr (cq_tail s)) = cq_next s (node_ptr (cq_tail s)) \<and>
    cq_next (new_classic a v s) (cq_next s (node_ptr (cq_tail s))) = cq_next s (cq_next s (node_ptr (cq_tail s)))"
proof -
  obtain ns hi ti q st obs where inv: "cq_inv k ns hi ti q st obs s" using assms(1) by (rule classic_progressD)
  note D = cq_invD [OF inv] and M = cq_invD(6) [OF inv, unfolded cmemory_def]
  have "a \<notin> dom (cq_heap s) \<or> a \<in> set (cq_freed s)" using assms(2) by (auto simp: available_def)
  then have "a \<notin> set (drop hi ns)" using M by auto
  then have ne: "ns ! i \<noteq> a" if "hi \<le> i" "i < length ns" for i using live_mem [OF that] by auto
  have tail: "node_ptr (cq_tail s) = Some (ns ! ti)" "ti < length ns" using D(4) by (auto simp: stamped_def)
  have nx: "cq_next s (Some (ns ! ti)) = (if Suc ti < length ns then Some (ns ! Suc ti) else None)" using D(1,2) tail unfolding clinked_def by blast
  have same: "cq_next (new_classic a v s) (Some b) = cq_next s (Some b)" if "b \<noteq> a" for b using that by (simp add: cnext_def new_classic_def)
  show ?thesis unfolding tail(1) nx using same ne D(2) tail(2) nx by (simp add: cnext_def [of _ None])
qed

lemma classic_progress_init: "classic_progress (0, init_classic keeps d)"
proof -
  have "classic_close (init_classic keeps d)" "null_plain (init_classic keeps d)"
    by (auto simp: classic_close_def null_plain_def init_classic_def cnext_def split: if_splits)
  then show ?thesis using classic_sim_init [of keeps d] unfolding classic_progress_def snd_conv by blast
qed

lemma classic_progress_step:
  assumes inv: "classic_progress x" and st: "counted_step c x = Some (x', e)"
  shows "classic_progress x'"
proof -
  obtain k s where x: "x = (k, s)" by (cases x)
  obtain s' where x': "x' = (k + length (pushed_values e), s')" and p: "patient_step c s = Some (s', e)" and ok: "unfaulted s'"
    using counted_stepD [OF st [unfolded x]] by blast
  obtain b where "cq_sim b (k, s)" using inv by (auto simp: classic_progress_def x)
  then have "\<exists>b. cq_sim b x'" using classic_sim_step [OF _ st [unfolded x]] by blast
  moreover have close: "classic_close s" and null: "null_plain s" using inv by (auto simp: classic_progress_def x)
  obtain t where "classic_acts c = Some t" by (cases c) auto
  from patient_step_classic [OF p] this have "classic_close s' \<and> null_plain s'"
  proof (cases rule: classic_step_cases)
    case (push v a)
    have "cq_tail s' = cq_tail s" "cq_next s' = cq_next (new_classic a v s)" unfolding push(5) by (simp_all add: cset_def new_classic_def)
    with classic_push_view [OF inv [unfolded x] push(3)] close have "classic_close s'" by (simp add: classic_close_def)
    moreover have "null_plain (new_classic a v s)" unfolding new_classic_def using null by (auto simp: null_plain_def)
    then have "null_plain s'" unfolding push(5) by (auto intro!: cset_plain)
    ultimately show ?thesis ..
  next
    case pop
    then show ?thesis using close null by (auto simp: classic_close_def intro!: cset_plain) (simp_all add: cset_def)
  next
    case return
    then show ?thesis using close null by (auto simp: classic_close_def intro!: cset_plain) (simp_all add: cset_def)
  next
    case go
    then show ?thesis using close null coutcome_close classic_progress_go [OF inv [unfolded x] _ ok] classic_go_plain by blast
  qed
  ultimately show ?thesis by (simp add: classic_progress_def x')
qed

lemma classic_advance:
  assumes inv: "classic_progress (k, s)" and "classic_acts c = Some t" and p: "patient_step c s = Some (s', e)" and ok: "unfaulted s'"
    and "\<forall>x\<in>set e. \<not> is_return x"
  shows "classic_credit (cq_pc s' t) + classic_lag s' < classic_credit (cq_pc s t) + classic_lag s \<or>
    classic_credit (cq_pc s' t) + classic_lag s' \<le> classic_credit (cq_pc s t) + classic_lag s \<and>
    classic_cost s' (cq_pc s' t) < classic_cost s (cq_pc s t) \<and>
    (\<forall>u. u \<noteq> t \<longrightarrow> classic_cost s' (cq_pc s' u) \<le> classic_cost s (cq_pc s u))"
  using patient_step_classic [OF p] assms(2)
proof (cases rule: classic_step_cases)
  case (push v a)
  have "classic_lag s' = classic_lag s"
    using classic_push_view [OF inv push(3), of v] by (simp add: push(5) classic_lag_def cset_def new_classic_def)
  then show ?thesis by (simp add: push(2,5)) (simp add: cset_def)
next
  case go
  from classic_progress_go [OF inv go(1) ok] inv show ?thesis by (intro coutcome_advance) (simp_all add: classic_progress_def)
qed (use assms(5) in \<open>simp_all add: classic_lag_def cset_def\<close>)

lemma classic_bounds: "classic_cost s p \<le> 11" "classic_credit p \<le> 3" "classic_lag s \<le> 1"
  by (cases p, simp_all add: when_current_def) (cases p, simp_all, simp add: classic_lag_def)

interpretation classic_lock_free:
  lock_free counted_step classic_progress classic_acts is_return
    "\<lambda>x t. classic_cost (snd x) (cq_pc (snd x) t)" "\<lambda>x t. classic_credit (cq_pc (snd x) t)" "\<lambda>x. classic_lag (snd x)" 11 3 1
proof unfold_locales
  fix x x' :: "nat \<times> 'v classic_queue" and c t e u
  assume inv: "classic_progress x" and t: "classic_acts c = Some t" and st: "counted_step c x = Some (x', e)"
  obtain k s where x: "x = (k, s)" by (cases x)
  obtain s' where x': "x' = (k + length (pushed_values e), s')" and p: "patient_step c s = Some (s', e)" and ok: "unfaulted s'"
    using counted_stepD [OF st [unfolded x]] by blast
  {
    assume "u \<noteq> t"
    from classic_step_other [OF patient_step_classic [OF p] t this]
    show "classic_credit (cq_pc (snd x') u) = classic_credit (cq_pc (snd x) u)" by (simp add: x x')
  next
    assume "\<forall>x\<in>set e. \<not> is_return x"
    from classic_advance [OF inv [unfolded x] t p ok this]
    show "classic_credit (cq_pc (snd x') t) + classic_lag (snd x') < classic_credit (cq_pc (snd x) t) + classic_lag (snd x) \<or>
      classic_credit (cq_pc (snd x') t) + classic_lag (snd x') \<le> classic_credit (cq_pc (snd x) t) + classic_lag (snd x) \<and>
      classic_cost (snd x') (cq_pc (snd x') t) < classic_cost (snd x) (cq_pc (snd x) t) \<and>
      (\<forall>u. u \<noteq> t \<longrightarrow> classic_cost (snd x') (cq_pc (snd x') u) \<le> classic_cost (snd x) (cq_pc (snd x) u))"
      by (simp add: x x')
  }
qed (use classic_progress_step in \<open>simp_all add: classic_bounds [simplified]\<close>)

interpretation classic_progresses: step_invariant counted_step "(0, init_classic keeps d)" "\<lambda>_. classic_progress" for keeps d
  by unfold_locales (simp_all add: classic_progress_init classic_progress_step)

subsection \<open>Properties\<close>

text \<open>
  C15: \<open>ClassicMSQueue\<close> is lock-free, under the conditions of its linearizability: the memory of a deleted node stays readable, or no thread has accessed
  a deleted node; \<open>new\<close> never returns a node that a \<open>Push\<close> is about to link to (\<open>patient_step\<close>); fewer than \<open>2 ^ 64\<close> calls of \<open>Push\<close> are made.
  Then a thread inside \<open>Push\<close> or \<open>TryPop\<close> is never blocked, and among the steps of \<open>n\<close> threads, interleaved in any way and with new calls among
  them, one operation returns every \<open>(11 * n + 1) * (3 * n + 2)\<close> steps.
\<close>

theorem classic_ms_queue_lock_free:
  assumes "reach patient_step (init_classic keeps d) es s"
    and "finite T" and "sched patient_step cs s = Some (s', es')" and "\<forall>c\<in>set cs. \<exists>t\<in>T. classic_acts c = Some t"
    and "(11 * card T + 1) * (3 * card T + 2) < length cs"
    and "length (pushed_values (es @ es')) < 2 ^ 64" and "keeps \<or> (\<forall>t f. cq_pc s' t \<noteq> CFault f)"
  shows "(\<exists>t r. Return t r \<in> set es') \<and> (\<forall>t. cq_pc s t \<noteq> CIdle \<longrightarrow> (\<exists>s' e. patient_step (ClassicGo t) s = Some (s', e)))"
proof (intro conjI allI impI)
  have "cq_stable s' = keeps" using patient_reach_stable [OF reach_trans [OF sched_reach [OF assms(3)] assms(1)]] .
  then have "unfaulted s'" using assms(7) by (simp add: unfaulted_def)
  from counted_sched [OF assms(3) _ this, of "length (pushed_values es)"] assms(6)
  have run: "sched counted_step cs (length (pushed_values es), s) = Some ((length (pushed_values (es @ es')), s'), es')" and ok: "unfaulted s" by auto
  have "length (pushed_values es) < 2 ^ 64" using assms(6) by simp
  from classic_progresses.reach_inv [OF counted_reach [OF assms(1) this ok]]
  have inv: "classic_progress (length (pushed_values es), s)" .
  have "(card T * 11 + 1) * (card T * 3 + 1 + 1) < length cs" using assms(5) by (simp add: mult.commute)
  from classic_lock_free.some_operation_returns [OF assms(2) inv run assms(4) this]
  show "\<exists>t r. Return t r \<in> set es'" by (metis is_return.elims(2))
  fix t
  assume "cq_pc s t \<noteq> CIdle"
  moreover have "cq_pc s t \<noteq> CFault f" for f using inv cq_sim_no_fault unfolding classic_progress_def by blast
  ultimately show "\<exists>s' e. patient_step (ClassicGo t) s = Some (s', e)" by (cases "cq_pc s t") (auto simp: classic_go_def)
qed

text \<open>Eleven pops of one thread from an empty queue; each leaves the state as it was.\<close>

definition classic_empty_pop :: "nat classic_choice list" where
  "classic_empty_pop = CallClassicPop 1 # replicate 5 (ClassicGo 1)"

lemma classic_empty_pop_run:
  "sched patient_step classic_empty_pop (init_classic True 0) = Some (init_classic True 0, [Invoke 1 OpPop, Return 1 (Popped None)])"
  by (simp add: classic_empty_pop_def eval_nat_numeral init_classic_def classic_go_def CPop_head_def CPop_tail_def CPop_next_def
      CPop_check_def on_classic_def cset_def fun_eq_iff)

lemma empty_pops_push_nothing: "pushed_values (concat (replicate n [Invoke t OpPop, Return t (Popped None)])) = []"
  by (induction n) simp_all

theorem classic_ms_queue_lock_free_witness:
  "\<exists>es' t r. sched patient_step (concat (replicate 11 classic_empty_pop)) (init_classic True 0) = Some (init_classic True 0, es') \<and>
     Return t r \<in> set es'"
proof -
  let ?es = "concat (replicate 11 [Invoke 1 OpPop, Return 1 (Popped None)]) :: nat queue_event list"
  have acts: "\<forall>c\<in>set (concat (replicate 11 classic_empty_pop)). \<exists>t\<in>{1}. classic_acts c = Some t" by (auto simp: classic_empty_pop_def)
  have long: "(11 * card {1 :: tid} + 1) * (3 * card {1 :: tid} + 2) < length (concat (replicate 11 classic_empty_pop))"
    by (simp add: classic_empty_pop_def length_concat comp_def sum_list_replicate)
  have few: "length (pushed_values ([] @ ?es)) < 2 ^ 64" by (simp only: append_Nil empty_pops_push_nothing) simp
  from classic_ms_queue_lock_free [OF reach_init _ sched_replicate [OF classic_empty_pop_run] acts long few]
    sched_replicate [OF classic_empty_pop_run, of 11] show ?thesis by blast
qed

end
