(* ===== verification/Pool_Progress.thy ===== *)
theory Pool_Progress
  imports Intrusive_Pool
begin

text \<open>
  Progress of the workers of \<^verbatim>\<open>src/executor/pool/intrusive_pool.cpp\<close>.

  A worker in its loop is never blocked, and its own steps bring it through the tasks ahead of it whatever the other threads do: a
  round that takes a task is four steps long. The bound is in the steps of that one worker; it needs no fairness between the workers.
  A worker that has found the list empty may leave at a shutdown, so its last test is excluded once the shutdown has begun.
\<close>

text \<open>The steps to the next \<open>Pop\<close> of a worker in its loop.\<close>

fun to_pop :: "pool_pc \<Rightarrow> nat option" where
  "to_pop WorkPop = Some 0"
| "to_pop (WorkRun a) = Some 3"
| "to_pop WorkRemove = Some 2"
| "to_pop WorkNotify = Some 1"
| "to_pop WorkShut = Some 1"
| "to_pop _ = None"

definition stays :: "tid \<Rightarrow> pool \<Rightarrow> pool \<Rightarrow> bool" where
  "stays w s s' \<longleftrightarrow> pl_pc s w \<noteq> WorkShut \<or> \<not> IsShutdown (pl_sd s')"

lemma notify_pc:
  "to_pop (pl_pc s w) \<noteq> None \<Longrightarrow> pl_pc (NotifyAll s) w = pl_pc s w"
  "to_pop (pl_pc s w) \<noteq> None \<Longrightarrow> pl_pc (notify_exit s) w = pl_pc s w"
  by (auto simp: NotifyAll_def notify_exit_def goto_def split: option.splits)

lemma shutdown_stays: "pool_step c s = Some (s', e) \<Longrightarrow> IsShutdown (pl_sd s) \<Longrightarrow> IsShutdown (pl_sd s')"
  by (cases c) (auto simp: pool_go_def pool_ops PoolSubmit_push_def Worker_pop_def IsShutdown_def AddTask_def RemoveTask_def StartShutdown_def
      split: if_splits pool_pc.splits sum.splits option.splits)

lemma shutdown_stays_sched: "sched pool_step cs s = Some (s', es) \<Longrightarrow> IsShutdown (pl_sd s) \<Longrightarrow> IsShutdown (pl_sd s')"
  by (induction cs arbitrary: s es) (auto split: option.splits, blast dest: shutdown_stays)

lemma other_worker:
  assumes "pool_step c s = Some (s', e)" and "c \<noteq> PoolGo w" and "to_pop (pl_pc s w) \<noteq> None"
  shows "pl_pc s' w = pl_pc s w"
proof (cases c)
  case (PoolGo t)
  with assms have "t \<noteq> w" by auto
  with PoolGo assms(1) notify_pc [OF assms(3)] show ?thesis
    by (auto simp: pool_go_def pool_ops PoolSubmit_push_def Worker_pop_def goto_def
        split: if_splits pool_pc.splits sum.splits option.splits)
qed (use assms in \<open>auto simp: pool_ops goto_def split: if_splits\<close>)

lemma worker_enabled: "to_pop (pl_pc s w) \<noteq> None \<Longrightarrow> pool_step (PoolGo w) s \<noteq> None"
  by (cases "pl_pc s w") (auto simp: pool_go_def)

lemma worker_round:
  assumes inv: "pool_inv es s" and st: "pool_step (PoolGo w) s = Some (s', e)" and pc: "to_pop (pl_pc s w) = Some r"
    and items: "pool_items s \<noteq> []" and "stays w s s'"
  obtains r' where "to_pop (pl_pc s' w) = Some r'" "pl_pc s' w \<noteq> WorkShut"
    "if pl_pc s w = WorkPop then r' = 3 \<and> length (pool_started e) = 1 else r' < r"
proof (cases "pl_pc s w")
  case WorkPop
  have "il_inv (pl_links s) (pl_tasks s)" using inv by (simp add: pool_inv_def pool_list_inv_def)
  from Pop_items [OF this] items obtain a l where "Pop (pl_links s) (pl_tasks s) = Inr (l, Some a)" by auto
  with st WorkPop that [of 3] show ?thesis by (auto simp: pool_go_def Worker_pop_def goto_def)
next
  case (WorkRun a)
  with st pc that [of 2] show ?thesis by (auto simp: pool_go_def goto_def)
next
  case WorkRemove
  with st pc that [of 1] show ?thesis by (auto simp: pool_go_def goto_def Worker_remove_def)
next
  case WorkNotify
  with st pc that [of 0] show ?thesis by (auto simp: pool_go_def goto_def)
next
  case WorkShut
  moreover from this assms(5) st have "\<not> IsShutdown (pl_sd s)" by (auto simp: stays_def pool_go_def Worker_shut_def)
  ultimately show ?thesis using st pc that [of 0] by (auto simp: pool_go_def goto_def Worker_shut_def)
qed (use pc in auto)

text \<open>The tasks among the first \<open>n\<close> that have not been started; the steps of the worker until they are.\<close>

definition behind_by :: "nat \<Rightarrow> pool_event list \<Rightarrow> nat" where
  "behind_by n es = n - length (pool_started es)"

lemma worker_catches_up:
  "pool_inv es s \<Longrightarrow> n \<le> length (pool_queued es) \<Longrightarrow> to_pop (pl_pc s w) = Some r \<Longrightarrow> sched pool_step cs s = Some (s', es') \<Longrightarrow>
   stays w s s' \<Longrightarrow> 4 * behind_by n es + r \<le> count_list cs (PoolGo w) \<Longrightarrow> n \<le> length (pool_started (es @ es'))"
proof (induction cs arbitrary: es s r es')
  case Nil
  then show ?case by (simp add: behind_by_def)
next
  case (Cons c cs)
  from Cons.prems(4) obtain s1 e es1 where s1: "pool_step c s = Some (s1, e)" "sched pool_step cs s1 = Some (s', es1)" "es' = e @ es1"
    by (auto split: option.splits prod.splits)
  have inv1: "pool_inv (es @ e) s1" using pool_inv_step [OF Cons.prems(1) s1(1)] .
  have n1: "n \<le> length (pool_queued (es @ e))" using Cons.prems(2) by simp
  show ?case
  proof (cases "behind_by n es = 0")
    case True
    then show ?thesis by (simp add: behind_by_def)
  next
    case False
    have shut: "IsShutdown (pl_sd s1) \<longrightarrow> IsShutdown (pl_sd s')" using shutdown_stays_sched [OF s1(2)] by blast
    then have stays: "stays w s s1" using Cons.prems(5) by (auto simp: stays_def)
    show ?thesis
    proof (cases "c = PoolGo w")
      case own: True
      have "pool_queued es = pool_started es @ pool_items s" using Cons.prems(1) by (simp add: pool_inv_def pool_list_inv_def)
      with False Cons.prems(2) have items: "pool_items s \<noteq> []" by (auto simp: behind_by_def)
      obtain r' where r': "to_pop (pl_pc s1 w) = Some r'" "pl_pc s1 w \<noteq> WorkShut"
        "if pl_pc s w = WorkPop then r' = 3 \<and> length (pool_started e) = 1 else r' < r"
        using worker_round [OF Cons.prems(1) s1(1) [unfolded own] Cons.prems(3) items stays] by blast
      have "4 * behind_by n (es @ e) + r' < 4 * behind_by n es + r"
        using r'(3) False by (auto simp: behind_by_def split: if_splits)
      with Cons.prems(6) own have "4 * behind_by n (es @ e) + r' \<le> count_list cs (PoolGo w)" by simp
      from Cons.IH [OF inv1 n1 r'(1) s1(2) _ this] r'(2) show ?thesis by (simp add: stays_def s1(3))
    next
      case other: False
      have pc: "pl_pc s1 w = pl_pc s w" using other_worker [OF s1(1) other] Cons.prems(3) by simp
      have "4 * behind_by n (es @ e) + r \<le> count_list cs (PoolGo w)" using Cons.prems(6) other by (simp add: behind_by_def)
      from Cons.IH [OF inv1 n1 _ s1(2) _ this] Cons.prems(3,5) pc show ?thesis by (simp add: stays_def s1(3))
    qed
  qed
qed

subsection \<open>Properties\<close>

text \<open>
  C16: a worker of \<open>IntrusiveThreadPool\<close> is never blocked in its loop, and any single one of them sees to it that the queued tasks
  are run. Whatever state the pool has been brought to and whatever the other threads do meanwhile, once some worker has made
  \<open>4 * k + 3\<close> steps every task that was in the list, \<open>k\<close> in all, has been started, in the order of submission, except if
  the worker has just found the list empty and the pool is shut down before it looks again.
\<close>

theorem intrusive_pool_progress:
  assumes "reach pool_step (init_pool n h) es s" and "to_pop (pl_pc s w) \<noteq> None"
    and "sched pool_step cs s = Some (s', es')" and "pl_pc s w \<noteq> WorkShut \<or> \<not> IsShutdown (pl_sd s')"
    and "4 * length (pool_items s) + 3 \<le> count_list cs (PoolGo w)"
  shows "(\<exists>later. pool_started (es @ es') = pool_queued es @ later) \<and> pool_step (PoolGo w) s \<noteq> None"
proof
  have inv: "pool_inv es s" using pools.reach_inv [OF assms(1)] .
  then have q: "pool_queued es = pool_started es @ pool_items s" by (simp add: pool_inv_def pool_list_inv_def)
  obtain r where r: "to_pop (pl_pc s w) = Some r" using assms(2) by auto
  have "r \<le> 3" using r by (cases "pl_pc s w") auto
  then have "4 * behind_by (length (pool_queued es)) es + r \<le> count_list cs (PoolGo w)" using assms(5) q by (simp add: behind_by_def)
  from worker_catches_up [OF inv order_refl r assms(3) _ this] assms(4)
  have len: "length (pool_queued es) \<le> length (pool_started (es @ es'))" by (simp add: stays_def)
  have "pool_inv (es @ es') s'" using pools.reach_inv [OF reach_trans [OF sched_reach [OF assms(3)] assms(1)]] .
  then have "pool_queued es @ pool_queued es' = pool_started (es @ es') @ pool_items s'" by (simp add: pool_inv_def pool_list_inv_def)
  from arg_cong [OF this, of "take (length (pool_queued es))"] len
  have "pool_queued es = take (length (pool_queued es)) (pool_started (es @ es'))" by simp
  then show "\<exists>later. pool_started (es @ es') = pool_queued es @ later" by (metis append_take_drop_id)
qed (use worker_enabled [OF assms(2)] in blast)

theorem intrusive_pool_progress_witness:
  "\<exists>es s cs s' es'. reach pool_step (init_pool 1 (\<lambda>_. None)) es s \<and> pool_items s = [5, 6] \<and> sched pool_step cs s = Some (s', es') \<and>
     (\<exists>later. pool_started (es @ es') = [5, 6] @ later)"
proof -
  let ?fill = "Spawn 1 # PoolSubmit 2 5 # replicate 3 (PoolGo 2) @ PoolSubmit 2 6 # replicate 3 (PoolGo 2)" and ?go = "replicate 11 (PoolGo 1)"
  have "run_ok pool_step ?fill (init_pool 1 (\<lambda>_. None)) (\<lambda>es s. pl_pc s 1 = WorkPop \<and> pool_queued es = [5, 6] \<and> pool_started es = [] \<and>
     run_ok pool_step ?go s (\<lambda>es' s'. True))"
    by code_simp
  then obtain es s where s: "reach pool_step (init_pool 1 (\<lambda>_. None)) es s" "pl_pc s 1 = WorkPop" "pool_queued es = [5, 6]"
    "pool_started es = []" and run: "run_ok pool_step ?go s (\<lambda>es' s'. True)" by (elim run_okE) blast
  from run obtain es' s' where go: "sched pool_step ?go s = Some (s', es')" by (elim run_okE) blast
  have items: "pool_items s = [5, 6]" using pools.reach_inv [OF s(1)] s(3,4) by (simp add: pool_inv_def pool_list_inv_def)
  have "4 * length (pool_items s) + 3 \<le> count_list ?go (PoolGo 1)" by (simp add: items eval_nat_numeral)
  from intrusive_pool_progress [OF s(1) _ go _ this] s(2,3) have "\<exists>later. pool_started (es @ es') = [5, 6] @ later" by simp
  with s(1) items go show ?thesis by blast
qed

end
