(* ===== verification/Distributed_Progress.thy ===== *)
theory Distributed_Progress
  imports Distributed_Idle
begin

text \<open>
  Progress of the workers of the distributed pool (\<^verbatim>\<open>src/executor/pool/internal/worker.cpp\<close>).

  A worker owns its local queue: nobody else takes tasks from it. Its own rounds therefore bring it through the tasks that are queued there, whatever
  the other threads do; a round that takes a task is four steps long, and at most eleven steps lead back to the queue from anywhere in \<open>Process\<close>
  and \<open>Loop\<close>. The global queue has no such guarantee, as a worker looks at it only when its local queue is empty.
\<close>

subsection \<open>The rounds of a worker\<close>

fun to_local :: "loop_pc \<Rightarrow> nat" where
  "to_local WLocal = 0"
| "to_local WNotify = 1"
| "to_local WReturn = 2"
| "to_local WRemove = 2"
| "to_local (WRun a) = 3"
| "to_local (LResume r) = 2"
| "to_local (LSleep r) = 3"
| "to_local (LShut r) = 4"
| "to_local (LClose1 r) = 5"
| "to_local WAddSuspended = 6"
| "to_local WShut = 7"
| "to_local WCmp = 8"
| "to_local WDec = 9"
| "to_local WClose1 = 10"
| "to_local WGlobal = 11"
| "to_local _ = 0"

text \<open>The steps of the loop of a worker, and the end of the task it runs; the calls a task makes are not counted.\<close>

fun own_turn :: "nat \<Rightarrow> dp_choice \<Rightarrow> bool" where
  "own_turn w (LoopGo v b) \<longleftrightarrow> v = w"
| "own_turn w (TaskStops v) \<longleftrightarrow> v = w"
| "own_turn w (TaskCompletes v) \<longleftrightarrow> v = w"
| "own_turn w _ \<longleftrightarrow> False"

definition turns :: "nat \<Rightarrow> dp_choice list \<Rightarrow> nat" where
  "turns w cs = length (filter (own_turn w) cs)"

fun started_by :: "nat \<Rightarrow> dp_event list \<Rightarrow> addr list" where
  "started_by w [] = []"
| "started_by w (Started v a # es) = (if v = w then a # started_by w es else started_by w es)"
| "started_by w (_ # es) = started_by w es"

lemma started_by_append [simp]: "started_by w (es @ fs) = started_by w es @ started_by w fs"
  by (induction w es rule: started_by.induct) auto

lemma call_local:
  assumes "call_go t s = Some s'"
  shows "dp_loop s' = dp_loop s \<and> (\<exists>ys. dp_local s' w = dp_local s w @ ys)"
  using assms
  by (cases "dp_call s t") (auto simp: call_go_def Submit_add_def Submit_progress_def Submit_route_def Submit_global_def Push_local_def
      Push_store_def Push_wake_def smph_release_def cgo_def split: sum.splits)

lemma loop_local:
  assumes "loop_go v b s = Some (s', e)" and "v \<noteq> w"
  shows "dp_loop s' w = dp_loop s w \<and> dp_local s' w = dp_local s w \<and> started_by w e = []"
  using assms
  by (cases "dp_loop s v") (auto simp: loop_go_def Process_local_def Process_global_def Process_decrease_def Loop_sleep_def lgo_def cgo_def split: list.splits)

lemma ctl_local: "ctl_go s = Some s' \<Longrightarrow> dp_loop s' = dp_loop s \<and> dp_local s' = dp_local s"
  by (auto simp: ctl_go_def smph_release_def split: ctl_pc.splits if_splits)

lemma other_turn:
  assumes "dp_step c s = Some (s', e)" and "\<not> own_turn w c" and "dp_loop s w \<noteq> WNew"
  shows "dp_loop s' w = dp_loop s w \<and> (\<exists>ys. dp_local s' w = dp_local s w @ ys) \<and> started_by w e = []"
proof (cases c)
  case (LoopGo v b)
  with assms loop_local [of v b s s' e w] show ?thesis by (auto split: if_splits)
next
  case (CallGo t)
  with assms show ?thesis by (auto dest: call_local [where w = w])
next
  case CtlGo
  with assms show ?thesis by (auto dest: ctl_local)
qed (use assms in \<open>auto simp: Submit_state_def cgo_def lgo_def split: if_splits loop_pc.splits\<close>)

lemma own_round:
  assumes st: "dp_step c s = Some (s', e)" and "own_turn w c" and "before_shutdown (dp_loop s w)" "dp_loop s w \<noteq> WNew" "\<not> IsShutdown (dp_sd s)"
    and "dp_local s w \<noteq> []"
  shows "dp_loop s' w \<noteq> WNew \<and>
    (if dp_loop s w = WLocal then to_local (dp_loop s' w) = 3 \<and> dp_local s w = started_by w e @ dp_local s' w \<and> length (started_by w e) = 1
     else to_local (dp_loop s' w) < to_local (dp_loop s w) \<and> dp_local s' w = dp_local s w \<and> started_by w e = [])"
proof (cases c)
  case (LoopGo v b)
  with assms show ?thesis
    by (cases "dp_loop s w") (auto simp: loop_go_def Process_local_def Process_global_def Process_decrease_def Loop_sleep_def lgo_def cgo_def
        split: list.splits if_splits)
qed (use assms in \<open>auto simp: lgo_def split: if_splits loop_pc.splits\<close>)

lemma dp_shutdown_mono: "dp_step c s = Some (s', e) \<Longrightarrow> IsShutdown (dp_sd s) \<Longrightarrow> IsShutdown (dp_sd s')"
proof (cases c)
  case (LoopGo w b)
  then show "dp_step c s = Some (s', e) \<Longrightarrow> IsShutdown (dp_sd s) \<Longrightarrow> IsShutdown (dp_sd s')"
    by (cases "dp_loop s w") (auto simp: loop_go_def Process_local_def Process_global_def Process_decrease_def Loop_sleep_def sd_ops cgo_def lgo_def
        split: list.splits if_splits)
next
  case (CallGo t)
  then show "dp_step c s = Some (s', e) \<Longrightarrow> IsShutdown (dp_sd s) \<Longrightarrow> IsShutdown (dp_sd s')"
    by (cases "dp_call s t") (auto simp: call_go_def Submit_add_def Submit_progress_def Submit_route_def Submit_global_def Push_local_def
      Push_store_def Push_wake_def smph_release_def cgo_def sd_ops split: sum.splits)
qed (auto simp: ctl_go_def smph_release_def Submit_state_def sd_ops cgo_def lgo_def split: if_splits ctl_pc.splits loop_pc.splits)

lemma dp_shutdown_sched: "sched dp_step cs s = Some (s', es) \<Longrightarrow> IsShutdown (dp_sd s) \<Longrightarrow> IsShutdown (dp_sd s')"
  by (induction cs arbitrary: s es) (auto split: option.splits, blast dest: dp_shutdown_mono)

lemma worker_drains:
  "open_inv s \<Longrightarrow> dp_loop s w \<noteq> WNew \<Longrightarrow> dp_local s w = xs @ zs \<Longrightarrow> sched dp_step cs s = Some (s', es') \<Longrightarrow> \<not> IsShutdown (dp_sd s') \<Longrightarrow>
   4 * length xs + to_local (dp_loop s w) \<le> turns w cs \<Longrightarrow> \<exists>later. started_by w es' = xs @ later"
proof (induction cs arbitrary: s xs zs es')
  case Nil
  then show ?case by (simp add: turns_def)
next
  case (Cons c cs)
  from Cons.prems(4) obtain s1 e es1 where s1: "dp_step c s = Some (s1, e)" "sched dp_step cs s1 = Some (s', es1)" "es' = e @ es1"
    by (auto split: option.splits prod.splits)
  have inv1: "open_inv s1" using open_inv_step [OF Cons.prems(1) s1(1)] .
  have open1: "\<not> IsShutdown (dp_sd s1)" using dp_shutdown_sched [OF s1(2)] Cons.prems(5) by blast
  then have "\<not> IsShutdown (dp_sd s)" using dp_shutdown_mono [OF s1(1)] by blast
  then have bs: "\<not> IsShutdown (dp_sd s)" "before_shutdown (dp_loop s w)" using Cons.prems(1) by (auto simp: open_inv_def)
  show ?case
  proof (cases "xs = []")
    case True
    then show ?thesis by simp
  next
    case False
    show ?thesis
    proof (cases "own_turn w c")
      case own: True
      have R: "dp_loop s1 w \<noteq> WNew" "if dp_loop s w = WLocal then to_local (dp_loop s1 w) = 3 \<and> dp_local s w = started_by w e @ dp_local s1 w \<and> length (started_by w e) = 1
        else to_local (dp_loop s1 w) < to_local (dp_loop s w) \<and> dp_local s1 w = dp_local s w \<and> started_by w e = []"
        using own_round [OF s1(1) own bs(2) Cons.prems(2) bs(1)] False Cons.prems(3) by auto
      show ?thesis
      proof (cases "dp_loop s w = WLocal")
        case True
        with R obtain a where a: "started_by w e = [a]" "dp_local s w = a # dp_local s1 w" by (auto simp: length_Suc_conv)
        then obtain ys where ys: "xs = a # ys" "dp_local s1 w = ys @ zs" using False Cons.prems(3) by (cases xs) auto
        have "4 * length ys + to_local (dp_loop s1 w) \<le> turns w cs" using Cons.prems(6) own R(2) True ys(1) by (simp add: turns_def)
        from Cons.IH [OF inv1 R(1) ys(2) s1(2) Cons.prems(5) this] s1(3) a(1) ys(1) show ?thesis by simp
      next
        case notlocal: False
        with R have r: "to_local (dp_loop s1 w) < to_local (dp_loop s w)" "dp_local s1 w = xs @ zs" "started_by w e = []"
          using Cons.prems(3) by auto
        have "4 * length xs + to_local (dp_loop s1 w) \<le> turns w cs" using Cons.prems(6) own r(1) by (simp add: turns_def)
        from Cons.IH [OF inv1 R(1) r(2) s1(2) Cons.prems(5) this] s1(3) r(3) show ?thesis by simp
      qed
    next
      case other: False
      from other_turn [OF s1(1) other Cons.prems(2)] obtain ys where
        o: "dp_loop s1 w = dp_loop s w" "dp_local s1 w = xs @ (zs @ ys)" "started_by w e = []" using Cons.prems(3) by auto
      have "4 * length xs + to_local (dp_loop s1 w) \<le> turns w cs" using Cons.prems(6) other o(1) by (simp add: turns_def)
      from Cons.IH [OF inv1 _ o(2) s1(2) Cons.prems(5) this] Cons.prems(2) o(1,3) s1(3) show ?thesis by simp
    qed
  qed
qed

lemma to_local_le: "to_local p \<le> 11"
  by (cases p) auto

lemma worker_turn_enabled:
  assumes "before_shutdown (dp_loop s w)" and "dp_loop s w \<noteq> WNew" and "dp_call s w = NoCall"
  shows "dp_step (LoopGo w b) s \<noteq> None \<or> dp_step (TaskCompletes w) s \<noteq> None"
  using assms by (cases "dp_loop s w") (auto simp: loop_go_def)

subsection \<open>A task that yields\<close>

text \<open>The only worker runs task \<open>1\<close>, and task \<open>2\<close> is in the global queue.\<close>

definition hogged :: "dpool \<Rightarrow> bool" where
  "hogged s \<longleftrightarrow> dp_workers s = 1 \<and> dp_loop s 0 = WRun 1 \<and> dp_call s 0 = NoCall \<and> dp_local s 0 = [] \<and> dp_global s = [2] \<and>
     tb_state (dp_task s 1) = RUNNING \<and> tb_worker (dp_task s 1) = Some 0"

text \<open>The task stops and is submitted again at once, as a fiber does in \<open>Yield\<close>.\<close>

definition yield_round :: "dp_choice list" where
  "yield_round = [TaskStops 0, CallSubmit 0 1] @ replicate 5 (CallGo 0) @ replicate 3 (LoopGo 0 False)"

lemma yield_round_hogs:
  assumes "hogged s"
  shows "\<exists>s'. sched dp_step yield_round s = Some (s', [HasStopped 0 1, Submitted 1, Started 0 1]) \<and> hogged s'"
  using assms
  by (simp add: hogged_def yield_round_def eval_nat_numeral may_call_def Submit_state_def GetState_def call_go_def Submit_route_def GetWorker_def
      Push_local_def Push_store_def Push_wake_def smph_release_def loop_go_def Process_local_def SetWorker_def cgo_def lgo_def)

lemma yield_rounds_hog:
  "hogged s \<Longrightarrow> \<exists>s' es. sched dp_step (concat (replicate k yield_round)) s = Some (s', es) \<and> started_by 0 es = replicate k 1 \<and> hogged s'"
proof (induction k arbitrary: s)
  case 0
  then show ?case by simp
next
  case (Suc k)
  obtain s1 where s1: "sched dp_step yield_round s = Some (s1, [HasStopped 0 1, Submitted 1, Started 0 1])" "hogged s1"
    using yield_round_hogs [OF Suc.prems] by blast
  from Suc.IH [OF s1(2)] s1(1) show ?case by (auto simp: sched_append)
qed

subsection \<open>Properties\<close>

text \<open>
  C17: a worker of \<open>DistributedPool\<close> runs what is in its local queue, as long as the pool is not shut down. Whatever state the
  pool has been brought to and whatever the other threads do meanwhile, once the worker has taken \<open>4 * k + 11\<close> turns the \<open>k\<close> tasks of
  its queue have been started, by it and in their order; and a worker that is neither in a call nor running a task can take its turn.
\<close>

theorem distributed_pool_progress:
  assumes "reach dp_step (init_dpool n) es s" and "dp_loop s w \<noteq> WNew"
    and "sched dp_step cs s = Some (s', es')" and "\<not> IsShutdown (dp_sd s')"
    and "4 * length (dp_local s w) + 11 \<le> turns w cs"
  shows "(\<exists>later. started_by w es' = dp_local s w @ later) \<and>
    (dp_call s w = NoCall \<longrightarrow> dp_step (LoopGo w b) s \<noteq> None \<or> dp_step (TaskCompletes w) s \<noteq> None)"
proof (intro conjI impI)
  have inv: "open_inv s" using pool_open [OF assms(1)] .
  have "4 * length (dp_local s w) + to_local (dp_loop s w) \<le> turns w cs" using assms(5) to_local_le [of "dp_loop s w"] by linarith
  from worker_drains [OF inv assms(2) _ assms(3,4) this, of "[]"] show "\<exists>later. started_by w es' = dp_local s w @ later" by simp
  have "\<not> IsShutdown (dp_sd s)" using dp_shutdown_sched [OF assms(3)] assms(4) by blast
  then have "before_shutdown (dp_loop s w)" using inv by (auto simp: open_inv_def)
  moreover assume "dp_call s w = NoCall"
  ultimately show "dp_step (LoopGo w b) s \<noteq> None \<or> dp_step (TaskCompletes w) s \<noteq> None" using worker_turn_enabled assms(2) by blast
qed

definition one_queued :: "dp_choice list" where
  "one_queued = [StartWorker 0, CallSubmit 5 1] @ replicate 4 (CallGo 5) @ replicate 2 (LoopGo 0 False) @ replicate 4 (CallGo 0)"

theorem distributed_pool_progress_witness:
  "\<exists>es s cs s' es'. reach dp_step (init_dpool 1) es s \<and> dp_local s 0 = [1] \<and> sched dp_step cs s = Some (s', es') \<and>
     (\<exists>later. started_by 0 es' = [1] @ later)"
proof -
  let ?go = "replicate 2 (LoopGo 0 False) @ [TaskCompletes 0] @ replicate 13 (LoopGo 0 False)"
  have "run_ok dp_step one_queued (init_dpool 1) (\<lambda>es s. dp_loop s 0 = WNotify \<and> dp_local s 0 = [1] \<and>
     run_ok dp_step ?go s (\<lambda>es' s'. \<not> IsShutdown (dp_sd s')))"
    by code_simp
  then obtain es s where s: "reach dp_step (init_dpool 1) es s" "dp_loop s 0 = WNotify" "dp_local s 0 = [1]"
    and run: "run_ok dp_step ?go s (\<lambda>es' s'. \<not> IsShutdown (dp_sd s'))" by (elim run_okE) blast
  from run obtain es' s' where go: "sched dp_step ?go s = Some (s', es')" "\<not> IsShutdown (dp_sd s')" by (elim run_okE) blast
  have "4 * length (dp_local s 0) + 11 \<le> turns 0 ?go" by (simp add: s(3) turns_def)
  from distributed_pool_progress [OF s(1) _ go this] s(2,3) have "\<exists>later. started_by 0 es' = [1] @ later" by simp
  with s(1,3) go(1) show ?thesis by blast
qed

text \<open>
  The global queue of \<open>DistributedPool\<close> can starve. A task that stops and is submitted again, as a fiber that
  yields, goes back to the local queue of its worker, which looks at the global queue only when the local one is empty: with one worker and one
  such task, a task in the global queue is not started in any number of rounds.
\<close>

lemma distributed_pool_starvation:
  "\<exists>es s. reach dp_step (init_dpool 1) es s \<and> dp_global s = [2] \<and>
     (\<forall>k. \<exists>s' es'. sched dp_step (concat (replicate k yield_round)) s = Some (s', es') \<and> started_by 0 es' = replicate k 1 \<and> dp_global s' = [2])"
proof -
  have "run_ok dp_step (one_queued @ replicate 2 (LoopGo 0 False) @ [CallSubmit 5 2] @ replicate 4 (CallGo 5)) (init_dpool 1) (\<lambda>es s. hogged s)"
    by code_simp
  then obtain es s where s: "reach dp_step (init_dpool 1) es s" "hogged s" by (elim run_okE) blast
  have "dp_global s = [2]" using s(2) by (simp add: hogged_def)
  moreover have "\<exists>s' es'. sched dp_step (concat (replicate k yield_round)) s = Some (s', es') \<and> started_by 0 es' = replicate k 1 \<and> dp_global s' = [2]" for k
    using yield_rounds_hog [OF s(2), of k] by (auto simp: hogged_def)
  ultimately show ?thesis using s(1) by blast
qed

end
