(* ===== verification/Current_Pool.thy ===== *)
theory Current_Pool
  imports Pool_Progress Distributed_Progress
begin

text \<open>
  The thread-local pointers \<open>CurrentPool\<close> behind \<open>IntrusiveThreadPool::Current\<close> (\<^verbatim>\<open>src/executor/pool/intrusive_pool.cpp\<close>) and \<open>DistributedPool::Current\<close>
  (\<^verbatim>\<open>src/executor/pool/internal/worker.cpp\<close>), one variable for each class.

  A worker of the first pool assigns it when its thread starts, a worker of the second at the head of every round of \<open>Process\<close>. The machine of a
  pool is run together with the values of the variable in its threads (\<open>with_current\<close>); a step that makes the assignment
  is named by \<open>assigns\<close>. Other pools have other threads, so their workers do not touch these values.

  The locale shows, for any pool whose threads assign before they work, that a working thread finds its pool and that a thread that never belonged to
  the pool finds a null pointer; it is interpreted on both pools.
\<close>

type_synonym 's with_current = "'s \<times> (tid \<Rightarrow> ptr)"

definition Current :: "'s with_current \<Rightarrow> tid \<Rightarrow> ptr" where
  "Current x t = snd x t"

definition init_current :: "'s \<Rightarrow> 's with_current" where
  "init_current s = (s, \<lambda>_. None)"

definition current_step :: "('c, 's, 'e) stepper \<Rightarrow> ('c \<Rightarrow> 's \<Rightarrow> tid option) \<Rightarrow> addr \<Rightarrow> ('c, 's with_current, 'e) stepper" where
  "current_step step assigns self c x =
     (case step c (fst x) of
        None \<Rightarrow> None
      | Some (s', e) \<Rightarrow>
          Some ((s', case assigns c (fst x) of None \<Rightarrow> snd x | Some t \<Rightarrow> (snd x)(t := Some self)), e))"

text \<open>\<open>CurrentPool = this\<close> in the thread that \<open>Start\<close> creates; \<open>CurrentPool = ex\<close> in \<open>Process\<close>.\<close>

fun pool_assigns :: "pool_choice \<Rightarrow> pool \<Rightarrow> tid option" where
  "pool_assigns (Spawn t) s = Some t"
| "pool_assigns c s = None"

fun worker_assigns :: "dp_choice \<Rightarrow> dpool \<Rightarrow> tid option" where
  "worker_assigns (StartWorker w) s = Some w"
| "worker_assigns (LoopGo w b) s = (if dp_loop s w = WNotify then Some w else None)"
| "worker_assigns c s = None"

locale thread_local =
  fixes step :: "('c, 's, 'e) stepper"
    and s0 :: 's
    and assigns :: "'c \<Rightarrow> 's \<Rightarrow> tid option"
    and works :: "'s \<Rightarrow> tid \<Rightarrow> bool"
    and foreign :: "'s \<Rightarrow> tid \<Rightarrow> bool"
  assumes none_works: "\<not> works s0 t"
    and assigned_first: "step c s = Some (s', e) \<Longrightarrow> works s' t \<Longrightarrow> works s t \<or> assigns c s = Some t"
    and foreign_before: "step c s = Some (s', e) \<Longrightarrow> foreign s' t \<Longrightarrow> foreign s t \<and> assigns c s \<noteq> Some t"
begin

lemma current_reach:
  assumes "reach (current_step step assigns self) (init_current s0) es x"
  shows "(works (fst x) t \<longrightarrow> Current x t = Some self) \<and> (foreign (fst x) t \<longrightarrow> Current x t = None) \<and> reach step s0 es (fst x)"
  using assms
proof (induction rule: reach.induct)
  case reach_init
  show ?case using none_works by (simp add: init_current_def Current_def reach.reach_init)
next
  case (reach_step es x c x' e)
  then obtain s' where st: "step c (fst x) = Some (s', e)" "fst x' = s'"
    and cur: "snd x' = (case assigns c (fst x) of None \<Rightarrow> snd x | Some u \<Rightarrow> (snd x)(u := Some self))"
    by (auto simp: current_step_def split: option.splits)
  from reach_step.IH have "reach step s0 (es @ e) (fst x')" using st by (auto intro: reach.reach_step)
  with reach_step.IH assigned_first [OF st(1), of t] foreign_before [OF st(1), of t] cur st(2) show ?case
    by (auto simp: Current_def split: option.splits)
qed

end

lemma notify_to_pop [simp]:
  "to_pop (pl_pc (Intrusive_Pool.NotifyAll s) t) = to_pop (pl_pc s t)" "to_pop (pl_pc (notify_exit s) t) = to_pop (pl_pc s t)"
  by (auto simp: Intrusive_Pool.NotifyAll_def notify_exit_def goto_def split: option.splits)

lemma notify_workers [simp]: "pl_workers (Intrusive_Pool.NotifyAll s) = pl_workers s" "pl_workers (notify_exit s) = pl_workers s"
  by (auto simp: Intrusive_Pool.NotifyAll_def notify_exit_def goto_def split: option.splits)

lemma pool_worker_first:
  assumes "pool_step c s = Some (s', e)" and "to_pop (pl_pc s' t) \<noteq> None"
  shows "to_pop (pl_pc s t) \<noteq> None \<or> pool_assigns c s = Some t"
  using assms
  by (cases c) (auto simp: pool_go_def pool_ops PoolSubmit_push_def Worker_pop_def goto_def
      split: if_splits pool_pc.splits sum.splits option.splits prod.splits)

lemma pool_workers_grow:
  assumes "pool_step c s = Some (s', e)" and "t \<notin> set (pl_workers s')"
  shows "t \<notin> set (pl_workers s) \<and> pool_assigns c s \<noteq> Some t"
  using assms
  by (cases c) (auto simp: pool_go_def pool_ops PoolSubmit_push_def Worker_pop_def goto_def
      split: if_splits pool_pc.splits sum.splits option.splits prod.splits)

interpretation intrusive_current:
  thread_local pool_step "init_pool n h" pool_assigns "\<lambda>s t. to_pop (pl_pc s t) \<noteq> None" "\<lambda>s t. t \<notin> set (pl_workers s)" for n h
  by unfold_locales (use pool_worker_first pool_workers_grow in \<open>simp_all add: init_pool_def\<close>)

lemma dp_loop_new:
  assumes "dp_step c s = Some (s', e)"
  shows "(dp_loop s' w \<noteq> WNew \<longrightarrow> dp_loop s w \<noteq> WNew \<or> worker_assigns c s = Some w) \<and>
    (dp_loop s' w = WNew \<longrightarrow> dp_loop s w = WNew \<and> worker_assigns c s \<noteq> Some w)"
proof (cases "own_turn w c")
  case True
  with assms show ?thesis
    by (cases c; cases "dp_loop s w") (auto simp: loop_go_def Process_local_def Process_global_def Process_decrease_def Loop_sleep_def lgo_def cgo_def
        split: list.splits if_splits)
next
  case False
  with assms show ?thesis
    by (cases c) (auto simp: lgo_def cgo_def Submit_state_def split: if_splits loop_pc.splits
        dest: call_local [where w = w] loop_local [where w = w] ctl_local)
qed

interpretation distributed_current:
  thread_local dp_step "init_dpool n" worker_assigns "\<lambda>s w. dp_loop s w \<noteq> WNew" "\<lambda>s w. dp_loop s w = WNew" for n
proof unfold_locales
qed (use dp_loop_new in \<open>auto simp: init_dpool_def\<close>)

text \<open>
  A task finds the pool that runs it: the thread that runs it on a worker of either pool has the address of the pool in \<open>CurrentPool\<close>. A thread that
  is no worker finds a null pointer there, so \<^verbatim>\<open>*Current()\<close> is for tasks only.\<close>

lemma current_intrusive_pool:
  assumes "reach (current_step pool_step pool_assigns self) (init_current (init_pool n h)) es x"
  shows "pl_pc (fst x) t = WorkRun a \<longrightarrow> Current x t = Some self" "t \<notin> set (pl_workers (fst x)) \<longrightarrow> Current x t = None"
  using intrusive_current.current_reach [OF assms, of t] by auto

lemma current_distributed_pool:
  assumes "reach (current_step dp_step worker_assigns self) (init_current (init_dpool n)) es x"
  shows "dp_loop (fst x) w = WRun a \<longrightarrow> Current x w = Some self" "dp_loop (fst x) t = WNew \<longrightarrow> Current x t = None"
  using distributed_current.current_reach [OF assms, of w] distributed_current.current_reach [OF assms, of t] by auto

end
