(* ===== verification/Executor_Tests.thy ===== *)
theory Executor_Tests
  imports Manual_Executor
begin

text \<open>
  The unit tests of the manual executor (\<^verbatim>\<open>test/executor/test_manual_executor.cpp\<close>) as programs over the model, with their constants as parameters.

  \<open>Looper\<close> submits itself again until its iterations are used up, each time as a new task; the addresses of the tasks are consecutive.
  \<open>LooperManyTasks\<close> submits all its tasks at once and counts. The lemmas say that the assertions of the tests hold for every number of
  iterations and every step, and that the loops end.
\<close>

subsection \<open>The programs\<close>

definition looper_body :: "nat task_body" where
  "looper_body a left = (left - 1, if 0 < left - 1 then [Suc a] else [])"

definition counter_body :: "nat task_body" where
  "counter_body a counter = (Suc counter, [])"

text \<open>\<^verbatim>\<open>do { tasks += manual.RunAtMost(step); } while (manual.NonEmpty());\<close>\<close>

partial_function (option) run_by_steps ::
  "'w task_body \<Rightarrow> size_t \<Rightarrow> size_t \<Rightarrow> 'w \<Rightarrow> manual_executor \<Rightarrow> (fault + (size_t \<times> 'w \<times> manual_executor)) option" where
  "run_by_steps run step tasks w e =
     (case RunAtMost run step w e of
        Inl f \<Rightarrow> Some (Inl f)
      | Inr (n, w', e') \<Rightarrow> if NonEmpty e' then run_by_steps run step (tasks + n) w' e' else Some (Inr (tasks + n, w', e')))"

subsection \<open>Their runs\<close>

lemma looper_fifo:
  "0 < left \<Longrightarrow> fifo_run looper_body m left [a] = Some (if m < left then (m, left - m, [a + m]) else (left, 0, []))"
proof (induction m arbitrary: left a)
  case (Suc m)
  show ?case
  proof (cases "left = 1")
    case True
    then show ?thesis by (cases m) (simp_all add: looper_body_def)
  next
    case False
    with Suc.prems have "0 < left - 1" by simp
    from Suc.IH [OF this, of "Suc a"] this show ?thesis by (auto simp: looper_body_def list_room_def)
  qed
qed simp

lemma counter_fifo: "fifo_run counter_body m c q = Some (min m (length q), c + min m (length q), drop m q)"
proof (induction m arbitrary: c q)
  case (Suc m)
  then show ?case by (cases q) (simp_all add: counter_body_def)
qed simp

text \<open>A loop of steps that each make some tasks disappear, as the specification says, runs them all.\<close>

lemma run_by_steps_ok:
  fixes left :: "'w \<Rightarrow> addr list \<Rightarrow> nat"
  assumes step: "\<And>w q. ok w q \<Longrightarrow> q \<noteq> [] \<Longrightarrow> \<exists>k w' q'. fifo_run run (unat step) w q = Some (k, w', q') \<and> ok w' q' \<and>
      left w q = k + left w' q' \<and> 0 < k"
    and empty: "\<And>w. ok w [] \<Longrightarrow> left w [] = 0"
  shows "ok w (me_queue e) \<Longrightarrow> me_inv e \<Longrightarrow> me_queue e \<noteq> [] \<Longrightarrow>
    \<exists>w' e'. run_by_steps run step tasks w e = Some (Inr (tasks + of_nat (left w (me_queue e)), w', e')) \<and> me_IsEmpty e' \<and> ok w' []"
proof (induction "left w (me_queue e)" arbitrary: tasks w e rule: less_induct)
  case less
  obtain k w1 q1 where k: "fifo_run run (unat step) w (me_queue e) = Some (k, w1, q1)" "ok w1 q1" "left w (me_queue e) = k + left w1 q1" "0 < k"
    using step [OF less.prems(1,3)] by blast
  obtain e1 where e1: "RunAtMost_loop run step 0 w e = Inr (of_nat k, w1, e1)" "me_inv e1" "me_queue e1 = q1"
    using RunAtMost_loop_ok [OF less.prems(2) k(1), of step 0] by auto
  have r: "RunAtMost run step w e = Inr (of_nat k, w1, e1)" using e1(1) by (simp add: RunAtMost_def)
  have cnt: "NonEmpty e1 \<longleftrightarrow> q1 \<noteq> []" using me_count_queue [OF e1(2)] e1(3) by (auto simp: NonEmpty_def me_IsEmpty_def unat_eq_0)
  show ?case
  proof (cases "q1 = []")
    case True
    with k(2,3) empty have "left w (me_queue e) = k" by simp
    with r cnt True k(2) show ?thesis by (subst run_by_steps.simps) (auto simp: NonEmpty_def)
  next
    case False
    have "\<exists>w' e'. run_by_steps run step (tasks + of_nat k) w1 e1 = Some (Inr (tasks + of_nat k + of_nat (left w1 (me_queue e1)), w', e')) \<and> me_IsEmpty e' \<and> ok w' []"
      by (rule less.hyps) (use k e1 False in simp_all)
    with r cnt False k(3) e1(3) show ?thesis by (subst run_by_steps.simps) (simp add: add.assoc)
  qed
qed

subsection \<open>The tests\<close>

text \<open>\<open>RunAtMost1\<close>: whatever the step, the looper makes all its iterations, and their number is returned.\<close>

lemma test_RunAtMost1:
  assumes "me_inv e" and "me_queue e = [a]" and "0 < n" and "0 < step"
  shows "\<exists>e'. run_by_steps looper_body step 0 n e = Some (Inr (of_nat n, 0, e')) \<and> me_IsEmpty e'"
proof -
  let ?ok = "\<lambda>(w :: nat) (q :: addr list). (q = [] \<and> w = 0) \<or> (\<exists>a. q = [a] \<and> 0 < w)"
  have pos: "0 < unat step" using assms(4) by (simp add: unat_gt_0)
  have "\<exists>w' e'. run_by_steps looper_body step 0 n e = Some (Inr (0 + of_nat n, w', e')) \<and> me_IsEmpty e' \<and> ?ok w' []"
  proof (rule run_by_steps_ok [where ok = ?ok and left = "\<lambda>w q. w" and run = looper_body and step = step and tasks = 0 and w = n and e = e])
    fix w :: nat and q
    assume "?ok w q" "q \<noteq> []"
    then show "\<exists>k w' q'. fifo_run looper_body (unat step) w q = Some (k, w', q') \<and> ?ok w' q' \<and> w = k + w' \<and> 0 < k"
      using pos by (auto simp: looper_fifo)
  qed (use assms in auto)
  then show ?thesis by auto
qed

text \<open>\<open>RunAtMost2\<close>: all the tasks of \<open>LooperManyTasks\<close> are run, and each is counted once.\<close>

lemma test_RunAtMost2:
  assumes "me_inv e" and "me_queue e \<noteq> []" and "0 < step"
  shows "\<exists>e'. run_by_steps counter_body step 0 0 e = Some (Inr (of_nat (length (me_queue e)), length (me_queue e), e')) \<and> me_IsEmpty e'"
proof -
  let ?n = "length (me_queue e)"
  let ?ok = "\<lambda>(w :: nat) (q :: addr list). w + length q = ?n"
  have "0 < unat step" using assms(3) by (simp add: unat_gt_0)
  then have "\<exists>w' e'. run_by_steps counter_body step 0 0 e = Some (Inr (0 + of_nat ?n, w', e')) \<and> me_IsEmpty e' \<and> ?ok w' []"
    using run_by_steps_ok [where ok = ?ok and left = "\<lambda>w q. length q" and run = counter_body and step = step and tasks = 0 and w = 0 and e = e] assms
    by (auto simp: counter_fifo min_def)
  then show ?thesis by auto
qed

text \<open>\<open>Drain\<close>: the looper makes all its iterations in one call.\<close>

lemma test_Drain:
  assumes "me_inv e" and "me_queue e = [a]" and "0 < n"
  shows "\<exists>e'. Drain looper_body n e = Some (Inr (of_nat n, 0, e')) \<and> me_IsEmpty e'"
proof -
  have "fifo_run looper_body n n (me_queue e) = Some (n, 0, [])" using looper_fifo [of n n a] assms(2,3) by simp
  from manual_drain [OF assms(1) this] show ?thesis by blast
qed

end
