(* ===== verification/Spec2Isabelle.thy ===== *)
theory Spec2Isabelle
  imports Intrusive_List Spin_Lock Queue_Spin_Lock Blocking_Queue Simple_MS_Queue
    Tasks Manual_Executor Strand Intrusive_Pool Coro_Mutex Fibers Fiber_Sync Fiber_Event Wait_Group Mutex_Fibers
    Contexts Coroutines Sanitizers Distributed_Pool Distributed_Idle Classic_MS_Queue Routines
    Guarded_Counter Workloads Mutex_Benchmark Stackless
    Simple_MS_Progress Classic_MS_Progress Pool_Progress Distributed_Progress Current_Pool Executor_Tests
begin

text \<open>
  A verification library for the concurrency runtime: fibers, coroutines, executors, and the lock-free and synchronisation components
  they are built from (C++20, directory \<^verbatim>\<open>src/src\<close>), with the programs that exercise them (\<^verbatim>\<open>src/example\<close>, \<^verbatim>\<open>src/bench\<close>).

  \<^bold>\<open>The program.\<close> A context switch in x86-64 assembly (\<^verbatim>\<open>context\<close>) carries stackful coroutines (\<^verbatim>\<open>coro\<close>), which carry fibers
  (\<^verbatim>\<open>fiber\<close>, started by \<^verbatim>\<open>go\<close>). A fiber is a task of an executor: a manual executor, a pool with one shared list, a distributed pool whose
  workers own a queue each, or a strand that serialises tasks on top of another executor (\<^verbatim>\<open>executor\<close>). Fibers wait on a mutex, an event or a
  wait group (\<^verbatim>\<open>fiber/sync\<close>): the fiber suspends, the executor's thread parks it in an intrusive list, and another fiber schedules it
  again. Below are the intrusive list, two spin locks, a blocking queue, two Michael-Scott queues, hazard pointers and a mutex for C++20
  coroutines (\<^verbatim>\<open>components\<close>). The workloads and benchmarks count under the mutexes and wait for the end; the examples show stackless coroutines.

  \<^bold>\<open>How code becomes a model.\<close> Sequential code is a function on records, with \<open>fault + 'a\<close> for assertions, null and dangling
  dereferences. Concurrent code is an executable step function (\<open>Prelude\<close>): a program point per thread, one step for each access to shared
  state, every interleaving in \<open>reach\<close>, one given interleaving in \<open>sched\<close>. Machine integers are 64-bit words. Linked structures live in
  explicit stores of links or nodes, so that lists that share nodes, and freed nodes, can be told apart. Code outside the repository's
  sources (task bodies, the callables of routines) is a parameter.

  \<^bold>\<open>Theories, in the order of the layers.\<close>
  \<^item> \<open>Prelude\<close>: types, faults, machine integers, \<open>reach\<close> and \<open>sched\<close>, the locales \<open>step_invariant\<close>, \<open>lock_protocol\<close>, \<open>event_simulation\<close>
    and \<open>fifo_queue\<close>. \<open>Lock_Spec\<close>, \<open>Queue_Spec\<close>: the abstract lock, the first-come first-served lock, the linearizable queue and the queue
    that may observe emptiness early. \<open>Node_Chain\<close>: the shape of a linked queue that only grows.
  \<^item> \<open>Intrusive_List\<close> (\<^verbatim>\<open>components/intrusive/list.h\<close>): every sequence of calls is a first-in first-out queue, for any room
    up to the wrap-around of the size; a push leaves disjoint lists alone.
  \<^item> \<open>Spin_Lock\<close>, \<open>Queue_Spin_Lock\<close> (\<^verbatim>\<open>components/sync\<close>): both refine their abstract lock; the queue lock is fair, never touches a dead
    guard and cannot get stuck.
  \<^item> \<open>Blocking_Queue\<close> (\<^verbatim>\<open>components/queue\<close>): refinement of a closable queue, no lost wake-up.
  \<^item> \<open>Hazard\<close>, \<open>Simple_MS_Queue\<close>, \<open>Classic_MS_Queue\<close> (\<^verbatim>\<open>components/lock_free\<close>): exactly-once reclamation, protection across a pass, and the
    race that breaks it; linearizability of the simple queue while memory is not reclaimed, and its accesses to freed nodes when it is. The classic
    queue is linearizable while deleted nodes are reused, thanks to its counters, as long as their memory stays readable and \<open>new\<close> does not return the
    node a \<open>Push\<close> is about to link to; when it does, it is not, and with the ordinary \<open>delete\<close> it reads freed nodes. The destructors of both.
  \<^item> \<open>Lock_Freedom\<close>, \<open>Simple_MS_Progress\<close>, \<open>Classic_MS_Progress\<close>: the locale \<open>lock_free\<close> derives system-wide progress from a potential; both queues are
    instances, under the conditions of their linearizability. A step either gets its thread closer to its end or is paid for by an operation that has taken effect or by the one move of \<open>tail\<close> after it.
  \<^item> \<open>Tasks\<close>, \<open>Routines\<close>, \<open>Manual_Executor\<close>, \<open>Strand\<close>, \<open>Intrusive_Pool\<close>, \<open>Distributed_Pool\<close> (\<^verbatim>\<open>executor\<close>, \<^verbatim>\<open>components/function\<close>): the status
    of a task is decided once; submitted routines run once, in order, and free themselves; \<open>RunAtMost\<close> and \<open>Drain\<close> agree with a reference run of a
    queue; the strand is serial and first-in first-out; the pools count their tasks exactly, \<open>WaitIdle\<close> returns only on an idle pool, and a task of
    the distributed pool stays on one worker. Races that lose a task, a wake-up or abort a worker are shown as reachable states.
  \<^item> \<open>Distributed_Idle\<close> (\<^verbatim>\<open>executor/executor.h\<close>): the threads in \<open>WaitIdle\<close> beside the distributed pool. Its return means an idle pool; a missed
    notification is made up for by the rounds of the workers, except when the pool is shut down meanwhile.
  \<^item> \<open>Pool_Progress\<close>, \<open>Distributed_Progress\<close>, \<open>Current_Pool\<close> (\<^verbatim>\<open>executor/pool\<close>): the steps of a single worker see to it that the tasks queued for it are
    started, with a bound and without fairness between threads; the global queue of the distributed pool may starve; a task finds the pool that runs it.
  \<^item> \<open>Coro_Mutex\<close> (\<^verbatim>\<open>components/async_mutex\<close>): a fair mutex with direct hand-over.
  \<^item> \<open>Contexts\<close>, \<open>Coroutines\<close> (\<^verbatim>\<open>context\<close>, \<^verbatim>\<open>coro\<close>): the assembly routines instruction by instruction; a prepared context starts its runner on an
    aligned stack, a switch and the switch back restore the stack and the callee-saved registers; coroutines nest as a stack.
  \<^item> \<open>Sanitizers\<close> (\<^verbatim>\<open>context/sanitizer\<close>): the hooks of the three sanitizer classes around the context switch; they do not change the run of the
    coroutines, and the calls they make into the runtimes of the sanitizers (parameters, with their documented behaviour as hypotheses) are legal.
  \<^item> \<open>Fibers\<close>, \<open>Fiber_Sync\<close>, \<open>Fiber_Event\<close>, \<open>Wait_Group\<close>, \<open>Mutex_Fibers\<close> (\<^verbatim>\<open>fiber\<close>, \<^verbatim>\<open>go\<close>): yielding fibers all complete in one \<open>Drain\<close>; the mutex is fair; the event wakes
    in order and forgets; the wait group refines its contract and its last \<open>Done\<close> wakes everybody;
    fibers with well-bracketed critical sections on the manual executor all complete in one \<open>Drain\<close> (fibers, mutex and executor together).
  \<^item> \<open>Guarded_Counter\<close>, \<open>Workloads\<close>, \<open>Mutex_Benchmark\<close> (\<^verbatim>\<open>example/workload\<close>, \<^verbatim>\<open>bench\<close>): programs that read and write a counter in two steps under a lock
    that is a parameter, interpreted on both mutexes (and on \<open>std::mutex\<close>). With the wait group or the latch the counter is exact when the wait
    returns: the composition of mutex, wait group and fibers. \<open>bench_logic\<close> of the pool benchmark runs such fibers over a local variable of a
    function that has returned; the access to it is shown as a reachable fault.
  \<^item> \<open>Stackless\<close> (\<^verbatim>\<open>example/coro\<close>): frames of C++20 coroutines in a store. Generators yield what they should, the states of the machine of coroutines
    follow the automaton of its transition functions when its generator is alive (its constructor destroys it), an event resumes each awaiting coroutine once; two programs use destroyed frames.
  \<^item> \<open>Executor_Tests\<close> (\<^verbatim>\<open>test/executor/test_manual_executor.cpp\<close>): the looping tests of the manual executor hold for every number of tasks and every step.
  \<^item> This theory: what the synchronisation objects for fibers have in common.

  \<^bold>\<open>Termination and bounds.\<close> \<open>Drain\<close>, the destructors of the queues and the wake-up loops may run as long as their input; they are option-valued
  functions or runs of a step function, and the theorems say that they return and after how many steps. Counts of nodes and tasks stay below the
  wrap-around because the addresses of nodes and tasks are below \<open>2 ^ 62\<close>, or because the statement says so.

  \<^bold>\<open>Assumptions.\<close> Memory is sequentially consistent; the memory orders of the code are not represented. A weak compare-exchange
  may fail spuriously and a condition variable may wake spuriously. Critical sections of a lock proved correct here are single steps of its
  clients, and the queues of the distributed pool are atomic, as shown for \<open>Simple_MS_Queue\<close> without reclamation. \<open>new\<close> returns an address
  that is not in use; only the classic queue is studied with an allocator that reuses deleted nodes, and in the distributed pool the addresses of
  completed tasks are not reused. A thread has at most one hazard-pointer mutator at a time, and the collector is not cancelled during the steps. The clients of a wait group
  do not overflow its counter or call \<open>Done\<close> at zero. The callables of \<open>Routines\<close> neither throw nor submit. Exceptions thrown by user code reach the end of the coroutine as the code arranges. A C++20 coroutine
  that runs off its end reaches its final suspension point (its promise types declare no \<open>return_void\<close>, and the language leaves this open).
  The condition variables, latches and \<open>std::mutex\<close> behave as the standard library specifies.

  Lock-freedom counts the steps of compare-exchanges that do not fail spuriously; the progress of a pool counts the return of a task as a step of its
  worker, so the tasks have to return.

  \<^bold>\<open>Not modelled.\<close> Debug output, time (sleeps and time-outs may end at any moment), the timing loops of the benchmarks, the other tests, and an example that
  only allocates and frees integers (\<^verbatim>\<open>example/go\<close>).
\<close>

subsection \<open>Fibers and their guards\<close>

text \<open>
  C36: The three synchronisation objects for fibers share a race. A fiber parks while it holds the spin lock; the thread that
  parked it gives the lock up and only then marks the fiber's guard as released. The fiber can be scheduled and resumed in
  between, and then releases the lock a second time when it destroys the guard, in \<open>AsyncMutex\<close>, \<open>Event\<close> and \<open>WaitGroup\<close>.\<close>
theorem fiber_guard_double_release:
  "(\<exists>es s. reach fm_step (init_fiber_mutex (\<lambda>_. None)) es s \<and> fm_clearing s 1 \<and> fm_pc s 1 = FFault DoubleRelease) \<and>
   (\<exists>es s. reach ev_step (init_ev_system (\<lambda>_. None)) es s \<and> sys_clearing s 1 \<and> sys_fault s = Some DoubleRelease) \<and>
   (\<exists>es s. reach wg_step (init_wg_system (\<lambda>_. None)) es s \<and> ws_clearing s 1 \<and> ws_fault s = Some DoubleRelease)"
proof (intro conjI)
  have "run_ok fm_step [FmLock 0, FmLock 1, FmUnlock 0, FmSchedule 0, FmResume 1] (init_fiber_mutex (\<lambda>_. None))
    (\<lambda>es s. fm_clearing s 1 \<and> fm_pc s 1 = FFault DoubleRelease)"
    by code_simp
  then show "\<exists>es s. reach fm_step (init_fiber_mutex (\<lambda>_. None)) es s \<and> fm_clearing s 1 \<and> fm_pc s 1 = FFault DoubleRelease"
    by (elim run_okE) blast
  have "run_ok ev_step [EvWait 1, EvFire 0, EvGo 0, EvResume 1] (init_ev_system (\<lambda>_. None))
    (\<lambda>es s. sys_clearing s 1 \<and> sys_fault s = Some DoubleRelease)"
    by code_simp
  then show "\<exists>es s. reach ev_step (init_ev_system (\<lambda>_. None)) es s \<and> sys_clearing s 1 \<and> sys_fault s = Some DoubleRelease"
    by (elim run_okE) blast
  have "run_ok wg_step [WgAdd 1, WgWait 1, WgDone 0, WgGo 0, WgGo 0, WgResume 1] (init_wg_system (\<lambda>_. None))
    (\<lambda>es s. ws_clearing s 1 \<and> ws_fault s = Some DoubleRelease)"
    by code_simp
  then show "\<exists>es s. reach wg_step (init_wg_system (\<lambda>_. None)) es s \<and> ws_clearing s 1 \<and> ws_fault s = Some DoubleRelease"
    by (elim run_okE) blast
qed

end
